(* ===== verification/Prelude.thy ===== *)
theory Prelude
  imports Complex_Main "HOL-Library.Multiset" "HOL-Library.List_Lexorder"
    "HOL-Library.Char_ord" "HOL-Library.Product_Lexorder"
begin

text \<open>
  Shared ground of the development. Python exceptions are values of
  \<open>py_error\<close>; a function that may raise returns \<open>py_error + 'a\<close>
  and calls are sequenced with \<open>bindE\<close>, so that a raise anywhere is the result
  of the whole. Python's \<open>for i in range(..): if c(i): r = i; break\<close> loops are
  \<open>find c [lo..<hi]\<close> (\<open>rev\<close> of it for a descending range), and
  \<open>sorted(xs, key=f)\<close> is the stable \<open>sort_key f xs\<close>. The lemmas
  collected here are about those three idioms and about replacing list elements.
\<close>

section \<open>Exceptions as values\<close>

datatype py_error =
    IndexError | KeyError | ValueError | AssertionError | RuntimeError | TypeError
  | OverflowError | FileNotFoundError | ZeroDivisionError | NotImplementedError
  | AttributeError | StopIteration | RecursionError

type_synonym 'a result = "py_error + 'a"

definition bindE :: "'a result \<Rightarrow> ('a \<Rightarrow> 'b result) \<Rightarrow> 'b result" where
  "bindE m f = (case m of Inl e \<Rightarrow> Inl e | Inr x \<Rightarrow> f x)"

definition assertE :: "bool \<Rightarrow> unit result" where
  "assertE b = (if b then Inr () else Inl AssertionError)"

named_theorems monad_simps "evaluation and inversion of sequenced results"

lemma bindE_Inr [simp, monad_simps]: "bindE (Inr x) f = f x"
  by (simp add: bindE_def)

lemma bindE_Inl [simp, monad_simps]: "bindE (Inl e) f = Inl e"
  by (simp add: bindE_def)

lemma bindE_eq_Inr [monad_simps]: "bindE m f = Inr y \<longleftrightarrow> (\<exists>x. m = Inr x \<and> f x = Inr y)"
  by (cases m) simp_all

lemma bindE_InrE: "bindE m f = Inr y \<Longrightarrow> (\<And>x. m = Inr x \<Longrightarrow> f x = Inr y \<Longrightarrow> P) \<Longrightarrow> P"
  by (cases m) simp_all

lemma assertE_True [simp, monad_simps]: "assertE True = Inr ()"
  by (simp add: assertE_def)

lemma assertE_False [simp, monad_simps]: "assertE False = Inl AssertionError"
  by (simp add: assertE_def)

lemma assertE_eq_Inr [simp, monad_simps]: "assertE b = Inr u \<longleftrightarrow> b"
  by (simp add: assertE_def)

lemma assertE_bind: "bindE (assertE b) f = (if b then f () else Inl AssertionError)"
  by (simp add: assertE_def)

text \<open>A loop whose body may raise: the first raise ends it.\<close>

fun foldE :: "('x \<Rightarrow> 's \<Rightarrow> 's result) \<Rightarrow> 'x list \<Rightarrow> 's \<Rightarrow> 's result" where
  "foldE f [] s = Inr s"
| "foldE f (x # xs) s = bindE (f x s) (foldE f xs)"

lemma foldE_append: "foldE f (xs @ ys) s = bindE (foldE f xs s) (foldE f ys)"
proof (induction xs arbitrary: s)
  case (Cons x xs)
  then show ?case by (cases "f x s") simp_all
qed simp

lemma foldE_invariant:
  assumes "foldE f xs s = Inr t" and "P s"
    and "\<And>x s t. x \<in> set xs \<Longrightarrow> P s \<Longrightarrow> f x s = Inr t \<Longrightarrow> P t"
  shows "P t"
  using assms
proof (induction xs arbitrary: s)
  case (Cons x xs)
  then obtain u where "f x s = Inr u" "foldE f xs u = Inr t"
    by (auto simp: bindE_eq_Inr)
  with Cons show ?case by (metis list.set_intros)
qed simp

text \<open>Indexing with an index that is not negative.\<close>

definition nth_or_raise :: "'a list \<Rightarrow> nat \<Rightarrow> 'a result" where
  "nth_or_raise xs i = (if i < length xs then Inr (xs ! i) else Inl IndexError)"

lemma nth_or_raise_ok [simp]: "i < length xs \<Longrightarrow> nth_or_raise xs i = Inr (xs ! i)"
  by (simp add: nth_or_raise_def)

section \<open>Bounded search loops\<close>

lemma find_upt_Some:
  "find P [lo..<hi] = Some i \<longleftrightarrow> lo \<le> i \<and> i < hi \<and> P i \<and> (\<forall>j. lo \<le> j \<and> j < i \<longrightarrow> \<not> P j)"
proof
  assume "find P [lo..<hi] = Some i"
  then obtain k where k: "k < hi - lo" "P (lo + k)" "i = lo + k"
    and below: "\<And>j. j < k \<Longrightarrow> \<not> P ([lo..<hi] ! j)"
    by (auto simp: find_Some_iff)
  have "\<not> P j" if "lo \<le> j" "j < i" for j
    using below[of "j - lo"] that k by (simp add: less_diff_conv2)
  with k show "lo \<le> i \<and> i < hi \<and> P i \<and> (\<forall>j. lo \<le> j \<and> j < i \<longrightarrow> \<not> P j)" by auto
next
  assume *: "lo \<le> i \<and> i < hi \<and> P i \<and> (\<forall>j. lo \<le> j \<and> j < i \<longrightarrow> \<not> P j)"
  then show "find P [lo..<hi] = Some i"
    by (auto simp: find_Some_iff intro!: exI[of _ "i - lo"])
qed

lemma find_upt_None: "find P [lo..<hi] = None \<longleftrightarrow> (\<forall>i. lo \<le> i \<and> i < hi \<longrightarrow> \<not> P i)"
  by (auto simp: find_None_iff)

lemma rev_upt_nth: "k < n \<Longrightarrow> rev [0..<n] ! k = n - Suc k"
  by (simp add: rev_nth)

lemma find_rev_upt_Some:
  "find P (rev [0..<n]) = Some i \<longleftrightarrow> i < n \<and> P i \<and> (\<forall>j. i < j \<and> j < n \<longrightarrow> \<not> P j)"
proof (induction n)
  case (Suc n)
  then show ?case by (auto simp: less_Suc_eq)
qed simp

lemma find_rev_upt_None: "find P (rev [0..<n]) = None \<longleftrightarrow> (\<forall>i < n. \<not> P i)"
  by (auto simp: find_None_iff)

lemma find_cong_on: "(\<And>x. x \<in> set xs \<Longrightarrow> P x = Q x) \<Longrightarrow> find P xs = find Q xs"
  by (induction xs) auto

section \<open>Stable sorting by a key\<close>

text \<open>Two facts that survive a sort: the elements, and the order of equal keys.\<close>

lemma sort_key_perm: "mset (sort_key f xs) = mset xs"
  by simp

lemma sort_key_nth_mono:
  "i \<le> j \<Longrightarrow> j < length xs \<Longrightarrow> f (sort_key f xs ! i) \<le> f (sort_key f xs ! j)"
  using sorted_nth_mono[of "map f (sort_key f xs)" i j] by simp

lemma sort_key_distinct [simp]: "distinct (sort_key f xs) = distinct xs"
  by (metis mset_sort mset_eq_imp_distinct_iff)

section \<open>Ceiling division\<close>

text \<open>\<open>vllm.utils.math_utils.cdiv\<close>: \<open>-(a // -b)\<close>.\<close>

definition cdiv :: "int \<Rightarrow> int \<Rightarrow> int" where
  "cdiv a b = - (a div (- b))"

lemma cdiv_lower: "0 < b \<Longrightarrow> a \<le> cdiv a b * b"
proof -
  assume b: "0 < b"
  have "cdiv a b * b = a + a mod (- b) * (- 1)"
    using div_mult_mod_eq[of a "- b"] by (simp add: cdiv_def algebra_simps)
  moreover have "a mod (- b) \<le> 0" using b by simp
  ultimately show ?thesis by simp
qed

lemma cdiv_upper: "0 < b \<Longrightarrow> cdiv a b * b < a + b"
proof -
  assume b: "0 < b"
  have "cdiv a b * b = a + a mod (- b) * (- 1)"
    using div_mult_mod_eq[of a "- b"] by (simp add: cdiv_def algebra_simps)
  moreover have "- b < a mod (- b)" using b by simp
  ultimately show ?thesis by simp
qed

lemma cdiv_least: "0 < b \<Longrightarrow> a \<le> n * b \<Longrightarrow> cdiv a b \<le> n"
proof -
  assume b: "0 < b" and a: "a \<le> n * b"
  have "cdiv a b * b < n * b + b" using cdiv_upper[OF b, of a] a by simp
  then have "cdiv a b * b < (n + 1) * b" by (simp add: algebra_simps)
  then show ?thesis using b by (simp add: mult_less_cancel_right)
qed

lemma cdiv_nonneg: "0 < b \<Longrightarrow> 0 \<le> a \<Longrightarrow> 0 \<le> cdiv a b"
proof -
  assume b: "0 < b" and a: "0 \<le> a"
  then have "0 \<le> cdiv a b * b" using cdiv_lower[OF b, of a] by simp
  then show ?thesis using b by (simp add: zero_le_mult_iff)
qed

end
