(* ===== verification/Request_Model.thy ===== *)
theory Request_Model
  imports Prelude
begin

text \<open>
  The request object of the engine core: \<open>vllm/v1/request.py\<close> with the parts of
  \<open>vllm/multimodal/inputs.py\<close>, \<open>vllm/request_metadata.py\<close> and
  \<open>vllm/sampling_params.py\<close> it reads. Python's ints are \<open>int\<close>, its floats
  \<open>real\<close> (rounding is not modelled), its strings \<open>string\<close>. A request is a
  record; the objects the program mutates through several lists at once live in a store
  from request ids to records (the scheduler theories), so the lists hold ids.
\<close>

type_synonym rid = string

section \<open>Multimodal inputs\<close>

text \<open>\<open>is_embed\<close> is the boolean mask over the placeholder, \<open>None\<close> when every
  position carries an embedding.\<close>

record placeholder_range =
  offset :: int
  mm_length :: int
  is_embed :: "bool list option"

fun cumsum_from :: "int \<Rightarrow> bool list \<Rightarrow> int list" where
  "cumsum_from a [] = []"
| "cumsum_from a (b # bs) = (a + of_bool b) # cumsum_from (a + of_bool b) bs"

definition embeds_cumsum :: "placeholder_range \<Rightarrow> int list option" where
  "embeds_cumsum p = map_option (cumsum_from 0) (is_embed p)"

definition get_num_embeds :: "placeholder_range \<Rightarrow> int" where
  "get_num_embeds p = (case embeds_cumsum p of
      None \<Rightarrow> mm_length p
    | Some cs \<Rightarrow> (if cs = [] then 0 else last cs))"

text \<open>Python indexing: a negative index counts from the end, out of range raises.\<close>

definition py_index :: "'a list \<Rightarrow> int \<Rightarrow> 'a result" where
  "py_index xs i =
     (if 0 \<le> i \<and> i < int (length xs) then Inr (xs ! nat i)
      else if i < 0 \<and> - int (length xs) \<le> i then Inr (xs ! nat (int (length xs) + i))
      else Inl IndexError)"

definition get_embeds_indices_in_range ::
  "placeholder_range \<Rightarrow> int \<Rightarrow> int \<Rightarrow> (int \<times> int) result" where
  "get_embeds_indices_in_range p start_idx end_idx = (case embeds_cumsum p of
      None \<Rightarrow> Inr (start_idx, end_idx)
    | Some cs \<Rightarrow>
        bindE (if start_idx > 0 then py_index cs (start_idx - 1) else Inr 0) (\<lambda>s.
        bindE (if end_idx > 0 then py_index cs (end_idx - 1) else Inr 0) (\<lambda>e.
          Inr (s, e))))"

record mm_feature =
  modality :: string
  mm_identifier :: string
  mm_position :: placeholder_range

section \<open>Parameters and metadata\<close>

record repetition_detection_params =
  max_pattern_size :: int
  min_pattern_size :: int
  min_count :: int

text \<open>
  \<open>structured_outputs\<close> says whether \<open>StructuredOutputRequest.from_sampling_params\<close>
  builds an object; \<open>extra_kv_transfer_params\<close> is
  \<open>extra_args.get("kv_transfer_params")\<close>, \<open>None\<close> when \<open>extra_args\<close> is.
\<close>

record sampling_params =
  sp_max_tokens :: "int option"
  min_tokens :: int
  eos_token_id :: "int option"
  stop_token_ids :: "int list option"
  repetition_detection :: "repetition_detection_params option"
  sp_skip_reading_prefix_cache :: "bool option"
  structured_outputs :: bool
  extra_kv_transfer_params :: "string option"

record pooling_params =
  pp_skip_reading_prefix_cache :: "bool option"

record request_metadata =
  estimated_time :: real
  category :: string
  stl :: bool
  slo :: real

definition new_request_metadata :: "real \<Rightarrow> request_metadata" where
  "new_request_metadata t =
     \<lparr>estimated_time = t, category = ''unknown'', stl = False, slo = 0\<rparr>"

section \<open>Status\<close>

datatype request_status =
    WAITING | WAITING_FOR_STRUCTURED_OUTPUT_GRAMMAR | WAITING_FOR_REMOTE_KVS
  | WAITING_FOR_STREAMING_REQ | RUNNING | PREEMPTED
  | FINISHED_STOPPED | FINISHED_LENGTH_CAPPED | FINISHED_ABORTED
  | FINISHED_IGNORED | FINISHED_ERROR | FINISHED_REPETITION

text \<open>The \<open>IntEnum\<close> values: \<open>enum.auto()\<close> counts from 1.\<close>

fun status_value :: "request_status \<Rightarrow> int" where
  "status_value WAITING = 1"
| "status_value WAITING_FOR_STRUCTURED_OUTPUT_GRAMMAR = 2"
| "status_value WAITING_FOR_REMOTE_KVS = 3"
| "status_value WAITING_FOR_STREAMING_REQ = 4"
| "status_value RUNNING = 5"
| "status_value PREEMPTED = 6"
| "status_value FINISHED_STOPPED = 7"
| "status_value FINISHED_LENGTH_CAPPED = 8"
| "status_value FINISHED_ABORTED = 9"
| "status_value FINISHED_IGNORED = 10"
| "status_value FINISHED_ERROR = 11"
| "status_value FINISHED_REPETITION = 12"

lemma status_value_inject: "status_value s = status_value t \<longleftrightarrow> s = t"
  by (cases s; cases t; simp)

instantiation request_status :: linorder
begin

definition less_eq_request_status :: "request_status \<Rightarrow> request_status \<Rightarrow> bool" where
  [simp]: "less_eq_request_status s t \<longleftrightarrow> status_value s \<le> status_value t"

definition less_request_status :: "request_status \<Rightarrow> request_status \<Rightarrow> bool" where
  [simp]: "less_request_status s t \<longleftrightarrow> status_value s < status_value t"

instance
  by standard (auto simp: status_value_inject)

end

definition status_is_finished :: "request_status \<Rightarrow> bool" where
  "status_is_finished s \<longleftrightarrow> s > PREEMPTED"

datatype finish_reason = STOP | LENGTH | ABORT | ERROR | REPETITION

definition status_finished_reason :: "request_status \<Rightarrow> finish_reason option" where
  "status_finished_reason = Map.empty
     (FINISHED_STOPPED \<mapsto> STOP,
      FINISHED_LENGTH_CAPPED \<mapsto> LENGTH,
      FINISHED_ABORTED \<mapsto> ABORT,
      FINISHED_IGNORED \<mapsto> LENGTH,
      FINISHED_ERROR \<mapsto> ERROR,
      WAITING_FOR_STREAMING_REQ \<mapsto> STOP,
      FINISHED_REPETITION \<mapsto> REPETITION)"

lemma finished_statuses:
  "status_is_finished s \<longleftrightarrow> s \<in> {FINISHED_STOPPED, FINISHED_LENGTH_CAPPED,
     FINISHED_ABORTED, FINISHED_IGNORED, FINISHED_ERROR, FINISHED_REPETITION}"
  by (cases s) (simp_all add: status_is_finished_def)

section \<open>The request\<close>

datatype stop_reason = StopToken int | StopText string

datatype event_type = QUEUED | SCHEDULED | EV_PREEMPTED

type_synonym engine_event = "event_type \<times> real"

record prefill_stats =
  ps_num_prompt_tokens :: int
  ps_num_computed_tokens :: int
  ps_num_cached_tokens :: int
  ps_num_local_cached_tokens :: int
  ps_num_external_cached_tokens :: int

text \<open>A block hash is a byte string.\<close>

type_synonym block_hash = "nat list"

record streaming_update =
  su_mm_features :: "mm_feature list option"
  su_prompt_token_ids :: "int list option"
  su_max_tokens :: int
  su_arrival_time :: real
  su_sampling_params :: "sampling_params option"

record request =
  request_id :: rid
  client_index :: int
  priority :: real
  sampling_params :: "sampling_params option"
  pooling_params :: "pooling_params option"
  lora_request :: "string option"
  structured_output_request :: bool
  arrival_time :: real
  status :: request_status
  events :: "engine_event list"
  stop_reason :: "stop_reason option"
  kv_transfer_params :: "string option"
  max_tokens :: int
  prompt_token_ids :: "int list option"
  prompt_embeds :: "int list option"
  prompt_is_token_ids :: "bool list option"
  num_prompt_tokens :: int
  output_token_ids :: "int list"
  all_token_ids :: "int list"
  num_output_placeholders :: int
  async_tokens_to_discard :: int
  spec_token_ids :: "int list"
  num_computed_tokens :: int
  cache_salt :: "string option"
  mm_features :: "mm_feature list"
  is_prefill_chunk :: bool
  num_nans_in_logits :: int
  num_preemptions :: int
  prefill_stats :: "prefill_stats option"
  block_hashes :: "block_hash list"
  skip_reading_prefix_cache :: bool
  resumable :: bool
  streaming_queue :: "streaming_update option list option"
  abort_immediately :: bool
  request_md :: "request_metadata option"
  age :: real

type_synonym block_hasher = "request \<Rightarrow> block_hash list"

definition update_block_hashes :: "block_hasher option \<Rightarrow> request \<Rightarrow> request" where
  "update_block_hashes hasher r = (case hasher of
      None \<Rightarrow> r
    | Some h \<Rightarrow> r\<lparr>block_hashes := block_hashes r @ h r\<rparr>)"

definition append_output_token_ids ::
  "block_hasher option \<Rightarrow> int list \<Rightarrow> request \<Rightarrow> request" where
  "append_output_token_ids hasher token_ids r =
     update_block_hashes hasher
       (r\<lparr>output_token_ids := output_token_ids r @ token_ids,
          all_token_ids := all_token_ids r @ token_ids\<rparr>)"

definition use_structured_output :: "request \<Rightarrow> bool" where
  "use_structured_output r = structured_output_request r"

definition num_tokens :: "request \<Rightarrow> int" where
  "num_tokens r = int (length (all_token_ids r))"

definition num_tokens_with_spec :: "request \<Rightarrow> int" where
  "num_tokens_with_spec r = int (length (all_token_ids r)) + int (length (spec_token_ids r))"

definition num_output_tokens :: "request \<Rightarrow> int" where
  "num_output_tokens r = int (length (output_token_ids r))"

definition num_encoder_inputs :: "request \<Rightarrow> nat" where
  "num_encoder_inputs r = length (mm_features r)"

definition has_encoder_inputs :: "request \<Rightarrow> bool" where
  "has_encoder_inputs r = (num_encoder_inputs r > 0)"

definition get_skip_reading_prefix_cache ::
  "sampling_params option \<Rightarrow> pooling_params option \<Rightarrow> bool" where
  "get_skip_reading_prefix_cache sp pp =
     (case Option.bind sp sp_skip_reading_prefix_cache of
        Some b \<Rightarrow> b
      | None \<Rightarrow> (case Option.bind pp pp_skip_reading_prefix_cache of
          Some b \<Rightarrow> b
        | None \<Rightarrow> False))"

definition is_finished :: "request \<Rightarrow> bool" where
  "is_finished r = status_is_finished (status r)"

definition get_finished_reason :: "request \<Rightarrow> finish_reason option" where
  "get_finished_reason r = status_finished_reason (status r)"

definition get_num_encoder_embeds :: "request \<Rightarrow> nat \<Rightarrow> int result" where
  "get_num_encoder_embeds r input_id =
     bindE (assertE (input_id < length (mm_features r))) (\<lambda>_.
       Inr (get_num_embeds (mm_position (mm_features r ! input_id))))"

definition record_event :: "event_type \<Rightarrow> real \<Rightarrow> request \<Rightarrow> request" where
  "record_event ty timestamp r = r\<lparr>events := events r @ [(ty, timestamp)]\<rparr>"

definition take_events :: "request \<Rightarrow> engine_event list option \<times> request" where
  "take_events r =
     (if events r = [] then (None, r) else (Some (events r), r\<lparr>events := []\<rparr>))"

definition take_prefill_stats :: "request \<Rightarrow> prefill_stats option \<times> request" where
  "take_prefill_stats r = (case prefill_stats r of
      None \<Rightarrow> (None, r)
    | Some ps \<Rightarrow> (Some ps, r\<lparr>prefill_stats := None\<rparr>))"

text \<open>\<open>PrefillStats.set\<close>, which refuses more cached tokens than prompt tokens.\<close>

definition prefill_stats_set :: "int \<Rightarrow> int \<Rightarrow> int \<Rightarrow> prefill_stats result" where
  "prefill_stats_set n_prompt n_local n_ext =
     (let cached = n_local + n_ext in
      bindE (assertE (cached \<le> n_prompt)) (\<lambda>_. Inr
        \<lparr>ps_num_prompt_tokens = n_prompt, ps_num_computed_tokens = n_prompt - cached,
         ps_num_cached_tokens = cached, ps_num_local_cached_tokens = n_local,
         ps_num_external_cached_tokens = n_ext\<rparr>))"

text \<open>\<open>StreamingUpdate.from_request\<close>\<close>

definition streaming_update_from_request :: "request \<Rightarrow> streaming_update option" where
  "streaming_update_from_request r =
     (if \<not> resumable r then None
      else Some \<lparr>su_mm_features = Some (mm_features r),
        su_prompt_token_ids = prompt_token_ids r, su_max_tokens = max_tokens r,
        su_arrival_time = arrival_time r, su_sampling_params = sampling_params r\<rparr>)"

text \<open>
  \<open>Request.__lt__\<close>. \<open>oid\<close> is CPython's \<open>id\<close>, the last tie-breaker.
\<close>

definition request_lt :: "(request \<Rightarrow> int) \<Rightarrow> request \<Rightarrow> request \<Rightarrow> bool" where
  "request_lt oid a b =
     (if priority a \<noteq> priority b then priority a < priority b
      else if arrival_time a \<noteq> arrival_time b then arrival_time a < arrival_time b
      else if request_id a \<noteq> request_id b then request_id a < request_id b
      else oid a < oid b)"

section \<open>Construction\<close>

definition length_from_prompt_token_ids_or_embeds ::
  "int list option \<Rightarrow> int list option \<Rightarrow> int result" where
  "length_from_prompt_token_ids_or_embeds toks embeds = (case toks of
      None \<Rightarrow> (case embeds of None \<Rightarrow> Inl ValueError | Some e \<Rightarrow> Inr (int (length e)))
    | Some t \<Rightarrow> (case embeds of
          None \<Rightarrow> Inr (int (length t))
        | Some e \<Rightarrow> if length e \<noteq> length t then Inl ValueError else Inr (int (length t))))"

record engine_core_request =
  ec_request_id :: rid
  ec_prompt_token_ids :: "int list option"
  ec_mm_features :: "mm_feature list option"
  ec_sampling_params :: "sampling_params option"
  ec_pooling_params :: "pooling_params option"
  ec_arrival_time :: "real option"
  ec_lora_request :: "string option"
  ec_cache_salt :: "string option"
  ec_prompt_embeds :: "int list option"
  ec_prompt_is_token_ids :: "bool list option"
  ec_client_index :: int
  ec_priority :: int
  ec_resumable :: bool
  ec_abort_immediately :: bool
  ec_request_md :: "request_metadata option"

text \<open>
  \<open>Request.__init__\<close> as \<open>from_engine_core_request\<close> calls it. \<open>now\<close> is
  \<open>time.time()\<close>. First the branch on the parameters, which settles the token limit,
  the status and the transfer parameters; then the object.
\<close>

definition init_limits :: "sampling_params option \<Rightarrow> pooling_params option \<Rightarrow>
    (int \<times> request_status \<times> string option) result" where
  "init_limits sp pp = (case pp of
      Some _ \<Rightarrow> Inr (1, WAITING, None)
    | None \<Rightarrow> (case sp of
        Some s \<Rightarrow> (case sp_max_tokens s of
            None \<Rightarrow> Inl AssertionError
          | Some m \<Rightarrow> Inr (m,
              (if structured_outputs s then WAITING_FOR_STRUCTURED_OUTPUT_GRAMMAR else WAITING),
              extra_kv_transfer_params s))
      | None \<Rightarrow> Inl ValueError))"

definition from_engine_core_request ::
  "engine_core_request \<Rightarrow> block_hasher option \<Rightarrow> real \<Rightarrow> request result" where
  "from_engine_core_request ec hasher now =
     bindE (init_limits (ec_sampling_params ec) (ec_pooling_params ec)) (\<lambda>(mt, st, kvp).
     bindE (length_from_prompt_token_ids_or_embeds (ec_prompt_token_ids ec) (ec_prompt_embeds ec))
       (\<lambda>n. Inr (update_block_hashes hasher
        \<lparr>request_id = ec_request_id ec,
         client_index = ec_client_index ec,
         priority = of_int (ec_priority ec),
         sampling_params = ec_sampling_params ec,
         pooling_params = ec_pooling_params ec,
         lora_request = ec_lora_request ec,
         structured_output_request =
           (case ec_sampling_params ec of None \<Rightarrow> False | Some s \<Rightarrow> structured_outputs s),
         arrival_time = (case ec_arrival_time ec of Some t \<Rightarrow> t | None \<Rightarrow> now),
         status = st, events = [], stop_reason = None, kv_transfer_params = kvp,
         max_tokens = mt,
         prompt_token_ids = ec_prompt_token_ids ec,
         prompt_embeds = ec_prompt_embeds ec, prompt_is_token_ids = ec_prompt_is_token_ids ec,
         num_prompt_tokens = n,
         output_token_ids = [],
         all_token_ids = (case ec_prompt_token_ids ec of
            Some t \<Rightarrow> t | None \<Rightarrow> replicate (nat n) 0),
         num_output_placeholders = 0, async_tokens_to_discard = 0,
         spec_token_ids = [], num_computed_tokens = 0,
         cache_salt = ec_cache_salt ec,
         mm_features = (case ec_mm_features ec of Some fs \<Rightarrow> fs | None \<Rightarrow> []),
         is_prefill_chunk = False, num_nans_in_logits = 0, num_preemptions = 0,
         prefill_stats = Some \<lparr>ps_num_prompt_tokens = 0, ps_num_computed_tokens = 0,
            ps_num_cached_tokens = 0, ps_num_local_cached_tokens = 0,
            ps_num_external_cached_tokens = 0\<rparr>,
         block_hashes = [],
         skip_reading_prefix_cache =
           get_skip_reading_prefix_cache (ec_sampling_params ec) (ec_pooling_params ec),
         resumable = ec_resumable ec, streaming_queue = None,
         abort_immediately = ec_abort_immediately ec,
         request_md = ec_request_md ec, age = 0\<rparr>)))"

section \<open>Lemmas\<close>

lemma update_block_hashes_fields [simp]:
  "all_token_ids (update_block_hashes h r) = all_token_ids r"
  "output_token_ids (update_block_hashes h r) = output_token_ids r"
  "num_prompt_tokens (update_block_hashes h r) = num_prompt_tokens r"
  "status (update_block_hashes h r) = status r"
  "prompt_token_ids (update_block_hashes h r) = prompt_token_ids r"
  "max_tokens (update_block_hashes h r) = max_tokens r"
  "num_computed_tokens (update_block_hashes h r) = num_computed_tokens r"
  "request_id (update_block_hashes h r) = request_id r"
  by (simp_all add: update_block_hashes_def split: option.splits)

text \<open>
  The shape every request keeps: the first \<open>num_prompt_tokens\<close> of
  \<open>all_token_ids\<close> are the prompt and the rest are the output tokens.
\<close>

definition tokens_wf :: "request \<Rightarrow> bool" where
  "tokens_wf r \<longleftrightarrow> 0 \<le> num_prompt_tokens r
     \<and> num_prompt_tokens r \<le> num_tokens r
     \<and> drop (nat (num_prompt_tokens r)) (all_token_ids r) = output_token_ids r
     \<and> (\<forall>p. prompt_token_ids r = Some p \<longrightarrow>
           take (nat (num_prompt_tokens r)) (all_token_ids r) = p)"

lemma tokens_wf_append:
  "tokens_wf r \<Longrightarrow> tokens_wf (append_output_token_ids h ts r)"
  by (auto simp: tokens_wf_def append_output_token_ids_def num_tokens_def)

lemma tokens_wf_num_tokens:
  "tokens_wf r \<Longrightarrow> num_tokens r = num_prompt_tokens r + num_output_tokens r"
proof -
  assume wf: "tokens_wf r"
  then have "drop (nat (num_prompt_tokens r)) (all_token_ids r) = output_token_ids r"
    by (simp add: tokens_wf_def)
  then have "length (output_token_ids r) = length (all_token_ids r) - nat (num_prompt_tokens r)"
    by (metis length_drop)
  moreover from wf have "0 \<le> num_prompt_tokens r"
    "num_prompt_tokens r \<le> int (length (all_token_ids r))"
    by (simp_all add: tokens_wf_def num_tokens_def)
  ultimately show ?thesis
    unfolding num_tokens_def num_output_tokens_def by linarith
qed

lemma tokens_wf_new:
  assumes "from_engine_core_request ec h now = Inr r"
  shows "tokens_wf r"
proof -
  from assms obtain mt st kvp n where
      len: "length_from_prompt_token_ids_or_embeds (ec_prompt_token_ids ec) (ec_prompt_embeds ec) = Inr n"
    and r: "all_token_ids r = (case ec_prompt_token_ids ec of
              Some t \<Rightarrow> t | None \<Rightarrow> replicate (nat n) 0)"
      "num_prompt_tokens r = n" "output_token_ids r = []"
      "prompt_token_ids r = ec_prompt_token_ids ec"
    by (auto simp: from_engine_core_request_def bindE_eq_Inr)
  from len have "0 \<le> n" "\<And>t. ec_prompt_token_ids ec = Some t \<Longrightarrow> n = int (length t)"
    by (auto simp: length_from_prompt_token_ids_or_embeds_def split: option.splits if_splits)
  with r show ?thesis
    by (auto simp: tokens_wf_def num_tokens_def split: option.splits)
qed

lemma length_cumsum_from [simp]: "length (cumsum_from a bs) = length bs"
  by (induction bs arbitrary: a) simp_all

lemma cumsum_from_nth:
  "k < length bs \<Longrightarrow> cumsum_from a bs ! k = a + int (length (filter id (take (Suc k) bs)))"
proof (induction bs arbitrary: a k)
  case (Cons b bs)
  then show ?case by (cases k) auto
qed simp

lemma cumsum_from_eq_Nil [simp]: "cumsum_from a bs = [] \<longleftrightarrow> bs = []"
  by (cases bs) simp_all

lemma get_num_embeds_mask:
  "is_embed p = Some bs \<Longrightarrow> get_num_embeds p = int (length (filter id bs))"
  by (cases bs rule: rev_cases)
    (simp_all add: get_num_embeds_def embeds_cumsum_def last_conv_nth cumsum_from_nth)

lemma py_index_prefix:
  "0 < i \<Longrightarrow> i \<le> int (length xs) \<Longrightarrow> py_index xs (i - 1) = Inr (xs ! (nat i - 1))"
  by (auto simp: py_index_def Let_def nat_diff_distrib)

text \<open>Within the placeholder the pair delimits exactly the embeddings of the slice.\<close>

lemma embeds_indices_in_range_mask:
  assumes "is_embed p = Some bs" and "0 \<le> s" and "s \<le> e" and "e \<le> int (length bs)"
  shows "get_embeds_indices_in_range p s e =
    Inr (int (length (filter id (take (nat s) bs))), int (length (filter id (take (nat e) bs))))"
proof -
  have "(if i > 0 then py_index (cumsum_from 0 bs) (i - 1) else Inr 0)
      = Inr (int (length (filter id (take (nat i) bs))))" if "0 \<le> i" "i \<le> int (length bs)" for i
    using that by (auto simp: py_index_prefix cumsum_from_nth)
  from this[of s] this[of e] assms show ?thesis
    by (simp add: get_embeds_indices_in_range_def embeds_cumsum_def)
qed

lemma request_lt_irrefl: "\<not> request_lt oid a a"
  by (simp add: request_lt_def)

lemma request_lt_trans:
  "request_lt oid a b \<Longrightarrow> request_lt oid b c \<Longrightarrow> request_lt oid a c"
  by (auto simp: request_lt_def split: if_splits)

lemma request_lt_total:
  "request_id a \<noteq> request_id b \<Longrightarrow> request_lt oid a b \<or> request_lt oid b a"
  by (auto simp: request_lt_def)

section \<open>A concrete request\<close>

text \<open>The object of a text request with the given prompt, used in concrete instances.\<close>

definition text_request :: "rid \<Rightarrow> real \<Rightarrow> real \<Rightarrow> int list \<Rightarrow> request" where
  "text_request r prio arrival toks =
     \<lparr>request_id = r, client_index = 0, priority = prio, sampling_params = None,
      pooling_params = None, lora_request = None, structured_output_request = False,
      arrival_time = arrival, status = WAITING, events = [], stop_reason = None,
      kv_transfer_params = None, max_tokens = 16, prompt_token_ids = Some toks,
      prompt_embeds = None, prompt_is_token_ids = None, num_prompt_tokens = int (length toks), output_token_ids = [],
      all_token_ids = toks, num_output_placeholders = 0, async_tokens_to_discard = 0,
      spec_token_ids = [], num_computed_tokens = 0, cache_salt = None, mm_features = [],
      is_prefill_chunk = False, num_nans_in_logits = 0, num_preemptions = 0,
      prefill_stats = None, block_hashes = [], skip_reading_prefix_cache = False,
      resumable = False, streaming_queue = None, abort_immediately = False,
      request_md = None, age = 0\<rparr>"

end
