(* ===== verification/Heapq.thy ===== *)
theory Heapq
  imports Prelude
begin

text \<open>
  The binary heap of Python's \<open>heapq\<close>, which \<open>PriorityRequestQueue\<close> uses, as
  operations on a list with the comparison \<open>lt\<close> as an argument (\<open>heapq\<close> compares
  with \<open>\<lt>\<close> only). The library moves a hole along the path; here the element is
  swapped along it, which leaves the same list. The multiset lemmas hold for every
  \<open>lt\<close> and every list, because the scheduler changes priorities while requests sit in
  a heap; the ordering lemmas are proved in the locale \<open>heap_order\<close>, for a comparison
  that is a strict weak order, and under the heap invariant.
\<close>

definition swap_at :: "nat \<Rightarrow> nat \<Rightarrow> 'a list \<Rightarrow> 'a list" where
  "swap_at i j xs = xs[i := xs ! j, j := xs ! i]"

function siftdown :: "('a \<Rightarrow> 'a \<Rightarrow> bool) \<Rightarrow> nat \<Rightarrow> nat \<Rightarrow> 'a list \<Rightarrow> 'a list" where
  "siftdown lt start pos h =
     (if pos > start \<and> lt (h ! pos) (h ! ((pos - 1) div 2))
      then siftdown lt start ((pos - 1) div 2) (swap_at pos ((pos - 1) div 2) h)
      else h)"
  by pat_completeness auto
termination
  by (relation "measure (\<lambda>(lt, start, pos, h). pos)") auto

declare siftdown.simps [simp del]

definition smaller_child :: "('a \<Rightarrow> 'a \<Rightarrow> bool) \<Rightarrow> nat \<Rightarrow> 'a list \<Rightarrow> nat" where
  "smaller_child lt pos h =
     (let c = 2 * pos + 1 in
      if c + 1 < length h \<and> \<not> lt (h ! c) (h ! (c + 1)) then c + 1 else c)"

lemma smaller_child_cases: "smaller_child lt pos h = 2 * pos + 1 \<or> smaller_child lt pos h = 2 * pos + 2"
  by (simp add: smaller_child_def Let_def)

lemma smaller_child_gt: "pos < smaller_child lt pos h"
  using smaller_child_cases[of lt pos h] by linarith

lemma smaller_child_less:
  "2 * pos + 1 < length h \<Longrightarrow> smaller_child lt pos h < length h"
  by (auto simp: smaller_child_def Let_def)

function sink :: "('a \<Rightarrow> 'a \<Rightarrow> bool) \<Rightarrow> nat \<Rightarrow> 'a list \<Rightarrow> nat \<times> 'a list" where
  "sink lt pos h =
     (if 2 * pos + 1 < length h
      then sink lt (smaller_child lt pos h) (swap_at pos (smaller_child lt pos h) h)
      else (pos, h))"
  by pat_completeness auto
termination
  by (relation "measure (\<lambda>(lt, pos, h). length h - pos)")
    (auto simp: swap_at_def intro!: diff_less_mono2 smaller_child_gt)

declare sink.simps [simp del]

definition siftup :: "('a \<Rightarrow> 'a \<Rightarrow> bool) \<Rightarrow> nat \<Rightarrow> 'a list \<Rightarrow> 'a list" where
  "siftup lt pos h = (case sink lt pos h of (p, h') \<Rightarrow> siftdown lt pos p h')"

definition heappush :: "('a \<Rightarrow> 'a \<Rightarrow> bool) \<Rightarrow> 'a \<Rightarrow> 'a list \<Rightarrow> 'a list" where
  "heappush lt x h = siftdown lt 0 (length h) (h @ [x])"

definition heappop :: "('a \<Rightarrow> 'a \<Rightarrow> bool) \<Rightarrow> 'a list \<Rightarrow> ('a \<times> 'a list) result" where
  "heappop lt h =
     (if h = [] then Inl IndexError
      else let lastelt = last h; rest = butlast h in
        if rest = [] then Inr (lastelt, [])
        else Inr (rest ! 0, siftup lt 0 (rest[0 := lastelt])))"

definition heapify :: "('a \<Rightarrow> 'a \<Rightarrow> bool) \<Rightarrow> 'a list \<Rightarrow> 'a list" where
  "heapify lt h = fold (siftup lt) (rev [0..<length h div 2]) h"

text \<open>Popping until empty; the first argument counts the elements left.\<close>

fun heap_drain :: "('a \<Rightarrow> 'a \<Rightarrow> bool) \<Rightarrow> nat \<Rightarrow> 'a list \<Rightarrow> 'a list" where
  "heap_drain lt 0 h = []"
| "heap_drain lt (Suc n) h =
     (case heappop lt h of Inl _ \<Rightarrow> [] | Inr (x, h') \<Rightarrow> x # heap_drain lt n h')"

section \<open>Elements are kept\<close>

lemma length_swap_at [simp]: "length (swap_at i j xs) = length xs"
  by (simp add: swap_at_def)

lemma mset_swap_at [simp]:
  "i < length xs \<Longrightarrow> j < length xs \<Longrightarrow> mset (swap_at i j xs) = mset xs"
  by (simp add: swap_at_def mset_swap)

lemma nth_swap_at:
  "i < length xs \<Longrightarrow> j < length xs \<Longrightarrow>
   swap_at i j xs ! k = (if k = i then xs ! j else if k = j then xs ! i else xs ! k)"
  by (auto simp: swap_at_def nth_list_update)

lemma mset_siftdown: "pos < length h \<Longrightarrow> mset (siftdown lt start pos h) = mset h"
proof (induction lt start pos h rule: siftdown.induct)
  case (1 lt start pos h)
  then show ?case by (subst siftdown.simps) auto
qed

lemma length_siftdown [simp]: "length (siftdown lt start pos h) = length h"
proof (induction lt start pos h rule: siftdown.induct)
  case (1 lt start pos h)
  then show ?case by (subst siftdown.simps) auto
qed

lemma sink_facts:
  "pos < length h \<Longrightarrow> fst (sink lt pos h) < length h \<and> mset (snd (sink lt pos h)) = mset h
     \<and> length (snd (sink lt pos h)) = length h"
proof (induction lt pos h rule: sink.induct)
  case (1 lt pos h)
  show ?case
  proof (cases "2 * pos + 1 < length h")
    case True
    then have "smaller_child lt pos h < length h" by (rule smaller_child_less)
    with True "1" show ?thesis by (subst (1 2 3) sink.simps) simp
  next
    case False
    with "1.prems" show ?thesis by (simp add: sink.simps)
  qed
qed

lemma mset_siftup: "pos < length h \<Longrightarrow> mset (siftup lt pos h) = mset h"
  using sink_facts[of pos h lt]
  by (cases "sink lt pos h") (simp add: siftup_def mset_siftdown)

lemma length_siftup: "pos < length h \<Longrightarrow> length (siftup lt pos h) = length h"
  by (metis mset_siftup size_mset)

lemma mset_heappush: "mset (heappush lt x h) = add_mset x (mset h)"
  by (simp add: heappush_def mset_siftdown)

lemma heappop_Inr:
  assumes "h \<noteq> []"
  shows "\<exists>x h'. heappop lt h = Inr (x, h') \<and> x = h ! 0 \<and> mset h = add_mset x (mset h')"
proof (cases "butlast h = []")
  case True
  with assms obtain x where "h = [x]" by (cases h) (auto split: if_splits)
  then show ?thesis by (simp add: heappop_def)
next
  case False
  let ?r = "butlast h"
  have h: "h = ?r @ [last h]" using assms by simp
  have r0: "0 < length ?r" using False by (rule length_greater_0_conv [THEN iffD2])
  have "mset (siftup lt 0 (?r[0 := last h])) = mset (?r[0 := last h])"
    using r0 by (intro mset_siftup) (simp only: length_list_update)
  also have "\<dots> = add_mset (last h) (mset ?r - {#?r ! 0#})"
    using r0 by (simp only: mset_update)
  finally have "add_mset (?r ! 0) (mset (siftup lt 0 (?r[0 := last h]))) = add_mset (last h) (mset ?r)"
    using nth_mem[OF r0] by (simp add: add_mset_commute)
  moreover have "mset h = add_mset (last h) (mset ?r)"
    by (subst h) (simp only: mset_append mset.simps union_mset_add_mset_right add_0_right)
  moreover have "h ! 0 = ?r ! 0" using r0 by (simp add: nth_butlast)
  ultimately show ?thesis using assms False by (simp add: heappop_def Let_def)
qed

lemma mset_heapify: "mset (heapify lt h) = mset h"
proof -
  have "\<forall>p \<in> set ps. p < length h \<Longrightarrow> mset (fold (siftup lt) ps h) = mset h"
    for ps and h :: "'a list"
  proof (induction ps arbitrary: h)
    case (Cons p ps)
    then show ?case by (simp add: mset_siftup length_siftup)
  qed simp
  moreover have "\<forall>p \<in> set (rev [0..<length h div 2]). p < length h" by auto
  ultimately show ?thesis unfolding heapify_def by blast
qed

lemma mset_heap_drain: "n = length h \<Longrightarrow> mset (heap_drain lt n h) = mset h"
proof (induction n arbitrary: h)
  case (Suc n)
  then have "h \<noteq> []" by auto
  then obtain x h' where p: "heappop lt h = Inr (x, h')" "mset h = add_mset x (mset h')"
    using heappop_Inr by metis
  then have "length h' = n" using Suc.prems by (metis Suc_inject size_add_mset size_mset)
  with p Suc.IH[of h'] show ?case by simp
qed simp

section \<open>Order\<close>

text \<open>\<open>heap_from s h\<close>: no element is below its parent, for parents from \<open>s\<close> on.\<close>

definition heap_from :: "('a \<Rightarrow> 'a \<Rightarrow> bool) \<Rightarrow> nat \<Rightarrow> 'a list \<Rightarrow> bool" where
  "heap_from lt s h \<longleftrightarrow> (\<forall>i < length h. 0 < i \<and> s \<le> (i - 1) div 2 \<longrightarrow>
     \<not> lt (h ! i) (h ! ((i - 1) div 2)))"

text \<open>\<open>desc s p\<close>: the path from \<open>p\<close> to the root passes \<open>s\<close>.\<close>

function desc :: "nat \<Rightarrow> nat \<Rightarrow> bool" where
  "desc s p = (if s < p then desc s ((p - 1) div 2) else p = s)"
  by pat_completeness auto
termination
  by (relation "measure snd") auto

declare desc.simps [simp del]

lemma desc_ge: "desc s p \<Longrightarrow> s \<le> p"
  by (subst (asm) desc.simps) (auto split: if_splits)

lemma desc_parent: "desc s p \<Longrightarrow> p \<noteq> s \<Longrightarrow> desc s ((p - 1) div 2)"
  by (subst (asm) desc.simps) (auto split: if_splits)

lemma desc_parent_less: "desc s p \<Longrightarrow> \<not> s < p \<Longrightarrow> p = s"
  by (subst (asm) desc.simps) (auto split: if_splits)

lemma desc_0: "desc 0 p"
  by (induction p rule: less_induct) (subst desc.simps, auto)

definition is_heap :: "('a \<Rightarrow> 'a \<Rightarrow> bool) \<Rightarrow> 'a list \<Rightarrow> bool" where
  "is_heap lt h = heap_from lt 0 h"

locale heap_order =
  fixes lt :: "'a \<Rightarrow> 'a \<Rightarrow> bool"
  assumes asym: "lt a b \<Longrightarrow> \<not> lt b a"
    and neg_trans: "lt a c \<Longrightarrow> lt a b \<or> lt b c"
begin

lemma not_lt_trans: "\<not> lt b a \<Longrightarrow> \<not> lt c b \<Longrightarrow> \<not> lt c a"
  using neg_trans by blast

lemma smaller_child_min:
  assumes "i < length h" and "i = 2 * pos + 1 \<or> i = 2 * pos + 2" and "i \<noteq> smaller_child lt pos h"
  shows "\<not> lt (h ! i) (h ! smaller_child lt pos h)"
  using assms asym by (auto simp: smaller_child_def Let_def split: if_splits)

text \<open>
  Moving up: only the edge above \<open>pos\<close> may be wrong, and the children of \<open>pos\<close>
  are not below its parent.
\<close>

lemma siftdown_heap:
  assumes "pos < length h" and "desc start pos"
    and "\<And>i. i < length h \<Longrightarrow> 0 < i \<Longrightarrow> start \<le> (i - 1) div 2 \<Longrightarrow> i \<noteq> pos \<Longrightarrow>
           \<not> lt (h ! i) (h ! ((i - 1) div 2))"
    and "\<And>i. i < length h \<Longrightarrow> 0 < i \<Longrightarrow> (i - 1) div 2 = pos \<Longrightarrow> pos \<noteq> start \<Longrightarrow>
           \<not> lt (h ! i) (h ! ((pos - 1) div 2))"
  shows "heap_from lt start (siftdown lt start pos h)"
  using assms
proof (induction pos arbitrary: h rule: less_induct)
  case (less pos)
  define q where q_def: "q = (pos - 1) div 2"
  note edge = less.prems(3) and child = less.prems(4)
  show ?case
  proof (cases "pos > start \<and> lt (h ! pos) (h ! q)")
    case False
    then have "heap_from lt start h"
      using edge desc_parent_less[OF less.prems(2)] by (fastforce simp: heap_from_def q_def)
    moreover have "siftdown lt start pos h = h"
      using False unfolding q_def by (subst siftdown.simps) (simp only: if_False)
    ultimately show ?thesis by simp
  next
    case True
    let ?h = "swap_at pos q h"
    have q: "desc start q" "start \<le> q" "q < pos" "q < length h"
      using True less.prems(1,2) desc_parent[of start pos] desc_ge[of start q]
      by (auto simp: q_def)
    have nth: "?h ! k = (if k = pos then h ! q else if k = q then h ! pos else h ! k)" for k
      using less.prems(1) q by (simp add: nth_swap_at)
    have up: "\<not> lt (h ! q) (h ! pos)" using True asym by blast
    have "heap_from lt start (siftdown lt start q ?h)"
    proof (rule less.IH)
      show "q < pos" by (rule q)
      show "q < length ?h" using q by simp
      show "desc start q" by (rule q)
    next
      fix i assume i: "i < length ?h" "0 < i" "start \<le> (i - 1) div 2" "i \<noteq> q"
      show "\<not> lt (?h ! i) (?h ! ((i - 1) div 2))"
      proof (cases "i = pos")
        case True
        with up q show ?thesis by (simp add: nth q_def [unfolded One_nat_def, symmetric])
      next
        case False
        with i edge have e: "\<not> lt (h ! i) (h ! ((i - 1) div 2))" by (simp del: One_nat_def)
        have "\<not> lt (h ! i) (h ! pos)" if "(i - 1) div 2 = q"
          using not_lt_trans[OF up] e that by (simp del: One_nat_def)
        moreover have "\<not> lt (h ! i) (h ! q)" if "(i - 1) div 2 = pos"
          using child[of i] i that True by (auto simp: q_def)
        ultimately show ?thesis using e False i(4) by (auto simp: nth simp del: One_nat_def)
      qed
    next
      fix i assume i: "i < length ?h" "0 < i" "(i - 1) div 2 = q" "q \<noteq> start"
      have g: "(q - 1) div 2 < q" "start \<le> (q - 1) div 2"
        using i(4) q desc_parent[of start q] desc_ge[of start "(q - 1) div 2"] by auto
      have top: "\<not> lt (h ! q) (h ! ((q - 1) div 2))"
        using edge[of q] q g by simp
      show "\<not> lt (?h ! i) (?h ! ((q - 1) div 2))"
      proof (cases "i = pos")
        case True
        with top g q show ?thesis by (simp add: nth)
      next
        case False
        then have "\<not> lt (h ! i) (h ! q)" using edge[of i] i q by simp
        then have "\<not> lt (h ! i) (h ! ((q - 1) div 2))" using top not_lt_trans by blast
        moreover have "i \<noteq> q" using i q by auto
        ultimately show ?thesis using False g q by (simp add: nth)
      qed
    qed
    with True show ?thesis unfolding q_def by (subst siftdown.simps) simp
  qed
qed

text \<open>Moving down: no edge away from \<open>pos\<close> is wrong, and the children of \<open>pos\<close>
  are not below its parent.\<close>

lemma siftup_heap_aux:
  assumes "pos < length h" and "desc start pos"
    and "\<And>i. i < length h \<Longrightarrow> 0 < i \<Longrightarrow> start \<le> (i - 1) div 2 \<Longrightarrow> i \<noteq> pos \<Longrightarrow>
           (i - 1) div 2 \<noteq> pos \<Longrightarrow> \<not> lt (h ! i) (h ! ((i - 1) div 2))"
    and "\<And>i. i < length h \<Longrightarrow> 0 < i \<Longrightarrow> (i - 1) div 2 = pos \<Longrightarrow> pos \<noteq> start \<Longrightarrow>
           \<not> lt (h ! i) (h ! ((pos - 1) div 2))"
  shows "heap_from lt start (case sink lt pos h of (p, h') \<Rightarrow> siftdown lt start p h')"
  using assms
proof (induction "length h - pos" arbitrary: pos h rule: less_induct)
  case (less pos h)
  note edge = less.prems(3) and child = less.prems(4)
  show ?case
  proof (cases "2 * pos + 1 < length h")
    case False
    then have "\<And>i. i < length h \<Longrightarrow> 0 < i \<Longrightarrow> (i - 1) div 2 \<noteq> pos" by auto
    then have "heap_from lt start (siftdown lt start pos h)"
      using less.prems by (intro siftdown_heap) auto
    with False show ?thesis by (simp add: sink.simps)
  next
    case True
    let ?c = "smaller_child lt pos h"
    let ?h = "swap_at pos ?c h"
    have c: "?c < length h" "pos < ?c" "(?c - 1) div 2 = pos"
      using True smaller_child_less smaller_child_gt smaller_child_cases[of "lt" pos h] by auto
    have s: "start \<le> pos" using less.prems(2) by (rule desc_ge)
    have nth: "?h ! k = (if k = pos then h ! ?c else if k = ?c then h ! pos else h ! k)" for k
      using less.prems(1) c by (simp add: nth_swap_at)
    have "heap_from lt start (case sink lt ?c ?h of (p, h') \<Rightarrow> siftdown lt start p h')"
    proof (rule less.hyps)
      show "length ?h - ?c < length h - pos" using c less.prems(1) by simp
      show "?c < length ?h" using c by simp
      show "desc start ?c" using c s less.prems(2) by (subst desc.simps) simp
    next
      fix i assume i: "i < length ?h" "0 < i" "start \<le> (i - 1) div 2" "i \<noteq> ?c" "(i - 1) div 2 \<noteq> ?c"
      consider (self) "i = pos" | (sib) "i \<noteq> pos" "(i - 1) div 2 = pos"
        | (far) "i \<noteq> pos" "(i - 1) div 2 \<noteq> pos" by blast
      then show "\<not> lt (?h ! i) (?h ! ((i - 1) div 2))"
      proof cases
        case self
        then have "pos \<noteq> start" "(pos - 1) div 2 < pos" using i by auto
        with self child[of ?c] c i show ?thesis by (simp add: nth)
      next
        case sib
        then have "i = 2 * pos + 1 \<or> i = 2 * pos + 2" using i(2) by arith
        then have "\<not> lt (h ! i) (h ! ?c)" using smaller_child_min[of i h pos] i by simp
        with sib i show ?thesis by (simp add: nth)
      next
        case far
        with edge[of i] i show ?thesis by (simp add: nth)
      qed
    next
      fix i assume i: "i < length ?h" "0 < i" "(i - 1) div 2 = ?c" "?c \<noteq> start"
      then have "i \<noteq> pos" "i \<noteq> ?c" using c by auto
      moreover from this have "\<not> lt (h ! i) (h ! ?c)" using edge[of i] i c s by simp
      ultimately show "\<not> lt (?h ! i) (?h ! ((?c - 1) div 2))" using c by (simp add: nth)
    qed
    with True show ?thesis by (subst sink.simps) simp
  qed
qed

lemma siftup_heap:
  assumes "pos < length h" and "heap_from lt (Suc pos) h"
  shows "heap_from lt pos (siftup lt pos h)"
proof -
  have "heap_from lt pos (case sink lt pos h of (p, h') \<Rightarrow> siftdown lt pos p h')"
    using assms by (intro siftup_heap_aux) (auto simp: heap_from_def desc.simps)
  then show ?thesis by (simp add: siftup_def)
qed

lemma heappush_heap: "is_heap lt h \<Longrightarrow> is_heap lt (heappush lt x h)"
  unfolding is_heap_def heappush_def
  by (rule siftdown_heap) (auto simp: heap_from_def nth_append desc_0)

lemma heappop_heap:
  assumes "is_heap lt h" and "heappop lt h = Inr (x, h')"
  shows "is_heap lt h'"
proof (cases "butlast h = []")
  case True
  with assms show ?thesis
    by (auto simp: heappop_def is_heap_def heap_from_def Let_def split: if_splits)
next
  case False
  let ?r = "(butlast h)[0 := last h]"
  have r0: "0 < length ?r"
    using length_greater_0_conv[THEN iffD2, OF False] by (simp only: length_list_update)
  have "heap_from lt (Suc 0) ?r"
    using assms(1) by (auto simp: is_heap_def heap_from_def nth_butlast nth_list_update)
  then have "heap_from lt 0 (siftup lt 0 ?r)" using r0 by (intro siftup_heap)
  with False assms(2) show ?thesis
    by (auto simp: heappop_def is_heap_def Let_def split: if_splits)
qed

lemma heap_root_min:
  assumes "is_heap lt h" and "i < length h"
  shows "\<not> lt (h ! i) (h ! 0)"
  using assms(2)
proof (induction i rule: less_induct)
  case (less i)
  show ?case
  proof (cases "i = 0")
    case True
    then show ?thesis using asym by blast
  next
    case False
    then have "\<not> lt (h ! ((i - 1) div 2)) (h ! 0)" using less by simp
    moreover have "\<not> lt (h ! i) (h ! ((i - 1) div 2))"
      using assms(1) less.prems False by (simp add: is_heap_def heap_from_def)
    ultimately show ?thesis by (rule not_lt_trans)
  qed
qed

lemma heapify_heap: "is_heap lt (heapify lt h)"
proof -
  have "heap_from lt (length g div 2) g" for g :: "'a list"
    by (auto simp: heap_from_def)
  moreover have "heap_from lt k g \<Longrightarrow> k \<le> length g div 2 \<Longrightarrow>
      heap_from lt 0 (fold (siftup lt) (rev [0..<k]) g)" for k and g :: "'a list"
  proof (induction k arbitrary: g)
    case (Suc k)
    then have k: "k < length g" by linarith
    with Suc.prems have "heap_from lt k (siftup lt k g)" by (intro siftup_heap)
    with Suc k show ?case by (simp add: length_siftup)
  qed simp
  ultimately show ?thesis by (simp add: heapify_def is_heap_def)
qed

text \<open>Popping a heap until it is empty lists it in order.\<close>

lemma heap_drain_sorted:
  "is_heap lt h \<Longrightarrow> n = length h \<Longrightarrow> sorted_wrt (\<lambda>a b. \<not> lt b a) (heap_drain lt n h)"
proof (induction n arbitrary: h)
  case (Suc n)
  then have "h \<noteq> []" by auto
  then obtain h' where p: "heappop lt h = Inr (h ! 0, h')" and m: "mset h = add_mset (h ! 0) (mset h')"
    using heappop_Inr by metis
  then have n: "length h' = n" using Suc.prems by (metis Suc_inject size_add_mset size_mset)
  have "set (heap_drain lt n h') \<subseteq> set h"
    using mset_heap_drain[OF n[symmetric], of "lt"] m
    by (metis mset_eq_setD set_mset_add_mset_insert set_mset_mset subset_insertI)
  then have "\<forall>y \<in> set (heap_drain lt n h'). \<not> lt y (h ! 0)"
    using heap_root_min[OF Suc.prems(1)] by (metis in_set_conv_nth subsetD)
  with p Suc.IH[OF heappop_heap[OF Suc.prems(1) p] n[symmetric]] show ?case by simp
qed simp

end

end
