(* ===== verification/Request_Queue.thy ===== *)
theory Request_Queue
  imports Request_Model Heapq
begin

text \<open>
  \<open>vllm/v1/core/sched/request_queue.py\<close>. A queue holds request ids; requests are
  compared through the store by \<open>lt\<close>, which the callers instantiate with
  \<open>queue_lt oid st\<close> (\<open>Request.__lt__\<close> on the current objects). The abstract base
  class is the locale \<open>request_queue\<close>, whose laws the two implementations meet.
\<close>

section \<open>Policies\<close>

datatype scheduling_policy = FCFS | PRIORITY | EDF | CATFCFS | WO

definition scheduling_policy_of :: "string \<Rightarrow> scheduling_policy result" where
  "scheduling_policy_of s =
     (if s = ''fcfs'' then Inr FCFS
      else if s = ''priority'' then Inr PRIORITY
      else if s = ''edf'' then Inr EDF
      else if s = ''catfcfs'' then Inr CATFCFS
      else if s = ''wait-only'' then Inr WO
      else Inl ValueError)"

section \<open>The queues\<close>

datatype request_queue =
    FCFSRequestQueue "rid list"
  | PriorityRequestQueue "rid list"

type_synonym store = "rid \<Rightarrow> request"

definition queue_lt :: "(request \<Rightarrow> int) \<Rightarrow> store \<Rightarrow> rid \<Rightarrow> rid \<Rightarrow> bool" where
  "queue_lt oid st a b = request_lt oid (st a) (st b)"

definition create_request_queue :: "scheduling_policy \<Rightarrow> request_queue" where
  "create_request_queue policy =
     (if policy = PRIORITY then PriorityRequestQueue []
      else if policy = FCFS then FCFSRequestQueue []
      else PriorityRequestQueue [])"

fun queue_len :: "request_queue \<Rightarrow> nat" where
  "queue_len (FCFSRequestQueue d) = length d"
| "queue_len (PriorityRequestQueue h) = length h"

definition queue_bool :: "request_queue \<Rightarrow> bool" where
  "queue_bool q = (queue_len q > 0)"

text \<open>\<open>__iter__\<close>: the priority queue pops a copy of its heap until it is empty.\<close>

fun queue_iter :: "(rid \<Rightarrow> rid \<Rightarrow> bool) \<Rightarrow> request_queue \<Rightarrow> rid list" where
  "queue_iter lt (FCFSRequestQueue d) = d"
| "queue_iter lt (PriorityRequestQueue h) = heap_drain lt (length h) h"

fun add_request :: "(rid \<Rightarrow> rid \<Rightarrow> bool) \<Rightarrow> rid \<Rightarrow> request_queue \<Rightarrow> request_queue" where
  "add_request lt r (FCFSRequestQueue d) = FCFSRequestQueue (d @ [r])"
| "add_request lt r (PriorityRequestQueue h) = PriorityRequestQueue (heappush lt r h)"

fun pop_request :: "(rid \<Rightarrow> rid \<Rightarrow> bool) \<Rightarrow> request_queue \<Rightarrow> (rid \<times> request_queue) result" where
  "pop_request lt (FCFSRequestQueue d) =
     (case d of [] \<Rightarrow> Inl IndexError | r # d' \<Rightarrow> Inr (r, FCFSRequestQueue d'))"
| "pop_request lt (PriorityRequestQueue h) =
     (if h = [] then Inl IndexError
      else bindE (heappop lt h) (\<lambda>(r, h'). Inr (r, PriorityRequestQueue h')))"

fun peek_request :: "request_queue \<Rightarrow> rid result" where
  "peek_request (FCFSRequestQueue d) = (if d = [] then Inl IndexError else Inr (d ! 0))"
| "peek_request (PriorityRequestQueue h) = (if h = [] then Inl IndexError else Inr (h ! 0))"

fun prepend_request :: "(rid \<Rightarrow> rid \<Rightarrow> bool) \<Rightarrow> rid \<Rightarrow> request_queue \<Rightarrow> request_queue" where
  "prepend_request lt r (FCFSRequestQueue d) = FCFSRequestQueue (r # d)"
| "prepend_request lt r (PriorityRequestQueue h) = add_request lt r (PriorityRequestQueue h)"

text \<open>\<open>deque.extendleft\<close> prepends one by one, so the other queue arrives reversed.\<close>

fun prepend_requests ::
  "(rid \<Rightarrow> rid \<Rightarrow> bool) \<Rightarrow> request_queue \<Rightarrow> request_queue \<Rightarrow> request_queue" where
  "prepend_requests lt other (FCFSRequestQueue d) =
     FCFSRequestQueue (rev (queue_iter lt other) @ d)"
| "prepend_requests lt other (PriorityRequestQueue h) =
     fold (add_request lt) (queue_iter lt other) (PriorityRequestQueue h)"

fun remove_request ::
  "(rid \<Rightarrow> rid \<Rightarrow> bool) \<Rightarrow> rid \<Rightarrow> request_queue \<Rightarrow> request_queue result" where
  "remove_request lt r (FCFSRequestQueue d) =
     (if r \<in> set d then Inr (FCFSRequestQueue (remove1 r d)) else Inl ValueError)"
| "remove_request lt r (PriorityRequestQueue h) =
     (if r \<in> set h then Inr (PriorityRequestQueue (heapify lt (remove1 r h))) else Inl ValueError)"

fun remove_requests ::
  "(rid \<Rightarrow> rid \<Rightarrow> bool) \<Rightarrow> rid list \<Rightarrow> request_queue \<Rightarrow> request_queue" where
  "remove_requests lt rs (FCFSRequestQueue d) = FCFSRequestQueue (filter (\<lambda>r. r \<notin> set rs) d)"
| "remove_requests lt rs (PriorityRequestQueue h) =
     PriorityRequestQueue (heapify lt (filter (\<lambda>r. r \<notin> set rs) h))"

section \<open>The contract of the abstract class\<close>

locale request_queue =
  fixes iter :: "'q \<Rightarrow> rid list"
    and add :: "rid \<Rightarrow> 'q \<Rightarrow> 'q"
    and pop :: "'q \<Rightarrow> (rid \<times> 'q) result"
    and peek :: "'q \<Rightarrow> rid result"
    and remove_many :: "rid list \<Rightarrow> 'q \<Rightarrow> 'q"
  assumes mset_add: "mset (iter (add r q)) = add_mset r (mset (iter q))"
    and pop_empty: "iter q = [] \<Longrightarrow> pop q = Inl IndexError"
    and pop_cons: "iter q = r # rs \<Longrightarrow> \<exists>q'. pop q = Inr (r, q') \<and> iter q' = rs"
    and peek_empty: "iter q = [] \<Longrightarrow> peek q = Inl IndexError"
    and peek_cons: "iter q = r # rs \<Longrightarrow> peek q = Inr r"
    and mset_remove_many: "mset (iter (remove_many rs q)) = filter_mset (\<lambda>r. r \<notin> set rs) (mset (iter q))"
begin

lemma mset_add_all: "mset (iter (fold add rs q)) = mset rs + mset (iter q)"
  by (induction rs arbitrary: q) (simp_all add: mset_add)

lemma set_add_all: "set (iter (fold add rs q)) = set rs \<union> set (iter q)"
  by (metis mset_add_all set_mset_mset set_mset_union)

lemma length_add_all: "length (iter (fold add rs q)) = length rs + length (iter q)"
  by (metis mset_add_all size_mset size_union)

lemma peek_is_next: "pop q = Inr (r, q') \<Longrightarrow> peek q = Inr r"
  by (cases "iter q") (auto simp: pop_empty peek_cons dest!: pop_cons)

lemma pop_mset:
  "pop q = Inr (r, q') \<Longrightarrow> mset (iter q) = add_mset r (mset (iter q'))"
  by (cases "iter q") (auto simp: pop_empty dest!: pop_cons)

lemma removed_absent: "r \<in> set rs \<Longrightarrow> r \<notin> set (iter (remove_many rs q))"
proof -
  assume r: "r \<in> set rs"
  then have "r \<notin># mset (iter (remove_many rs q))" unfolding mset_remove_many by simp
  then show ?thesis by simp
qed

end

lemma set_heap_drain: "n = length h \<Longrightarrow> set (heap_drain lt n h) = set h"
  by (metis mset_heap_drain set_mset_mset)

lemma length_heap_drain: "n = length h \<Longrightarrow> length (heap_drain lt n h) = n"
  by (metis mset_heap_drain size_mset)

lemma heap_drain_pop:
  assumes "h \<noteq> []"
  obtains h' where "heappop lt h = Inr (h ! 0, h')" and "length h = Suc (length h')"
    and "heap_drain lt (length h) h = h ! 0 # heap_drain lt (length h') h'"
proof -
  from assms obtain h' where p: "heappop lt h = Inr (h ! 0, h')"
      and m: "mset h = add_mset (h ! 0) (mset h')"
    using heappop_Inr by metis
  moreover have "length h = Suc (length h')" using m by (metis size_add_mset size_mset)
  ultimately show thesis using that by simp
qed

interpretation rq: request_queue "queue_iter lt" "add_request lt" "pop_request lt"
  "peek_request" "remove_requests lt" for lt
proof unfold_locales
  fix r q
  show "mset (queue_iter lt (add_request lt r q)) = add_mset r (mset (queue_iter lt q))"
    by (cases q) (simp_all add: mset_heap_drain mset_heappush)
next
  fix q assume e: "queue_iter lt q = []"
  then have "q = FCFSRequestQueue [] \<or> q = PriorityRequestQueue []"
  proof (cases q)
    case (PriorityRequestQueue h)
    with e have "length h = 0" using length_heap_drain[of "length h" h lt] by simp
    with PriorityRequestQueue show ?thesis by simp
  qed simp
  then show "pop_request lt q = Inl IndexError" "peek_request q = Inl IndexError" by auto
next
  fix q r rs assume e: "queue_iter lt q = r # rs"
  have "(\<exists>q'. pop_request lt q = Inr (r, q') \<and> queue_iter lt q' = rs) \<and> peek_request q = Inr r"
  proof (cases q)
    case (FCFSRequestQueue d)
    with e show ?thesis by simp
  next
    case (PriorityRequestQueue h)
    with e have "h \<noteq> []" by auto
    then obtain h' where "heappop lt h = Inr (h ! 0, h')" "length h = Suc (length h')"
        "heap_drain lt (length h) h = h ! 0 # heap_drain lt (length h') h'"
      by (rule heap_drain_pop)
    with e PriorityRequestQueue \<open>h \<noteq> []\<close> show ?thesis by auto
  qed
  then show "\<exists>q'. pop_request lt q = Inr (r, q') \<and> queue_iter lt q' = rs"
    and "peek_request q = Inr r" by blast+
next
  fix rs q
  show "mset (queue_iter lt (remove_requests lt rs q))
      = filter_mset (\<lambda>r. r \<notin> set rs) (mset (queue_iter lt q))"
    by (cases q) (simp_all add: mset_heap_drain mset_heapify)
qed

lemma queue_iter_create [simp]: "queue_iter lt (create_request_queue p) = []"
  by (simp add: create_request_queue_def)

lemma queue_len_iter: "queue_len q = length (queue_iter lt q)"
  by (cases q) (simp_all add: length_heap_drain)

section \<open>Priority order\<close>

interpretation ro: heap_order "queue_lt oid st" for oid st
proof unfold_locales
  fix a b
  show "queue_lt oid st a b \<Longrightarrow> \<not> queue_lt oid st b a"
    by (auto simp: queue_lt_def request_lt_def split: if_splits)
next
  fix a b c
  show "queue_lt oid st a c \<Longrightarrow> queue_lt oid st a b \<or> queue_lt oid st b c"
    by (auto simp: queue_lt_def request_lt_def split: if_splits)
qed

lemma fold_add_heap:
  "is_heap (queue_lt oid st) h \<Longrightarrow>
   \<exists>h'. fold (add_request (queue_lt oid st)) rs (PriorityRequestQueue h) = PriorityRequestQueue h'
      \<and> is_heap (queue_lt oid st) h'"
  by (induction rs arbitrary: h) (auto intro: ro.heappush_heap)

lemma is_heap_Nil [simp]: "is_heap lt []"
  by (simp add: is_heap_def heap_from_def)

lemma fold_add_fcfs:
  "fold (add_request lt) rs (FCFSRequestQueue d) = FCFSRequestQueue (d @ rs)"
  by (induction rs arbitrary: d) auto

text \<open>
  A queue built by adding requests to a fresh queue of the policy yields, when it is
  iterated, exactly those requests: in arrival order under FCFS, and otherwise in the
  order of \<open>Request.__lt__\<close> (priority, then arrival time, then id), no later
  request being smaller than an earlier one.
\<close>

theorem queue_order:
  "mset (queue_iter (queue_lt oid st)
      (fold (add_request (queue_lt oid st)) rs (create_request_queue p))) = mset rs
   \<and> (if p = FCFS
      then queue_iter (queue_lt oid st)
             (fold (add_request (queue_lt oid st)) rs (create_request_queue p)) = rs
      else sorted_wrt (\<lambda>a b. \<not> request_lt oid (st b) (st a))
             (queue_iter (queue_lt oid st)
               (fold (add_request (queue_lt oid st)) rs (create_request_queue p))))"
proof -
  let ?q = "fold (add_request (queue_lt oid st)) rs (create_request_queue p)"
  have m: "mset (queue_iter (queue_lt oid st) ?q) = mset rs"
    by (simp add: rq.mset_add_all)
  show ?thesis
  proof (cases "p = FCFS")
    case True
    with m show ?thesis by (simp add: create_request_queue_def fold_add_fcfs)
  next
    case False
    then have "create_request_queue p = PriorityRequestQueue []"
      by (cases p) (simp_all add: create_request_queue_def)
    then obtain h where "?q = PriorityRequestQueue h" "is_heap (queue_lt oid st) h"
      using fold_add_heap[of oid st "[]" rs] by auto
    then have "sorted_wrt (\<lambda>a b. \<not> queue_lt oid st b a) (queue_iter (queue_lt oid st) ?q)"
      by (simp add: ro.heap_drain_sorted)
    with m False show ?thesis by (simp add: queue_lt_def)
  qed
qed

end
