(* ===== verification/Queue_Manager.thy ===== *)
theory Queue_Manager
  imports Request_Queue
begin

text \<open>
  \<open>vllm/v1/core/sched/queue_manager.py\<close>: the queue manager of RPS-Serve. One
  scheduling step combines the running and the waiting queue into one list ordered by
  priority, walks it, and keeps two indices into it, the last running and the first
  waiting request, updated after every preemption, admission, ignored or skipped request;
  at the end the list is split again. The class is the record \<open>queue_manager\<close>; its
  statistics, which exist only when \<open>track_stats\<close> is set, are the option
  \<open>stats\<close>. Sets of ids are sets; \<open>set.remove\<close> of an absent id is
  \<open>KeyError\<close>.
\<close>

section \<open>Exponential moving averages\<close>

record moving_average =
  alpha :: real
  ema :: "real option"
  curr :: "real option"

definition new_ema :: "real \<Rightarrow> real option \<Rightarrow> moving_average" where
  "new_ema a e = \<lparr>alpha = a, ema = e, curr = e\<rparr>"

definition update_ema :: "real \<Rightarrow> moving_average \<Rightarrow> moving_average" where
  "update_ema value m = (case ema m of
      None \<Rightarrow> m\<lparr>curr := Some value, ema := Some value\<rparr>
    | Some e \<Rightarrow> m\<lparr>curr := Some value, ema := Some (alpha m * value + (1 - alpha m) * e)\<rparr>)"

definition clear_ema :: "moving_average \<Rightarrow> moving_average" where
  "clear_ema m = m\<lparr>ema := None\<rparr>"

section \<open>State\<close>

type_synonym stats_entry = "real \<times> real option \<times> real option \<times> real option \<times> real option"

record category_stats =
  queue_age :: moving_average
  queue_size :: moving_average
  prefill_time :: moving_average
  history :: "stats_entry list"

record qm_stats =
  sand_stats :: category_stats
  pebbles_stats :: category_stats
  rocks_stats :: category_stats

record queue_manager =
  combined :: "rid list"
  running_req_ids :: "rid set"
  waiting_req_ids :: "rid set"
  preempted_req_ids :: "rid set"
  ignored_req_ids :: "rid set"
  skipped_req_ids :: "rid set"
  last_running_idx :: "nat option"
  first_waiting_idx :: "nat option"
  track_stats :: bool
  model_name :: string
  stats :: "qm_stats option"
  policy :: scheduling_policy

text \<open>Prefill times per model: text, image, video.\<close>

definition qm_cache :: "string \<Rightarrow> (real \<times> real \<times> real) option" where
  "qm_cache = Map.empty
     (''llava-onevision-qwen2-0.5b-ov-hf'' \<mapsto>
        (0.006347427730379662, 0.08030594210512935, 0.2981209339904599),
      ''Qwen2.5-VL-3B-Instruct'' \<mapsto>
        (0.016478755001333497, 0.06494460209924728, 1.9391672755708338),
      ''gemma-3-4b-it'' \<mapsto>
        (0.019657576298850694, 0.1107543233949691, 1.7952281059804371),
      ''llava-onevision-qwen2-7b-ov-chat-hf'' \<mapsto>
        (0.030164917991350366, 0.30287961234990507, 0.7456325789636467),
      ''Qwen2.5-VL-7B-Instruct'' \<mapsto>
        (0.030418283349467327, 0.08162711962172761, 2.334135525283831),
      ''gemma-3-12b-it'' \<mapsto>
        (0.05408658215463758, 0.15471395227848553, 2.4613284320330715),
      ''pixtral-12b'' \<mapsto>
        (0.06568552921417621, 0.2168186946886126, 4.097469515458215))"

text \<open>\<open>model.split("/")[-1]\<close>\<close>

definition last_component :: "string \<Rightarrow> string" where
  "last_component s = rev (takeWhile (\<lambda>c. c \<noteq> CHR ''/'') (rev s))"

definition new_category_stats :: "real option \<Rightarrow> category_stats" where
  "new_category_stats tpref =
     \<lparr>queue_age = new_ema 0.004 None, queue_size = new_ema 0.004 None,
      prefill_time = new_ema 0.004 tpref, history = []\<rparr>"

definition new_queue_manager :: "string \<Rightarrow> scheduling_policy \<Rightarrow> bool \<Rightarrow> queue_manager" where
  "new_queue_manager model pol track =
     (let name = last_component model; c = qm_cache name in
      \<lparr>combined = [], running_req_ids = {}, waiting_req_ids = {}, preempted_req_ids = {},
       ignored_req_ids = {}, skipped_req_ids = {},
       last_running_idx = None, first_waiting_idx = None,
       track_stats = track, model_name = name,
       stats = (if track then Some
          \<lparr>sand_stats = new_category_stats (map_option fst c),
           pebbles_stats = new_category_stats (map_option (fst \<circ> snd) c),
           rocks_stats = new_category_stats (map_option (snd \<circ> snd) c)\<rparr>
         else None),
       policy = pol\<rparr>)"

definition num_running_requests :: "queue_manager \<Rightarrow> nat" where
  "num_running_requests qm = card (running_req_ids qm)"

section \<open>Ordering and combining the queues\<close>

text \<open>\<open>req.priority or 0\<close> is the priority itself, zero included.\<close>

definition reorder_running_queue :: "store \<Rightarrow> rid list \<Rightarrow> rid list" where
  "reorder_running_queue st running = sort_key (\<lambda>r. priority (st r)) running"

definition reorder_waiting_queue ::
  "(rid \<Rightarrow> rid \<Rightarrow> bool) \<Rightarrow> store \<Rightarrow> request_queue \<Rightarrow> rid list" where
  "reorder_waiting_queue lt st waiting = sort_key (\<lambda>r. priority (st r)) (queue_iter lt waiting)"

text \<open>The tag is 0 for running, 1 for preempted, 2 for waiting; the key is
  \<open>(priority, tag)\<close>.\<close>

definition tag_queues :: "store \<Rightarrow> rid list \<Rightarrow> rid list \<Rightarrow> (nat \<times> real \<times> rid) list" where
  "tag_queues st running waiting =
     map (\<lambda>r. (if status (st r) = PREEMPTED then 1 else 0, priority (st r), r)) running
     @ map (\<lambda>r. (2, priority (st r), r)) waiting"

definition combine_queues :: "store \<Rightarrow> rid list \<Rightarrow> rid list \<Rightarrow> queue_manager \<Rightarrow> queue_manager" where
  "combine_queues st running waiting qm =
     (let run = set (filter (\<lambda>r. status (st r) \<noteq> PREEMPTED) running);
          pre = set (filter (\<lambda>r. status (st r) = PREEMPTED) running);
          wait = set waiting;
          comb = map (\<lambda>x. snd (snd x))
            (sort_key (\<lambda>x. (fst (snd x), fst x)) (tag_queues st running waiting))
      in qm\<lparr>running_req_ids := run, waiting_req_ids := wait, preempted_req_ids := pre,
            combined := comb,
            last_running_idx := find (\<lambda>i. comb ! i \<in> run) (rev [0..<length comb]),
            first_waiting_idx :=
              find (\<lambda>i. comb ! i \<in> wait \<or> comb ! i \<in> pre) [0..<length comb]\<rparr>)"

section \<open>Splitting the queues\<close>

definition queue_from :: "(rid \<Rightarrow> rid \<Rightarrow> bool) \<Rightarrow> scheduling_policy \<Rightarrow> rid list \<Rightarrow> request_queue" where
  "queue_from lt pol rs = fold (add_request lt) rs (create_request_queue pol)"

definition update_queues ::
  "(rid \<Rightarrow> rid \<Rightarrow> bool) \<Rightarrow> queue_manager \<Rightarrow> (rid list \<times> request_queue) result" where
  "update_queues lt qm =
     (if ignored_req_ids qm \<noteq> {} \<or> skipped_req_ids qm \<noteq> {}
      then Inr (filter (\<lambda>r. r \<in> running_req_ids qm) (combined qm),
                queue_from lt (policy qm) (filter (\<lambda>r. r \<notin> running_req_ids qm) (combined qm)))
      else (case (last_running_idx qm, first_waiting_idx qm) of
          (Some l, Some f) \<Rightarrow>
            bindE (assertE (int l = int f - 1)) (\<lambda>_.
              Inr (take f (combined qm), queue_from lt (policy qm) (drop f (combined qm))))
        | (Some l, None) \<Rightarrow> Inr (combined qm, create_request_queue (policy qm))
        | (None, Some f) \<Rightarrow> Inr ([], queue_from lt (policy qm) (combined qm))
        | (None, None) \<Rightarrow> Inr ([], create_request_queue (policy qm))))"

section \<open>Index updates\<close>

definition update_idxs_after_preemption :: "queue_manager \<Rightarrow> queue_manager result" where
  "update_idxs_after_preemption qm = (case last_running_idx qm of
      None \<Rightarrow> Inr qm
    | Some l \<Rightarrow>
        if l \<ge> length (combined qm) then Inl IndexError
        else let r = combined qm ! l in
        if r \<notin> running_req_ids qm then Inl KeyError
        else let run = running_req_ids qm - {r};
                 pre = insert r (preempted_req_ids qm);
                 lr = find (\<lambda>i. combined qm ! i \<in> run) (rev [0..<Suc l]);
                 qm1 = qm\<lparr>running_req_ids := run, preempted_req_ids := pre,
                          last_running_idx := lr\<rparr> in
        if lr = None \<and> card (waiting_req_ids qm) + card pre > 0
        then bindE (assertE (first_waiting_idx qm = Some 0)) (\<lambda>_. Inr qm1)
        else (case first_waiting_idx qm of
            Some f \<Rightarrow> if l < f then Inr (qm1\<lparr>first_waiting_idx := Some l\<rparr>) else Inr qm1
          | None \<Rightarrow> Inr (qm1\<lparr>first_waiting_idx := Some (length (combined qm) - 1)\<rparr>)))"

definition next_waiting :: "queue_manager \<Rightarrow> rid set \<Rightarrow> rid set \<Rightarrow> nat \<Rightarrow> nat option" where
  "next_waiting qm wait pre f =
     find (\<lambda>i. combined qm ! i \<in> wait \<or> combined qm ! i \<in> pre) [f..<length (combined qm)]"

definition update_idxs_after_new_scheduling :: "queue_manager \<Rightarrow> queue_manager result" where
  "update_idxs_after_new_scheduling qm = (case first_waiting_idx qm of
      None \<Rightarrow> Inr qm
    | Some f \<Rightarrow>
        if f \<ge> length (combined qm) then Inl IndexError
        else let r = combined qm ! f;
                 wait = waiting_req_ids qm - {r};
                 pre = preempted_req_ids qm - {r};
                 run = insert r (running_req_ids qm);
                 fw = next_waiting qm wait pre f;
                 qm1 = qm\<lparr>waiting_req_ids := wait, preempted_req_ids := pre,
                          running_req_ids := run, first_waiting_idx := fw\<rparr> in
        if fw = None \<and> card run > 0
        then Inr (qm1\<lparr>last_running_idx := Some (length (combined qm) - 1)\<rparr>)
        else (case last_running_idx qm of
            Some l \<Rightarrow> if f > l then Inr (qm1\<lparr>last_running_idx := Some f\<rparr>) else Inr qm1
          | None \<Rightarrow> Inr (qm1\<lparr>last_running_idx := Some 0\<rparr>)))"

definition update_idxs_after_ignored :: "queue_manager \<Rightarrow> queue_manager result" where
  "update_idxs_after_ignored qm = (case first_waiting_idx qm of
      None \<Rightarrow> Inr qm
    | Some f \<Rightarrow>
        if f \<ge> length (combined qm) then Inl IndexError
        else let r = combined qm ! f in
        if r \<notin> waiting_req_ids qm then Inl KeyError
        else let wait = waiting_req_ids qm - {r} in
        Inr (qm\<lparr>waiting_req_ids := wait,
                ignored_req_ids := insert r (ignored_req_ids qm),
                first_waiting_idx := next_waiting qm wait (preempted_req_ids qm) f\<rparr>))"

definition update_idxs_after_skipped :: "queue_manager \<Rightarrow> queue_manager result" where
  "update_idxs_after_skipped qm = (case first_waiting_idx qm of
      None \<Rightarrow> Inr qm
    | Some f \<Rightarrow>
        if f \<ge> length (combined qm) then Inl IndexError
        else let r = combined qm ! f in
        if r \<notin> waiting_req_ids qm then Inl KeyError
        else let wait = waiting_req_ids qm - {r} in
        Inr (qm\<lparr>waiting_req_ids := wait,
                skipped_req_ids := insert r (skipped_req_ids qm),
                first_waiting_idx := next_waiting qm wait (preempted_req_ids qm) f\<rparr>))"

section \<open>Statistics\<close>

definition np_mean :: "real list \<Rightarrow> real" where
  "np_mean xs = sum_list xs / real (length xs)"

text \<open>The loop over the requests: ages are stored on them and collected per category.\<close>

type_synonym stats_acc = "store \<times> (nat \<times> real list) \<times> (nat \<times> real list) \<times> (nat \<times> real list)"

fun collect_age :: "real \<Rightarrow> rid \<Rightarrow> stats_acc \<Rightarrow> stats_acc result" where
  "collect_age now r (st, (ns, as), (np, ap), (nr, ar)) =
     (let a = now - arrival_time (st r); st' = st(r := (st r)\<lparr>age := a\<rparr>) in
      case request_md (st r) of
        None \<Rightarrow> Inl AttributeError
      | Some md \<Rightarrow>
          if category md = ''sand'' then Inr (st', (ns + 1, as @ [a]), (np, ap), (nr, ar))
          else if category md = ''pebbles'' then Inr (st', (ns, as), (np + 1, ap @ [a]), (nr, ar))
          else if category md = ''rocks'' then Inr (st', (ns, as), (np, ap), (nr + 1, ar @ [a]))
          else Inr (st', (ns, as), (np, ap), (nr, ar)))"

definition update_category :: "real \<Rightarrow> nat \<times> real list \<Rightarrow> category_stats \<Rightarrow> category_stats" where
  "update_category now na c =
     (let sz = update_ema (real (fst na)) (queue_size c);
          ag = update_ema (np_mean (if snd na = [] then [0] else snd na)) (queue_age c)
      in c\<lparr>queue_size := sz, queue_age := ag,
           history := history c @ [(now, ema sz, ema ag, curr sz, curr ag)]\<rparr>)"

definition update_queue_stats ::
  "real \<Rightarrow> rid list \<Rightarrow> store \<Rightarrow> queue_manager \<Rightarrow> (store \<times> queue_manager) result" where
  "update_queue_stats now reqs st qm =
     (if \<not> track_stats qm then Inr (st, qm)
      else bindE (foldE (collect_age now) reqs (st, (0, []), (0, []), (0, []))) (\<lambda>(st', s, p, k).
        case stats qm of
          None \<Rightarrow> Inl AttributeError
        | Some q \<Rightarrow> Inr (st', qm\<lparr>stats := Some
             \<lparr>sand_stats = update_category now s (sand_stats q),
              pebbles_stats = update_category now p (pebbles_stats q),
              rocks_stats = update_category now k (rocks_stats q)\<rparr>\<rparr>)))"

end
