(* ===== verification/SLO_Manager.thy ===== *)
theory SLO_Manager
  imports Queue_Manager
begin

text \<open>
  \<open>vllm/v1/core/sched/slo_expiration_manager.py\<close>: the priorities of RPS-Serve. The
  dict of requests is the list of its keys in insertion order and the objects are in the
  store; the policy is the string the class keeps. Floats are reals, so overflow and
  rounding of floats are not modelled; every raise is: \<open>None\<close> in arithmetic,
  the missing statistics of an untracked queue manager, a negative base under a fractional
  power (a complex number, which \<open>math.exp\<close> refuses) and \<open>math.log\<close> of a
  number that is not positive.
\<close>

section \<open>Scores\<close>

text \<open>Category to \<open>(p, k_base, rps_offset)\<close>.\<close>

definition category_params :: "string \<Rightarrow> (real \<times> real \<times> real) option" where
  "category_params = Map.empty
     (''sand'' \<mapsto> (3.5, 0.05, 0.1),
      ''pebbles'' \<mapsto> (2.5, 0.003, 0.05),
      ''rocks'' \<mapsto> (1.1, 0.00075, 0))"

definition eps :: real where "eps = 0.0001"

definition min_score :: real where "min_score = 1 / 10 ^ 12"

text \<open>Python's \<open>round\<close> takes a tie to the even neighbour.\<close>

definition py_round :: "real \<Rightarrow> int" where
  "py_round x = (let f = \<lfloor>x\<rfloor>; d = x - of_int f in
     if d < 1 / 2 then f else if d > 1 / 2 then f + 1 else if even f then f else f + 1)"

text \<open>\<open>int(x)\<close> of a float truncates towards zero.\<close>

definition py_int :: "real \<Rightarrow> int" where
  "py_int x = (if 0 \<le> x then \<lfloor>x\<rfloor> else \<lceil>x\<rceil>)"

definition div_py :: "real option \<Rightarrow> real option \<Rightarrow> real result" where
  "div_py a b = (case (a, b) of
      (Some x, Some y) \<Rightarrow> if y + eps = 0 then Inl ZeroDivisionError else Inr (x / (y + eps))
    | _ \<Rightarrow> Inl TypeError)"

definition boost :: "real \<Rightarrow> real \<Rightarrow> int" where
  "boost age_ratio len_ratio =
     (let excess = max 0 (0.7 * (age_ratio - 1) + 0.3 * (len_ratio - 1)) in
      py_round (1 + (3 - 1) * (1 - exp (- 2 * excess))))"

definition compute_score :: "string \<Rightarrow> request \<Rightarrow>
    real option \<Rightarrow> real option \<Rightarrow> real option \<Rightarrow> real option \<Rightarrow> real result" where
  "compute_score pol r avg_age q_age q_size avg_size =
     (if pol \<noteq> ''rps'' \<and> pol \<noteq> ''wait-only'' then Inr 1
      else case request_md r of
        None \<Rightarrow> Inl AttributeError
      | Some md \<Rightarrow>
          (case category_params (category md) of
            None \<Rightarrow> Inr 1
          | Some (p, k_base, rps_offset) \<Rightarrow>
              bindE (div_py q_size avg_size) (\<lambda>len_ratio.
              bindE (div_py q_age avg_age) (\<lambda>age_ratio.
                if age r < 0 then Inl TypeError
                else Inr (1 - exp (- (k_base * of_int (boost age_ratio len_ratio)) * age r powr p)
                       + (if pol = ''rps'' then rps_offset else 0))))))"

definition log_py :: "real \<Rightarrow> real result" where
  "log_py x = (if x \<le> 0 then Inl ValueError else Inr (ln x))"

section \<open>Updating the priorities\<close>

definition set_priority :: "real \<Rightarrow> rid \<Rightarrow> store \<Rightarrow> store" where
  "set_priority x r st = st(r := (st r)\<lparr>priority := x\<rparr>)"

definition ticks :: "request \<Rightarrow> int" where
  "ticks r = py_int (arrival_time r * 10 ^ 7)"

definition fcfs_priority :: "rid \<Rightarrow> store \<Rightarrow> store" where
  "fcfs_priority r st =
     (if priority (st r) > 0 then st else set_priority (of_int (ticks (st r))) r st)"

definition catfcfs_priority :: "rid \<Rightarrow> store \<Rightarrow> store" where
  "catfcfs_priority r st =
     (if priority (st r) > 0 then st
      else case request_md (st r) of
        None \<Rightarrow> set_priority (of_int (10 ^ 19 + ticks (st r))) r st
      | Some md \<Rightarrow>
          if category md = '''' then set_priority (of_int (10 ^ 19 + ticks (st r))) r st
          else if category md = ''sand'' then set_priority (of_int (ticks (st r))) r st
          else if category md = ''pebbles'' then set_priority (of_int (10 ^ 18 + ticks (st r))) r st
          else if category md = ''rocks'' then set_priority (of_int (10 ^ 19 + ticks (st r))) r st
          else st)"

definition edf_priority :: "real \<Rightarrow> rid \<Rightarrow> store \<Rightarrow> store result" where
  "edf_priority now r st = (case request_md (st r) of
      None \<Rightarrow> Inl AttributeError
    | Some md \<Rightarrow> Inr (set_priority (slo md - (now - arrival_time (st r))) r st))"

text \<open>\<open>for i, req in enumerate(scored): req.priority = i + 1\<close>\<close>

fun assign_ranks :: "nat \<Rightarrow> rid list \<Rightarrow> store \<Rightarrow> store" where
  "assign_ranks i [] st = st"
| "assign_ranks i (r # rs) st = assign_ranks (Suc i) rs (set_priority (real i + 1) r st)"

definition rank_requests :: "rid list \<Rightarrow> store \<Rightarrow> store \<times> rid list" where
  "rank_requests rids st =
     (let scored = sort_key (\<lambda>r. (priority (st r), arrival_time (st r))) rids
      in (assign_ranks 0 scored st, scored))"

definition category_score :: "string \<Rightarrow> category_stats \<Rightarrow> request \<Rightarrow> real result" where
  "category_score pol c r =
     compute_score pol r (ema (queue_age c)) (curr (queue_age c))
       (curr (queue_size c)) (ema (queue_size c))"

definition score_priority :: "string \<Rightarrow> qm_stats \<Rightarrow> rid \<Rightarrow> store \<Rightarrow> store result" where
  "score_priority pol q r st = (case request_md (st r) of
      None \<Rightarrow> Inl AttributeError
    | Some md \<Rightarrow>
        let scored = (\<lambda>c. bindE (category_score pol c (st r)) (\<lambda>s.
                bindE (log_py s) (\<lambda>l. Inr (set_priority (- l) r st))))
        in if category md = ''sand'' then scored (sand_stats q)
           else if category md = ''pebbles'' then scored (pebbles_stats q)
           else if category md = ''rocks'' then scored (rocks_stats q)
           else Inr (set_priority (- ln min_score) r st))"

definition update_priorities ::
  "string \<Rightarrow> queue_manager \<Rightarrow> real \<Rightarrow> rid list \<Rightarrow> store \<Rightarrow> (store \<times> rid list) result" where
  "update_priorities pol qm now rids st =
     (if pol = ''fcfs'' then Inr (fold fcfs_priority rids st, rids)
      else if pol = ''catfcfs'' then Inr (fold catfcfs_priority rids st, rids)
      else if pol = ''edf'' then
        bindE (foldE (edf_priority now) rids st) (\<lambda>st'. Inr (rank_requests rids st'))
      else case stats qm of
        None \<Rightarrow> Inl AttributeError
      | Some q \<Rightarrow>
          bindE (foldE (score_priority pol q) rids st) (\<lambda>st'. Inr (rank_requests rids st')))"

section \<open>One request at a time\<close>

text \<open>
  Every policy gives each request a priority computed from its own object and leaves the
  other fields alone; \<open>changes_only\<close> is that frame.
\<close>

definition reprioritized :: "store \<Rightarrow> store \<Rightarrow> bool" where
  "reprioritized st st' \<longleftrightarrow> (\<forall>r. \<exists>p. st' r = (st r)\<lparr>priority := p\<rparr>)"

lemma reprioritized_refl [simp]: "reprioritized st st"
proof -
  have "st r = (st r)\<lparr>priority := priority (st r)\<rparr>" for r by simp
  then show ?thesis unfolding reprioritized_def by blast
qed

lemma reprioritized_set [simp]:
  assumes "reprioritized st st'"
  shows "reprioritized st (set_priority x r st')"
  unfolding reprioritized_def
proof
  fix s
  obtain p where "st' s = (st s)\<lparr>priority := p\<rparr>" using assms unfolding reprioritized_def by blast
  then have "set_priority x r st' s = (st s)\<lparr>priority := if s = r then x else p\<rparr>"
    by (cases "s = r") (simp_all add: set_priority_def)
  then show "\<exists>p. set_priority x r st' s = (st s)\<lparr>priority := p\<rparr>" by blast
qed

lemma reprioritizedD:
  assumes "reprioritized st st'"
  shows "arrival_time (st' r) = arrival_time (st r)" "request_md (st' r) = request_md (st r)"
    "age (st' r) = age (st r)" "status (st' r) = status (st r)"
proof -
  obtain p where "st' r = (st r)\<lparr>priority := p\<rparr>" using assms unfolding reprioritized_def by blast
  then show "arrival_time (st' r) = arrival_time (st r)" "request_md (st' r) = request_md (st r)"
    "age (st' r) = age (st r)" "status (st' r) = status (st r)" by simp_all
qed

text \<open>
  The loops treat one object at a time: \<open>f r st\<close> replaces \<open>st r\<close> by
  \<open>g (st r)\<close>. On distinct requests the order of the loop does not matter.
\<close>

lemma fold_objects:
  assumes "\<And>r st. f r st = st(r := g (st r))" and "distinct rids"
  shows "fold f rids st r = (if r \<in> set rids then g (st r) else st r)"
  using assms(2) by (induction rids arbitrary: st) (auto simp: assms(1))

lemma foldE_objects:
  assumes "\<And>r st. f r st = bindE (g (st r)) (\<lambda>x. Inr (st(r := x)))" and "distinct rids"
    and "foldE f rids st = Inr st'"
  shows "if r \<in> set rids then g (st r) = Inr (st' r) else st' r = st r"
  using assms(2,3)
proof (induction rids arbitrary: st)
  case (Cons a rids)
  then obtain t where t: "f a st = Inr t" "foldE f rids t = Inr st'"
    by (auto simp: bindE_eq_Inr)
  then obtain x where "g (st a) = Inr x" "t = st(a := x)"
    unfolding assms(1) by (auto simp: bindE_eq_Inr)
  with t have x: "g (st a) = Inr x" "foldE f rids (st(a := x)) = Inr st'" by simp_all
  with Cons.IH[OF _ x(2)] Cons.prems(1) show ?case by (auto split: if_splits)
qed simp

definition fcfs_object :: "request \<Rightarrow> request" where
  "fcfs_object q = (if priority q > 0 then q else q\<lparr>priority := of_int (ticks q)\<rparr>)"

lemma fcfs_priority_object: "fcfs_priority r st = st(r := fcfs_object (st r))"
  by (simp add: fcfs_priority_def fcfs_object_def set_priority_def)

definition catfcfs_object :: "request \<Rightarrow> request" where
  "catfcfs_object q = catfcfs_priority (request_id q) (\<lambda>_. q) (request_id q)"

lemma catfcfs_priority_object: "catfcfs_priority r st = st(r := catfcfs_object (st r))"
  by (simp add: catfcfs_priority_def catfcfs_object_def set_priority_def split: option.split)

section \<open>Ranks\<close>

lemma assign_ranks_other: "r \<notin> set rs \<Longrightarrow> assign_ranks i rs st r = st r"
  by (induction rs arbitrary: i st) (simp_all add: set_priority_def)

lemma assign_ranks_at:
  "distinct rs \<Longrightarrow> j < length rs \<Longrightarrow>
   assign_ranks i rs st (rs ! j) = (st (rs ! j))\<lparr>priority := real (i + j) + 1\<rparr>"
proof (induction rs arbitrary: i j st)
  case (Cons a rs)
  show ?case
  proof (cases j)
    case 0
    with Cons show ?thesis by (simp add: set_priority_def assign_ranks_other)
  next
    case (Suc k)
    have "rs ! k \<noteq> a" using Cons.prems Suc by auto
    with Suc Cons.IH[of k "Suc i"] Cons.prems show ?thesis by (simp add: set_priority_def)
  qed
qed simp

text \<open>
  \<open>ranking st0 st rids out\<close>: \<open>out\<close> is a permutation of \<open>rids\<close> sorted by
  \<open>(priority, arrival time)\<close> in \<open>st0\<close>, and in \<open>st\<close> its \<open>i\<close>-th element
  has priority \<open>i + 1\<close>; nothing else differs.
\<close>

definition ranking :: "store \<Rightarrow> store \<Rightarrow> rid list \<Rightarrow> rid list \<Rightarrow> bool" where
  "ranking st0 st rids out \<longleftrightarrow> mset out = mset rids
     \<and> sorted (map (\<lambda>r. (priority (st0 r), arrival_time (st0 r))) out)
     \<and> (\<forall>i < length out. st (out ! i) = (st0 (out ! i))\<lparr>priority := real i + 1\<rparr>)
     \<and> (\<forall>r. r \<notin> set rids \<longrightarrow> st r = st0 r)"

lemma rank_requests_ranking:
  assumes "distinct rids" and "rank_requests rids st0 = (st, out)"
  shows "ranking st0 st rids out"
proof -
  let ?out = "sort_key (\<lambda>r. (priority (st0 r), arrival_time (st0 r))) rids"
  have out: "out = ?out" "st = assign_ranks 0 ?out st0"
    using assms(2) unfolding rank_requests_def Let_def by blast+
  have "distinct ?out" using assms(1) by simp
  from assign_ranks_at[OF this, of _ 0 st0] assign_ranks_other[of _ ?out 0 st0]
  show ?thesis unfolding out by (simp add: ranking_def)
qed

text \<open>The rank order is the order of the keys, and a strictly smaller key ranks first.\<close>

lemma ranking_less:
  assumes rk: "ranking st0 st rids out" and "r \<in> set rids" "s \<in> set rids"
    and less: "(priority (st0 r), arrival_time (st0 r)) < (priority (st0 s), arrival_time (st0 s))"
  shows "priority (st r) < priority (st s)"
proof -
  let ?k = "\<lambda>r. (priority (st0 r), arrival_time (st0 r))"
  have "set out = set rids" using rk unfolding ranking_def by (metis set_mset_mset)
  then obtain i j where i: "i < length out" "out ! i = r" and j: "j < length out" "out ! j = s"
    using assms(2,3) by (metis in_set_conv_nth)
  have "i < j"
  proof (rule ccontr)
    assume "\<not> i < j"
    then have "map ?k out ! j \<le> map ?k out ! i"
      using rk i j unfolding ranking_def by (intro sorted_nth_mono) simp_all
    with less i j show False by (auto simp: less_eq_prod_def less_prod_def)
  qed
  moreover have "priority (st r) = real i + 1" "priority (st s) = real j + 1"
    using rk i j unfolding ranking_def by auto
  ultimately show ?thesis by simp
qed

lemma ranking_positive:
  assumes rk: "ranking st0 st rids out" and "r \<in> set rids"
  shows "1 \<le> priority (st r)"
proof -
  have "set out = set rids" using rk unfolding ranking_def by (metis set_mset_mset)
  then obtain i where "i < length out" "out ! i = r" using assms(2) by (metis in_set_conv_nth)
  with rk have "st r = (st0 r)\<lparr>priority := real i + 1\<rparr>" unfolding ranking_def by blast
  then show ?thesis by simp
qed

lemma edf_objects:
  assumes "distinct rids" and "foldE (edf_priority now) rids st = Inr st'" and "r \<in> set rids"
  obtains md where "request_md (st r) = Some md"
    and "st' r = (st r)\<lparr>priority := slo md - (now - arrival_time (st r))\<rparr>"
proof -
  define g where "g = (\<lambda>q :: request. case request_md q of None \<Rightarrow> Inl AttributeError
      | Some md \<Rightarrow> Inr (q\<lparr>priority := slo md - (now - arrival_time q)\<rparr>))"
  have "edf_priority now r st = bindE (g (st r)) (\<lambda>x. Inr (st(r := x)))" for r st
    by (simp add: edf_priority_def g_def set_priority_def split: option.split)
  from foldE_objects[OF this assms(1,2), of r] assms(3) have "g (st r) = Inr (st' r)" by simp
  then have "\<exists>md. request_md (st r) = Some md
      \<and> st' r = (st r)\<lparr>priority := slo md - (now - arrival_time (st r))\<rparr>"
    by (auto simp: g_def split: option.splits)
  with that show thesis by blast
qed

section \<open>The policies\<close>

definition deadline :: "request \<Rightarrow> real" where
  "deadline q = arrival_time q + (case request_md q of None \<Rightarrow> 0 | Some md \<Rightarrow> slo md)"

lemma ranking_ranks:
  assumes "ranking st0 st rids out"
  shows "map (\<lambda>r. priority (st r)) out = map (\<lambda>i. real i + 1) [0..<length rids]"
proof -
  have "length out = length rids" using assms unfolding ranking_def by (metis size_mset)
  then show ?thesis using assms by (auto simp: ranking_def intro: nth_equalityI)
qed

text \<open>
  C18. Earliest deadline first is what it says: \<open>edf\<close> returns the requests in the order of
  their deadlines (arrival time plus SLO), equal deadlines in the order of arrival, and their
  priorities are the ranks 1 to n in that order. So no two requests have the same priority, and
  an earlier deadline always means a smaller number.
\<close>

theorem edf_earliest_deadline_first:
  assumes "distinct rids" and "update_priorities ''edf'' qm now rids st = Inr (st', out)"
  shows "mset out = mset rids \<and> map (\<lambda>r. priority (st' r)) out = map (\<lambda>i. real i + 1) [0..<length rids]
    \<and> sorted (map (\<lambda>r. (deadline (st r), arrival_time (st r))) out)"
proof -
  obtain st0 where st0: "foldE (edf_priority now) rids st = Inr st0" "rank_requests rids st0 = (st', out)"
    using assms(2) by (auto simp: update_priorities_def bindE_eq_Inr)
  note rk = rank_requests_ranking[OF assms(1) st0(2)]
  have out: "set out = set rids" using rk unfolding ranking_def by (metis set_mset_mset)
  have key: "(priority (st0 r), arrival_time (st0 r)) = (deadline (st r) - now, arrival_time (st r))" if "r \<in> set out" for r
  proof -
    have "r \<in> set rids" using that out by simp
    from assms(1) st0(1) this obtain md where "request_md (st r) = Some md"
      "st0 r = (st r)\<lparr>priority := slo md - (now - arrival_time (st r))\<rparr>" by (rule edf_objects)
    then show ?thesis by (simp add: deadline_def)
  qed
  have "map (\<lambda>r. (priority (st0 r), arrival_time (st0 r))) out = map (\<lambda>r. (deadline (st r) - now, arrival_time (st r))) out"
    by (rule map_cong[OF refl]) (rule key)
  moreover have "sorted (map (\<lambda>r. (priority (st0 r), arrival_time (st0 r))) out)" using rk by (simp add: ranking_def)
  ultimately have "sorted (map (\<lambda>r. (deadline (st r) - now, arrival_time (st r))) out)" by (simp only:)
  then have "sorted (map (\<lambda>r. (deadline (st r), arrival_time (st r))) out)"
    unfolding sorted_map by (rule sorted_wrt_mono_rel[rotated]) (auto simp: less_eq_prod_def)
  then show ?thesis using rk ranking_ranks[OF rk] by (simp add: ranking_def)
qed

lemma py_int_nonneg: "0 \<le> x \<Longrightarrow> 0 \<le> py_int x"
  by (simp add: py_int_def)

lemma py_int_less: "0 \<le> x \<Longrightarrow> x < of_int n \<Longrightarrow> py_int x < n"
  by (simp add: py_int_def floor_less_iff)

lemma py_int_mono: "x \<le> y \<Longrightarrow> py_int x \<le> py_int y"
proof -
  assume "x \<le> y"
  moreover have "\<lceil>x\<rceil> \<le> \<lfloor>y\<rfloor>" if "\<not> 0 \<le> x" "0 \<le> y"
  proof -
    have "\<lceil>x\<rceil> \<le> 0" using that by (simp add: ceiling_le_iff)
    also have "0 \<le> \<lfloor>y\<rfloor>" using that by simp
    finally show ?thesis .
  qed
  ultimately show ?thesis by (auto simp: py_int_def floor_mono ceiling_mono)
qed

text \<open>The first priority of a request of each category under \<open>catfcfs\<close>.\<close>

definition class_base :: "string \<Rightarrow> int option" where
  "class_base = Map.empty(''sand'' \<mapsto> 0, ''pebbles'' \<mapsto> 10 ^ 18, ''rocks'' \<mapsto> 10 ^ 19)"

lemma catfcfs_at:
  assumes "distinct rids" and "update_priorities ''catfcfs'' qm now rids st = Inr (st', out)"
    and "r \<in> set rids" and "priority (st r) \<le> 0"
    and "request_md (st r) = Some md" and "class_base (category md) = Some b"
  shows "priority (st' r) = of_int (b + ticks (st r))"
proof -
  have "st' r = catfcfs_object (st r)"
    using assms(2,3) fold_objects[OF catfcfs_priority_object assms(1)]
    by (auto simp: update_priorities_def)
  then show ?thesis using assms(4-6)
    by (auto simp: catfcfs_object_def catfcfs_priority_def set_priority_def class_base_def
        split: if_splits)
qed

text \<open>
  C19. Categorical first come first served: among requests that have no priority yet and
  arrived in the first \<open>10 ^ 11\<close> seconds of the epoch, every sand request comes before
  every pebbles request and every pebbles request before every rocks request, and within a
  category a request that arrived earlier never comes later.
\<close>

theorem catfcfs_class_order:
  assumes "distinct rids" and "update_priorities ''catfcfs'' qm now rids st = Inr (st', out)"
    and "r \<in> set rids" "s \<in> set rids" and "priority (st r) \<le> 0" "priority (st s) \<le> 0"
    and "request_md (st r) = Some mr" "request_md (st s) = Some ms"
    and "class_base (category mr) = Some br" "class_base (category ms) = Some bs"
    and "0 \<le> arrival_time (st r)" "arrival_time (st r) < 10 ^ 11" "0 \<le> arrival_time (st s)"
  shows "(br < bs \<longrightarrow> priority (st' r) < priority (st' s))
    \<and> (br = bs \<and> arrival_time (st r) \<le> arrival_time (st s) \<longrightarrow> priority (st' r) \<le> priority (st' s))"
proof -
  have p: "priority (st' r) = of_int (br + ticks (st r))" "priority (st' s) = of_int (bs + ticks (st s))"
    using catfcfs_at[OF assms(1,2)] assms by blast+
  have "ticks (st r) < 10 ^ 18" unfolding ticks_def using assms(11,12) by (intro py_int_less) auto
  moreover have "0 \<le> ticks (st s)" unfolding ticks_def using assms(13) by (intro py_int_nonneg) simp
  moreover have "br < bs \<longrightarrow> br + 10 ^ 18 \<le> bs"
    using assms(9,10) by (auto simp: class_base_def split: if_splits)
  moreover have "ticks (st r) \<le> ticks (st s)" if "arrival_time (st r) \<le> arrival_time (st s)"
    unfolding ticks_def using that by (intro py_int_mono) simp
  ultimately show ?thesis unfolding p of_int_less_iff of_int_le_iff by linarith
qed

text \<open>
  Under \<open>fcfs\<close> and \<open>catfcfs\<close> a priority is set once: a request that has a
  positive priority keeps its whole object, so a later call never reorders it.
\<close>

theorem priority_set_once:
  assumes "distinct rids" and "pol = ''fcfs'' \<or> pol = ''catfcfs''"
    and "update_priorities pol qm now rids st = Inr (st', out)" and "priority (st r) > 0"
  shows "st' r = st r"
proof -
  have "fcfs_object (st r) = st r" "catfcfs_object (st r) = st r"
    using assms(4) by (simp_all add: fcfs_object_def catfcfs_object_def catfcfs_priority_def)
  then show ?thesis
    using assms(2,3) fold_objects[OF catfcfs_priority_object assms(1)]
      fold_objects[OF fcfs_priority_object assms(1)]
    by (auto simp: update_priorities_def)
qed

section \<open>Scores\<close>

lemma py_round_between: "of_int a \<le> x \<Longrightarrow> x \<le> of_int b \<Longrightarrow> a \<le> py_round x \<and> py_round x \<le> b"
proof -
  assume a: "of_int a \<le> x" and b: "x \<le> of_int b"
  have f: "a \<le> \<lfloor>x\<rfloor>" "\<lfloor>x\<rfloor> \<le> b" using a b by (simp_all add: le_floor_iff floor_le_iff)
  have "\<lfloor>x\<rfloor> + 1 \<le> b" if "x \<noteq> of_int \<lfloor>x\<rfloor>"
  proof -
    have "of_int \<lfloor>x\<rfloor> < x" using that of_int_floor_le[of x] by linarith
    with b have "(of_int \<lfloor>x\<rfloor> :: real) < of_int b" by linarith
    then show ?thesis by simp
  qed
  with f show ?thesis by (auto simp: py_round_def Let_def)
qed

lemma boost_range: "1 \<le> boost a l \<and> boost a l \<le> 3"
proof -
  define e where "e = max 0 (0.7 * (a - 1) + 0.3 * (l - 1))"
  have "0 \<le> e" by (simp add: e_def)
  then have "exp (- 2 * e) \<le> 1" "0 < exp (- 2 * e)" by simp_all
  then have "1 \<le> py_round (1 + (3 - 1) * (1 - exp (- 2 * e)))
      \<and> py_round (1 + (3 - 1) * (1 - exp (- 2 * e))) \<le> 3"
    by (intro py_round_between) simp_all
  then show ?thesis by (simp add: boost_def e_def Let_def)
qed

lemma compute_score_value:
  assumes "pol = ''rps'' \<or> pol = ''wait-only''" and "request_md q = Some md"
    and "category_params (category md) = Some (p, k, off)"
    and "compute_score pol q aa ca cs as = Inr x"
  shows "\<exists>a l. div_py ca aa = Inr a \<and> div_py cs as = Inr l \<and> 0 \<le> age q
     \<and> x = 1 - exp (- (k * of_int (boost a l)) * age q powr p) + (if pol = ''rps'' then off else 0)"
  using assms
  by (cases "div_py ca aa"; cases "div_py cs as") (auto simp: compute_score_def split: if_splits)

lemma category_params_nonneg:
  "category_params c = Some (p, k, off) \<Longrightarrow> 0 < p \<and> 0 < k \<and> 0 \<le> off \<and> off \<le> 0.1"
  by (auto simp: category_params_def split: if_splits)

lemma score_term_mono:
  "0 \<le> c \<Longrightarrow> 0 \<le> x \<Longrightarrow> x \<le> y \<Longrightarrow> 0 \<le> p \<Longrightarrow>
   1 - exp (- c * x powr p) \<le> 1 - exp (- c * y powr (p :: real))"
  by (simp add: powr_mono2 mult_left_mono)

lemma score_term_range: "0 \<le> c \<Longrightarrow> 0 \<le> 1 - exp (- c * x powr (p :: real)) \<and> 1 - exp (- c * x powr p) < 1"
  by simp

text \<open>
  The urgency score of a request of a known category is at least the category's
  offset (0 under \<open>wait-only\<close>) and less than one above it.
\<close>

theorem score_bounds:
  assumes "pol = ''rps'' \<or> pol = ''wait-only''" and "request_md q = Some md"
    and "category_params (category md) = Some (p, k, off)"
    and "compute_score pol q aa ca cs as = Inr x"
  shows "(if pol = ''rps'' then off else 0) \<le> x \<and> x < (if pol = ''rps'' then off else 0) + 1"
proof -
  from compute_score_value[OF assms] obtain a l where
    x: "x = 1 - exp (- (k * of_int (boost a l)) * age q powr p) + (if pol = ''rps'' then off else 0)"
    by blast
  have "0 \<le> k * of_int (boost a l)"
    using category_params_nonneg[OF assms(3)] boost_range[of a l] by simp
  from score_term_range[OF this, of "age q" p] x show ?thesis by auto
qed

lemma score_objects:
  assumes "distinct rids" and "foldE (score_priority pol q) rids st = Inr st0" and "r \<in> set rids"
    and "request_md (st r) = Some md" and "category_params (category md) \<noteq> None"
  obtains c x where "c = (if category md = ''sand'' then sand_stats q
       else if category md = ''pebbles'' then pebbles_stats q else rocks_stats q)"
    and "category_score pol c (st r) = Inr x" and "0 < x" and "st0 r = (st r)\<lparr>priority := - ln x\<rparr>"
proof -
  define g where "g = (\<lambda>o1 :: request. case request_md o1 of None \<Rightarrow> Inl AttributeError
    | Some md \<Rightarrow> let scored = (\<lambda>c. bindE (category_score pol c o1) (\<lambda>s.
                bindE (log_py s) (\<lambda>l. Inr (o1\<lparr>priority := - l\<rparr>))))
        in if category md = ''sand'' then scored (sand_stats q)
           else if category md = ''pebbles'' then scored (pebbles_stats q)
           else if category md = ''rocks'' then scored (rocks_stats q)
           else Inr (o1\<lparr>priority := - ln min_score\<rparr>))"
  have "score_priority pol q r st = bindE (g (st r)) (\<lambda>x. Inr (st(r := x)))" for r st
    by (auto simp: score_priority_def g_def set_priority_def Let_def bindE_def split: option.split sum.split)
  from foldE_objects[OF this assms(1,2), of r] assms(3) have g: "g (st r) = Inr (st0 r)" by simp
  define c where "c = (if category md = ''sand'' then sand_stats q
       else if category md = ''pebbles'' then pebbles_stats q else rocks_stats q)"
  have "category md \<in> {''sand'', ''pebbles'', ''rocks''}"
    using assms(5) by (auto simp: category_params_def split: if_splits)
  then have "bindE (category_score pol c (st r)) (\<lambda>s. bindE (log_py s)
      (\<lambda>l. Inr ((st r)\<lparr>priority := - l\<rparr>))) = Inr (st0 r)"
    using g assms(4) by (auto simp: g_def c_def Let_def)
  then have "\<exists>x. category_score pol c (st r) = Inr x \<and> 0 < x \<and> st0 r = (st r)\<lparr>priority := - ln x\<rparr>"
    by (auto simp: bindE_eq_Inr log_py_def split: if_splits)
  with that c_def show thesis by blast
qed

lemma score_mono_age:
  assumes "pol = ''rps'' \<or> pol = ''wait-only''"
    and "request_md a = Some ma" "request_md b = Some mb" "category ma = category mb"
    and "category_params (category ma) \<noteq> None"
    and "category_score pol c a = Inr x" "category_score pol c b = Inr y" and "age b \<le> age a"
  shows "y \<le> x"
proof -
  obtain p k off where par: "category_params (category ma) = Some (p, k, off)" using assms(5) by auto
  note a = compute_score_value[OF assms(1,2) par assms(6)[unfolded category_score_def]]
  note b = compute_score_value[OF assms(1,3) par[unfolded assms(4)] assms(7)[unfolded category_score_def]]
  from a obtain z l where zl: "div_py (curr (queue_age c)) (ema (queue_age c)) = Inr z"
      "div_py (curr (queue_size c)) (ema (queue_size c)) = Inr l"
    and x: "x = 1 - exp (- (k * of_int (boost z l)) * age a powr p) + (if pol = ''rps'' then off else 0)"
    by blast
  from b zl have y: "y = 1 - exp (- (k * of_int (boost z l)) * age b powr p) + (if pol = ''rps'' then off else 0)"
    and "0 \<le> age b" by auto
  moreover have "0 \<le> k * of_int (boost z l)" "0 \<le> p"
    using category_params_nonneg[OF par] boost_range[of z l] by simp_all
  ultimately show ?thesis
    using score_term_mono[of "k * of_int (boost z l)" "age b" "age a" p] assms(8) by (simp add: x y)
qed

text \<open>
  C17. No overtaking inside a category: under \<open>rps\<close> and \<open>wait-only\<close>, of two
  requests of the same category the one that arrived earlier and is at least as old gets
  the smaller priority number, whatever the queue statistics are.
\<close>

theorem same_category_no_overtaking:
  assumes "distinct rids" and "pol = ''rps'' \<or> pol = ''wait-only''"
    and "update_priorities pol qm now rids st = Inr (st', out)"
    and "r \<in> set rids" "s \<in> set rids"
    and "request_md (st r) = Some mr" "request_md (st s) = Some ms"
    and "category mr = category ms" "category_params (category mr) \<noteq> None"
    and "age (st s) \<le> age (st r)" "arrival_time (st r) < arrival_time (st s)"
  shows "priority (st' r) < priority (st' s)"
proof -
  obtain q st0 where q: "foldE (score_priority pol q) rids st = Inr st0"
      and rank: "rank_requests rids st0 = (st', out)"
    using assms(2,3) by (auto simp: update_priorities_def bindE_eq_Inr split: option.splits)
  note rk = rank_requests_ranking[OF assms(1) rank]
  obtain c x where r: "c = (if category mr = ''sand'' then sand_stats q
       else if category mr = ''pebbles'' then pebbles_stats q else rocks_stats q)"
      "category_score pol c (st r) = Inr x" "0 < x" "st0 r = (st r)\<lparr>priority := - ln x\<rparr>"
    by (rule score_objects[OF assms(1) q assms(4,6,9)])
  obtain d y where s: "d = (if category ms = ''sand'' then sand_stats q
       else if category ms = ''pebbles'' then pebbles_stats q else rocks_stats q)"
      "category_score pol d (st s) = Inr y" "0 < y" "st0 s = (st s)\<lparr>priority := - ln y\<rparr>"
    by (rule score_objects[OF assms(1) q assms(5,7) assms(9)[unfolded assms(8)]])
  have "d = c" using r(1) s(1) assms(8) by simp
  with s(2) have "y \<le> x" using score_mono_age[OF assms(2,6,7,8,9) r(2) _ assms(10)] by simp
  then have "- ln x \<le> - ln y" using s(3) by simp
  then show ?thesis
    using assms(11) by (intro ranking_less[OF rk assms(4,5)]) (auto simp: r(4) s(4) less_prod_def)
qed

text \<open>The score of a rocks request that has waited 150 seconds exceeds that of any sand request
  that has just arrived.\<close>

lemma rocks_score_exceeds_sand:
  assumes "request_md a = Some ma" "category ma = ''rocks''" "150 \<le> age a"
    and "request_md b = Some mb" "category mb = ''sand''" "age b = 0"
    and "category_score ''rps'' c a = Inr x" "category_score ''rps'' d b = Inr y"
  shows "y < x"
proof -
  have par: "category_params (category ma) = Some (1.1, 0.00075, 0)"
    "category_params (category mb) = Some (3.5, 0.05, 0.1)"
    using assms by (simp_all add: category_params_def)
  obtain z l where x: "x = 1 - exp (- (0.00075 * of_int (boost z l)) * age a powr 1.1)"
    using compute_score_value[OF _ assms(1) par(1) assms(7)[unfolded category_score_def]] by auto
  have y: "y = 0.1"
    using compute_score_value[OF _ assms(4) par(2) assms(8)[unfolded category_score_def]] assms(6) by auto
  have "150 \<le> age a powr 1.1" using powr_mono[of 1 "1.1" "age a"] assms(3) by simp
  moreover have "0.00075 * 1 \<le> 0.00075 * (of_int (boost z l) :: real)"
    using boost_range[of z l] by (intro mult_left_mono) (simp_all add: of_int_1_le_iff)
  ultimately have t: "0.00075 * 150 \<le> (0.00075 * of_int (boost z l)) * age a powr 1.1"
    by (intro mult_mono) simp_all
  define t where "t = (0.00075 * of_int (boost z l)) * age a powr 1.1"
  have "0.00075 * 150 \<le> t" unfolding t_def by (rule t)
  then have "0.1125 \<le> t" by simp
  then have "1 + 0.1125 \<le> exp t" using exp_ge_add_one_self[of t] by linarith
  then have "exp (- t) \<le> inverse (1 + 0.1125)"
    unfolding exp_minus by (intro le_imp_inverse_le) simp_all
  then have "exp (- t) < 0.9" by simp
  then show ?thesis by (simp add: x y t_def)
qed

text \<open>
  C21. Aging beats the static priority: under \<open>rps\<close> a rocks request that has waited 150
  seconds gets a smaller rank than every sand request that has just arrived, whatever the
  statistics of the two categories are and whenever the two arrived, so fresh sand cannot starve
  rocks.
\<close>

theorem aged_rocks_outrank_fresh_sand:
  assumes "distinct rids" and "update_priorities ''rps'' qm now rids st = Inr (st', out)"
    and "a \<in> set rids" "b \<in> set rids"
    and "request_md (st a) = Some ma" "category ma = ''rocks''" "150 \<le> age (st a)"
    and "request_md (st b) = Some mb" "category mb = ''sand''" "age (st b) = 0"
  shows "priority (st' a) < priority (st' b)"
proof -
  obtain q st0 where q: "foldE (score_priority ''rps'' q) rids st = Inr st0"
      and rank: "rank_requests rids st0 = (st', out)"
    using assms(2) by (auto simp: update_priorities_def bindE_eq_Inr split: option.splits)
  have known: "category_params (category ma) \<noteq> None" "category_params (category mb) \<noteq> None"
    using assms(6,9) by (simp_all add: category_params_def)
  obtain c x where a: "category_score ''rps'' c (st a) = Inr x" "0 < x" "st0 a = (st a)\<lparr>priority := - ln x\<rparr>"
    by (rule score_objects[OF assms(1) q assms(3,5) known(1)])
  obtain d y where b: "category_score ''rps'' d (st b) = Inr y" "0 < y" "st0 b = (st b)\<lparr>priority := - ln y\<rparr>"
    by (rule score_objects[OF assms(1) q assms(4,8) known(2)])
  have "y < x" by (rule rocks_score_exceeds_sand[OF assms(5-10) a(1) b(1)])
  then have "- ln x < - ln y" using b(2) by simp
  then show ?thesis
    by (intro ranking_less[OF rank_requests_ranking[OF assms(1) rank] assms(3,4)]) (simp add: a(3) b(3) less_prod_def)
qed

text \<open>
  A request whose score is zero makes the whole update fail: a rocks request (any
  category under \<open>wait-only\<close>) whose age is 0 raises \<open>ValueError\<close> in
  \<open>math.log\<close>, since \<open>min_score\<close> bounds no computed score.
\<close>

theorem zero_age_value_error:
  assumes "request_md (st r) = Some md" "category md = ''rocks''" "age (st r) = 0"
    and "pol = ''rps'' \<or> pol = ''wait-only''"
    and "category_score pol (rocks_stats q) (st r) = Inr x"
  shows "score_priority pol q r st = Inl ValueError"
proof -
  have par: "category_params (category md) = Some (1.1, 0.00075, 0)"
    using assms by (simp add: category_params_def)
  have "x = 0"
    using compute_score_value[OF assms(4,1) par assms(5)[unfolded category_score_def]] assms(3) by auto
  then show ?thesis using assms(1,2,5) by (simp add: score_priority_def log_py_def)
qed

section \<open>Concrete instances\<close>

definition ex_md :: "string \<Rightarrow> request_metadata" where
  "ex_md c = \<lparr>estimated_time = 1, category = c, stl = False, slo = 5\<rparr>"

definition ex_requests :: "string \<Rightarrow> string \<Rightarrow> store" where
  "ex_requests ca cb r = (text_request r 0 (if r = ''a'' then 1 else 2) [])
     \<lparr>request_md := Some (ex_md (if r = ''a'' then ca else cb))\<rparr>"

lemma ex_requests_fields [simp]:
  "request_md (ex_requests ca cb r) = Some (ex_md (if r = ''a'' then ca else cb))"
  "arrival_time (ex_requests ca cb r) = (if r = ''a'' then 1 else 2)"
  "priority (ex_requests ca cb r) = 0" "age (ex_requests ca cb r) = 0"
  by (simp_all add: ex_requests_def text_request_def)

lemma ex_md_fields [simp]: "category (ex_md c) = c" "slo (ex_md c) = 5"
  by (simp_all add: ex_md_def)

definition ex_average :: moving_average where
  "ex_average = \<lparr>alpha = 0.004, ema = Some 1, curr = Some 1\<rparr>"

definition ex_category :: category_stats where
  "ex_category = \<lparr>queue_age = ex_average, queue_size = ex_average, prefill_time = ex_average, history = []\<rparr>"

definition ex_slo_qm :: queue_manager where
  "ex_slo_qm = (new_queue_manager ''m'' FCFS True)\<lparr>stats := Some
     \<lparr>sand_stats = ex_category, pebbles_stats = ex_category, rocks_stats = ex_category\<rparr>\<rparr>"

definition ex_ratio :: real where "ex_ratio = 1 / (1 + eps)"

lemma ex_div: "div_py (Some 1) (Some 1) = Inr ex_ratio"
  by (simp add: div_py_def ex_ratio_def eps_def)

lemma ex_score:
  "request_md q = Some md \<Longrightarrow> category_params (category md) = Some (p, k, off) \<Longrightarrow> 0 \<le> age q \<Longrightarrow>
   category_score ''rps'' ex_category q
     = Inr (1 - exp (- (k * of_int (boost ex_ratio ex_ratio)) * age q powr p) + off)"
  by (simp add: category_score_def compute_score_def ex_category_def ex_average_def ex_div)

theorem edf_earliest_deadline_first_witness:
  "\<exists>st'. update_priorities ''edf'' ex_slo_qm 10 [''b'', ''a''] (ex_requests ''sand'' ''rocks'') = Inr (st', [''a'', ''b''])
     \<and> priority (st' ''a'') = 1 \<and> priority (st' ''b'') = 2"
proof -
  let ?st = "ex_requests ''sand'' ''rocks''"
  have "\<exists>st'. update_priorities ''edf'' ex_slo_qm 10 [''b'', ''a''] ?st = Inr (st', [''a'', ''b''])"
    by (simp add: update_priorities_def edf_priority_def rank_requests_def set_priority_def
        less_eq_prod_def Let_def)
  then obtain st' where u: "update_priorities ''edf'' ex_slo_qm 10 [''b'', ''a''] ?st = Inr (st', [''a'', ''b''])"
    by blast
  from edf_earliest_deadline_first[OF _ u] show ?thesis using u by (intro exI[of _ st']) (simp add: upt_rec)
qed

theorem catfcfs_class_order_witness:
  "\<exists>st'. update_priorities ''catfcfs'' ex_slo_qm 10 [''a'', ''b''] (ex_requests ''sand'' ''rocks'')
     = Inr (st', [''a'', ''b'']) \<and> priority (st' ''a'') < priority (st' ''b'')"
proof -
  let ?st = "ex_requests ''sand'' ''rocks''"
  obtain st' where u: "update_priorities ''catfcfs'' ex_slo_qm 10 [''a'', ''b''] ?st = Inr (st', [''a'', ''b''])"
    by (simp add: update_priorities_def)
  with catfcfs_class_order[OF _ u, of "''a''" "''b''" "ex_md ''sand''" "ex_md ''rocks''" 0 "10 ^ 19"]
  show ?thesis by (intro exI[of _ st']) (simp add: class_base_def)
qed

theorem priority_set_once_witness:
  "\<exists>st'. update_priorities ''fcfs'' ex_slo_qm 10 [''a''] (\<lambda>r. text_request r 3 1 [])
     = Inr (st', [''a'']) \<and> st' ''a'' = text_request ''a'' 3 1 []"
proof -
  let ?st = "\<lambda>r. text_request r 3 1 []"
  obtain st' where u: "update_priorities ''fcfs'' ex_slo_qm 10 [''a''] ?st = Inr (st', [''a''])"
    by (simp add: update_priorities_def)
  have "st' ''a'' = ?st ''a''"
    by (rule priority_set_once[OF _ _ u]) (simp_all add: text_request_def)
  with u show ?thesis by blast
qed

theorem score_bounds_witness:
  "\<exists>x. compute_score ''rps'' (ex_requests ''sand'' ''rocks'' ''a'') (Some 1) (Some 1) (Some 1) (Some 1) = Inr x
     \<and> 0.1 \<le> x \<and> x < 0.1 + 1"
proof -
  let ?q = "ex_requests ''sand'' ''rocks'' ''a''"
  have par: "category_params (category (ex_md ''sand'')) = Some (3.5, 0.05, 0.1)"
    by (simp add: category_params_def)
  have x: "compute_score ''rps'' ?q (Some 1) (Some 1) (Some 1) (Some 1) = Inr 0.1"
    using par by (simp add: compute_score_def ex_div)
  have "(if ''rps'' = ''rps'' then 0.1 else 0) \<le> (0.1 :: real)
      \<and> 0.1 < (if ''rps'' = ''rps'' then 0.1 else 0) + (1 :: real)"
    by (rule score_bounds[OF _ _ par x]) simp_all
  with x show ?thesis by (intro exI[of _ "0.1"]) simp
qed

theorem same_category_no_overtaking_witness:
  "\<exists>st' out. update_priorities ''rps'' ex_slo_qm 10 [''b'', ''a''] (ex_requests ''sand'' ''sand'') = Inr (st', out)
     \<and> priority (st' ''a'') < priority (st' ''b'')"
proof -
  let ?st = "ex_requests ''sand'' ''sand''"
  have par: "category_params (category (ex_md ''sand'')) = Some (3.5, 0.05, 0.1)"
    by (simp add: category_params_def)
  have s: "score_priority ''rps'' \<lparr>sand_stats = ex_category, pebbles_stats = ex_category,
      rocks_stats = ex_category\<rparr> r st = Inr (set_priority (- ln 0.1) r st)"
    if "request_md (st r) = Some (ex_md ''sand'')" "age (st r) = 0" for r st
    using that ex_score[OF that(1) par] by (simp add: score_priority_def log_py_def)
  have "\<exists>st' out. update_priorities ''rps'' ex_slo_qm 10 [''b'', ''a''] ?st = Inr (st', out)"
    by (simp add: update_priorities_def ex_slo_qm_def s set_priority_def rank_requests_def Let_def)
  then obtain st' out where u: "update_priorities ''rps'' ex_slo_qm 10 [''b'', ''a''] ?st = Inr (st', out)"
    by blast
  have "priority (st' ''a'') < priority (st' ''b'')"
    by (rule same_category_no_overtaking[OF _ _ u, of _ _ "ex_md ''sand''" "ex_md ''sand''"])
      (simp_all add: category_params_def)
  with u show ?thesis by blast
qed

definition ex_waited :: store where
  "ex_waited r = (if r = ''a'' then (ex_requests ''rocks'' ''sand'' r)\<lparr>age := 150\<rparr> else ex_requests ''rocks'' ''sand'' r)"

lemma ex_waited_scores:
  defines "x \<equiv> 1 - exp (- (0.00075 * of_int (boost ex_ratio ex_ratio)) * 150 powr 1.1)"
  shows "category_score ''rps'' ex_category (ex_waited ''a'') = Inr x"
    and "category_score ''rps'' ex_category (ex_waited ''b'') = Inr 0.1" and "0 < x"
proof -
  show a: "category_score ''rps'' ex_category (ex_waited ''a'') = Inr x"
    using ex_score[of "ex_waited ''a''" "ex_md ''rocks''" "1.1" "0.00075" 0] by (simp add: ex_waited_def x_def category_params_def)
  show b: "category_score ''rps'' ex_category (ex_waited ''b'') = Inr 0.1"
    using ex_score[of "ex_waited ''b''" "ex_md ''sand''" "3.5" "0.05" "0.1"] by (simp add: ex_waited_def category_params_def)
  have "0.1 < x"
    by (rule rocks_score_exceeds_sand[OF _ _ _ _ _ _ a b, of "ex_md ''rocks''" "ex_md ''sand''"]) (simp_all add: ex_waited_def)
  then show "0 < x" by simp
qed

theorem aged_rocks_outrank_fresh_sand_witness:
  "\<exists>st' out. update_priorities ''rps'' ex_slo_qm 10 [''b'', ''a''] ex_waited = Inr (st', out)
     \<and> priority (st' ''a'') < priority (st' ''b'')"
proof -
  let ?q = "\<lparr>sand_stats = ex_category, pebbles_stats = ex_category, rocks_stats = ex_category\<rparr>"
  define x where "x = 1 - exp (- (0.00075 * of_int (boost ex_ratio ex_ratio)) * 150 powr (1.1 :: real))"
  note sc = ex_waited_scores[folded x_def]
  have md: "request_md (ex_waited ''a'') = Some (ex_md ''rocks'')" "request_md (ex_waited ''b'') = Some (ex_md ''sand'')"
    by (simp_all add: ex_waited_def)
  have b: "score_priority ''rps'' ?q ''b'' ex_waited = Inr (set_priority (- ln 0.1) ''b'' ex_waited)"
    using sc(2) md by (simp add: score_priority_def log_py_def)
  have "set_priority (- ln 0.1) ''b'' ex_waited ''a'' = ex_waited ''a''" by (simp add: set_priority_def)
  then have a: "score_priority ''rps'' ?q ''a'' (set_priority (- ln 0.1) ''b'' ex_waited)
      = Inr (set_priority (- ln x) ''a'' (set_priority (- ln 0.1) ''b'' ex_waited))"
    using sc(1,3) md by (simp add: score_priority_def log_py_def)
  have "\<exists>st' out. update_priorities ''rps'' ex_slo_qm 10 [''b'', ''a''] ex_waited = Inr (st', out)"
    using a b by (simp add: update_priorities_def ex_slo_qm_def rank_requests_def Let_def)
  then obtain st' out where u: "update_priorities ''rps'' ex_slo_qm 10 [''b'', ''a''] ex_waited = Inr (st', out)" by blast
  have "priority (st' ''a'') < priority (st' ''b'')"
    by (rule aged_rocks_outrank_fresh_sand[OF _ u, of _ _ "ex_md ''rocks''" "ex_md ''sand''"]) (simp_all add: ex_waited_def)
  with u show ?thesis by blast
qed

theorem zero_age_value_error_witness:
  "score_priority ''rps'' \<lparr>sand_stats = ex_category, pebbles_stats = ex_category, rocks_stats = ex_category\<rparr>
     ''a'' (ex_requests ''rocks'' ''rocks'') = Inl ValueError"
proof -
  have "category_score ''rps'' ex_category (ex_requests ''rocks'' ''rocks'' ''a'') =
    Inr (1 - exp (- (0.00075 * of_int (boost ex_ratio ex_ratio))
      * age (ex_requests ''rocks'' ''rocks'' ''a'') powr 1.1) + 0)"
    by (rule ex_score[of _ "ex_md ''rocks''"]) (simp_all add: category_params_def)
  then show ?thesis
    by (intro zero_age_value_error[of _ _ "ex_md ''rocks''"]) simp_all
qed

end
