(* ===== verification/Admission.thy ===== *)
theory Admission
  imports SLO_Manager
begin

text \<open>
  What the engine front end does to a request before the scheduler sees it: the prefill
  time estimate (\<open>vllm/v1/engine/prefill_time_estimator.py\<close>), the category
  (\<open>request_classifier.py\<close>), the SLO looked up in the registry of a logged run
  (\<open>slo_registry.py\<close>), and the glue of \<open>AsyncLLM._add_request\<close> and
  \<open>InputProcessor.assign_request_id\<close>. The trained model of the smart classifier is
  a pickle read at run time: its \<open>predict\<close> is a parameter. So are the file system
  and the decoding of a JSON line by \<open>json.loads\<close>.
\<close>

section \<open>Prefill time estimation\<close>

text \<open>Per model: (intercept, slope) for text, image and video.\<close>

definition estimator_cache ::
  "string \<Rightarrow> ((real \<times> real) \<times> (real \<times> real) \<times> (real \<times> real)) option" where
  "estimator_cache = Map.empty
     (''llava-onevision-qwen2-0.5b-ov-hf'' \<mapsto>
        ((0.004604158101438752, (5.9372636711886714 / 10 ^ 6)),
         (0.03001293012286582, (1.9404172214649895 / 10 ^ 5)),
         (0.0469874803962724, (4.5308649933085995 / 10 ^ 5))),
      ''Qwen2.5-VL-3B-Instruct'' \<mapsto>
        ((0.007208822979232461, (3.212644982267238 / 10 ^ 5)),
         (0.050937172928859895, (5.503506783382055 / 10 ^ 5)),
         ((- 0.07084554337453441), 0.0001986696026438678)),
      ''gemma-3-4b-it'' \<mapsto>
        ((0.008599597649873437, (3.7734497648640356 / 10 ^ 5)),
         (0.09434673783835049, (6.027112249284893 / 10 ^ 5)),
         (0.08565421916907176, 0.00022505744889195968)),
      ''Qwen2.5-VL-7B-Instruct'' \<mapsto>
        ((0.010600883528447555, (6.869224917719017 / 10 ^ 5)),
         (0.03958721215825617, 0.0001511681623505576),
         ((- 0.07786893755228164), 0.0002484057176874437)),
      ''gemma-3-12b-it'' \<mapsto>
        ((0.01990582858026893, 0.00011674479041670197),
         (0.1545372152701027, (1.040198840200667 / 10 ^ 5)),
         (0.11509276966127151, 0.000310104740159892)),
      ''pixtral-12b'' \<mapsto>
        ((0.027850550001887853, 0.0001341853661065232),
         (0.06446421307749874, 0.0001438403242202692),
         ((- 0.6454059303130606), 0.0002304761042188167)),
      ''llava-onevision-qwen2-7b-ov-chat-hf'' \<mapsto>
        ((0.010432596427509634, (2.821511489589937 / 10 ^ 5)),
         (0.01909173512954794, (3.100683525894328 / 10 ^ 5)),
         (0.004301185911683977, (4.364467756044445 / 10 ^ 5))),
      ''llava-onevision-qwen2-72b-ov-chat-hf'' \<mapsto>
        ((0.13995626685042, (9.287370662521207 / 10 ^ 5)),
         (0.0049559710544814315, 0.00018299030347626572),
         (0.036683511410107145, 0.0001910774284488148)),
      ''InternVL3_5-38B-HF'' \<mapsto>
        ((0.07819333537157558, (4.5013811089605755 / 10 ^ 5)),
         (0.03669317742310902, 0.0002018676056106019),
         (0.02770202669398342, 0.00021005774304801722)),
      ''Qwen3.5-27B'' \<mapsto>
        ((0.03530299508746881, (6.027831731651396 / 10 ^ 5)),
         (0.046704020247776305, (5.812866086336343 / 10 ^ 5)),
         (0.07076368751773693, 0.00010668299209756563)),
      ''gemma-4-31B-it'' \<mapsto>
        ((0.0840129659883102, (5.063257790726964 / 10 ^ 5)),
         (0.06028828101261766, (7.662999996682579 / 10 ^ 5)),
         ((- 0.17555549495171396), 0.0006600616225413104)))"

record prefill_time_estimator =
  coef_text :: "real \<times> real"
  coef_image :: "real \<times> real"
  coef_video :: "real \<times> real"

definition new_prefill_time_estimator :: "string \<Rightarrow> prefill_time_estimator" where
  "new_prefill_time_estimator model = (case estimator_cache (last_component model) of
      None \<Rightarrow> \<lparr>coef_text = (0, 0), coef_image = (0, 0), coef_video = (0, 0)\<rparr>
    | Some (t, i, v) \<Rightarrow> \<lparr>coef_text = t, coef_image = i, coef_video = v\<rparr>)"

text \<open>\<open>mm_features\<close> is \<open>None\<close> or a list; both falsy values are no features.\<close>

definition features :: "engine_core_request \<Rightarrow> mm_feature list" where
  "features ec = (case ec_mm_features ec of None \<Rightarrow> [] | Some fs \<Rightarrow> fs)"

definition video_or_images :: "mm_feature list \<Rightarrow> bool" where
  "video_or_images fs \<longleftrightarrow>
     (fs \<noteq> [] \<and> modality (fs ! 0) = ''video'')
     \<or> (length fs > 1 \<and> modality (fs ! 0) = ''image'')"

definition single_image :: "mm_feature list \<Rightarrow> bool" where
  "single_image fs \<longleftrightarrow> length fs = 1 \<and> modality (fs ! 0) = ''image''"

definition line :: "real \<times> real \<Rightarrow> nat \<Rightarrow> real" where
  "line c n = fst c + snd c * real n"

definition estimate :: "prefill_time_estimator \<Rightarrow> engine_core_request \<Rightarrow> real result" where
  "estimate e ec = (case ec_prompt_token_ids ec of
      None \<Rightarrow> Inl AssertionError
    | Some toks \<Rightarrow> Inr (line
        (if video_or_images (features ec) then coef_video e
         else if single_image (features ec) then coef_image e
         else coef_text e) (length toks)))"

section \<open>Classification\<close>

definition dummy_classify :: "engine_core_request \<Rightarrow> string result" where
  "dummy_classify ec = Inr ''rocks''"

definition naive_classify :: "engine_core_request \<Rightarrow> string result" where
  "naive_classify ec = Inr
     (if video_or_images (features ec) then ''rocks''
      else if single_image (features ec) then ''pebbles''
      else ''sand'')"

text \<open>Per model: image token, video token, and the clusters of sand, pebbles, rocks.\<close>

definition classifier_cache :: "string \<Rightarrow> (int \<times> int \<times> (int \<times> int \<times> int)) option" where
  "classifier_cache = Map.empty
     (''llava-onevision-qwen2-0.5b-ov-hf'' \<mapsto> (151646, 151647, (1, 0, 2)),
      ''Qwen2.5-VL-3B-Instruct'' \<mapsto> (151655, 151656, (2, 0, 1)),
      ''gemma-3-4b-it'' \<mapsto> (262144, - 1, (2, 0, 1)),
      ''llava-onevision-qwen2-7b-ov-chat-hf'' \<mapsto> (151646, 151647, (1, 0, 2)),
      ''Qwen2.5-VL-7B-Instruct'' \<mapsto> (151655, 151656, (2, 0, 1)),
      ''gemma-3-12b-it'' \<mapsto> (262144, - 1, (2, 0, 1)),
      ''pixtral-12b'' \<mapsto> (10, - 1, (1, 0, 2)),
      ''llava-onevision-qwen2-72b-ov-chat-hf'' \<mapsto> (151646, 151647, (1, 0, 2)),
      ''InternVL3_5-38B-HF'' \<mapsto> (151671, 151678, (1, 0, 2)),
      ''gemma-4-31B-it'' \<mapsto> (258880, 258884, (2, 0, 1)),
      ''Qwen3.5-27B'' \<mapsto> (248056, 248057, (2, 0, 1)))"

text \<open>The attributes \<open>__init__\<close> sets, which it does only for a cached model.\<close>

record smart_classifier =
  image_token_index :: int
  video_token_index :: int
  cluster_to_category :: "int \<rightharpoonup> string"

definition new_smart_classifier :: "string \<Rightarrow> smart_classifier option" where
  "new_smart_classifier model = (case classifier_cache (last_component model) of
      None \<Rightarrow> None
    | Some (img, vid, (c0, c1, c2)) \<Rightarrow> Some
        \<lparr>image_token_index = img, video_token_index = vid,
         cluster_to_category = Map.empty(c0 \<mapsto> ''sand'', c1 \<mapsto> ''pebbles'', c2 \<mapsto> ''rocks'')\<rparr>)"

definition smart_classify :: "(real \<Rightarrow> int \<Rightarrow> int) \<Rightarrow> smart_classifier option \<Rightarrow>
    engine_core_request \<Rightarrow> string result" where
  "smart_classify predict sc ec = (case ec_prompt_token_ids ec of
      None \<Rightarrow> Inl AssertionError
    | Some toks \<Rightarrow> (case ec_request_md ec of
          None \<Rightarrow> Inl AssertionError
        | Some md \<Rightarrow> (case sc of
              None \<Rightarrow> Inl AttributeError
            | Some c \<Rightarrow>
                let images = count_list toks (image_token_index c);
                    cnt = (if images \<noteq> 0 then images else count_list toks (video_token_index c))
                in (case cluster_to_category c (predict (estimated_time md) (int cnt)) of
                      None \<Rightarrow> Inl KeyError
                    | Some s \<Rightarrow> Inr s))))"

text \<open>The classifier the configuration names.\<close>

definition request_classifier ::
  "(real \<Rightarrow> int \<Rightarrow> int) \<Rightarrow> string option \<Rightarrow> string \<Rightarrow> engine_core_request \<Rightarrow> string result" where
  "request_classifier predict cfg model =
     (if cfg = Some ''smart'' then smart_classify predict (new_smart_classifier model)
      else if cfg = Some ''naive'' then naive_classify
      else dummy_classify)"

section \<open>The SLO registry\<close>

text \<open>
  What \<open>json.loads\<close> makes of a line: malformed, a value without \<open>get\<close>, or an
  object with the three fields, \<open>None\<close> when absent or null.
\<close>

datatype json_entry =
    Malformed
  | NotAnObject
  | Entry "string option" "real option" "real option"

type_synonym slo_registry = "string \<rightharpoonup> real"

definition is_space :: "char \<Rightarrow> bool" where
  "is_space c \<longleftrightarrow> c \<in> {CHR '' '', CHR 0x09, CHR 0x0A, CHR 0x0B, CHR 0x0C, CHR 0x0D}"

definition strip :: "string \<Rightarrow> string" where
  "strip s = rev (dropWhile is_space (rev (dropWhile is_space s)))"

definition load_line :: "(string \<Rightarrow> json_entry) \<Rightarrow> string \<Rightarrow> slo_registry \<Rightarrow> slo_registry result" where
  "load_line loads raw reg =
     (let cleaned = strip raw in
      if cleaned = [] then Inr reg
      else case loads cleaned of
        Malformed \<Rightarrow> Inr reg
      | NotAnObject \<Rightarrow> Inl AttributeError
      | Entry req_id arrival finished \<Rightarrow>
          (case (req_id, arrival, finished) of
            (Some i, Some a, Some f) \<Rightarrow> if i \<noteq> [] then Inr (reg(i \<mapsto> f - a)) else Inr reg
          | _ \<Rightarrow> Inr reg))"

definition load_file :: "(string \<Rightarrow> json_entry) \<Rightarrow> (string \<Rightarrow> string list option) \<Rightarrow>
    string \<Rightarrow> slo_registry \<Rightarrow> slo_registry result" where
  "load_file loads fs path reg = (case fs path of
      None \<Rightarrow> Inl FileNotFoundError
    | Some ls \<Rightarrow> foldE (load_line loads) ls reg)"

definition load_all_slo_data :: "(string \<Rightarrow> json_entry) \<Rightarrow> (string \<Rightarrow> string list option) \<Rightarrow>
    string list \<Rightarrow> slo_registry result" where
  "load_all_slo_data loads fs paths = foldE (load_file loads fs) paths Map.empty"

definition get_slo :: "slo_registry \<Rightarrow> string \<Rightarrow> real result" where
  "get_slo reg req_id = (case reg req_id of None \<Rightarrow> Inl KeyError | Some x \<Rightarrow> Inr x)"

definition get_slo_safe :: "slo_registry \<Rightarrow> string \<Rightarrow> real \<Rightarrow> real" where
  "get_slo_safe reg req_id dflt = (case reg req_id of None \<Rightarrow> dflt | Some x \<Rightarrow> x)"

section \<open>Admission of a request\<close>

text \<open>
  \<open>InputProcessor.assign_request_id\<close>: \<open>suffix\<close> is the first eight characters of
  \<open>random_uuid()\<close>, \<open>randomize\<close> the negation of
  \<open>VLLM_DISABLE_REQUEST_ID_RANDOMIZATION\<close>; the second component is the new
  \<open>external_req_id\<close>.
\<close>

definition assign_request_id ::
  "bool \<Rightarrow> string \<Rightarrow> string option \<Rightarrow> engine_core_request \<Rightarrow> (engine_core_request \<times> string) result" where
  "assign_request_id randomize suffix external ec =
     (if external \<noteq> None then Inl ValueError
      else Inr (if randomize then ec\<lparr>ec_request_id := ec_request_id ec @ ''-'' @ suffix\<rparr> else ec,
                ec_request_id ec))"

text \<open>\<open>AsyncLLM._add_request\<close> up to the hand-over to the output processor and the core.\<close>

definition add_request_metadata :: "prefill_time_estimator \<Rightarrow>
    (engine_core_request \<Rightarrow> string result) \<Rightarrow> slo_registry \<Rightarrow>
    engine_core_request \<Rightarrow> engine_core_request result" where
  "add_request_metadata e classify reg ec =
     bindE (estimate e ec) (\<lambda>t.
     let md = new_request_metadata t; ec1 = ec\<lparr>ec_request_md := Some md\<rparr> in
     bindE (classify ec1) (\<lambda>c.
       Inr (ec1\<lparr>ec_request_md := Some (md\<lparr>category := c,
          slo := get_slo_safe reg (ec_request_id ec1) 1000\<rparr>)\<rparr>)))"

text \<open>\<open>LLMEngine.add_request\<close> does the same without the SLO.\<close>

definition add_request_metadata_sync :: "prefill_time_estimator \<Rightarrow>
    (engine_core_request \<Rightarrow> string result) \<Rightarrow>
    engine_core_request \<Rightarrow> engine_core_request result" where
  "add_request_metadata_sync e classify ec =
     bindE (estimate e ec) (\<lambda>t.
     let md = new_request_metadata t; ec1 = ec\<lparr>ec_request_md := Some md\<rparr> in
     bindE (classify ec1) (\<lambda>c. Inr (ec1\<lparr>ec_request_md := Some (md\<lparr>category := c\<rparr>)\<rparr>)))"

section \<open>What admission guarantees\<close>

text \<open>The clusters of every cached model are 0, 1 and 2.\<close>

lemma classifier_cache_total:
  "classifier_cache m = Some (img, vid, (c0, c1, c2)) \<Longrightarrow> {c0, c1, c2} = {0, 1, 2}"
  by (auto simp: classifier_cache_def split: if_splits)

lemma smart_total:
  assumes "new_smart_classifier model = Some c" and "k \<in> {0, 1, 2}"
  shows "\<exists>s \<in> {''sand'', ''pebbles'', ''rocks''}. cluster_to_category c k = Some s"
proof -
  obtain img vid c0 c1 c2 where e: "classifier_cache (last_component model) = Some (img, vid, (c0, c1, c2))"
      and c: "c = \<lparr>image_token_index = img, video_token_index = vid,
         cluster_to_category = Map.empty(c0 \<mapsto> ''sand'', c1 \<mapsto> ''pebbles'', c2 \<mapsto> ''rocks'')\<rparr>"
    using assms(1) by (auto simp: new_smart_classifier_def split: option.splits)
  from classifier_cache_total[OF e] assms(2) have "k \<in> {c0, c1, c2}" by simp
  then show ?thesis by (auto simp: c)
qed

lemma known_category:
  "category_params c \<noteq> None \<longleftrightarrow> c \<in> {''sand'', ''pebbles'', ''rocks''}"
  by (simp add: category_params_def del: not_None_eq)

lemma smart_classify_cluster:
  assumes "ec_prompt_token_ids ec = Some toks" and "ec_request_md ec = Some md"
  shows "\<exists>n. smart_classify predict (Some sc) ec
    = (case cluster_to_category sc (predict (estimated_time md) n) of None \<Rightarrow> Inl KeyError | Some s \<Rightarrow> Inr s)"
  using assms by (cases "count_list toks (image_token_index sc) = 0") (simp_all add: smart_classify_def Let_def, blast+)

lemma request_classifier_known:
  assumes "\<forall>t n. predict t n \<in> {0, 1, 2}"
    and "cfg = Some ''smart'' \<longrightarrow> classifier_cache (last_component model) \<noteq> None"
    and "ec_prompt_token_ids ec = Some toks" "ec_request_md ec = Some md"
  shows "\<exists>c. request_classifier predict cfg model ec = Inr c \<and> category_params c \<noteq> None"
proof (cases "cfg = Some ''smart''")
  case True
  with assms(2) obtain sc where sc: "new_smart_classifier model = Some sc"
    by (auto simp: new_smart_classifier_def split: option.split)
  obtain n where n: "smart_classify predict (Some sc) ec
    = (case cluster_to_category sc (predict (estimated_time md) n) of None \<Rightarrow> Inl KeyError | Some s \<Rightarrow> Inr s)"
    using smart_classify_cluster[OF assms(3,4)] by blast
  obtain s where "s \<in> {''sand'', ''pebbles'', ''rocks''}"
      "cluster_to_category sc (predict (estimated_time md) n) = Some s"
    using smart_total[OF sc, of "predict (estimated_time md) n"] assms(1) by blast
  with True sc n show ?thesis unfolding known_category by (simp add: request_classifier_def)
next
  case False
  then show ?thesis unfolding known_category
    by (simp add: request_classifier_def naive_classify_def dummy_classify_def)
qed

text \<open>
  Admission succeeds for every request with prompt tokens (with the smart classifier:
  for every model of its table, given that the trained model predicts one of the clusters 0
  to 2), leaves the rest of the request alone, and always classifies: the category has
  parameters, so the score policies never meet an unknown category.
\<close>

theorem admission_classifies:
  assumes "\<forall>t n. predict t n \<in> {0, 1, 2}"
    and "cfg = Some ''smart'' \<longrightarrow> classifier_cache (last_component model) \<noteq> None"
    and "ec_prompt_token_ids ec = Some toks"
  shows "\<exists>md. add_request_metadata e (request_classifier predict cfg model) reg ec
       = Inr (ec\<lparr>ec_request_md := Some md\<rparr>)
     \<and> category_params (category md) \<noteq> None \<and> slo md = get_slo_safe reg (ec_request_id ec) 1000"
proof -
  obtain t where t: "estimate e ec = Inr t" using assms(3) by (simp add: estimate_def)
  let ?ec = "ec\<lparr>ec_request_md := Some (new_request_metadata t)\<rparr>"
  obtain c where c: "request_classifier predict cfg model ?ec = Inr c" "category_params c \<noteq> None"
    using request_classifier_known[OF assms(1,2), of ?ec toks "new_request_metadata t"] assms(3) by auto
  then show ?thesis
    by (intro exI[of _ "(new_request_metadata t)\<lparr>category := c,
        slo := get_slo_safe reg (ec_request_id ec) 1000\<rparr>"])
      (simp add: add_request_metadata_def t Let_def)
qed

text \<open>
  The estimator and the naive classifier cut the requests alike: a request estimated on
  the video line is exactly a rocks request, on the image line a pebbles request, on the
  text line a sand request.
\<close>

theorem estimate_matches_naive_class:
  assumes "ec_prompt_token_ids ec = Some toks"
  shows "(naive_classify ec = Inr ''rocks'' \<and> estimate e ec = Inr (line (coef_video e) (length toks)))
    \<or> (naive_classify ec = Inr ''pebbles'' \<and> estimate e ec = Inr (line (coef_image e) (length toks)))
    \<or> (naive_classify ec = Inr ''sand'' \<and> estimate e ec = Inr (line (coef_text e) (length toks)))"
  using assms by (auto simp: naive_classify_def estimate_def)

text \<open>The registry is the last valid entry per id.\<close>

definition entry_slo :: "(string \<Rightarrow> json_entry) \<Rightarrow> string \<Rightarrow> (string \<times> real) option" where
  "entry_slo loads raw = (if strip raw = [] then None else case loads (strip raw) of
      Entry (Some i) (Some a) (Some f) \<Rightarrow> if i \<noteq> [] then Some (i, f - a) else None
    | _ \<Rightarrow> None)"

lemma load_line_entry:
  assumes "load_line loads raw reg = Inr reg'"
  shows "reg' = (case entry_slo loads raw of None \<Rightarrow> reg | Some (i, x) \<Rightarrow> reg(i \<mapsto> x))"
  using assms
  by (auto simp: load_line_def entry_slo_def Let_def split: if_splits json_entry.splits option.splits)

lemma load_lines_entries:
  "foldE (load_line loads) ls reg = Inr reg' \<Longrightarrow>
   reg' = reg ++ map_of (rev (List.map_filter (entry_slo loads) ls))"
proof (induction ls arbitrary: reg)
  case (Cons l ls)
  then obtain r1 where r1: "load_line loads l reg = Inr r1" "foldE (load_line loads) ls r1 = Inr reg'"
    by (auto simp: bindE_eq_Inr)
  from Cons.IH[OF r1(2)] load_line_entry[OF r1(1)] show ?case
    by (auto simp: List.map_filter_def split: option.split)
qed (simp add: List.map_filter_def)

lemma load_all_eq:
  "foldE (load_file loads fs) paths reg = Inr reg' \<Longrightarrow>
   reg' = reg ++ map_of (rev (concat (map (\<lambda>p. List.map_filter (entry_slo loads) (the (fs p))) paths)))
   \<and> (\<forall>p \<in> set paths. fs p \<noteq> None)"
proof (induction paths arbitrary: reg)
  case (Cons p paths)
  then obtain r1 where r1: "load_file loads fs p reg = Inr r1" "foldE (load_file loads fs) paths r1 = Inr reg'"
    by (auto simp: bindE_eq_Inr)
  then obtain ls where ls: "fs p = Some ls" "foldE (load_line loads) ls reg = Inr r1"
    by (auto simp: load_file_def split: option.splits)
  from Cons.IH[OF r1(2)] load_lines_entries[OF ls(2)] ls(1) show ?case by simp
qed simp

text \<open>
  What the registry holds after loading: every file exists, and the SLO of an id is
  finish minus arrival time of the last complete entry with that id over all files in
  order; blank, malformed and incomplete lines contribute nothing.
\<close>

theorem slo_registry_last_entry:
  assumes "load_all_slo_data loads fs paths = Inr reg"
  shows "reg = map_of (rev (concat (map (\<lambda>p. List.map_filter (entry_slo loads) (the (fs p))) paths)))
    \<and> (\<forall>p \<in> set paths. fs p \<noteq> None)"
  using load_all_eq[of loads fs paths Map.empty reg] assms by (simp add: load_all_slo_data_def)

text \<open>
  The id the SLO is looked up under is the internal one. When ids are randomized (the
  default) and the registry was logged under the clients' ids, so that no registered id ends
  in a dash and this suffix, every request gets the fallback SLO of 1000 seconds.
\<close>

theorem randomized_id_misses_registry:
  assumes "assign_request_id True suffix None ec = Inr (ec', ext)"
    and "\<forall>k \<in> dom reg. \<forall>p. k \<noteq> p @ ''-'' @ suffix"
    and "add_request_metadata e classify reg ec' = Inr ec''"
  shows "\<exists>md. ec_request_md ec'' = Some md \<and> slo md = 1000"
proof -
  have "ec_request_id ec' = ec_request_id ec @ ''-'' @ suffix"
    using assms(1) by (auto simp: assign_request_id_def)
  then have "reg (ec_request_id ec') = None" using assms(2) by (metis domIff)
  then show ?thesis using assms(3)
    by (auto simp: add_request_metadata_def bindE_eq_Inr Let_def get_slo_safe_def)
qed

section \<open>Concrete instances\<close>

definition ex_core_request :: "string \<Rightarrow> engine_core_request" where
  "ex_core_request r = \<lparr>ec_request_id = r, ec_prompt_token_ids = Some [1, 2], ec_mm_features = None,
     ec_sampling_params = None, ec_pooling_params = None, ec_arrival_time = None,
     ec_lora_request = None, ec_cache_salt = None, ec_prompt_embeds = None, ec_prompt_is_token_ids = None, ec_client_index = 0,
     ec_priority = 0, ec_resumable = False, ec_abort_immediately = False, ec_request_md = None\<rparr>"

definition ex_loads :: "string \<Rightarrow> json_entry" where
  "ex_loads s = (if s = ''x'' then Entry (Some ''a'') (Some 1) (Some 4) else Malformed)"

lemma ex_strip: "strip ''x'' = ''x''"
  by (simp add: strip_def is_space_def)

theorem admission_classifies_witness:
  "\<exists>md. add_request_metadata (new_prefill_time_estimator ''pixtral-12b'')
       (request_classifier (\<lambda>t n. 2) (Some ''smart'') ''pixtral-12b'') Map.empty (ex_core_request ''a'')
       = Inr ((ex_core_request ''a'')\<lparr>ec_request_md := Some md\<rparr>)
     \<and> category_params (category md) \<noteq> None
     \<and> slo md = get_slo_safe Map.empty (ec_request_id (ex_core_request ''a'')) 1000"
  by (rule admission_classifies) (simp_all add: classifier_cache_def last_component_def ex_core_request_def)

theorem estimate_matches_naive_class_witness:
  "let ec = ex_core_request ''a''; e = new_prefill_time_estimator ''pixtral-12b'' in
   (naive_classify ec = Inr ''rocks'' \<and> estimate e ec = Inr (line (coef_video e) (length [1, 2 :: int])))
    \<or> (naive_classify ec = Inr ''pebbles'' \<and> estimate e ec = Inr (line (coef_image e) (length [1, 2 :: int])))
    \<or> (naive_classify ec = Inr ''sand'' \<and> estimate e ec = Inr (line (coef_text e) (length [1, 2 :: int])))"
  unfolding Let_def by (rule estimate_matches_naive_class) (simp add: ex_core_request_def)

theorem slo_registry_last_entry_witness:
  "load_all_slo_data ex_loads (\<lambda>p. Some [''x'', ''y'']) [''f''] = Inr [''a'' \<mapsto> 3]
   \<and> [''a'' \<mapsto> 3] = map_of (rev (concat (map (\<lambda>p. List.map_filter (entry_slo ex_loads)
        (the (Some [''x'', ''y'']))) [''f''])))"
proof -
  have l: "load_all_slo_data ex_loads (\<lambda>p. Some [''x'', ''y'']) [''f''] = Inr [''a'' \<mapsto> 3]"
    by (simp add: load_all_slo_data_def load_file_def load_line_def strip_def is_space_def ex_loads_def)
  from slo_registry_last_entry[OF l] l show ?thesis by simp
qed

theorem randomized_id_misses_registry_witness:
  "\<exists>ec'' md. add_request_metadata (new_prefill_time_estimator ''m'') dummy_classify [''a'' \<mapsto> 3]
      (ex_core_request ''a-01234567'') = Inr ec'' \<and> ec_request_md ec'' = Some md \<and> slo md = 1000"
proof -
  have a: "assign_request_id True ''01234567'' None (ex_core_request ''a'')
      = Inr (ex_core_request ''a-01234567'', ''a'')"
    by (simp add: assign_request_id_def ex_core_request_def)
  have d: "\<forall>k \<in> dom [''a'' \<mapsto> 3 :: real]. \<forall>p. k \<noteq> p @ ''-'' @ ''01234567''"
  proof -
    have "length ''a'' \<noteq> length (p @ ''-'' @ ''01234567'')" for p :: string by simp
    then have "''a'' \<noteq> p @ ''-'' @ ''01234567''" for p by metis
    then show ?thesis by simp
  qed
  obtain ec'' where r: "add_request_metadata (new_prefill_time_estimator ''m'') dummy_classify [''a'' \<mapsto> 3]
      (ex_core_request ''a-01234567'') = Inr ec''"
    by (simp add: add_request_metadata_def estimate_def dummy_classify_def ex_core_request_def Let_def)
  from randomized_id_misses_registry[OF a d r] r show ?thesis by blast
qed

end
