(* ===== verification/Block_Queue.thy ===== *)
theory Block_Queue
  imports Prelude
begin

text \<open>
  \<open>FreeKVCacheBlockQueue\<close> of \<open>vllm/v1/core/kv_cache_utils.py\<close>: the free
  KV cache blocks as a doubly linked list threaded through the block objects, with a fake
  head and a fake tail. The two link attributes of all blocks are the maps
  \<open>prev_free\<close> and \<open>next_free\<close>; a real block is named by its id. The contract is
  the locale \<open>free_list\<close>: the queue represents a list of block ids.
\<close>

section \<open>The linked list\<close>

datatype node = Head | Tail | Blk nat

record free_queue =
  num_free_blocks :: int
  prev_free :: "node \<Rightarrow> node option"
  next_free :: "node \<Rightarrow> node option"

definition set_prev :: "node \<Rightarrow> node option \<Rightarrow> free_queue \<Rightarrow> free_queue" where
  "set_prev b p q = q\<lparr>prev_free := (prev_free q)(b := p)\<rparr>"

definition set_next :: "node \<Rightarrow> node option \<Rightarrow> free_queue \<Rightarrow> free_queue" where
  "set_next b p q = q\<lparr>next_free := (next_free q)(b := p)\<rparr>"

text \<open>\<open>__init__\<close>; the blocks given are fresh objects without links.\<close>

fun init_links :: "nat list \<Rightarrow> free_queue \<Rightarrow> free_queue" where
  "init_links (a # b # bs) q =
     init_links (b # bs) (set_prev (Blk b) (Some (Blk a)) (set_next (Blk a) (Some (Blk b)) q))"
| "init_links _ q = q"

definition new_free_queue :: "nat list \<Rightarrow> free_queue" where
  "new_free_queue blocks =
     (let q = init_links blocks
        \<lparr>num_free_blocks = int (length blocks), prev_free = (\<lambda>_. None), next_free = (\<lambda>_. None)\<rparr>
      in if blocks \<noteq> [] then
           set_next (Blk (last blocks)) (Some Tail)
             (set_prev Tail (Some (Blk (last blocks)))
               (set_prev (Blk (hd blocks)) (Some Head) (set_next Head (Some (Blk (hd blocks))) q)))
         else set_prev Tail (Some Head) (set_next Head (Some Tail) q))"

definition popleft :: "free_queue \<Rightarrow> (node \<times> free_queue) result" where
  "popleft q = (case next_free q Head of
      None \<Rightarrow> bindE (assertE (num_free_blocks q = 0)) (\<lambda>_. Inl ValueError)
    | Some first \<Rightarrow>
        if first = Tail then bindE (assertE (num_free_blocks q = 0)) (\<lambda>_. Inl ValueError)
        else (case next_free q first of
            None \<Rightarrow> Inl RuntimeError
          | Some second \<Rightarrow>
              Inr (first, (set_next first None (set_prev first None
                (set_prev second (Some Head) (set_next Head (Some second) q))))
                \<lparr>num_free_blocks := num_free_blocks q - 1\<rparr>)))"

fun pop_loop :: "nat \<Rightarrow> node option \<Rightarrow> free_queue \<Rightarrow> (node list \<times> node option \<times> free_queue) result" where
  "pop_loop 0 cur q = Inr ([], cur, q)"
| "pop_loop (Suc n) cur q = (case cur of
      None \<Rightarrow> Inl AssertionError
    | Some c \<Rightarrow>
        bindE (pop_loop n (next_free q c) (set_next c None (set_prev c None q)))
          (\<lambda>(ret, cur', q'). Inr (c # ret, cur', q')))"

definition popleft_n :: "nat \<Rightarrow> free_queue \<Rightarrow> (node list \<times> free_queue) result" where
  "popleft_n n q =
     (if n = 0 then Inr ([], q)
      else bindE (assertE (num_free_blocks q \<ge> int n)) (\<lambda>_.
        let q1 = q\<lparr>num_free_blocks := num_free_blocks q - int n\<rparr> in
        bindE (pop_loop n (next_free q1 Head) q1) (\<lambda>(ret, cur, q2). case cur of
            None \<Rightarrow> Inr (ret, q2)
          | Some c \<Rightarrow> Inr (ret, set_prev c (Some Head) (set_next Head (Some c) q2)))))"

definition remove_block :: "node \<Rightarrow> free_queue \<Rightarrow> free_queue result" where
  "remove_block b q = (case (prev_free q b, next_free q b) of
      (Some p, Some n) \<Rightarrow>
        Inr ((set_next b None (set_prev b None (set_prev n (Some p) (set_next p (Some n) q))))
          \<lparr>num_free_blocks := num_free_blocks q - 1\<rparr>)
    | _ \<Rightarrow> Inl RuntimeError)"

definition append_block :: "node \<Rightarrow> free_queue \<Rightarrow> free_queue result" where
  "append_block b q = (case prev_free q Tail of
      None \<Rightarrow> Inl RuntimeError
    | Some l \<Rightarrow> Inr ((set_prev Tail (Some b) (set_next b (Some Tail)
        (set_prev b (Some l) (set_next l (Some b) q))))
        \<lparr>num_free_blocks := num_free_blocks q + 1\<rparr>))"

fun append_loop :: "node list \<Rightarrow> node \<Rightarrow> free_queue \<Rightarrow> node \<times> free_queue" where
  "append_loop [] l q = (l, q)"
| "append_loop (b # bs) l q =
     append_loop bs b (set_next l (Some b) (set_prev b (Some l) q))"

definition append_n :: "node list \<Rightarrow> free_queue \<Rightarrow> free_queue result" where
  "append_n bs q =
     (if bs = [] then Inr q
      else case prev_free q Tail of
        None \<Rightarrow> Inl AssertionError
      | Some l \<Rightarrow> (case append_loop bs l q of (l', q') \<Rightarrow>
          Inr ((set_prev Tail (Some l') (set_next l' (Some Tail) q'))
            \<lparr>num_free_blocks := num_free_blocks q + int (length bs)\<rparr>)))"

text \<open>The walk of \<open>get_all_free_blocks\<close>; \<open>None\<close> is a walk that never ends.\<close>

partial_function (option) walk :: "free_queue \<Rightarrow> node \<Rightarrow> node list option" where
  "walk q cur = (case next_free q cur of
      None \<Rightarrow> Some []
    | Some n \<Rightarrow> Option.bind (walk q n) (\<lambda>ret. Some (cur # ret)))"

definition get_all_free_blocks :: "free_queue \<Rightarrow> node list option result" where
  "get_all_free_blocks q = (case next_free q Head of
      None \<Rightarrow> Inl RuntimeError
    | Some c \<Rightarrow> Inr (walk q c))"

section \<open>Links\<close>

lemma set_links [simp]:
  "prev_free (set_prev b p q) = (prev_free q)(b := p)" "next_free (set_prev b p q) = next_free q"
  "next_free (set_next b p q) = (next_free q)(b := p)" "prev_free (set_next b p q) = prev_free q"
  "num_free_blocks (set_prev b p q) = num_free_blocks q"
  "num_free_blocks (set_next b p q) = num_free_blocks q"
  by (simp_all add: set_prev_def set_next_def)

text \<open>\<open>chain q ns\<close>: neighbours in \<open>ns\<close> are linked both ways.\<close>

fun chain :: "free_queue \<Rightarrow> node list \<Rightarrow> bool" where
  "chain q (a # b # ns) \<longleftrightarrow> next_free q a = Some b \<and> prev_free q b = Some a \<and> chain q (b # ns)"
| "chain q _ \<longleftrightarrow> True"

lemma chain_append: "chain q (xs @ a # ys) \<longleftrightarrow> chain q (xs @ [a]) \<and> chain q (a # ys)"
  by (induction xs rule: induct_list012) auto

lemma chain_Cons: "chain q (a # ns) \<longleftrightarrow>
  (ns = [] \<or> next_free q a = Some (hd ns) \<and> prev_free q (hd ns) = Some a) \<and> chain q ns"
  by (cases ns) auto

lemma chain_cong:
  "(\<And>a. a \<in> set (butlast ns) \<Longrightarrow> next_free q a = next_free q' a) \<Longrightarrow>
   (\<And>a. a \<in> set (tl ns) \<Longrightarrow> prev_free q a = prev_free q' a) \<Longrightarrow> chain q ns = chain q' ns"
proof (induction ns rule: induct_list012)
  case (3 a b ns)
  have "chain q (b # ns) = chain q' (b # ns)"
    by (rule 3(2)) (use 3(3,4) in \<open>auto split: if_splits\<close>)
  with 3(3)[of a] 3(4)[of b] show ?case by simp
qed simp_all

text \<open>The queue \<open>q\<close> represents the list \<open>xs\<close> of free block ids.\<close>

definition free_rel :: "free_queue \<Rightarrow> nat list \<Rightarrow> bool" where
  "free_rel q xs \<longleftrightarrow> distinct xs \<and> num_free_blocks q = int (length xs)
     \<and> chain q (Head # map Blk xs @ [Tail]) \<and> next_free q Tail = None \<and> prev_free q Head = None
     \<and> (\<forall>b. b \<notin> set xs \<longrightarrow> next_free q (Blk b) = None \<and> prev_free q (Blk b) = None)"

definition queue_nodes :: "nat list \<Rightarrow> node list" where
  "queue_nodes xs = Head # map Blk xs @ [Tail]"

lemma free_relD:
  assumes "free_rel q xs"
  shows "distinct xs" "num_free_blocks q = int (length xs)" "chain q (queue_nodes xs)"
    "next_free q Tail = None" "prev_free q Head = None"
    "b \<notin> set xs \<Longrightarrow> next_free q (Blk b) = None" "b \<notin> set xs \<Longrightarrow> prev_free q (Blk b) = None"
  using assms by (simp_all add: free_rel_def queue_nodes_def)

lemma distinct_nodes: "distinct (queue_nodes xs) \<longleftrightarrow> distinct xs"
  by (auto simp: queue_nodes_def distinct_map inj_on_def)

lemma chain_links:
  assumes "chain q (as @ a # b # bs)"
  shows "next_free q a = Some b" and "prev_free q b = Some a"
  using assms chain_append[of q as a "b # bs"] by auto

text \<open>Resetting the links of a set of nodes.\<close>

definition unlink :: "node set \<Rightarrow> free_queue \<Rightarrow> free_queue" where
  "unlink S q = q\<lparr>prev_free := (\<lambda>n. if n \<in> S then None else prev_free q n),
                  next_free := (\<lambda>n. if n \<in> S then None else next_free q n)\<rparr>"

lemma unlink_empty [simp]: "unlink {} q = q"
  by (simp add: unlink_def)

lemma unlink_one: "set_next c None (set_prev c None q) = unlink {c} q"
  by (simp add: unlink_def set_next_def set_prev_def fun_eq_iff)

lemma unlink_twice: "unlink S (unlink T q) = unlink (T \<union> S) q"
  by (simp add: unlink_def) (auto simp: fun_eq_iff)

lemma unlink_links [simp]:
  "prev_free (unlink S q) = (\<lambda>n. if n \<in> S then None else prev_free q n)"
  "next_free (unlink S q) = (\<lambda>n. if n \<in> S then None else next_free q n)"
  "num_free_blocks (unlink S q) = num_free_blocks q"
  by (simp_all add: unlink_def)

lemma in_tlD: "x \<in> set (tl ns) \<Longrightarrow> x \<in> set ns"
  by (cases ns) auto

lemma chain_unlink: "S \<inter> set ns = {} \<Longrightarrow> chain (unlink S q) ns = chain q ns"
  by (rule chain_cong) (auto dest: in_set_butlastD in_tlD)

lemma pop_loop_chain:
  assumes "chain q (map Blk ys @ n # ns)" and "distinct (map Blk ys @ n # ns)"
  shows "pop_loop (length ys) (Some (hd (map Blk ys @ n # ns))) q
    = Inr (map Blk ys, Some n, unlink (Blk ` set ys) q)"
  using assms
proof (induction ys arbitrary: q)
  case (Cons y ys)
  let ?rest = "map Blk ys @ n # ns"
  have nx: "next_free q (Blk y) = Some (hd ?rest)" using Cons.prems(1) by (simp add: chain_Cons)
  have "chain (unlink {Blk y} q) ?rest"
    using Cons.prems by (subst chain_unlink) (auto simp: chain_Cons)
  from Cons.IH[OF this] Cons.prems(2)
  show ?case by (simp add: nx unlink_one unlink_twice)
qed simp

lemma popleft_n_rel:
  assumes rel: "free_rel q xs" and n: "n \<le> length xs"
  shows "\<exists>q'. popleft_n n q = Inr (map Blk (take n xs), q') \<and> free_rel q' (drop n xs)"
proof (cases "n = 0")
  case True
  with rel show ?thesis by (simp add: popleft_n_def)
next
  case False
  define ys zs where "ys = take n xs" and "zs = drop n xs"
  have xs: "xs = ys @ zs" and len: "length ys = n" using n by (simp_all add: ys_def zs_def)
  define q1 where "q1 = q\<lparr>num_free_blocks := num_free_blocks q - int n\<rparr>"
  define m ms where "m = hd (map Blk zs @ [Tail])" and "ms = tl (map Blk zs @ [Tail])"
  have rest: "map Blk zs @ [Tail] = m # ms" by (cases zs) (simp_all add: m_def ms_def)
  have nodes: "queue_nodes xs = Head # map Blk ys @ m # ms"
    by (simp add: queue_nodes_def xs flip: rest)
  have ch: "chain q1 (Head # map Blk ys @ m # ms)"
    using free_relD(3)[OF rel] chain_cong[of _ q q1] unfolding nodes by (simp add: q1_def)
  have dist: "distinct (Head # map Blk ys @ m # ms)"
    using free_relD(1)[OF rel] distinct_nodes[of xs] unfolding nodes by simp
  have first: "next_free q1 Head = Some (hd (map Blk ys @ m # ms))"
    using ch by (simp add: chain_Cons)
  have loop: "pop_loop n (next_free q1 Head) q1 = Inr (map Blk ys, Some m, unlink (Blk ` set ys) q1)"
    unfolding first len[symmetric] using ch dist by (intro pop_loop_chain) (simp_all add: chain_Cons)
  define q' where "q' = set_prev m (Some Head) (set_next Head (Some m) (unlink (Blk ` set ys) q1))"
  have "popleft_n n q = Inr (map Blk ys, q')"
    using False n free_relD(2)[OF rel] loop by (simp add: popleft_n_def Let_def q1_def q'_def)
  moreover have "free_rel q' zs"
  proof -
    have "chain q1 (m # ms)" using ch chain_append[of q1 "Head # map Blk ys" m ms] by simp
    moreover have "chain q' (m # ms) = chain q1 (m # ms)"
    proof (rule chain_cong)
      have out: "Blk ` set ys \<inter> set (m # ms) = {}" "Head \<notin> set (m # ms)" using dist by auto
      fix a assume "a \<in> set (butlast (m # ms))"
      then have "a \<in> set (m # ms)" by (rule in_set_butlastD)
      with out show "next_free q' a = next_free q1 a" by (auto simp: q'_def)
    next
      fix a assume "a \<in> set (tl (m # ms))"
      with dist show "prev_free q' a = prev_free q1 a" by (auto simp: q'_def)
    qed
    ultimately have "chain q' (Head # m # ms)" by (simp add: q'_def)
    moreover have "m \<noteq> Head" using dist by auto
    moreover have "b \<in> set zs" if "m = Blk b" for b using rest that by (cases zs) auto
    ultimately show ?thesis
      using rel n unfolding free_rel_def
      by (auto simp: q'_def q1_def rest xs len[symmetric])
  qed
  ultimately show ?thesis unfolding ys_def zs_def by blast
qed

lemma popleft_rel:
  assumes rel: "free_rel q (x # xs)"
  shows "\<exists>q'. popleft q = Inr (Blk x, q') \<and> free_rel q' xs"
proof -
  define m ms where "m = hd (map Blk xs @ [Tail])" and "ms = tl (map Blk xs @ [Tail])"
  have rest: "map Blk xs @ [Tail] = m # ms" by (cases xs) (simp_all add: m_def ms_def)
  have links: "next_free q Head = Some (Blk x)" "next_free q (Blk x) = Some m"
    using free_relD(3)[OF rel] by (simp_all add: queue_nodes_def rest)
  obtain q1 where q1: "popleft_n 1 q = Inr ([Blk x], q1)" "free_rel q1 xs"
    using popleft_n_rel[OF rel, of 1] by auto
  have "popleft q = Inr (Blk x, (set_next (Blk x) None (set_prev (Blk x) None
      (set_prev m (Some Head) (set_next Head (Some m) q))))\<lparr>num_free_blocks := num_free_blocks q - 1\<rparr>)"
    using links by (simp add: popleft_def)
  moreover have "(set_next (Blk x) None (set_prev (Blk x) None
      (set_prev m (Some Head) (set_next Head (Some m) q))))\<lparr>num_free_blocks := num_free_blocks q - 1\<rparr> = q1"
  proof -
    have "m \<noteq> Blk x" using free_relD(1)[OF rel] by (cases xs) (auto simp: m_def)
    then show ?thesis using q1(1) links free_relD(2)[OF rel]
      by (auto simp: popleft_n_def Let_def set_next_def set_prev_def fun_upd_twist)
  qed
  ultimately show ?thesis using q1(2) by simp
qed

lemma popleft_empty: "free_rel q [] \<Longrightarrow> popleft q = Inl ValueError"
  using free_relD(2,3)[of q "[]"] by (simp add: popleft_def queue_nodes_def)

lemma append_rel:
  assumes rel: "free_rel q xs" and new: "b \<notin> set xs"
  shows "\<exists>q'. append_block (Blk b) q = Inr q' \<and> free_rel q' (xs @ [b])"
proof -
  define l ls where "l = last (Head # map Blk xs)" and "ls = butlast (Head # map Blk xs)"
  have front: "Head # map Blk xs = ls @ [l]" by (simp add: l_def ls_def flip: append_butlast_last_id)
  have nodes: "queue_nodes xs = ls @ l # [Tail]" "queue_nodes (xs @ [b]) = ls @ l # [Blk b, Tail]"
    using front by (simp_all add: queue_nodes_def)
  have d: "distinct (ls @ l # [Blk b, Tail])"
    using free_relD(1)[OF rel] new distinct_nodes[of "xs @ [b]"] unfolding nodes by simp
  have pl: "prev_free q Tail = Some l" using free_relD(3)[OF rel] chain_links[of q ls l Tail "[]"] nodes by simp
  define q' where "q' = (set_prev Tail (Some (Blk b)) (set_next (Blk b) (Some Tail)
        (set_prev (Blk b) (Some l) (set_next l (Some (Blk b)) q))))
        \<lparr>num_free_blocks := num_free_blocks q + 1\<rparr>"
  have "append_block (Blk b) q = Inr q'" by (simp add: append_block_def pl q'_def)
  moreover have "free_rel q' (xs @ [b])"
  proof -
    have "chain q (ls @ [l])" using free_relD(3)[OF rel] chain_append[of q ls l "[Tail]"] nodes by simp
    moreover have "chain q' (ls @ [l]) = chain q (ls @ [l])"
    proof (rule chain_cong)
      fix a assume "a \<in> set (butlast (ls @ [l]))"
      with d show "next_free q' a = next_free q a" by (auto simp: q'_def)
    next
      fix a assume "a \<in> set (tl (ls @ [l]))"
      then have "a \<in> set (ls @ [l])" by (rule in_tlD)
      with d show "prev_free q' a = prev_free q a" by (auto simp: q'_def)
    qed
    moreover have "chain q' (l # [Blk b, Tail])" using d by (auto simp: q'_def)
    ultimately have "chain q' (queue_nodes (xs @ [b]))"
      using chain_append[of q' ls l "[Blk b, Tail]"] nodes by simp
    moreover have "l \<in> insert Head (Blk ` set xs)" using front by (metis in_set_conv_decomp list.set(2) list.set_map)
    ultimately show ?thesis using rel new unfolding free_rel_def queue_nodes_def
      by (auto simp: q'_def)
  qed
  ultimately show ?thesis by blast
qed

text \<open>Appending several blocks writes the same links as appending them one by one.\<close>

lemma append_loop_append:
  "append_loop (bs @ [b]) l q = (b, case append_loop bs l q of (l', q') \<Rightarrow>
     set_next l' (Some b) (set_prev b (Some l') q'))"
  by (induction bs arbitrary: l q) simp_all

lemma append_n_rel:
  "free_rel q xs \<Longrightarrow> distinct (xs @ bs) \<Longrightarrow>
   \<exists>q'. append_n (map Blk bs) q = Inr q' \<and> free_rel q' (xs @ bs)"
proof (induction bs rule: rev_induct)
  case Nil
  then show ?case by (simp add: append_n_def)
next
  case (snoc b bs)
  then obtain q1 where q1: "append_n (map Blk bs) q = Inr q1" "free_rel q1 (xs @ bs)" by auto
  obtain q2 where q2: "append_block (Blk b) q1 = Inr q2" "free_rel q2 ((xs @ bs) @ [b])"
    using append_rel[OF q1(2), of b] snoc.prems by auto
  have "append_n (map Blk (bs @ [b])) q = Inr q2"
  proof (cases "bs = []")
    case True
    with q1(1) have "q1 = q" by (simp add: append_n_def)
    with True q2(1) show ?thesis
      by (auto simp: append_n_def append_block_def set_next_def set_prev_def fun_upd_twist split: option.splits)
  next
    case False
    obtain l where l: "prev_free q Tail = Some l"
      using q1(1) False by (auto simp: append_n_def split: option.splits)
    obtain l' q' where loop: "append_loop (map Blk bs) l q = (l', q')" by fastforce
    have q1': "q1 = (set_prev Tail (Some l') (set_next l' (Some Tail) q'))
        \<lparr>num_free_blocks := num_free_blocks q + int (length bs)\<rparr>"
      using q1(1) False l loop by (simp add: append_n_def)
    have "l' \<noteq> Blk b"
    proof -
      have "prev_free q1 Tail = Some l'" by (simp add: q1')
      moreover obtain as a where bs: "bs = as @ [a]" using False by (metis append_butlast_last_id)
      moreover have "prev_free q1 Tail = Some (Blk a)"
        using free_relD(3)[OF q1(2)] chain_links(2)[of q1 "Head # map Blk (xs @ as)" "Blk a" Tail "[]"]
        by (simp add: bs queue_nodes_def)
      ultimately show ?thesis using snoc.prems(2) by auto
    qed
    with q2(1) show ?thesis using False l loop append_loop_append[of "map Blk bs" "Blk b" l q]
      by (simp add: append_n_def append_block_def q1') (simp add: set_next_def set_prev_def fun_upd_twist add.commute add.left_commute)
  qed
  with q2(2) show ?case by auto
qed

lemma remove_rel:
  assumes rel: "free_rel q xs" and mem: "b \<in> set xs"
  shows "\<exists>q'. remove_block (Blk b) q = Inr q' \<and> free_rel q' (remove1 b xs)"
proof -
  obtain us vs where xs: "xs = us @ b # vs" using mem by (metis split_list)
  have d: "distinct xs" by (rule free_relD(1)[OF rel])
  define p ps where "p = last (Head # map Blk us)" and "ps = butlast (Head # map Blk us)"
  define n ns where "n = hd (map Blk vs @ [Tail])" and "ns = tl (map Blk vs @ [Tail])"
  have front: "Head # map Blk us = ps @ [p]" by (simp add: p_def ps_def flip: append_butlast_last_id)
  have behind: "map Blk vs @ [Tail] = n # ns" by (cases vs) (simp_all add: n_def ns_def)
  have nodes: "queue_nodes xs = ps @ p # Blk b # n # ns" "queue_nodes (us @ vs) = ps @ p # n # ns"
    using front behind by (simp_all add: queue_nodes_def xs)
  have dist: "distinct (ps @ p # Blk b # n # ns)" using d distinct_nodes[of xs] nodes by simp
  have ch: "chain q (ps @ p # Blk b # n # ns)" using free_relD(3)[OF rel] nodes by simp
  have links: "prev_free q (Blk b) = Some p" "next_free q (Blk b) = Some n"
    using chain_links(2)[of q ps p "Blk b" "n # ns"] chain_links(1)[of q "ps @ [p]" "Blk b" n ns] ch by simp_all
  define q' where "q' = (set_next (Blk b) None (set_prev (Blk b) None
      (set_prev n (Some p) (set_next p (Some n) q))))\<lparr>num_free_blocks := num_free_blocks q - 1\<rparr>"
  have "remove_block (Blk b) q = Inr q'" by (simp add: remove_block_def links q'_def)
  moreover have "free_rel q' (us @ vs)"
  proof -
    have cp: "chain q (ps @ [p])" and cn: "chain q (n # ns)"
      using ch chain_append[of q ps p "Blk b # n # ns"] by (auto simp: chain_Cons)
    have "chain q' (ps @ [p]) = chain q (ps @ [p])"
    proof (rule chain_cong)
      fix a assume "a \<in> set (butlast (ps @ [p]))"
      with dist show "next_free q' a = next_free q a" by (auto simp: q'_def)
    next
      fix a assume "a \<in> set (tl (ps @ [p]))"
      then have "a \<in> set (ps @ [p])" by (rule in_tlD)
      with dist show "prev_free q' a = prev_free q a" by (auto simp: q'_def)
    qed
    moreover have "chain q' (n # ns) = chain q (n # ns)"
    proof (rule chain_cong)
      fix a assume "a \<in> set (butlast (n # ns))"
      then have "a \<in> set (n # ns)" by (rule in_set_butlastD)
      with dist show "next_free q' a = next_free q a" by (auto simp: q'_def)
    next
      fix a assume "a \<in> set (tl (n # ns))"
      with dist show "prev_free q' a = prev_free q a" by (auto simp: q'_def)
    qed
    ultimately have "chain q' (queue_nodes (us @ vs))"
      using cp cn dist unfolding nodes chain_append[of q' ps p "n # ns"] by (auto simp: q'_def)
    moreover have "p \<in> insert Head (Blk ` set us)"
      using front by (metis in_set_conv_decomp list.set(2) list.set_map)
    moreover have "n \<in> insert Tail (Blk ` set vs)" by (cases vs) (simp_all add: n_def)
    ultimately show ?thesis using rel xs unfolding free_rel_def queue_nodes_def
      by (auto simp: q'_def)
  qed
  moreover have "remove1 b xs = us @ vs" using d by (simp add: xs remove1_append)
  ultimately show ?thesis by simp
qed

lemma remove_unlinked: "free_rel q xs \<Longrightarrow> b \<notin> set xs \<Longrightarrow> remove_block (Blk b) q = Inl RuntimeError"
  using free_relD(6,7)[of q xs b] by (simp add: remove_block_def)

lemma popleft_n_underflow: "free_rel q xs \<Longrightarrow> length xs < n \<Longrightarrow> popleft_n n q = Inl AssertionError"
  using free_relD(2)[of q xs] by (simp add: popleft_n_def)

lemma walk_chain:
  "chain q (map Blk ys @ [Tail]) \<Longrightarrow> next_free q Tail = None \<Longrightarrow>
   walk q (hd (map Blk ys @ [Tail])) = Some (map Blk ys)"
proof (induction ys)
  case Nil
  then show ?case by (simp add: walk.simps)
next
  case (Cons y ys)
  then have "next_free q (Blk y) = Some (hd (map Blk ys @ [Tail]))" by (simp add: chain_Cons)
  with Cons show ?case by (subst walk.simps) (simp add: chain_Cons)
qed

lemma get_all_rel: "free_rel q xs \<Longrightarrow> get_all_free_blocks q = Inr (Some (map Blk xs))"
  using walk_chain[of q xs] free_relD(3,4)[of q xs]
  by (simp add: get_all_free_blocks_def queue_nodes_def chain_Cons)

lemma init_links_next:
  "distinct bs \<Longrightarrow> n \<notin> Blk ` set (butlast bs) \<Longrightarrow> next_free (init_links bs q) n = next_free q n"
  by (induction bs q rule: init_links.induct) (auto split: if_splits)

lemma init_links_prev:
  "distinct bs \<Longrightarrow> n \<notin> Blk ` set (tl bs) \<Longrightarrow> prev_free (init_links bs q) n = prev_free q n"
  by (induction bs q rule: init_links.induct) auto

lemma init_links_num [simp]: "num_free_blocks (init_links bs q) = num_free_blocks q"
  by (induction bs q rule: init_links.induct) auto

lemma init_links_chain: "distinct bs \<Longrightarrow> chain (init_links bs q) (map Blk bs)"
proof (induction bs q rule: init_links.induct)
  case (1 a b bs q)
  let ?q = "set_prev (Blk b) (Some (Blk a)) (set_next (Blk a) (Some (Blk b)) q)"
  have "next_free (init_links (b # bs) ?q) (Blk a) = Some (Blk b)"
    using 1(2) by (subst init_links_next) (auto dest: in_set_butlastD)
  moreover have "prev_free (init_links (b # bs) ?q) (Blk b) = Some (Blk a)"
    using 1(2) by (subst init_links_prev) auto
  ultimately show ?case using 1 by simp
qed simp_all

lemma new_free_queue_rel:
  assumes "distinct bs"
  shows "free_rel (new_free_queue bs) bs"
proof (cases "bs = []")
  case True
  then show ?thesis by (simp add: free_rel_def new_free_queue_def Let_def)
next
  case False
  define q0 where "q0 = \<lparr>num_free_blocks = int (length bs), prev_free = (\<lambda>_. None), next_free = (\<lambda>_. None)\<rparr>"
  define q where "q = init_links bs q0"
  define q' where "q' = set_next (Blk (last bs)) (Some Tail)
             (set_prev Tail (Some (Blk (last bs)))
               (set_prev (Blk (hd bs)) (Some Head) (set_next Head (Some (Blk (hd bs))) q)))"
  have new: "new_free_queue bs = q'" using False by (simp add: new_free_queue_def q'_def q_def q0_def Let_def)
  have out: "next_free q n = None" if "n \<notin> Blk ` set (butlast bs)" for n
    using init_links_next[OF assms that, of q0] by (simp add: q_def q0_def)
  have inn: "prev_free q n = None" if "n \<notin> Blk ` set (tl bs)" for n
    using init_links_prev[OF assms that, of q0] by (simp add: q_def q0_def)
  have "chain q' (map Blk bs) = chain q (map Blk bs)"
  proof (rule chain_cong)
    fix a assume "a \<in> set (butlast (map Blk bs))"
    then have "a \<in> Blk ` set (butlast bs)" by (simp add: map_butlast flip: set_map)
    moreover have "last bs \<notin> set (butlast bs)" using assms False
      by (metis append_butlast_last_id distinct_butlast not_distinct_conv_prefix)
    ultimately show "next_free q' a = next_free q a" by (auto simp: q'_def)
  next
    fix a assume "a \<in> set (tl (map Blk bs))"
    then have "a \<in> Blk ` set (tl bs)" by (simp add: map_tl flip: set_map)
    moreover have "hd bs \<notin> set (tl bs)" using assms False by (metis distinct.simps(2) list.collapse)
    ultimately show "prev_free q' a = prev_free q a" by (auto simp: q'_def)
  qed
  then have mid: "chain q' (map Blk bs)" using init_links_chain[OF assms] by (simp add: q_def)
  have b1: "bs = hd bs # tl bs" and b2: "bs = butlast bs @ [last bs]" using False by simp_all
  have "chain q' (map Blk bs @ [Tail])"
  proof -
    have "map Blk bs @ [Tail] = map Blk (butlast bs) @ Blk (last bs) # [Tail]" using b2 by (metis append.assoc append_Cons append_Nil list.map(1,2) map_append)
    moreover have "chain q' (map Blk (butlast bs) @ [Blk (last bs)])" using mid b2 by (metis list.map(1,2) map_append)
    ultimately show ?thesis using chain_append[of q' "map Blk (butlast bs)" "Blk (last bs)" "[Tail]"]
      by (simp add: q'_def)
  qed
  moreover have "hd (map Blk bs @ [Tail]) = Blk (hd bs)" using False by (simp add: hd_append list.map_sel(1))
  ultimately have "chain q' (Head # map Blk bs @ [Tail])" unfolding chain_Cons by (simp add: q'_def)
  moreover have "\<forall>b. b \<notin> set bs \<longrightarrow> next_free q' (Blk b) = None \<and> prev_free q' (Blk b) = None"
  proof (intro allI impI)
    fix b assume b: "b \<notin> set bs"
    then have "b \<notin> set (butlast bs)" "b \<notin> set (tl bs)" by (auto dest: in_set_butlastD in_tlD)
    moreover have "b \<noteq> hd bs" "b \<noteq> last bs" using b False by auto
    ultimately show "next_free q' (Blk b) = None \<and> prev_free q' (Blk b) = None"
      using out[of "Blk b"] inn[of "Blk b"] by (auto simp: q'_def)
  qed
  ultimately show ?thesis unfolding new using assms False out[of Tail] inn[of Head]
    by (auto simp: free_rel_def q'_def q_def q0_def)
qed

section \<open>The contract\<close>

text \<open>A free list: what the block pool needs of its queue.\<close>

locale free_list =
  fixes rel :: "'q \<Rightarrow> 'b list \<Rightarrow> bool"
    and pop_many :: "nat \<Rightarrow> 'q \<Rightarrow> ('b list \<times> 'q) result"
    and remove_one :: "'b \<Rightarrow> 'q \<Rightarrow> 'q result"
    and append_many :: "'b list \<Rightarrow> 'q \<Rightarrow> 'q result"
    and valid :: "'b set"
  assumes rel_distinct: "rel q xs \<Longrightarrow> distinct xs"
    and pop_many: "rel q xs \<Longrightarrow> n \<le> length xs \<Longrightarrow>
      \<exists>q'. pop_many n q = Inr (take n xs, q') \<and> rel q' (drop n xs)"
    and pop_underflow: "rel q xs \<Longrightarrow> length xs < n \<Longrightarrow> pop_many n q = Inl AssertionError"
    and remove_one: "rel q xs \<Longrightarrow> b \<in> set xs \<Longrightarrow> \<exists>q'. remove_one b q = Inr q' \<and> rel q' (remove1 b xs)"
    and append_many: "rel q xs \<Longrightarrow> \<forall>b \<in> set bs. b \<in> valid \<Longrightarrow> distinct (xs @ bs) \<Longrightarrow>
      \<exists>q'. append_many bs q = Inr q' \<and> rel q' (xs @ bs)"
begin

text \<open>A successful pop: the popped blocks are the oldest, and they have left the list.\<close>

lemma pop_manyD:
  assumes "rel q xs" and "pop_many n q = Inr (bs, q')"
  shows "n \<le> length xs" and "bs = take n xs" and "rel q' (drop n xs)"
    and "set bs \<inter> set (drop n xs) = {}" and "distinct bs"
proof -
  show n: "n \<le> length xs"
  proof (rule ccontr)
    assume "\<not> n \<le> length xs"
    with pop_underflow[OF assms(1), of n] assms(2) show False by simp
  qed
  from pop_many[OF assms(1) n] assms(2) show "bs = take n xs" "rel q' (drop n xs)" by auto
  then show "set bs \<inter> set (drop n xs) = {}" "distinct bs"
    using rel_distinct[OF assms(1)] by (simp_all add: set_take_disj_set_drop_if_distinct)
qed

text \<open>Touching a block (remove, later append) makes it the last to be reused.\<close>

lemma touch_moves_to_back:
  assumes "rel q xs" and "b \<in> set xs" and "b \<in> valid"
  shows "\<exists>q1 q2. remove_one b q = Inr q1 \<and> append_many [b] q1 = Inr q2 \<and> rel q2 (remove1 b xs @ [b])"
proof -
  obtain q1 where q1: "remove_one b q = Inr q1" "rel q1 (remove1 b xs)"
    using remove_one[OF assms(1,2)] by blast
  have "distinct (remove1 b xs @ [b])" using rel_distinct[OF assms(1)] by simp
  from append_many[OF q1(2) _ this] assms(3) q1(1) show ?thesis by auto
qed

end

definition node_rel :: "free_queue \<Rightarrow> node list \<Rightarrow> bool" where
  "node_rel q ns \<longleftrightarrow> (\<exists>xs. ns = map Blk xs \<and> free_rel q xs)"

lemma distinct_map_Blk [simp]: "distinct (map Blk xs) \<longleftrightarrow> distinct xs"
  by (auto simp: distinct_map inj_on_def)

interpretation fl: free_list node_rel popleft_n remove_block append_n "range Blk"
proof unfold_locales
  fix q ns assume "node_rel q ns"
  then show "distinct ns" by (auto simp: node_rel_def dest: free_relD(1))
next
  fix q ns n assume "node_rel q ns" "n \<le> length ns"
  then show "\<exists>q'. popleft_n n q = Inr (take n ns, q') \<and> node_rel q' (drop n ns)"
    using popleft_n_rel by (fastforce simp: node_rel_def take_map drop_map)
next
  fix q ns n assume "node_rel q ns" "length ns < n"
  then show "popleft_n n q = Inl AssertionError" by (auto simp: node_rel_def popleft_n_underflow)
next
  fix q ns b assume r: "node_rel q ns" "b \<in> set ns"
  then obtain xs c where xs: "ns = map Blk xs" "free_rel q xs" "b = Blk c" "c \<in> set xs"
    by (auto simp: node_rel_def)
  moreover have "remove1 (Blk c) (map Blk xs) = map Blk (remove1 c xs)"
    by (induction xs) auto
  ultimately show "\<exists>q'. remove_block b q = Inr q' \<and> node_rel q' (remove1 b ns)"
    using remove_rel[OF xs(2,4)] by (auto simp: node_rel_def)
next
  fix q ns bs assume r: "node_rel q ns" "\<forall>b \<in> set bs. b \<in> range Blk" "distinct (ns @ bs)"
  then obtain xs where xs: "ns = map Blk xs" "free_rel q xs" by (auto simp: node_rel_def)
  obtain ys where ys: "bs = map Blk ys" using r(2) by (metis ex_map_conv rangeE)
  have "distinct (xs @ ys)" using r(3) distinct_map_Blk[of "xs @ ys"] by (simp add: xs ys)
  from append_n_rel[OF xs(2) this] show "\<exists>q'. append_n bs q = Inr q' \<and> node_rel q' (ns @ bs)"
    unfolding node_rel_def xs ys map_append[symmetric] by blast
qed

text \<open>
  C28. The linked list implements the list it stands for: from a queue that represents
  \<open>xs\<close>, taking from the front, taking \<open>n\<close> blocks, removing a block in the middle,
  appending and listing all do to the links what the list operations do to \<open>xs\<close>, keep
  the count of free blocks in step, and raise exactly when the list has no such block.
\<close>

theorem free_queue_refines_list:
  assumes "free_rel q xs"
  shows "get_all_free_blocks q = Inr (Some (map Blk xs))
    \<and> num_free_blocks q = int (length xs)
    \<and> (case xs of [] \<Rightarrow> popleft q = Inl ValueError
        | x # ys \<Rightarrow> \<exists>q'. popleft q = Inr (Blk x, q') \<and> free_rel q' ys)
    \<and> (if n \<le> length xs then \<exists>q'. popleft_n n q = Inr (map Blk (take n xs), q') \<and> free_rel q' (drop n xs)
       else popleft_n n q = Inl AssertionError)
    \<and> (if b \<in> set xs then \<exists>q'. remove_block (Blk b) q = Inr q' \<and> free_rel q' (remove1 b xs)
       else remove_block (Blk b) q = Inl RuntimeError)
    \<and> (b \<notin> set xs \<longrightarrow> (\<exists>q'. append_block (Blk b) q = Inr q' \<and> free_rel q' (xs @ [b])))
    \<and> (distinct (xs @ bs) \<longrightarrow> (\<exists>q'. append_n (map Blk bs) q = Inr q' \<and> free_rel q' (xs @ bs)))"
  using get_all_rel[OF assms] free_relD(2)[OF assms] popleft_empty popleft_rel assms
    popleft_n_rel[OF assms] popleft_n_underflow[OF assms] remove_rel[OF assms] remove_unlinked[OF assms]
    append_rel[OF assms] append_n_rel[OF assms]
  by (auto split: list.split)

theorem free_queue_refines_list_witness:
  "get_all_free_blocks (new_free_queue [0, 1, 2]) = Inr (Some [Blk 0, Blk 1, Blk 2])
   \<and> (\<exists>q'. remove_block (Blk 1) (new_free_queue [0, 1, 2]) = Inr q' \<and> free_rel q' [0, 2])
   \<and> (\<exists>q'. append_block (Blk 7) (new_free_queue [0, 1, 2]) = Inr q' \<and> free_rel q' [0, 1, 2, 7])"
proof -
  have r: "free_rel (new_free_queue [0, 1, 2]) [0, 1, 2]" by (rule new_free_queue_rel) simp
  from free_queue_refines_list[OF r, of 1 1 "[]"] free_queue_refines_list[OF r, of 1 7 "[]"]
  show ?thesis by simp
qed

end
