(* ===== verification/KV_Hash.thy ===== *)
theory KV_Hash
  imports Request_Model "HOL-Library.Countable"
begin

text \<open>
  Block hashes for prefix caching (\<open>vllm/v1/core/kv_cache_utils.py\<close>): the packing of
  a hash with its KV cache group, the extra keys of multimodal, LoRA, salted and embedding
  requests, the hash chain of a request, and the change of hash granularity. A byte is a
  natural number below 256. The hash function and the digest of embedding rows are
  parameters; so is \<open>NONE_HASH\<close>, a random value.
\<close>

type_synonym bytes = "nat list"

section \<open>Packing the group id\<close>

definition make_block_hash_with_group_id :: "bytes \<Rightarrow> int \<Rightarrow> bytes result" where
  "make_block_hash_with_group_id h g =
     (if 0 \<le> g \<and> g < 2 ^ 32
      then Inr (h @ map (\<lambda>k. nat (g div 256 ^ k mod 256)) [3, 2, 1, 0])
      else Inl OverflowError)"

definition get_block_hash :: "bytes \<Rightarrow> bytes" where
  "get_block_hash key = take (length key - 4) key"

definition from_bytes_big :: "bytes \<Rightarrow> int" where
  "from_bytes_big bs = foldl (\<lambda>a b. 256 * a + int b) 0 bs"

definition get_group_id :: "bytes \<Rightarrow> int" where
  "get_group_id key = from_bytes_big (drop (length key - 4) key)"

lemma from_bytes_big_four:
  "from_bytes_big [nat (x mod 256), nat (y mod 256), nat (z mod 256), nat (u mod 256)]
     = 256 * (256 * (256 * (x mod 256) + y mod 256) + z mod 256) + u mod 256"
  unfolding from_bytes_big_def by (simp only: foldl.simps) simp

lemma unpack_group_id:
  assumes "make_block_hash_with_group_id h g = Inr key"
  shows "get_block_hash key = h" and "get_group_id key = g"
proof -
  from assms have g: "0 \<le> g" "g < 2 ^ 32"
    and key: "key = h @ map (\<lambda>k. nat (g div 256 ^ k mod 256)) [3, 2, 1, 0]"
    by (auto simp: make_block_hash_with_group_id_def split: if_splits)
  show "get_block_hash key = h" by (simp add: get_block_hash_def key)
  have "256 * (256 * (256 * (g div 16777216 mod 256) + g div 65536 mod 256) + g div 256 mod 256)
      + g mod 256 = g"
  proof -
    define a b c where "a = g div 256" and "b = a div 256" and "c = b div 256"
    have d: "g div 65536 = b" "g div 16777216 = c"
      using zdiv_zmult2_eq[of 256 g 256] zdiv_zmult2_eq[of 256 g 65536]
        zdiv_zmult2_eq[of 256 a 256] by (simp_all add: a_def b_def c_def)
    have "256 * a + g mod 256 = g" "256 * b + a mod 256 = a" "256 * c + b mod 256 = b"
      unfolding a_def b_def c_def by (rule mult_div_mod_eq)+
    moreover have "c mod 256 = c"
    proof -
      have "0 \<le> c" "c < 256" using g d(2) by (simp_all add: pos_imp_zdiv_nonneg_iff div_less flip: d(2))
      then show ?thesis by simp
    qed
    ultimately show ?thesis unfolding d a_def[symmetric] by (simp only:)
  qed
  moreover have "get_group_id key = from_bytes_big
      [nat (g div 16777216 mod 256), nat (g div 65536 mod 256), nat (g div 256 mod 256), nat (g mod 256)]"
    unfolding get_group_id_def key by simp
  ultimately show "get_group_id key = g" by (simp only: from_bytes_big_four)
qed

section \<open>Extra keys\<close>

text \<open>The values of the extra key tuple: strings, (identifier, offset) pairs and bytes.\<close>

datatype extra_key = KStr string | KMM string int | KBytes bytes

definition need_extra_keys :: "request \<Rightarrow> bool" where
  "need_extra_keys r \<longleftrightarrow> mm_features r \<noteq> [] \<or> lora_request r \<noteq> None \<or> cache_salt r \<noteq> None"

text \<open>The loop, on the features from \<open>curr_mm_idx\<close> on.\<close>

fun mm_keys_loop :: "mm_feature list \<Rightarrow> int \<Rightarrow> int \<Rightarrow> int \<Rightarrow> extra_key list \<times> int" where
  "mm_keys_loop [] s e i = ([], i)"
| "mm_keys_loop (f # fs) s e i =
     (let off = offset (mm_position f); len = mm_length (mm_position f) in
      if e > off then
        if s \<ge> off + len then mm_keys_loop fs s e (i + 1)
        else if e \<ge> off + len then
          (case mm_keys_loop fs s e (i + 1) of (ks, j) \<Rightarrow> (KMM (mm_identifier f) (off - s) # ks, j))
        else ([KMM (mm_identifier f) (off - s)], i)
      else ([], i))"

definition gen_mm_extra_hash_keys ::
  "request \<Rightarrow> int \<Rightarrow> int \<Rightarrow> int \<Rightarrow> (extra_key list \<times> int) result" where
  "gen_mm_extra_hash_keys r s e start_mm_idx =
     (let fs = mm_features r in
      if fs = [] then Inr ([], start_mm_idx)
      else let lp = mm_position (last fs) in
        if offset lp + mm_length lp \<le> s then Inr ([], start_mm_idx)
        else bindE (assertE (start_mm_idx < 0 \<longrightarrow> - start_mm_idx \<le> int (length fs))) (\<lambda>_.
          let i = (if start_mm_idx < 0 then int (length fs) + start_mm_idx else start_mm_idx)
          in Inr (mm_keys_loop (drop (nat i) fs) s e i)))"

definition gen_lora_extra_hash_keys :: "request \<Rightarrow> extra_key list" where
  "gen_lora_extra_hash_keys r = (case lora_request r of None \<Rightarrow> [] | Some n \<Rightarrow> [KStr n])"

text \<open>\<open>digest\<close> is \<open>sha256\<close> of the bytes of the rows; the memo on the request
  returns the same value.\<close>

definition gen_prompt_embeds_extra_hash_keys ::
  "(int list \<Rightarrow> bytes) \<Rightarrow> request \<Rightarrow> int \<Rightarrow> int \<Rightarrow> extra_key list" where
  "gen_prompt_embeds_extra_hash_keys digest r s e = (case prompt_embeds r of
      None \<Rightarrow> []
    | Some rows \<Rightarrow> [KBytes (digest (take (nat e - nat s) (drop (nat s) rows)))])"

definition generate_block_hash_extra_keys ::
  "(int list \<Rightarrow> bytes) \<Rightarrow> request \<Rightarrow> int \<Rightarrow> int \<Rightarrow> int \<Rightarrow> (extra_key list option \<times> int) result" where
  "generate_block_hash_extra_keys digest r s e start_mm_idx =
     bindE (gen_mm_extra_hash_keys r s e start_mm_idx) (\<lambda>(mm, new_idx).
       let salt = (case cache_salt r of
             Some c \<Rightarrow> if s = 0 \<and> c \<noteq> [] then [KStr c] else [] | None \<Rightarrow> []);
           keys = gen_lora_extra_hash_keys r @ mm @ salt
                  @ gen_prompt_embeds_extra_hash_keys digest r s e
       in Inr (if keys = [] then None else Some keys, new_idx))"

section \<open>The hash chain\<close>

type_synonym hash_fun = "bytes \<times> int list \<times> extra_key list option \<Rightarrow> bytes"

definition hash_block_tokens ::
  "hash_fun \<Rightarrow> bytes \<Rightarrow> bytes option \<Rightarrow> int list \<Rightarrow> extra_key list option \<Rightarrow> bytes" where
  "hash_block_tokens H none_hash parent toks extra =
     H (case parent of None \<Rightarrow> none_hash | Some p \<Rightarrow> if p = [] then none_hash else p, toks, extra)"

text \<open>The \<open>while True\<close> of the hasher; \<open>None\<close> is a loop that never ends.\<close>

partial_function (option) hash_loop ::
  "hash_fun \<Rightarrow> bytes \<Rightarrow> (int list \<Rightarrow> bytes) \<Rightarrow> nat \<Rightarrow> request \<Rightarrow> nat \<Rightarrow> int \<Rightarrow> bytes option \<Rightarrow>
   bytes list result option" where
  "hash_loop H none_hash digest bs r start idx parent =
     (if start + bs > length (all_token_ids r) then Some (Inr [])
      else case generate_block_hash_extra_keys digest r (int start) (int (start + bs)) idx of
        Inl e \<Rightarrow> Some (Inl e)
      | Inr k \<Rightarrow>
          Option.bind (hash_loop H none_hash digest bs r (start + bs) (snd k)
              (Some (hash_block_tokens H none_hash parent (take bs (drop start (all_token_ids r))) (fst k))))
            (\<lambda>rest. Some (bindE rest (\<lambda>hs. Inr
              (hash_block_tokens H none_hash parent (take bs (drop start (all_token_ids r))) (fst k) # hs)))))"

definition request_block_hasher ::
  "hash_fun \<Rightarrow> bytes \<Rightarrow> (int list \<Rightarrow> bytes) \<Rightarrow> nat \<Rightarrow> request \<Rightarrow> bytes list result option" where
  "request_block_hasher H none_hash digest bs r =
     (let start = length (block_hashes r) * bs in
      if start + bs > length (all_token_ids r) then Some (Inr [])
      else hash_loop H none_hash digest bs r start (if start > 0 then - 1 else 0)
        (if block_hashes r = [] then None else Some (last (block_hashes r))))"

section \<open>Hash granularity\<close>

record block_hash_list =
  bhl_hashes :: "bytes list"
  scale_factor :: nat

definition new_block_hash_list :: "bytes list \<Rightarrow> nat \<Rightarrow> nat \<Rightarrow> block_hash_list result" where
  "new_block_hash_list hs hash_block_size target_block_size =
     (if hash_block_size = 0 then Inl ZeroDivisionError
      else bindE (assertE (target_block_size mod hash_block_size = 0)) (\<lambda>_. Inr
        \<lparr>bhl_hashes = hs, scale_factor = target_block_size div hash_block_size\<rparr>))"

definition bhl_len :: "block_hash_list \<Rightarrow> nat" where
  "bhl_len l = length (bhl_hashes l) div scale_factor l"

definition get_value_at :: "block_hash_list \<Rightarrow> nat \<Rightarrow> bytes" where
  "get_value_at l idx =
     concat (take (scale_factor l) (drop (idx * scale_factor l) (bhl_hashes l)))"

text \<open>\<open>list[i:]\<close>\<close>

definition bhl_from :: "block_hash_list \<Rightarrow> nat \<Rightarrow> bytes list" where
  "bhl_from l i = map (get_value_at l) [i..<bhl_len l]"

section \<open>Block sizes\<close>

record kv_group =
  is_mamba :: bool
  group_block_size :: int

definition resolve_kv_cache_block_sizes ::
  "kv_group list \<Rightarrow> int \<Rightarrow> int option \<Rightarrow> bool \<Rightarrow> bool \<Rightarrow> int \<Rightarrow> int \<Rightarrow> (int \<times> int) result" where
  "resolve_kv_cache_block_sizes groups block_size hash_block_size prefix_caching connector dcp pcp =
     (if length groups \<le> 1 then Inr (block_size * dcp * pcp, block_size * dcp * pcp)
      else if dcp \<noteq> 1 \<or> pcp \<noteq> 1 then Inl ValueError
      else let sizes = map group_block_size groups; sched = foldr lcm sizes 1 in
        if \<not> (prefix_caching \<or> connector) then Inr (sched, sched)
        else if \<exists>g \<in> set groups. is_mamba g \<and> group_block_size g \<noteq> block_size then Inr (sched, sched)
        else let h = (case hash_block_size of Some x \<Rightarrow> x | None \<Rightarrow> foldr gcd sizes 0) in
          if h = 0 then Inl ZeroDivisionError
          else if \<exists>b \<in> set sizes. b mod h \<noteq> 0 then Inl ValueError
          else Inr (sched, h))"

section \<open>Properties of the packing\<close>

lemma make_block_hash_ok: "0 \<le> g \<Longrightarrow> g < 2 ^ 32 \<Longrightarrow> \<exists>key. make_block_hash_with_group_id h g = Inr key"
  by (simp add: make_block_hash_with_group_id_def)

text \<open>
  Packing is a round trip: for a group id of 32 bits the packed key exists and both the
  hash and the group id are recovered from it.
\<close>

theorem block_hash_pack_roundtrip:
  assumes "0 \<le> g" and "g < 2 ^ 32"
  shows "\<exists>key. make_block_hash_with_group_id h g = Inr key
    \<and> get_block_hash key = h \<and> get_group_id key = g"
  using make_block_hash_ok[OF assms, of h] unpack_group_id by blast

theorem block_hash_pack_roundtrip_witness:
  "\<exists>key. make_block_hash_with_group_id [7, 8] 258 = Inr key \<and> get_block_hash key = [7, 8] \<and> get_group_id key = 258"
  by (rule block_hash_pack_roundtrip) simp_all

lemma make_block_hash_inj:
  "make_block_hash_with_group_id h g = Inr k \<Longrightarrow> make_block_hash_with_group_id h' g' = Inr k \<Longrightarrow> h = h' \<and> g = g'"
  using unpack_group_id by metis

section \<open>Multimodal keys against their specification\<close>

definition feature_end :: "mm_feature \<Rightarrow> int" where
  "feature_end f = offset (mm_position f) + mm_length (mm_position f)"

definition overlaps :: "int \<Rightarrow> int \<Rightarrow> mm_feature \<Rightarrow> bool" where
  "overlaps s e f \<longleftrightarrow> offset (mm_position f) < e \<and> s < feature_end f"

definition mm_key :: "int \<Rightarrow> mm_feature \<Rightarrow> extra_key" where
  "mm_key s f = KMM (mm_identifier f) (offset (mm_position f) - s)"

text \<open>Features in order and disjoint, as the input processor lays them out.\<close>

definition features_ordered :: "mm_feature list \<Rightarrow> bool" where
  "features_ordered fs \<longleftrightarrow> (\<forall>f \<in> set fs. 0 < mm_length (mm_position f))
     \<and> sorted_wrt (\<lambda>f g. feature_end f \<le> offset (mm_position g)) fs"

lemma mm_keys_loop_spec:
  assumes "features_ordered fs" and "s < e"
  shows "mm_keys_loop fs s e i
    = (map (mm_key s) (filter (overlaps s e) fs), i + int (length (takeWhile (\<lambda>f. feature_end f \<le> e) fs)))"
  using assms(1)
proof (induction fs arbitrary: i)
  case (Cons f fs)
  then have len: "0 < mm_length (mm_position f)" and ord: "features_ordered fs"
    and later: "\<forall>g \<in> set fs. feature_end f \<le> offset (mm_position g)"
    by (simp_all add: features_ordered_def)
  have none: "filter (overlaps s e) fs = []" if "e \<le> feature_end f"
    using later that by (auto simp: filter_empty_conv overlaps_def)
  define o1 where "o1 = offset (mm_position f)"
  define e1 where "e1 = feature_end f"
  have step: "mm_keys_loop (f # fs) s e i =
     (if e > o1 then
        if s \<ge> e1 then mm_keys_loop fs s e (i + 1)
        else if e \<ge> e1 then
          (case mm_keys_loop fs s e (i + 1) of (ks, j) \<Rightarrow> (mm_key s f # ks, j))
        else ([mm_key s f], i)
      else ([], i))"
    by (simp add: o1_def e1_def feature_end_def mm_key_def Let_def)
  have ov: "overlaps s e f \<longleftrightarrow> o1 < e \<and> s < e1" by (simp add: overlaps_def o1_def e1_def)
  have "o1 < e1" using len by (simp add: o1_def e1_def feature_end_def)
  then show ?case
    using none assms(2) unfolding step Cons.IH[OF ord] e1_def[symmetric]
    by (simp add: ov e1_def[symmetric])
qed simp

lemma filter_drop_takeWhile:
  assumes "features_ordered fs" and "i \<le> length (takeWhile (\<lambda>f. feature_end f \<le> s) fs)"
  shows "filter (overlaps s e) (drop i fs) = filter (overlaps s e) fs"
proof -
  have "\<not> overlaps s e f" if "f \<in> set (take i fs)" for f
  proof -
    have "take i fs = take i (takeWhile (\<lambda>f. feature_end f \<le> s) fs)"
      using assms(2) by (metis append_Nil2 diff_is_0_eq' take_0 take_append takeWhile_dropWhile_id)
    then have "f \<in> set (takeWhile (\<lambda>f. feature_end f \<le> s) fs)"
      using that by (metis in_set_takeD)
    then show ?thesis by (auto simp: overlaps_def dest: set_takeWhileD)
  qed
  then have "filter (overlaps s e) (take i fs) = []" by (auto simp: filter_empty_conv)
  then show ?thesis by (metis append_Nil append_take_drop_id filter_append)
qed

lemma features_ordered_drop: "features_ordered fs \<Longrightarrow> features_ordered (drop i fs)"
  by (auto simp: features_ordered_def sorted_wrt_drop dest: in_set_dropD)

lemma overlaps_last:
  assumes "features_ordered fs" and "fs \<noteq> []" and "feature_end (last fs) \<le> s"
  shows "filter (overlaps s e) fs = []"
proof -
  have "feature_end f \<le> s" if "f \<in> set fs" for f
  proof (cases "f = last fs")
    case False
    have "fs = butlast fs @ [last fs]" using assms(2) by simp
    then have "sorted_wrt (\<lambda>f g. feature_end f \<le> offset (mm_position g)) (butlast fs @ [last fs])"
      using assms(1) by (simp add: features_ordered_def)
    moreover have "f \<in> set (butlast fs)" using that False \<open>fs = butlast fs @ [last fs]\<close>
      by (metis Un_iff empty_iff empty_set insert_iff list.simps(15) set_append)
    ultimately have "feature_end f \<le> offset (mm_position (last fs))" by (auto simp: sorted_wrt_append)
    moreover have "0 < mm_length (mm_position (last fs))" using assms(1,2) by (simp add: features_ordered_def)
    ultimately show ?thesis using assms(3) by (simp add: feature_end_def)
  qed (use assms(3) in simp)
  then show ?thesis by (fastforce simp: filter_empty_conv overlaps_def not_less)
qed

text \<open>Where the search begins for an index, and when that is early enough: at or before the first
  input that has not ended by the start of the block.\<close>

definition search_from :: "mm_feature list \<Rightarrow> int \<Rightarrow> nat" where
  "search_from fs i = nat (if i < 0 then int (length fs) + i else i)"

definition index_ok :: "mm_feature list \<Rightarrow> int \<Rightarrow> int \<Rightarrow> bool" where
  "index_ok fs s i \<longleftrightarrow> fs = [] \<or> (- i \<le> int (length fs) \<and> search_from fs i \<le> length (takeWhile (\<lambda>f. feature_end f \<le> s) fs))"

lemma takeWhile_end_mono:
  "s \<le> e \<Longrightarrow> length (takeWhile (\<lambda>f. feature_end f \<le> s) fs) \<le> length (takeWhile (\<lambda>f. feature_end f \<le> e) fs)"
  by (induction fs) auto

lemma takeWhile_end_drop:
  "k \<le> length (takeWhile P fs) \<Longrightarrow> k + length (takeWhile P (drop k fs)) = length (takeWhile P fs)"
proof (induction fs arbitrary: k)
  case (Cons f fs)
  then show ?case by (cases k) (auto split: if_splits)
qed simp

text \<open>
  The multimodal keys of a block are exactly those of the inputs that overlap it, each
  with its offset relative to the block, in order, whenever the search starts early enough; the
  next search does so then, too.
\<close>

lemma mm_extra_keys_exact:
  assumes "features_ordered (mm_features r)" and "s < e" and "index_ok (mm_features r) s i"
  shows "\<exists>j. gen_mm_extra_hash_keys r s e i
    = Inr (map (mm_key s) (filter (overlaps s e) (mm_features r)), j) \<and> index_ok (mm_features r) e j"
proof -
  let ?fs = "mm_features r"
  let ?k = "search_from ?fs i"
  show ?thesis
  proof (cases "?fs = [] \<or> feature_end (last ?fs) \<le> s")
    case True
    then have "filter (overlaps s e) ?fs = []"
      using overlaps_last[OF assms(1), of s e] by (cases "?fs = []") simp_all
    moreover have "index_ok ?fs e i" using assms(2,3) takeWhile_end_mono[of s e ?fs] by (auto simp: index_ok_def)
    ultimately show ?thesis using True by (auto simp: gen_mm_extra_hash_keys_def feature_end_def Let_def)
  next
    case False
    then have k: "- i \<le> int (length ?fs)" "?k \<le> length (takeWhile (\<lambda>f. feature_end f \<le> s) ?fs)"
      using assms(3) by (simp_all add: index_ok_def)
    let ?j = "int ?k + int (length (takeWhile (\<lambda>f. feature_end f \<le> e) (drop ?k ?fs)))"
    have ke: "?k \<le> length (takeWhile (\<lambda>f. feature_end f \<le> e) ?fs)"
      using k(2) takeWhile_end_mono[of s e ?fs] assms(2) by simp
    then have "index_ok ?fs e ?j" using takeWhile_end_drop[OF ke] by (simp add: index_ok_def search_from_def nat_add_distrib)
    moreover have "gen_mm_extra_hash_keys r s e i = Inr (map (mm_key s) (filter (overlaps s e) ?fs), ?j)"
    proof -
      have "(if i < 0 then int (length ?fs) + i else i) = int ?k" using k(1) by (simp add: search_from_def)
      then show ?thesis
        using mm_keys_loop_spec[OF features_ordered_drop[OF assms(1)] assms(2), of ?k "int ?k"]
          filter_drop_takeWhile[OF assms(1) k(2), of e] k(1) False
        by (auto simp: gen_mm_extra_hash_keys_def feature_end_def Let_def)
    qed
    ultimately show ?thesis by blast
  qed
qed

text \<open>
  Starting the search at the last input (index -1), as the hasher does for every block
  after the first call, sees no input but the last: a block that ends before the last input
  gets no multimodal key, whatever other inputs it contains.
\<close>

theorem mm_keys_from_last_only:
  assumes "mm_features r \<noteq> []" and "e \<le> offset (mm_position (last (mm_features r)))"
    and "0 < mm_length (mm_position (last (mm_features r)))" and "s < e"
  shows "\<exists>j. gen_mm_extra_hash_keys r s e (- 1) = Inr ([], j)"
proof -
  let ?fs = "mm_features r"
  have d: "drop (nat (int (length ?fs) + - 1)) ?fs = [last ?fs]"
    using assms(1) by (cases ?fs rule: rev_cases) (simp_all add: nat_diff_distrib)
  have "1 \<le> int (length ?fs)" using assms(1) by (cases ?fs) simp_all
  then show ?thesis using assms unfolding gen_mm_extra_hash_keys_def Let_def d[simplified]
    by (simp add: d[simplified])
qed

definition ex_feature :: "string \<Rightarrow> int \<Rightarrow> mm_feature" where
  "ex_feature i off = \<lparr>modality = ''image'', mm_identifier = i,
     mm_position = \<lparr>offset = off, mm_length = 4, is_embed = None\<rparr>\<rparr>"

definition ex_mm_request :: request where
  "ex_mm_request = (text_request ''a'' 1 0 [1, 2, 3, 4, 5, 6, 7, 8])
     \<lparr>mm_features := [ex_feature ''x'' 0, ex_feature ''y'' 4]\<rparr>"

theorem mm_keys_from_last_only_witness:
  "(\<exists>j. gen_mm_extra_hash_keys ex_mm_request 0 4 (- 1) = Inr ([], j))
   \<and> filter (overlaps 0 4) (mm_features ex_mm_request) = [ex_feature ''x'' 0]"
  using mm_keys_from_last_only[of ex_mm_request 4 0]
  by (simp add: ex_mm_request_def ex_feature_def overlaps_def feature_end_def)

section \<open>The hash chain against its specification\<close>

text \<open>The chain over a list of blocks, each its tokens and extra keys.\<close>

fun chain_hashes :: "hash_fun \<Rightarrow> bytes \<Rightarrow> bytes option \<Rightarrow> (int list \<times> extra_key list option) list \<Rightarrow> bytes list" where
  "chain_hashes H nh parent [] = []"
| "chain_hashes H nh parent (b # bs) =
     (let h = hash_block_tokens H nh parent (fst b) (snd b) in h # chain_hashes H nh (Some h) bs)"

lemma length_chain_hashes [simp]: "length (chain_hashes H nh p bs) = length bs"
  by (induction bs arbitrary: p) (simp_all add: Let_def)

lemma chain_hashes_append:
  "chain_hashes H nh p (xs @ ys) = chain_hashes H nh p xs @
     chain_hashes H nh (if xs = [] then p else Some (last (chain_hashes H nh p xs))) ys"
proof (induction xs arbitrary: p)
  case (Cons x xs)
  then show ?case by (cases "xs = []") (simp_all add: Let_def, metis length_0_conv length_chain_hashes)
qed simp

text \<open>What belongs to block \<open>k\<close> of a request besides its tokens: the adapter, the multimodal
  inputs that overlap it with their offsets relative to the block, in the first block the salt,
  and the digest of the rows of the prompt embeddings.\<close>

definition block_keys :: "(int list \<Rightarrow> bytes) \<Rightarrow> nat \<Rightarrow> request \<Rightarrow> nat \<Rightarrow> extra_key list option" where
  "block_keys digest bs r k =
     (let s = int (k * bs); e = int (k * bs + bs);
          keys = (case lora_request r of None \<Rightarrow> [] | Some n \<Rightarrow> [KStr n])
            @ map (mm_key s) (filter (overlaps s e) (mm_features r))
            @ (case cache_salt r of Some c \<Rightarrow> if k = 0 \<and> c \<noteq> [] then [KStr c] else [] | None \<Rightarrow> [])
            @ (case prompt_embeds r of None \<Rightarrow> [] | Some rows \<Rightarrow> [KBytes (digest (take bs (drop (k * bs) rows)))])
      in if keys = [] then None else Some keys)"

definition full_blocks :: "(int list \<Rightarrow> bytes) \<Rightarrow> nat \<Rightarrow> request \<Rightarrow> (int list \<times> extra_key list option) list" where
  "full_blocks digest bs r =
     map (\<lambda>k. (take bs (drop (k * bs) (all_token_ids r)), block_keys digest bs r k))
       [0..<length (all_token_ids r) div bs]"

lemma generate_exact:
  assumes "features_ordered (mm_features r)" and "0 < bs" and "index_ok (mm_features r) (int (k * bs)) i"
  shows "\<exists>j. generate_block_hash_extra_keys digest r (int (k * bs)) (int (k * bs + bs)) i = Inr (block_keys digest bs r k, j)
    \<and> index_ok (mm_features r) (int (k * bs + bs)) j"
proof -
  have "int (k * bs) < int (k * bs + bs)" using assms(2) by simp
  from mm_extra_keys_exact[OF assms(1) this assms(3)] obtain j where
    j: "gen_mm_extra_hash_keys r (int (k * bs)) (int (k * bs + bs)) i
      = Inr (map (mm_key (int (k * bs))) (filter (overlaps (int (k * bs)) (int (k * bs + bs))) (mm_features r)), j)"
    and ok: "index_ok (mm_features r) (int (k * bs + bs)) j" by blast
  have emb: "gen_prompt_embeds_extra_hash_keys digest r (int (k * bs)) (int (k * bs + bs))
      = (case prompt_embeds r of None \<Rightarrow> [] | Some rows \<Rightarrow> [KBytes (digest (take bs (drop (k * bs) rows)))])"
    unfolding gen_prompt_embeds_extra_hash_keys_def nat_int by (simp split: option.split)
  have z: "int (k * bs) = 0 \<longleftrightarrow> k = 0" using assms(2) by simp
  have "generate_block_hash_extra_keys digest r (int (k * bs)) (int (k * bs + bs)) i = Inr (block_keys digest bs r k, j)"
    unfolding generate_block_hash_extra_keys_def j bindE_Inr prod.case emb z gen_lora_extra_hash_keys_def block_keys_def Let_def
    by simp
  with ok show ?thesis by blast
qed

lemma hash_loop_chain:
  assumes "features_ordered (mm_features r)" and "0 < bs" and "k \<le> length (all_token_ids r) div bs"
    and "index_ok (mm_features r) (int (k * bs)) i"
  shows "hash_loop H nh digest bs r (k * bs) i p
    = Some (Inr (chain_hashes H nh p (drop k (full_blocks digest bs r))))"
  using assms(3,4)
proof (induction "length (all_token_ids r) div bs - k" arbitrary: k i p)
  case 0
  then have k: "k = length (all_token_ids r) div bs" by simp
  then have "length (all_token_ids r) < k * bs + bs"
    using assms(2) by (metis add.commute dividend_less_times_div mult.commute mult_Suc)
  then show ?case by (subst hash_loop.simps) (simp add: full_blocks_def k)
next
  case (Suc n)
  let ?N = "length (all_token_ids r) div bs"
  have k: "k < ?N" using Suc.hyps(2) by simp
  then have "Suc k * bs \<le> length (all_token_ids r)"
    by (metis Suc_leI div_times_less_eq_dividend le_trans mult_le_mono1)
  then have in_range: "\<not> length (all_token_ids r) < k * bs + bs" by simp
  have blocks: "drop k (full_blocks digest bs r) =
     (take bs (drop (k * bs) (all_token_ids r)), block_keys digest bs r k) # drop (Suc k) (full_blocks digest bs r)"
    using k by (simp add: full_blocks_def Cons_nth_drop_Suc[symmetric])
  obtain j where gen: "generate_block_hash_extra_keys digest r (int (k * bs)) (int (k * bs + bs)) i = Inr (block_keys digest bs r k, j)"
    and ok: "index_ok (mm_features r) (int (k * bs + bs)) j" using generate_exact[OF assms(1,2) Suc.prems(2)] by blast
  have "hash_loop H nh digest bs r (k * bs + bs) j q
      = Some (Inr (chain_hashes H nh q (drop (Suc k) (full_blocks digest bs r))))" for q
    using Suc.hyps(1)[of "Suc k" j q] Suc.hyps(2) k ok by (simp add: add.commute)
  then show ?case
    by (subst hash_loop.simps) (simp add: in_range blocks Let_def gen[unfolded of_nat_add of_nat_mult])
qed

text \<open>
  A request whose recorded hashes are the chain of its first blocks. When some are recorded the
  hasher looks only at the last input, so the others have to end before the first block without
  a hash.
\<close>

definition recorded :: "hash_fun \<Rightarrow> bytes \<Rightarrow> (int list \<Rightarrow> bytes) \<Rightarrow> nat \<Rightarrow> request \<Rightarrow> bool" where
  "recorded H nh digest bs r \<longleftrightarrow> features_ordered (mm_features r)
     \<and> (\<exists>n. block_hashes r = take n (chain_hashes H nh None (full_blocks digest bs r)))
     \<and> (block_hashes r = [] \<or> (\<forall>f \<in> set (butlast (mm_features r)). feature_end f \<le> int (length (block_hashes r) * bs)))"

lemma recorded_index:
  assumes "recorded H nh digest bs r" "0 < bs"
  shows "index_ok (mm_features r) (int (length (block_hashes r) * bs)) (if 0 < length (block_hashes r) * bs then - 1 else 0)"
proof (cases "mm_features r = [] \<or> block_hashes r = []")
  case True
  then show ?thesis by (auto simp: index_ok_def search_from_def)
next
  case False
  let ?fs = "mm_features r" and ?s = "int (length (block_hashes r) * bs)"
  have all: "\<forall>f \<in> set (butlast ?fs). feature_end f \<le> ?s" using assms(1) False by (simp add: recorded_def)
  have split: "?fs = butlast ?fs @ [last ?fs]" using False by simp
  have "takeWhile (\<lambda>f. feature_end f \<le> ?s) (butlast ?fs @ [last ?fs])
      = butlast ?fs @ takeWhile (\<lambda>f. feature_end f \<le> ?s) [last ?fs]"
    by (rule takeWhile_append2) (use all in auto)
  then have "length (butlast ?fs) \<le> length (takeWhile (\<lambda>f. feature_end f \<le> ?s) ?fs)"
    using split by (metis le_add1 length_append)
  moreover have "1 \<le> int (length ?fs)" using False by (cases ?fs) simp_all
  ultimately show ?thesis using False assms(2) by (simp add: index_ok_def search_from_def nat_diff_distrib)
qed

text \<open>
  The hasher terminates and continues the chain: it returns exactly the hashes of
  the full blocks that are missing, so that recorded and new hashes together are the chain
  of all full blocks.
\<close>

lemma hasher_extends_chain:
  assumes "0 < bs" and "recorded H nh digest bs r"
  shows "\<exists>new. request_block_hasher H nh digest bs r = Some (Inr new)
    \<and> block_hashes r @ new = chain_hashes H nh None (full_blocks digest bs r)"
proof -
  obtain k where rec: "block_hashes r = take k (chain_hashes H nh None (full_blocks digest bs r))"
    and ord: "features_ordered (mm_features r)" using assms(2) unfolding recorded_def by blast
  let ?F = "full_blocks digest bs r" and ?n = "length (block_hashes r)"
  let ?N = "length (all_token_ids r) div bs"
  have F: "length ?F = ?N" by (simp add: full_blocks_def)
  have n: "?n \<le> ?N" using rec F by simp
  have split: "chain_hashes H nh None ?F = block_hashes r
      @ chain_hashes H nh (if block_hashes r = [] then None else Some (last (block_hashes r))) (drop ?n ?F)"
  proof -
    have app: "chain_hashes H nh None (take ?n ?F @ drop ?n ?F) = chain_hashes H nh None (take ?n ?F) @
       chain_hashes H nh (if take ?n ?F = [] then None else Some (last (chain_hashes H nh None (take ?n ?F)))) (drop ?n ?F)"
      by (rule chain_hashes_append)
    have pre: "chain_hashes H nh None (take ?n ?F) = block_hashes r"
    proof -
      have "take ?n (chain_hashes H nh None ?F) = block_hashes r" using rec by (simp add: min_def)
      moreover have "take ?n (chain_hashes H nh None (take ?n ?F @ drop ?n ?F)) = chain_hashes H nh None (take ?n ?F)"
        using n F by (subst chain_hashes_append) simp
      ultimately show ?thesis by simp
    qed
    have emp: "take ?n ?F = [] \<longleftrightarrow> block_hashes r = []"
    proof -
      have "length (take ?n ?F) = ?n" using n F by simp
      then show ?thesis by (metis length_0_conv)
    qed
    show ?thesis using app unfolding pre emp append_take_drop_id .
  qed
  show ?thesis
  proof (cases "length (all_token_ids r) < ?n * bs + bs")
    case True
    have "?N \<le> ?n"
    proof (rule ccontr)
      assume "\<not> ?N \<le> ?n"
      then have "Suc ?n * bs \<le> ?N * bs" by (intro mult_le_mono1) simp
      also have "\<dots> \<le> length (all_token_ids r)" by (rule div_times_less_eq_dividend)
      finally show False using True by simp
    qed
    then show ?thesis using True split F by (simp add: request_block_hasher_def Let_def)
  next
    case False
    then show ?thesis using split hash_loop_chain[OF ord assms(1) n recorded_index[OF assms(2,1)], of H nh digest]
      by (simp add: request_block_hasher_def Let_def)
  qed
qed

text \<open>
  With a hash function without collisions, whose values are not empty and never the seed
  \<open>NONE_HASH\<close>, a hash determines its whole prefix.
\<close>

definition collision_free :: "hash_fun \<Rightarrow> bytes \<Rightarrow> bool" where
  "collision_free H nh \<longleftrightarrow> inj H \<and> nh \<notin> range H \<and> [] \<notin> range H"

definition parent_ok :: "hash_fun \<Rightarrow> bytes option \<Rightarrow> bool" where
  "parent_ok H p \<longleftrightarrow> (\<forall>x. p = Some x \<longrightarrow> x \<in> range H)"

lemma parent_ok_simps [simp]: "parent_ok H None" "parent_ok H (Some x) \<longleftrightarrow> x \<in> range H"
  by (simp_all add: parent_ok_def)

lemma hash_block_tokens_inj:
  assumes "collision_free H nh" and p: "parent_ok H p" and q: "parent_ok H q"
    and eq: "hash_block_tokens H nh p t k = hash_block_tokens H nh q u l"
  shows "p = q \<and> t = u \<and> k = l"
proof -
  define v where "v = (\<lambda>p. case p of None \<Rightarrow> nh | Some x \<Rightarrow> if x = [] then nh else x)"
  have "H (v p, t, k) = H (v q, u, l)" using eq by (simp add: hash_block_tokens_def v_def)
  then have "(v p, t, k) = (v q, u, l)" using assms(1) unfolding collision_free_def by (blast dest: injD)
  moreover have "v x = (case x of None \<Rightarrow> nh | Some y \<Rightarrow> y)" if "parent_ok H x" for x
    using assms(1) that by (auto simp: v_def collision_free_def split: option.split)
  ultimately have "(case p of None \<Rightarrow> nh | Some y \<Rightarrow> y) = (case q of None \<Rightarrow> nh | Some y \<Rightarrow> y)" "t = u" "k = l"
    using p q by simp_all
  moreover have "nh \<notin> range H" using assms(1) by (simp add: collision_free_def)
  ultimately show ?thesis using p q by (cases p; cases q) simp_all
qed

lemma hash_block_tokens_range: "hash_block_tokens H nh p t k \<in> range H"
  unfolding hash_block_tokens_def by (rule rangeI)

lemma chain_hashes_nth_in_range: "i < length bs \<Longrightarrow> chain_hashes H nh p bs ! i \<in> range H"
proof (induction bs arbitrary: p i)
  case (Cons b bs)
  then show ?case by (cases i) (simp_all add: Let_def hash_block_tokens_range)
qed simp

lemma chain_hashes_nth_Suc:
  "Suc i < length bs \<Longrightarrow> chain_hashes H nh p bs ! Suc i
     = hash_block_tokens H nh (Some (chain_hashes H nh p bs ! i)) (fst (bs ! Suc i)) (snd (bs ! Suc i))"
proof (induction bs arbitrary: p i)
  case (Cons b bs)
  show ?case
  proof (cases i)
    case 0
    with Cons.prems obtain c cs where "bs = c # cs" by (cases bs) auto
    with 0 show ?thesis by (simp add: Let_def)
  next
    case (Suc j)
    with Cons show ?thesis by (simp add: Let_def)
  qed
qed simp

lemma chain_hashes_nth_0:
  "bs \<noteq> [] \<Longrightarrow> chain_hashes H nh p bs ! 0 = hash_block_tokens H nh p (fst (bs ! 0)) (snd (bs ! 0))"
  by (cases bs) (simp_all add: Let_def)

lemma chain_hashes_inj:
  assumes cf: "collision_free H nh"
  shows "i < length xs \<Longrightarrow> j < length ys \<Longrightarrow>
    chain_hashes H nh None xs ! i = chain_hashes H nh None ys ! j \<Longrightarrow>
    i = j \<and> take (Suc i) xs = take (Suc j) ys"
proof (induction i arbitrary: j)
  case 0
  then have "xs \<noteq> []" by auto
  note i0 = chain_hashes_nth_0[OF this, of H nh None]
  show ?case
  proof (cases j)
    case z: 0
    with 0 have "ys \<noteq> []" by auto
    from 0 z i0 chain_hashes_nth_0[OF this, of H nh None]
    have "fst (xs ! 0) = fst (ys ! 0) \<and> snd (xs ! 0) = snd (ys ! 0)"
      using hash_block_tokens_inj[OF cf, of None None "fst (xs ! 0)" "snd (xs ! 0)" "fst (ys ! 0)" "snd (ys ! 0)"]
      by simp
    with 0 z show ?thesis by (simp add: take_Suc_conv_app_nth prod_eq_iff)
  next
    case (Suc k)
    with 0 have "chain_hashes H nh None ys ! k \<in> range H" by (intro chain_hashes_nth_in_range) simp
    then show ?thesis
      using 0 i0 Suc chain_hashes_nth_Suc[of k ys H nh None]
        hash_block_tokens_inj[OF cf, of None "Some (chain_hashes H nh None ys ! k)"] by fastforce
  qed
next
  case (Suc i)
  have x: "chain_hashes H nh None xs ! i \<in> range H"
    using Suc.prems(1) by (intro chain_hashes_nth_in_range) simp
  note s = chain_hashes_nth_Suc[OF Suc.prems(1), of H nh None]
  show ?case
  proof (cases j)
    case 0
    with Suc.prems have "ys \<noteq> []" by auto
    from chain_hashes_nth_0[OF this, of H nh None] show ?thesis
      using Suc.prems s x 0 hash_block_tokens_inj[OF cf, of "Some (chain_hashes H nh None xs ! i)" None]
      by fastforce
  next
    case (Suc k)
    have y: "chain_hashes H nh None ys ! k \<in> range H"
      using Suc.prems(2) Suc by (intro chain_hashes_nth_in_range) simp
    have eq: "Some (chain_hashes H nh None xs ! i) = Some (chain_hashes H nh None ys ! k)
        \<and> fst (xs ! Suc i) = fst (ys ! j) \<and> snd (xs ! Suc i) = snd (ys ! j)"
      using Suc.prems(2,3) s chain_hashes_nth_Suc[of k ys H nh None] Suc x y
      by (intro hash_block_tokens_inj[OF cf]) simp_all
    have "i = k \<and> take (Suc i) xs = take (Suc k) ys"
      by (rule Suc.IH) (use eq Suc.prems(1,2) Suc in simp_all)
    then have "i = k" and "take (Suc i) xs = take (Suc k) ys" by blast+
    moreover have "take (Suc (Suc i)) xs = take (Suc i) xs @ [xs ! Suc i]"
        "take (Suc j) ys = take (Suc k) ys @ [ys ! j]"
      using Suc.prems(1,2) Suc by (simp_all add: take_Suc_conv_app_nth)
    ultimately show ?thesis using eq Suc by (simp add: prod_eq_iff)
  qed
qed


text \<open>
  The strings of the tuple carry no tag: a LoRA name and a cache salt of the same text give
  a first block the same keys.
\<close>

lemma lora_salt_keys_collide:
  assumes "mm_features r = []" "prompt_embeds r = None" and "n \<noteq> []"
  shows "block_keys digest bs (r\<lparr>lora_request := Some n, cache_salt := None\<rparr>) 0
       = block_keys digest bs (r\<lparr>lora_request := None, cache_salt := Some n\<rparr>) 0"
  using assms by (simp add: block_keys_def gen_lora_extra_hash_keys_def gen_prompt_embeds_extra_hash_keys_def)

text \<open>
  Prefix caching confuses a LoRA with a salt: for a request without multimodal inputs or
  embeddings, the first block of a LoRA request named \<open>n\<close> has the same hash as that of a
  base model request with the same tokens and cache salt \<open>n\<close>, whatever the hash function.
\<close>

theorem lora_salt_hash_collision:
  assumes "mm_features r = []" "prompt_embeds r = None" and "n \<noteq> []"
    and "0 < bs" "bs \<le> length (all_token_ids r)"
  shows "chain_hashes H nh None (full_blocks digest bs (r\<lparr>lora_request := Some n, cache_salt := None\<rparr>)) ! 0
       = chain_hashes H nh None (full_blocks digest bs (r\<lparr>lora_request := None, cache_salt := Some n\<rparr>)) ! 0"
proof -
  have "0 < length (all_token_ids r) div bs" using assms(4,5) by (simp add: div_greater_zero_iff)
  then have "[0..<length (all_token_ids r) div bs] = 0 # [1..<length (all_token_ids r) div bs]"
    by (simp add: upt_conv_Cons)
  then show ?thesis using lora_salt_keys_collide[OF assms(1-3)]
    by (simp add: full_blocks_def Let_def)
qed

section \<open>Resolved block sizes\<close>

lemma foldr_lcm_dvd: "(b :: int) \<in> set bs \<Longrightarrow> b dvd foldr lcm bs 1"
  by (induction bs) (auto intro: dvd_lcmI2)

lemma foldr_gcd_dvd: "(b :: int) \<in> set bs \<Longrightarrow> foldr gcd bs 0 dvd b"
  by (induction bs) (auto intro: gcd_dvdI2)

lemma foldr_gcd_pos: "\<forall>b \<in> set bs. (0 :: int) < b \<Longrightarrow> bs \<noteq> [] \<Longrightarrow> foldr gcd bs 0 > 0"
  by (induction bs) (auto simp: gcd_pos_int)

text \<open>
  With several KV cache groups of positive block size, resolution succeeds whenever no
  context parallelism and no hash block size is configured, and the scheduler's block size
  is a multiple of every group's block size and of the hash block size.
\<close>

theorem resolved_sizes_divide:
  assumes "2 \<le> length groups" and "\<forall>g \<in> set groups. 0 < group_block_size g"
  shows "\<exists>s h. resolve_kv_cache_block_sizes groups b None pc conn 1 1 = Inr (s, h)
    \<and> (\<forall>g \<in> set groups. group_block_size g dvd s) \<and> h dvd s"
proof -
  let ?sizes = "map group_block_size groups"
  have ne: "?sizes \<noteq> []" using assms(1) by auto
  have pos: "0 < foldr gcd ?sizes 0" using foldr_gcd_pos[of ?sizes] assms(2) ne by simp
  have sched: "\<forall>g \<in> set groups. group_block_size g dvd foldr lcm ?sizes 1"
    using foldr_lcm_dvd[of _ ?sizes] by auto
  have div: "\<forall>x \<in> set ?sizes. x mod foldr gcd ?sizes 0 = 0"
    using foldr_gcd_dvd[of _ ?sizes] by (auto simp: dvd_eq_mod_eq_0)
  obtain g where g: "g \<in> set groups" using assms(1) by (cases groups) auto
  have "foldr gcd ?sizes 0 dvd group_block_size g" using foldr_gcd_dvd[of _ ?sizes] g by auto
  then have "foldr gcd ?sizes 0 dvd foldr lcm ?sizes 1" using sched g dvd_trans by blast
  then show ?thesis using assms(1) sched div pos
    by (auto simp: resolve_kv_cache_block_sizes_def Let_def)
qed

section \<open>Concrete instances\<close>

instance extra_key :: countable
  by countable_datatype

text \<open>A hash without collisions: the number of the triple behind a marker byte.\<close>

definition ex_hash :: hash_fun where
  "ex_hash x = [1, to_nat x]"

lemma ex_hash_collision_free: "collision_free ex_hash [0]"
  by (auto simp: collision_free_def ex_hash_def inj_def)

definition ex_request :: request where
  "ex_request = text_request ''a'' 1 0 [1, 2, 3, 4, 5]"

definition ex_request2 :: request where
  "ex_request2 = text_request ''b'' 1 0 [1, 2, 3, 4, 9, 9]"

lemma ex_full_blocks:
  "full_blocks (\<lambda>_. []) 2 ex_request = [([1, 2], None), ([3, 4], None)]"
  "full_blocks (\<lambda>_. []) 2 ex_request2 = [([1, 2], None), ([3, 4], None), ([9, 9], None)]"
  by code_simp+

lemma ex_recorded: "recorded ex_hash [0] (\<lambda>_. []) 2 ex_request" "recorded ex_hash [0] (\<lambda>_. []) 2 ex_request2"
  by (auto simp: recorded_def features_ordered_def ex_request_def ex_request2_def text_request_def intro: exI[of _ 0])


theorem lora_salt_hash_collision_witness:
  "chain_hashes ex_hash [0] None (full_blocks (\<lambda>_. []) 2 (ex_request\<lparr>lora_request := Some ''n'', cache_salt := None\<rparr>)) ! 0
   = chain_hashes ex_hash [0] None (full_blocks (\<lambda>_. []) 2 (ex_request\<lparr>lora_request := None, cache_salt := Some ''n''\<rparr>)) ! 0"
  by (rule lora_salt_hash_collision) (simp_all add: ex_request_def text_request_def)

theorem resolved_sizes_divide_witness:
  "\<exists>s h. resolve_kv_cache_block_sizes [\<lparr>is_mamba = False, group_block_size = 16\<rparr>,
       \<lparr>is_mamba = False, group_block_size = 24\<rparr>] 16 None True False 1 1 = Inr (s, h)
    \<and> (\<forall>g \<in> set [\<lparr>is_mamba = False, group_block_size = 16\<rparr>, \<lparr>is_mamba = False, group_block_size = 24\<rparr>].
         group_block_size g dvd s) \<and> h dvd s"
  by (rule resolved_sizes_divide) simp_all

end
