(* ===== verification/Block_Pool.thy ===== *)
theory Block_Pool
  imports Block_Queue KV_Hash
begin

text \<open>
  \<open>vllm/v1/core/block_pool.py\<close>: the pool of KV cache blocks. A block is named by its
  id; its attributes (\<open>KVCacheBlock\<close> without the links, which are in the free queue) are
  in the map \<open>blk\<close>. \<open>BlockHashToBlockMap\<close> is a map from packed hashes to one block
  or a dict of blocks in insertion order; its contract is the locale \<open>block_map\<close>. The
  metrics collector only records samples and is left out, as is the LoRA adapter number in
  the event of a stored block.
\<close>

section \<open>State\<close>

record kv_block =
  ref_cnt :: int
  blk_hash :: "bytes option"
  is_null :: bool

datatype cache_entry = OneBlock nat | BlockDict "nat list"

type_synonym hash_map = "bytes \<rightharpoonup> cache_entry"

datatype ext_hash = HBytes bytes | HInt int

record stored_event =
  st_hashes :: "ext_hash list"
  st_parent :: "ext_hash option"
  st_tokens :: "int list"
  st_block_size :: nat
  st_lora :: "string option"
  st_extra :: "extra_key list option list option"
  st_group :: int

datatype kv_event =
    BlockStored stored_event
  | BlockRemoved ext_hash int
  | AllBlocksCleared

record block_pool =
  num_gpu_blocks :: nat
  enable_caching :: bool
  hash_block_size :: nat
  blk :: "nat \<Rightarrow> kv_block"
  free_block_queue :: free_queue
  cached :: hash_map
  null_block :: nat
  enable_kv_cache_events :: bool
  use_int_hashes :: bool
  kv_event_queue :: "kv_event list"

definition maybe_convert_block_hash :: "bool \<Rightarrow> bytes \<Rightarrow> ext_hash" where
  "maybe_convert_block_hash ints h =
     (if \<not> ints then HBytes h else HInt (from_bytes_big h mod 2 ^ 64))"

text \<open>The setter of \<open>block_hash\<close> refuses a second hash.\<close>

definition set_block_hash :: "bytes \<Rightarrow> kv_block \<Rightarrow> kv_block result" where
  "set_block_hash h b = bindE (assertE (blk_hash b = None)) (\<lambda>_. Inr (b\<lparr>blk_hash := Some h\<rparr>))"

definition reset_hash :: "kv_block \<Rightarrow> kv_block" where
  "reset_hash b = b\<lparr>blk_hash := None\<rparr>"

section \<open>The map from hashes to blocks\<close>

definition get_one_block :: "hash_map \<Rightarrow> bytes \<Rightarrow> nat option result" where
  "get_one_block m key = (case m key of
      None \<Rightarrow> Inr None
    | Some (OneBlock b) \<Rightarrow> Inr (Some b)
    | Some (BlockDict bs) \<Rightarrow> if bs = [] then Inl StopIteration else Inr (Some (hd bs)))"

definition dict_add :: "nat \<Rightarrow> nat list \<Rightarrow> nat list" where
  "dict_add b bs = (if b \<in> set bs then bs else bs @ [b])"

definition map_insert :: "bytes \<Rightarrow> nat \<Rightarrow> hash_map \<Rightarrow> hash_map" where
  "map_insert key b m = (case m key of
      None \<Rightarrow> m(key \<mapsto> OneBlock b)
    | Some (OneBlock c) \<Rightarrow> m(key \<mapsto> BlockDict (dict_add b [c]))
    | Some (BlockDict bs) \<Rightarrow> m(key \<mapsto> BlockDict (dict_add b bs)))"

definition map_pop :: "bytes \<Rightarrow> nat \<Rightarrow> hash_map \<Rightarrow> nat option \<times> hash_map" where
  "map_pop key block_id m = (case m key of
      None \<Rightarrow> (None, m(key := None))
    | Some (OneBlock b) \<Rightarrow>
        if b = block_id then (Some b, m(key := None)) else (None, m(key \<mapsto> OneBlock b))
    | Some (BlockDict bs) \<Rightarrow>
        let bs' = remove1 block_id bs in
        (if block_id \<in> set bs then Some block_id else None,
         if bs' \<noteq> [] then m(key \<mapsto> BlockDict bs') else m(key := None)))"

text \<open>Its contract: a multimap from keys to finite sets of blocks.\<close>

fun entry_blocks :: "cache_entry option \<Rightarrow> nat set" where
  "entry_blocks None = {}"
| "entry_blocks (Some (OneBlock b)) = {b}"
| "entry_blocks (Some (BlockDict bs)) = set bs"

definition map_ok :: "hash_map \<Rightarrow> bool" where
  "map_ok m \<longleftrightarrow> (\<forall>k bs. m k = Some (BlockDict bs) \<longrightarrow> bs \<noteq> [] \<and> distinct bs)"

locale block_map =
  fixes blocks_of :: "'m \<Rightarrow> 'k \<Rightarrow> 'b set"
    and ok :: "'m \<Rightarrow> bool"
    and get_one :: "'m \<Rightarrow> 'k \<Rightarrow> 'b option result"
    and ins :: "'k \<Rightarrow> 'b \<Rightarrow> 'm \<Rightarrow> 'm"
    and pop :: "'k \<Rightarrow> 'b \<Rightarrow> 'm \<Rightarrow> 'b option \<times> 'm"
  assumes ok_ins: "ok m \<Longrightarrow> ok (ins k b m)"
    and ok_pop: "ok m \<Longrightarrow> ok (snd (pop k b m))"
    and blocks_ins: "blocks_of (ins k b m) k' = (if k' = k then insert b (blocks_of m k) else blocks_of m k')"
    and blocks_pop: "ok m \<Longrightarrow>
      blocks_of (snd (pop k b m)) k' = (if k' = k then blocks_of m k - {b} else blocks_of m k')"
    and pop_result: "fst (pop k b m) = (if b \<in> blocks_of m k then Some b else None)"
    and get_one_None: "ok m \<Longrightarrow> blocks_of m k = {} \<Longrightarrow> get_one m k = Inr None"
    and get_one_Some: "ok m \<Longrightarrow> blocks_of m k \<noteq> {} \<Longrightarrow> \<exists>b \<in> blocks_of m k. get_one m k = Inr (Some b)"
begin

lemma get_one_total: "ok m \<Longrightarrow> \<exists>x. get_one m k = Inr x \<and> (\<forall>b. x = Some b \<longrightarrow> b \<in> blocks_of m k)"
  using get_one_None[of m k] get_one_Some[of m k] by (cases "blocks_of m k = {}") auto

lemma pop_inserted:
  assumes "ok m" and "b \<notin> blocks_of m k"
  shows "blocks_of (snd (pop k b (ins k b m))) = blocks_of m"
    and "fst (pop k b (ins k b m)) = Some b"
  using assms blocks_pop[OF ok_ins[OF assms(1)]] by (auto simp: blocks_ins pop_result fun_eq_iff)

end

lemma remove1_Nil_set: "distinct xs \<Longrightarrow> remove1 b xs = [] \<longleftrightarrow> set xs \<subseteq> {b}"
  by (metis Diff_eq_empty_iff set_empty set_remove1_eq)

interpretation bm: block_map "\<lambda>m k. entry_blocks (m k)" map_ok get_one_block map_insert map_pop
proof unfold_locales
  fix m k b assume "map_ok m"
  then show "map_ok (map_insert k b m)" "map_ok (snd (map_pop k b m))"
    by (auto simp: map_ok_def map_insert_def map_pop_def dict_add_def Let_def
        split: option.splits cache_entry.splits if_splits)
next
  fix m k b k'
  show "entry_blocks (map_insert k b m k') = (if k' = k then insert b (entry_blocks (m k)) else entry_blocks (m k'))"
    by (auto simp: map_insert_def dict_add_def split: option.splits cache_entry.splits)
next
  fix m k b k' assume "map_ok m"
  then show "entry_blocks (snd (map_pop k b m) k') = (if k' = k then entry_blocks (m k) - {b} else entry_blocks (m k'))"
    using remove1_Nil_set[of _ b]
    by (auto simp: map_pop_def map_ok_def Let_def split: option.splits cache_entry.splits)
next
  fix m :: hash_map and k b
  show "fst (map_pop k b m) = (if b \<in> entry_blocks (m k) then Some b else None)"
    by (auto simp: map_pop_def Let_def split: option.splits cache_entry.splits)
next
  fix m k assume "map_ok m" "entry_blocks (m k) = {}"
  then show "get_one_block m k = Inr None"
    by (auto simp: get_one_block_def map_ok_def split: option.splits cache_entry.splits)
next
  fix m k assume "map_ok m" "entry_blocks (m k) \<noteq> {}"
  then show "\<exists>b \<in> entry_blocks (m k). get_one_block m k = Inr (Some b)"
    by (auto simp: get_one_block_def map_ok_def split: option.splits cache_entry.splits)
qed

section \<open>The pool\<close>

text \<open>The real blocks among the nodes the free queue returns (the fake ones never leave it).\<close>

definition node_ids :: "node list \<Rightarrow> nat list" where
  "node_ids ns = concat (map (\<lambda>n. case n of Blk b \<Rightarrow> [b] | _ \<Rightarrow> []) ns)"

definition new_block_pool :: "nat \<Rightarrow> bool \<Rightarrow> nat \<Rightarrow> bool \<Rightarrow> bool \<Rightarrow> block_pool result" where
  "new_block_pool n caching hash_bs kv_events ints =
     bindE (assertE (0 < n)) (\<lambda>_.
     bindE (popleft (new_free_queue [0..<n])) (\<lambda>(nd, q).
       let nb = hd (node_ids [nd]) in Inr
       \<lparr>num_gpu_blocks = n, enable_caching = caching, hash_block_size = hash_bs,
        blk = (\<lambda>b. \<lparr>ref_cnt = 0, blk_hash = None, is_null = (b = nb)\<rparr>),
        free_block_queue = q, cached = Map.empty, null_block = nb,
        enable_kv_cache_events = kv_events, use_int_hashes = ints, kv_event_queue = []\<rparr>))"

definition set_blk :: "nat \<Rightarrow> kv_block \<Rightarrow> block_pool \<Rightarrow> block_pool" where
  "set_blk b x p = p\<lparr>blk := (blk p)(b := x)\<rparr>"

definition add_event :: "kv_event \<Rightarrow> block_pool \<Rightarrow> block_pool" where
  "add_event ev p =
     (if enable_kv_cache_events p then p\<lparr>kv_event_queue := kv_event_queue p @ [ev]\<rparr> else p)"

fun get_cached_block :: "bytes \<Rightarrow> int list \<Rightarrow> block_pool \<Rightarrow> nat list option result" where
  "get_cached_block h [] p = Inr (Some [])"
| "get_cached_block h (g # gs) p =
     bindE (make_block_hash_with_group_id h g) (\<lambda>key.
     bindE (get_one_block (cached p) key) (\<lambda>x. case x of
         None \<Rightarrow> Inr None
       | Some b \<Rightarrow> bindE (get_cached_block h gs p) (\<lambda>rest. Inr (map_option ((#) b) rest))))"

definition get_num_free_blocks :: "block_pool \<Rightarrow> int" where
  "get_num_free_blocks p = num_free_blocks (free_block_queue p)"

definition maybe_evict_cached_block :: "nat \<Rightarrow> block_pool \<Rightarrow> bool \<times> block_pool" where
  "maybe_evict_cached_block b p = (case blk_hash (blk p b) of
      None \<Rightarrow> (False, p)
    | Some key \<Rightarrow> (case map_pop key b (cached p) of
          (None, m) \<Rightarrow> (False, p\<lparr>cached := m\<rparr>)
        | (Some _, m) \<Rightarrow>
            (True, add_event (BlockRemoved (maybe_convert_block_hash (use_int_hashes p) (get_block_hash key))
                       (get_group_id key))
                     (set_blk b (reset_hash (blk p b)) (p\<lparr>cached := m\<rparr>)))))"

text \<open>The loop of \<open>get_new_blocks\<close>, in its two variants.\<close>

definition take_block :: "nat \<Rightarrow> block_pool \<Rightarrow> block_pool result" where
  "take_block b p =
     (let p1 = (if enable_caching p then snd (maybe_evict_cached_block b p) else p) in
      bindE (assertE (ref_cnt (blk p1 b) = 0)) (\<lambda>_.
        Inr (set_blk b ((blk p1 b)\<lparr>ref_cnt := ref_cnt (blk p1 b) + 1\<rparr>) p1)))"

definition get_new_blocks :: "nat \<Rightarrow> block_pool \<Rightarrow> (nat list \<times> block_pool) result" where
  "get_new_blocks n p =
     (if int n > get_num_free_blocks p then Inl ValueError
      else bindE (popleft_n n (free_block_queue p)) (\<lambda>(ns, q).
        bindE (foldE take_block (node_ids ns) (p\<lparr>free_block_queue := q\<rparr>)) (\<lambda>p'.
          Inr (node_ids ns, p'))))"

definition touch_one :: "nat \<Rightarrow> block_pool \<Rightarrow> block_pool result" where
  "touch_one b p =
     bindE (if ref_cnt (blk p b) = 0 \<and> \<not> is_null (blk p b)
            then bindE (remove_block (Blk b) (free_block_queue p)) (\<lambda>q. Inr (p\<lparr>free_block_queue := q\<rparr>))
            else Inr p) (\<lambda>p1.
       Inr (set_blk b ((blk p1 b)\<lparr>ref_cnt := ref_cnt (blk p1 b) + 1\<rparr>) p1))"

definition touch :: "nat list \<Rightarrow> block_pool \<Rightarrow> block_pool result" where
  "touch bs p = foldE touch_one bs p"

definition decr_ref :: "nat \<Rightarrow> block_pool \<Rightarrow> block_pool" where
  "decr_ref b p = set_blk b ((blk p b)\<lparr>ref_cnt := ref_cnt (blk p b) - 1\<rparr>) p"

definition free_blocks :: "nat list \<Rightarrow> block_pool \<Rightarrow> block_pool result" where
  "free_blocks bs p =
     (let p1 = fold decr_ref bs p in
      bindE (append_n (map Blk (filter (\<lambda>b. ref_cnt (blk p1 b) = 0 \<and> \<not> is_null (blk p1 b)) bs))
               (free_block_queue p1)) (\<lambda>q.
        Inr (p1\<lparr>free_block_queue := q\<rparr>)))"

text \<open>The set of ids is given in its iteration order.\<close>

definition evict_one :: "nat \<Rightarrow> block_pool \<Rightarrow> block_pool result" where
  "evict_one b p = bindE (assertE (b < num_gpu_blocks p)) (\<lambda>_. Inr (snd (maybe_evict_cached_block b p)))"

definition evict_blocks :: "nat list \<Rightarrow> block_pool \<Rightarrow> block_pool result" where
  "evict_blocks ids p = foldE evict_one ids p"

definition pool_reset_prefix_cache :: "block_pool \<Rightarrow> bool \<times> block_pool" where
  "pool_reset_prefix_cache p =
     (if int (num_gpu_blocks p) - get_num_free_blocks p \<noteq> 1 then (False, p)
      else (True, add_event AllBlocksCleared
        (p\<lparr>cached := Map.empty,
           blk := (\<lambda>b. if b < num_gpu_blocks p then reset_hash (blk p b) else blk p b)\<rparr>)))"

definition get_usage :: "block_pool \<Rightarrow> real" where
  "get_usage p =
     (let total = int (num_gpu_blocks p) - 1 in
      if total = 0 then 0 else 1 - of_int (get_num_free_blocks p) / of_int total)"

definition pool_take_events :: "block_pool \<Rightarrow> kv_event list \<times> block_pool" where
  "pool_take_events p =
     (if \<not> enable_kv_cache_events p then ([], p) else (kv_event_queue p, p\<lparr>kv_event_queue := []\<rparr>))"

section \<open>Caching full blocks\<close>

definition masked_out :: "bool list option \<Rightarrow> nat \<Rightarrow> bool" where
  "masked_out msk i = (case msk of None \<Rightarrow> False | Some m \<Rightarrow> \<not> m ! i)"

text \<open>One round of the loop over the new full blocks; the list collects the hashes for
  the event.\<close>

definition cache_one :: "bytes list \<Rightarrow> bool list option \<Rightarrow> int \<Rightarrow> nat \<times> nat \<Rightarrow>
    block_pool \<times> ext_hash list \<Rightarrow> (block_pool \<times> ext_hash list) result" where
  "cache_one hashes msk g ib s =
     (case (ib, s) of ((i, b), (p, hs)) \<Rightarrow>
        if is_null (blk p b) \<or> masked_out msk i then Inr (p, hs)
        else bindE (assertE (blk_hash (blk p b) = None)) (\<lambda>_.
             bindE (nth_or_raise hashes i) (\<lambda>h.
             bindE (make_block_hash_with_group_id h g) (\<lambda>key.
             bindE (set_block_hash key (blk p b)) (\<lambda>x.
               Inr ((set_blk b x p)\<lparr>cached := map_insert key b (cached p)\<rparr>,
                    hs @ [maybe_convert_block_hash (use_int_hashes p) h]))))))"

text \<open>The per-block extra keys of the event.\<close>

definition event_key_one :: "(int list \<Rightarrow> bytes) \<Rightarrow> request \<Rightarrow> nat list \<Rightarrow> nat \<Rightarrow> bool list option \<Rightarrow>
    nat \<Rightarrow> block_pool \<Rightarrow> nat \<Rightarrow> extra_key list option list \<times> int \<Rightarrow>
    (extra_key list option list \<times> int) result" where
  "event_key_one digest r bs nc msk bsize p i s =
     bindE (nth_or_raise bs i) (\<lambda>b.
       if is_null (blk p b) \<or> masked_out msk (i - nc) then Inr s
       else bindE (generate_block_hash_extra_keys digest r (int (i * bsize)) (int (i * bsize + bsize)) (snd s))
          (\<lambda>(k, idx). Inr (fst s @ [k], idx)))"

definition group_hashes :: "request \<Rightarrow> nat \<Rightarrow> block_pool \<Rightarrow> bytes list result" where
  "group_hashes r bsize p =
     (if bsize = hash_block_size p then Inr (block_hashes r)
      else if hash_block_size p = 0 then Inl ZeroDivisionError
      else bindE (assertE (bsize mod hash_block_size p = 0)) (\<lambda>_.
           bindE (new_block_hash_list (block_hashes r) (hash_block_size p) bsize) (\<lambda>l.
             Inr (bhl_from l 0))))"

definition group_hash_at :: "request \<Rightarrow> nat \<Rightarrow> block_pool \<Rightarrow> nat \<Rightarrow> bytes result" where
  "group_hash_at r bsize p i =
     (if bsize = hash_block_size p then nth_or_raise (block_hashes r) i
      else Inr (get_value_at \<lparr>bhl_hashes = block_hashes r, scale_factor = bsize div hash_block_size p\<rparr> i))"

text \<open>The event of the stored blocks, when events are enabled.\<close>

definition store_event :: "(int list \<Rightarrow> bytes) \<Rightarrow> request \<Rightarrow> nat list \<Rightarrow> nat \<Rightarrow> nat \<Rightarrow> nat \<Rightarrow>
    int \<Rightarrow> bool list option \<Rightarrow> ext_hash list \<Rightarrow> block_pool \<Rightarrow> block_pool result" where
  "store_event digest r bs num_cached num_full bsize g msk hs p =
     (if \<not> enable_kv_cache_events p then Inr p
      else bindE (if num_cached = 0 then Inr None
                  else bindE (group_hash_at r bsize p (num_cached - 1)) (\<lambda>h.
                    Inr (Some (maybe_convert_block_hash (use_int_hashes p) h)))) (\<lambda>parent.
      bindE (foldE (event_key_one digest r bs num_cached msk bsize p) [num_cached..<num_full] ([], 0))
        (\<lambda>(keys, idx). Inr (add_event (BlockStored
          \<lparr>st_hashes = hs, st_parent = parent,
           st_tokens = take ((num_full - num_cached) * bsize) (drop (num_cached * bsize) (all_token_ids r)),
           st_block_size = bsize, st_lora = lora_request r,
           st_extra = (if keys = [] then None else Some keys), st_group = g\<rparr>) p))))"

definition cache_full_blocks :: "(int list \<Rightarrow> bytes) \<Rightarrow> request \<Rightarrow> nat list \<Rightarrow> nat \<Rightarrow> nat \<Rightarrow> nat \<Rightarrow>
    int \<Rightarrow> bool list option \<Rightarrow> block_pool \<Rightarrow> block_pool result" where
  "cache_full_blocks digest r bs num_cached num_full bsize g msk p =
     (if num_cached \<ge> num_full then Inr p
      else let new_full = take (num_full - num_cached) (drop num_cached bs) in
        bindE (assertE (length (block_hashes r) \<ge> num_full)) (\<lambda>_.
        bindE (assertE (case msk of None \<Rightarrow> True | Some m \<Rightarrow> length m = length new_full)) (\<lambda>_.
        bindE (group_hashes r bsize p) (\<lambda>hashes.
        bindE (foldE (cache_one (drop num_cached hashes) msk g) (enumerate 0 new_full) (p, [])) (\<lambda>(p1, hs).
          store_event digest r bs num_cached num_full bsize g msk hs p1)))))"

section \<open>The invariant of the pool\<close>

text \<open>
  \<open>pool_inv p xs\<close>: the free queue represents \<open>xs\<close>; the free blocks are the real
  blocks nobody references; only the null block is null, it is never hashed; and the hash map
  and the hashes on the blocks say the same.
\<close>

definition pool_inv :: "block_pool \<Rightarrow> nat list \<Rightarrow> bool" where
  "pool_inv p xs \<longleftrightarrow> free_rel (free_block_queue p) xs
     \<and> set xs = {b. b < num_gpu_blocks p \<and> \<not> is_null (blk p b) \<and> ref_cnt (blk p b) = 0}
     \<and> (\<forall>b < num_gpu_blocks p. \<not> is_null (blk p b) \<longrightarrow> 0 \<le> ref_cnt (blk p b))
     \<and> (\<forall>b. is_null (blk p b) \<longleftrightarrow> b = null_block p) \<and> null_block p < num_gpu_blocks p
     \<and> map_ok (cached p)
     \<and> (\<forall>h b. b \<in> entry_blocks (cached p h)
          \<longleftrightarrow> b < num_gpu_blocks p \<and> \<not> is_null (blk p b) \<and> blk_hash (blk p b) = Some h)
     \<and> (\<forall>b. b = null_block p \<or> num_gpu_blocks p \<le> b \<longrightarrow> blk_hash (blk p b) = None)"

lemma pool_invD:
  assumes "pool_inv p xs"
  shows "free_rel (free_block_queue p) xs" and "distinct xs"
    and "b \<in> set xs \<longleftrightarrow> b < num_gpu_blocks p \<and> \<not> is_null (blk p b) \<and> ref_cnt (blk p b) = 0"
    and "is_null (blk p b) \<longleftrightarrow> b = null_block p" and "null_block p < num_gpu_blocks p"
    and "map_ok (cached p)" and "get_num_free_blocks p = int (length xs)"
    and "b \<in> entry_blocks (cached p h)
          \<longleftrightarrow> b < num_gpu_blocks p \<and> \<not> is_null (blk p b) \<and> blk_hash (blk p b) = Some h"
    and "b < num_gpu_blocks p \<Longrightarrow> \<not> is_null (blk p b) \<Longrightarrow> 0 \<le> ref_cnt (blk p b)"
  using assms free_relD(1,2)[of "free_block_queue p" xs]
  by (auto simp: pool_inv_def get_num_free_blocks_def)

lemma node_ids_Blk [simp]: "node_ids (map Blk xs) = xs"
  by (induction xs) (simp_all add: node_ids_def)

lemma set_blk_simps [simp]:
  "blk (set_blk b x p) = (blk p)(b := x)" "free_block_queue (set_blk b x p) = free_block_queue p"
  "cached (set_blk b x p) = cached p" "num_gpu_blocks (set_blk b x p) = num_gpu_blocks p"
  "null_block (set_blk b x p) = null_block p" "enable_caching (set_blk b x p) = enable_caching p"
  "enable_kv_cache_events (set_blk b x p) = enable_kv_cache_events p"
  "use_int_hashes (set_blk b x p) = use_int_hashes p" "hash_block_size (set_blk b x p) = hash_block_size p"
  by (simp_all add: set_blk_def)

lemma add_event_simps [simp]:
  "blk (add_event e p) = blk p" "free_block_queue (add_event e p) = free_block_queue p"
  "cached (add_event e p) = cached p" "num_gpu_blocks (add_event e p) = num_gpu_blocks p"
  "null_block (add_event e p) = null_block p" "enable_caching (add_event e p) = enable_caching p"
  by (simp_all add: add_event_def)

text \<open>A fresh pool: block 0 is the null block, the rest are free in order.\<close>

lemma new_block_pool_inv:
  assumes "0 < n"
  shows "\<exists>p. new_block_pool n caching hbs ev ints = Inr p \<and> pool_inv p [1..<n]
     \<and> null_block p = 0 \<and> num_gpu_blocks p = n \<and> enable_caching p = caching \<and> cached p = Map.empty"
proof -
  have "[0..<n] = 0 # [1..<n]" using assms by (simp add: upt_conv_Cons)
  then have "free_rel (new_free_queue [0..<n]) (0 # [1..<n])"
    using new_free_queue_rel[of "[0..<n]"] by simp
  then obtain q where q: "popleft (new_free_queue [0..<n]) = Inr (Blk 0, q)" "free_rel q [1..<n]"
    using popleft_rel by blast
  have "node_ids [Blk 0] = [0]" by (simp add: node_ids_def)
  with assms q show ?thesis
    by (auto simp: new_block_pool_def pool_inv_def Let_def map_ok_def)
qed

section \<open>Eviction\<close>

lemma maybe_evict_frame:
  "free_block_queue (snd (maybe_evict_cached_block b p)) = free_block_queue p"
  "num_gpu_blocks (snd (maybe_evict_cached_block b p)) = num_gpu_blocks p"
  "null_block (snd (maybe_evict_cached_block b p)) = null_block p"
  "enable_caching (snd (maybe_evict_cached_block b p)) = enable_caching p"
  "ref_cnt (blk (snd (maybe_evict_cached_block b p)) c) = ref_cnt (blk p c)"
  "is_null (blk (snd (maybe_evict_cached_block b p)) c) = is_null (blk p c)"
  by (auto simp: maybe_evict_cached_block_def reset_hash_def split: option.split prod.split)

text \<open>Evicting a block under the invariant: its hash and its map entry disappear together.\<close>

lemma maybe_evict_effect:
  fixes b :: nat
  assumes "pool_inv p xs"
  defines "p' \<equiv> snd (maybe_evict_cached_block b p)"
  shows "blk_hash (blk p' c) = (if c = b then None else blk_hash (blk p c))"
    and "map_ok (cached p')"
    and "entry_blocks (cached p' h) = entry_blocks (cached p h) - {b}"
proof -
  note ok = pool_invD(6)[OF assms(1)]
  have "blk_hash (blk p' c) = (if c = b then None else blk_hash (blk p c)) \<and> map_ok (cached p')
    \<and> entry_blocks (cached p' h) = entry_blocks (cached p h) - {b}"
  proof (cases "blk_hash (blk p b)")
    case None
    then have "b \<notin> entry_blocks (cached p h)" using pool_invD(8)[OF assms(1)] by simp
    with None ok show ?thesis by (simp add: p'_def maybe_evict_cached_block_def)
  next
    case (Some key)
    then have b: "b < num_gpu_blocks p" "\<not> is_null (blk p b)"
      using assms(1) by (auto simp: pool_inv_def not_less[symmetric])
    then have mem: "b \<in> entry_blocks (cached p key)" using Some pool_invD(8)[OF assms(1)] by simp
    obtain m where m: "map_pop key b (cached p) = (Some b, m)"
      using bm.pop_result[of key b "cached p"] mem by (metis prod.collapse)
    have "map_ok m" using bm.ok_pop[OF ok, of key b] m by simp
    moreover have "entry_blocks (m h) = entry_blocks (cached p h) - {b}"
      using bm.blocks_pop[OF ok, of key b h] m pool_invD(8)[OF assms(1), of b h] Some by auto
    ultimately show ?thesis
      by (simp add: p'_def maybe_evict_cached_block_def Some m reset_hash_def)
  qed
  then show "blk_hash (blk p' c) = (if c = b then None else blk_hash (blk p c))"
    and "map_ok (cached p')" and "entry_blocks (cached p' h) = entry_blocks (cached p h) - {b}" by blast+
qed

lemma maybe_evict_inv:
  assumes "pool_inv p xs"
  shows "pool_inv (snd (maybe_evict_cached_block b p)) xs"
  using assms maybe_evict_effect[OF assms, of b] unfolding pool_inv_def
  by (simp add: maybe_evict_frame)

lemma evict_blocks_inv:
  assumes "evict_blocks ids p = Inr p'" and "pool_inv p xs"
  shows "pool_inv p' xs"
proof -
  have "pool_inv q' xs" if "pool_inv q xs" "evict_one b q = Inr q'" for b q q'
    using that maybe_evict_inv[OF that(1)] by (auto simp: evict_one_def assertE_bind split: if_splits)
  then show ?thesis
    using foldE_invariant[of evict_one ids p p' "\<lambda>q. pool_inv q xs"] assms
    unfolding evict_blocks_def by blast
qed

section \<open>Allocation\<close>

text \<open>
  While \<open>get_new_blocks\<close> runs, the popped blocks \<open>rs\<close> still to be taken are out of
  the queue with reference count 0.
\<close>

definition popped_inv :: "block_pool \<Rightarrow> nat list \<Rightarrow> nat list \<Rightarrow> bool" where
  "popped_inv p rs xs \<longleftrightarrow> distinct (rs @ xs) \<and> free_rel (free_block_queue p) xs
     \<and> set (rs @ xs) = {b. b < num_gpu_blocks p \<and> \<not> is_null (blk p b) \<and> ref_cnt (blk p b) = 0}
     \<and> (\<forall>b < num_gpu_blocks p. \<not> is_null (blk p b) \<longrightarrow> 0 \<le> ref_cnt (blk p b))
     \<and> (\<forall>b. is_null (blk p b) \<longleftrightarrow> b = null_block p) \<and> null_block p < num_gpu_blocks p
     \<and> map_ok (cached p)
     \<and> (\<forall>h b. b \<in> entry_blocks (cached p h)
          \<longleftrightarrow> b < num_gpu_blocks p \<and> \<not> is_null (blk p b) \<and> blk_hash (blk p b) = Some h)
     \<and> (\<forall>b. b = null_block p \<or> num_gpu_blocks p \<le> b \<longrightarrow> blk_hash (blk p b) = None)"

lemma popped_inv_Nil: "popped_inv p [] xs \<longleftrightarrow> pool_inv p xs"
  by (auto simp: popped_inv_def pool_inv_def free_relD(1))

text \<open>Eviction does not look at the queue, so its effect carries over.\<close>

lemma popped_queue: "popped_inv p rs xs \<longleftrightarrow> distinct (rs @ xs) \<and> free_rel (free_block_queue p) xs
   \<and> pool_inv (p\<lparr>free_block_queue := new_free_queue (rs @ xs)\<rparr>) (rs @ xs)"
proof (cases "distinct (rs @ xs)")
  case True
  note rel = new_free_queue_rel[OF True]
  show ?thesis using True rel unfolding popped_inv_def pool_inv_def by simp
next
  case False
  then show ?thesis unfolding popped_inv_def by blast
qed

lemma maybe_evict_queue:
  "snd (maybe_evict_cached_block b (p\<lparr>free_block_queue := q\<rparr>))
     = (snd (maybe_evict_cached_block b p))\<lparr>free_block_queue := q\<rparr>"
  by (auto simp: maybe_evict_cached_block_def add_event_def set_blk_def split: option.split prod.split)

lemma popped_evict:
  assumes "popped_inv p rs xs"
  shows "popped_inv (snd (maybe_evict_cached_block b p)) rs xs"
  using assms maybe_evict_inv[of "p\<lparr>free_block_queue := new_free_queue (rs @ xs)\<rparr>" "rs @ xs" b]
  by (simp add: popped_queue maybe_evict_queue maybe_evict_frame)

lemma take_block_step:
  assumes inv: "popped_inv p (r # rs) xs"
  shows "\<exists>p'. take_block r p = Inr p' \<and> popped_inv p' rs xs
     \<and> enable_caching p' = enable_caching p \<and> num_gpu_blocks p' = num_gpu_blocks p
     \<and> null_block p' = null_block p
     \<and> (\<forall>c. ref_cnt (blk p' c) = (if c = r then 1 else ref_cnt (blk p c)))
     \<and> (\<forall>c. blk_hash (blk p' c) = (if c = r \<and> enable_caching p then None else blk_hash (blk p c)))"
proof -
  define p1 where "p1 = (if enable_caching p then snd (maybe_evict_cached_block r p) else p)"
  have inv1: "popped_inv p1 (r # rs) xs" using inv popped_evict by (simp add: p1_def)
  have frame: "num_gpu_blocks p1 = num_gpu_blocks p" "null_block p1 = null_block p"
    "enable_caching p1 = enable_caching p" "\<And>c. ref_cnt (blk p1 c) = ref_cnt (blk p c)"
    by (simp_all add: p1_def maybe_evict_frame)
  have hash: "blk_hash (blk p1 c) = (if c = r \<and> enable_caching p then None else blk_hash (blk p c))" for c
  proof -
    have "pool_inv (p\<lparr>free_block_queue := new_free_queue ((r # rs) @ xs)\<rparr>) ((r # rs) @ xs)"
      using inv unfolding popped_queue by blast
    from maybe_evict_effect(1)[OF this, of r c] show ?thesis
      by (auto simp: p1_def maybe_evict_queue)
  qed
  have r: "ref_cnt (blk p1 r) = 0" using inv1 by (auto simp: popped_inv_def)
  define p' where "p' = set_blk r ((blk p1 r)\<lparr>ref_cnt := 1\<rparr>) p1"
  have "take_block r p = Inr p'" by (simp add: take_block_def p1_def[symmetric] r p'_def)
  moreover have "popped_inv p' rs xs" using inv1 by (auto simp: popped_inv_def p'_def)
  ultimately show ?thesis using frame hash by (auto simp: p'_def)
qed

lemma take_blocks:
  "popped_inv p rs xs \<Longrightarrow>
   \<exists>p'. foldE take_block rs p = Inr p' \<and> pool_inv p' xs
     \<and> num_gpu_blocks p' = num_gpu_blocks p \<and> null_block p' = null_block p
     \<and> (\<forall>c. ref_cnt (blk p' c) = (if c \<in> set rs then 1 else ref_cnt (blk p c)))
     \<and> (\<forall>c. blk_hash (blk p' c) = (if c \<in> set rs \<and> enable_caching p then None else blk_hash (blk p c)))"
proof (induction rs arbitrary: p)
  case Nil
  then show ?case by (simp add: popped_inv_Nil)
next
  case (Cons r rs)
  from take_block_step[OF Cons.prems] obtain p1 where p1: "take_block r p = Inr p1" "popped_inv p1 rs xs"
    "enable_caching p1 = enable_caching p" "num_gpu_blocks p1 = num_gpu_blocks p" "null_block p1 = null_block p"
    "\<forall>c. ref_cnt (blk p1 c) = (if c = r then 1 else ref_cnt (blk p c))"
    "\<forall>c. blk_hash (blk p1 c) = (if c = r \<and> enable_caching p then None else blk_hash (blk p c))"
    by blast
  from Cons.IH[OF p1(2)] p1 show ?case by auto
qed

lemma get_new_blocks_ok:
  assumes inv: "pool_inv p xs" and n: "n \<le> length xs"
  shows "\<exists>p'. get_new_blocks n p = Inr (take n xs, p') \<and> pool_inv p' (drop n xs)
     \<and> num_gpu_blocks p' = num_gpu_blocks p \<and> null_block p' = null_block p
     \<and> (\<forall>c. ref_cnt (blk p' c) = (if c \<in> set (take n xs) then 1 else ref_cnt (blk p c)))
     \<and> (\<forall>c. blk_hash (blk p' c) =
          (if c \<in> set (take n xs) \<and> enable_caching p then None else blk_hash (blk p c)))"
proof -
  obtain q where q: "popleft_n n (free_block_queue p) = Inr (map Blk (take n xs), q)" "free_rel q (drop n xs)"
    using popleft_n_rel[OF pool_invD(1)[OF inv] n] by blast
  have "set xs = set (take n xs @ drop n xs)" "distinct (take n xs @ drop n xs)"
    using pool_invD(2)[OF inv] by simp_all
  then have "popped_inv (p\<lparr>free_block_queue := q\<rparr>) (take n xs) (drop n xs)"
    using inv q(2) by (simp add: popped_inv_def pool_inv_def)
  from take_blocks[OF this] q(1) n pool_invD(7)[OF inv] show ?thesis
    by (auto simp: get_new_blocks_def)
qed

text \<open>
  C26. Allocation from the pool: with \<open>n\<close> free blocks or more, \<open>get_new_blocks\<close>
  returns the \<open>n\<close> least recently freed ones, each referenced exactly once and (with
  caching) found under no hash any more, so no prefix lookup can still hit them; the rest of
  the pool is untouched and the invariant holds. With fewer it raises and nothing is lost.
\<close>

theorem get_new_blocks_allocates:
  assumes "pool_inv p xs" and "enable_caching p"
  shows "if n \<le> length xs
    then \<exists>p'. get_new_blocks n p = Inr (take n xs, p') \<and> pool_inv p' (drop n xs)
      \<and> (\<forall>b \<in> set (take n xs). ref_cnt (blk p b) = 0 \<and> ref_cnt (blk p' b) = 1
           \<and> (\<forall>h. b \<notin> entry_blocks (cached p' h)))
      \<and> (\<forall>b. b \<notin> set (take n xs) \<longrightarrow> ref_cnt (blk p' b) = ref_cnt (blk p b)
           \<and> blk_hash (blk p' b) = blk_hash (blk p b))
    else get_new_blocks n p = Inl ValueError"
proof (cases "n \<le> length xs")
  case True
  obtain p' where p': "get_new_blocks n p = Inr (take n xs, p')" "pool_inv p' (drop n xs)"
    "\<forall>c. ref_cnt (blk p' c) = (if c \<in> set (take n xs) then 1 else ref_cnt (blk p c))"
    "\<forall>c. blk_hash (blk p' c) = (if c \<in> set (take n xs) \<and> enable_caching p then None else blk_hash (blk p c))"
    using get_new_blocks_ok[OF assms(1) True] by blast
  have "ref_cnt (blk p b) = 0" if "b \<in> set (take n xs)" for b
    using that pool_invD(3)[OF assms(1), of b] by (auto dest: in_set_takeD)
  moreover have "b \<notin> entry_blocks (cached p' h)" if "b \<in> set (take n xs)" for b h
    using that p'(4) assms(2) pool_invD(8)[OF p'(2), of b h] by simp
  ultimately show ?thesis using True p' by auto
next
  case False
  then show ?thesis using pool_invD(7)[OF assms(1)] by (simp add: get_new_blocks_def)
qed

section \<open>Touching and freeing\<close>

lemma pool_inv_set_ref:
  assumes "pool_inv p xs" and "is_null (blk p b) \<or> (0 < k \<and> b \<notin> set xs)"
  shows "pool_inv (set_blk b ((blk p b)\<lparr>ref_cnt := k\<rparr>) p) xs"
  using assms by (auto simp: pool_inv_def)

lemma touch_one_ok:
  assumes inv: "pool_inv p xs" and b: "b < num_gpu_blocks p"
  shows "\<exists>p'. touch_one b p = Inr p' \<and> pool_inv p' (filter (\<lambda>x. x \<noteq> b) xs)
     \<and> num_gpu_blocks p' = num_gpu_blocks p \<and> cached p' = cached p
     \<and> (\<forall>c. ref_cnt (blk p' c) = ref_cnt (blk p c) + (if c = b then 1 else 0))"
proof (cases "b \<in> set xs")
  case True
  then have r: "ref_cnt (blk p b) = 0" "\<not> is_null (blk p b)" using pool_invD(3)[OF inv] by auto
  obtain q where q: "remove_block (Blk b) (free_block_queue p) = Inr q" "free_rel q (remove1 b xs)"
    using remove_rel[OF pool_invD(1)[OF inv] True] by blast
  have eq: "remove1 b xs = filter (\<lambda>x. x \<noteq> b) xs"
    using pool_invD(2)[OF inv] by (simp add: distinct_remove1_removeAll removeAll_filter_not_eq)
      (metis)
  define p' where "p' = set_blk b ((blk p b)\<lparr>ref_cnt := 1\<rparr>) (p\<lparr>free_block_queue := q\<rparr>)"
  have "touch_one b p = Inr p'" by (simp add: touch_one_def r q(1) p'_def)
  moreover have "pool_inv p' (filter (\<lambda>x. x \<noteq> b) xs)"
    using inv q(2) r b unfolding eq pool_inv_def by (auto simp: p'_def)
  ultimately show ?thesis using r by (auto simp: p'_def)
next
  case False
  then have f: "filter (\<lambda>x. x \<noteq> b) xs = xs" by (auto simp: filter_id_conv)
  have skip: "\<not> (ref_cnt (blk p b) = 0 \<and> \<not> is_null (blk p b))"
    using False pool_invD(3)[OF inv, of b] b by blast
  define p' where "p' = set_blk b ((blk p b)\<lparr>ref_cnt := ref_cnt (blk p b) + 1\<rparr>) p"
  have "touch_one b p = Inr p'" using skip by (auto simp: touch_one_def p'_def)
  moreover have "pool_inv p' xs" unfolding p'_def
    using skip False b pool_invD(9)[OF inv, of b] by (intro pool_inv_set_ref[OF inv]) auto
  ultimately show ?thesis by (auto simp: p'_def f)
qed

lemma touch_ok:
  "pool_inv p xs \<Longrightarrow> \<forall>b \<in> set bs. b < num_gpu_blocks p \<Longrightarrow>
   \<exists>p'. touch bs p = Inr p' \<and> pool_inv p' (filter (\<lambda>x. x \<notin> set bs) xs)
     \<and> num_gpu_blocks p' = num_gpu_blocks p \<and> cached p' = cached p
     \<and> (\<forall>c. ref_cnt (blk p' c) = ref_cnt (blk p c) + int (count_list bs c))"
proof (induction bs arbitrary: p xs)
  case Nil
  then show ?case by (simp add: touch_def)
next
  case (Cons b bs)
  from touch_one_ok[OF Cons.prems(1), of b] Cons.prems(2) obtain p1 where
    p1: "touch_one b p = Inr p1" "pool_inv p1 (filter (\<lambda>x. x \<noteq> b) xs)"
      "num_gpu_blocks p1 = num_gpu_blocks p" "cached p1 = cached p"
      "\<forall>c. ref_cnt (blk p1 c) = ref_cnt (blk p c) + (if c = b then 1 else 0)" by auto
  from Cons.IH[OF p1(2)] Cons.prems(2) p1(3) obtain p2 where
    p2: "touch bs p1 = Inr p2" "pool_inv p2 (filter (\<lambda>x. x \<notin> set bs) (filter (\<lambda>x. x \<noteq> b) xs))"
      "num_gpu_blocks p2 = num_gpu_blocks p1" "cached p2 = cached p1"
      "\<forall>c. ref_cnt (blk p2 c) = ref_cnt (blk p1 c) + int (count_list bs c)" by auto
  have "touch (b # bs) p = Inr p2" using p1(1) p2(1) by (simp add: touch_def)
  moreover have "pool_inv p2 (filter (\<lambda>x. x \<notin> set (b # bs)) xs)"
    using p2(2) by (simp add: conj_commute)
  ultimately show ?case using p1 p2 by auto
qed

lemma decr_refs:
  "num_gpu_blocks (fold decr_ref bs p) = num_gpu_blocks p"
  "null_block (fold decr_ref bs p) = null_block p"
  "cached (fold decr_ref bs p) = cached p"
  "free_block_queue (fold decr_ref bs p) = free_block_queue p"
  "is_null (blk (fold decr_ref bs p) c) = is_null (blk p c)"
  "blk_hash (blk (fold decr_ref bs p) c) = blk_hash (blk p c)"
  "ref_cnt (blk (fold decr_ref bs p) c) = ref_cnt (blk p c) - int (count_list bs c)"
  by (induction bs arbitrary: p) (auto simp: decr_ref_def)

text \<open>What a caller of \<open>free_blocks\<close> owes: each real block once, and referenced.\<close>

definition may_free :: "block_pool \<Rightarrow> nat list \<Rightarrow> bool" where
  "may_free p bs \<longleftrightarrow> distinct (filter (\<lambda>b. \<not> is_null (blk p b)) bs)
     \<and> (\<forall>b \<in> set bs. b < num_gpu_blocks p \<and> (is_null (blk p b) \<or> 1 \<le> ref_cnt (blk p b)))"

lemma count_list_distinct_filter:
  "distinct (filter P bs) \<Longrightarrow> P b \<Longrightarrow> count_list bs b = (if b \<in> set bs then 1 else 0)"
  by (induction bs) (auto split: if_splits)

lemma free_blocks_ok:
  assumes inv: "pool_inv p xs" and ok: "may_free p bs"
  shows "\<exists>p'. free_blocks bs p = Inr p'
     \<and> pool_inv p' (xs @ filter (\<lambda>b. \<not> is_null (blk p b) \<and> ref_cnt (blk p b) = 1) bs)
     \<and> num_gpu_blocks p' = num_gpu_blocks p \<and> cached p' = cached p
     \<and> (\<forall>c. \<not> is_null (blk p c) \<longrightarrow> ref_cnt (blk p' c) = ref_cnt (blk p c) - (if c \<in> set bs then 1 else 0))
     \<and> (\<forall>c. blk_hash (blk p' c) = blk_hash (blk p c))"
proof -
  define p1 where "p1 = fold decr_ref bs p"
  define fs where "fs = filter (\<lambda>b. \<not> is_null (blk p b) \<and> ref_cnt (blk p b) = 1) bs"
  have cnt: "count_list bs b = (if b \<in> set bs then 1 else 0)" if "\<not> is_null (blk p b)" for b
    using count_list_distinct_filter[of "\<lambda>b. \<not> is_null (blk p b)"] ok that unfolding may_free_def by blast
  have ref1: "ref_cnt (blk p1 b) = ref_cnt (blk p b) - (if b \<in> set bs then 1 else 0)"
    if "\<not> is_null (blk p b)" for b
    using cnt[OF that] by (simp add: p1_def decr_refs)
  have filt: "filter (\<lambda>b. ref_cnt (blk p1 b) = 0 \<and> \<not> is_null (blk p1 b)) bs = fs"
    unfolding fs_def using ref1 by (intro filter_cong) (auto simp: p1_def decr_refs(5))
  have "distinct fs"
    using ok distinct_filter[of "filter (\<lambda>b. \<not> is_null (blk p b)) bs" "\<lambda>b. ref_cnt (blk p b) = 1"]
    by (simp add: may_free_def fs_def conj_commute)
  moreover have "b \<notin> set fs" if "b \<in> set xs" for b
    using pool_invD(3)[OF inv, of b] that by (simp add: fs_def)
  ultimately have "distinct (xs @ fs)" using pool_invD(2)[OF inv] by auto
  from append_n_rel[OF pool_invD(1)[OF inv] this] obtain q where
    q: "append_n (map Blk fs) (free_block_queue p) = Inr q" "free_rel q (xs @ fs)" by blast
  define p' where "p' = p1\<lparr>free_block_queue := q\<rparr>"
  have "free_blocks bs p = Inr p'"
    using q(1) by (simp add: free_blocks_def Let_def p1_def[symmetric] filt p'_def)
      (simp add: p1_def decr_refs)
  moreover have "pool_inv p' (xs @ fs)"
  proof -
    have "ref_cnt (blk p1 b) = 0 \<longleftrightarrow> b \<in> set xs \<or> b \<in> set fs"
      if "b < num_gpu_blocks p" "\<not> is_null (blk p b)" for b
      using ref1[OF that(2)] pool_invD(3)[OF inv, of b] ok that by (auto simp: fs_def may_free_def)
    moreover have "set (xs @ fs) \<subseteq> {b. b < num_gpu_blocks p \<and> \<not> is_null (blk p b)}"
    proof
      fix b assume "b \<in> set (xs @ fs)"
      then show "b \<in> {b. b < num_gpu_blocks p \<and> \<not> is_null (blk p b)}"
        using ok pool_invD(3)[OF inv, of b] by (auto simp: fs_def may_free_def)
    qed
    ultimately have free: "set (xs @ fs) = {b. b < num_gpu_blocks p \<and> \<not> is_null (blk p b) \<and> ref_cnt (blk p1 b) = 0}"
      by auto
    have pos: "\<forall>b < num_gpu_blocks p. \<not> is_null (blk p b) \<longrightarrow> 0 \<le> ref_cnt (blk p1 b)"
      using ref1 ok pool_invD(9)[OF inv] by (auto simp: may_free_def)
    have same: "num_gpu_blocks p1 = num_gpu_blocks p" "null_block p1 = null_block p" "cached p1 = cached p"
      "\<And>c. is_null (blk p1 c) = is_null (blk p c)" "\<And>c. blk_hash (blk p1 c) = blk_hash (blk p c)"
      by (simp_all add: p1_def decr_refs(1-6))
    show ?thesis using inv q(2) free pos unfolding pool_inv_def p'_def by (simp add: same)
  qed
  ultimately show ?thesis using ref1 by (auto simp: p'_def p1_def decr_refs(1-6) fs_def)
qed

section \<open>Caching keeps the invariant\<close>

definition skipped_at :: "bool list option \<Rightarrow> block_pool \<Rightarrow> nat \<Rightarrow> nat \<Rightarrow> bool" where
  "skipped_at msk p i b \<longleftrightarrow> is_null (blk p b) \<or> masked_out msk i"

lemma cache_one_unfold:
  "cache_one hashes msk g (i, b) (p, hs) =
     (if skipped_at msk p i b then Inr (p, hs)
      else if blk_hash (blk p b) \<noteq> None then Inl AssertionError
      else if \<not> i < length hashes then Inl IndexError
      else case make_block_hash_with_group_id (hashes ! i) g of
          Inl e \<Rightarrow> Inl e
        | Inr key \<Rightarrow> Inr ((set_blk b ((blk p b)\<lparr>blk_hash := Some key\<rparr>) p)\<lparr>cached := map_insert key b (cached p)\<rparr>,
            hs @ [maybe_convert_block_hash (use_int_hashes p) (hashes ! i)]))"
  by (cases "make_block_hash_with_group_id (hashes ! i) g")
    (simp_all add: cache_one_def skipped_at_def assertE_bind nth_or_raise_def set_block_hash_def)

lemma cache_one_cases:
  assumes "cache_one hashes msk g (i, b) (p, hs) = Inr (p', hs')"
  obtains (skip) "skipped_at msk p i b" "p' = p" "hs' = hs"
  | (cache) key where "\<not> skipped_at msk p i b" "blk_hash (blk p b) = None" "i < length hashes"
      "make_block_hash_with_group_id (hashes ! i) g = Inr key"
      "p' = (set_blk b ((blk p b)\<lparr>blk_hash := Some key\<rparr>) p)\<lparr>cached := map_insert key b (cached p)\<rparr>"
      "hs' = hs @ [maybe_convert_block_hash (use_int_hashes p) (hashes ! i)]"
  using assms unfolding cache_one_unfold
  by (cases "make_block_hash_with_group_id (hashes ! i) g") (auto split: if_splits)

lemma cache_one_inv:
  assumes "cache_one hashes msk g (i, b) (p, hs) = Inr (p', hs')" and inv: "pool_inv p xs"
    and b: "b < num_gpu_blocks p"
  shows "pool_inv p' xs"
  using assms(1)
proof (cases rule: cache_one_cases)
  case skip
  with inv show ?thesis by simp
next
  case (cache key)
  have nn: "\<not> is_null (blk p b)" using cache(1) by (simp add: skipped_at_def)
  have e: "entry_blocks (map_insert key b (cached p) h) =
      (if h = key then insert b (entry_blocks (cached p key)) else entry_blocks (cached p h))" for h
    by (rule bm.blocks_ins)
  have "map_ok (map_insert key b (cached p))" by (rule bm.ok_ins[OF pool_invD(6)[OF inv]])
  then show ?thesis using inv b nn cache(2) unfolding cache(5) pool_inv_def by (auto simp: e)
qed

lemma cache_one_frame:
  assumes "cache_one hashes msk g (i, b) (p, hs) = Inr (p', hs')"
  shows "num_gpu_blocks p' = num_gpu_blocks p" "is_null (blk p' c) = is_null (blk p c)"
    "ref_cnt (blk p' c) = ref_cnt (blk p c)" "blk_hash (blk p c) = Some k \<Longrightarrow> blk_hash (blk p' c) = Some k"
  using assms by (cases rule: cache_one_cases; auto)+

lemma cache_loop:
  assumes "foldE (cache_one hashes msk g) ibs (p, hs) = Inr (p', hs')" and "pool_inv p xs"
    and "\<forall>(i, b) \<in> set ibs. b < num_gpu_blocks p"
  shows "pool_inv p' xs \<and> num_gpu_blocks p' = num_gpu_blocks p
    \<and> (\<forall>c. ref_cnt (blk p' c) = ref_cnt (blk p c))
    \<and> (\<forall>c k. blk_hash (blk p c) = Some k \<longrightarrow> blk_hash (blk p' c) = Some k)
    \<and> (\<forall>(i, b) \<in> set ibs. skipped_at msk p i b \<or> (i < length hashes \<and>
        (\<exists>key. make_block_hash_with_group_id (hashes ! i) g = Inr key \<and> blk_hash (blk p' b) = Some key)))"
  using assms
proof (induction ibs arbitrary: p hs)
  case (Cons ib ibs)
  obtain i b where ib: "ib = (i, b)" by fastforce
  from Cons.prems(1) obtain p1 hs1 where one: "cache_one hashes msk g (i, b) (p, hs) = Inr (p1, hs1)"
    and rest: "foldE (cache_one hashes msk g) ibs (p1, hs1) = Inr (p', hs')"
    by (auto simp: ib bindE_eq_Inr)
  have b: "b < num_gpu_blocks p" using Cons.prems(3) ib by simp
  note fr = cache_one_frame[OF one]
  have skip: "skipped_at msk p1 j c = skipped_at msk p j c" for j c by (simp add: skipped_at_def fr(2))
  have IH: "pool_inv p' xs \<and> num_gpu_blocks p' = num_gpu_blocks p1
    \<and> (\<forall>c. ref_cnt (blk p' c) = ref_cnt (blk p1 c))
    \<and> (\<forall>c k. blk_hash (blk p1 c) = Some k \<longrightarrow> blk_hash (blk p' c) = Some k)
    \<and> (\<forall>(i, b) \<in> set ibs. skipped_at msk p1 i b \<or> (i < length hashes \<and>
        (\<exists>key. make_block_hash_with_group_id (hashes ! i) g = Inr key \<and> blk_hash (blk p' b) = Some key)))"
    by (rule Cons.IH[OF rest cache_one_inv[OF one Cons.prems(2) b]]) (use Cons.prems(3) fr(1) in auto)
  have head: "skipped_at msk p i b \<or> (i < length hashes \<and>
      (\<exists>key. make_block_hash_with_group_id (hashes ! i) g = Inr key \<and> blk_hash (blk p' b) = Some key))"
    using one
  proof (cases rule: cache_one_cases)
    case (cache key)
    then have "blk_hash (blk p1 b) = Some key" by simp
    with IH cache show ?thesis by blast
  qed simp
  from IH head fr show ?case unfolding ib by (simp add: skip)
qed simp

lemma pool_inv_event: "pool_inv (add_event e p) xs = pool_inv p xs"
  by (simp add: pool_inv_def)

lemma store_event_frame:
  assumes "store_event digest r bs nc nf bsize g msk hs p = Inr p'"
  shows "p' = p \<or> (\<exists>e. p' = add_event e p)"
  using assms unfolding store_event_def by (auto elim!: bindE_InrE split: if_splits prod.splits)

lemma cache_full_blocks_ok:
  assumes run: "cache_full_blocks digest r bs nc nf bsize g msk p = Inr p'" and inv: "pool_inv p xs"
    and ids: "\<forall>b \<in> set bs. b < num_gpu_blocks p" and new: "nc < nf"
  shows "\<exists>hashes. group_hashes r bsize p = Inr hashes \<and> pool_inv p' xs
    \<and> (\<forall>c. ref_cnt (blk p' c) = ref_cnt (blk p c))
    \<and> (\<forall>i. nc + i < nf \<and> nc + i < length bs \<longrightarrow> skipped_at msk p i (bs ! (nc + i))
        \<or> (nc + i < length hashes \<and> (\<exists>key. make_block_hash_with_group_id (hashes ! (nc + i)) g = Inr key
             \<and> blk_hash (blk p' (bs ! (nc + i))) = Some key)))"
proof -
  let ?new = "take (nf - nc) (drop nc bs)"
  obtain hashes p1 hs where h: "group_hashes r bsize p = Inr hashes"
    and loop: "foldE (cache_one (drop nc hashes) msk g) (enumerate 0 ?new) (p, []) = Inr (p1, hs)"
    and ev: "store_event digest r bs nc nf bsize g msk hs p1 = Inr p'"
    using run new unfolding cache_full_blocks_def Let_def
    by (auto elim!: bindE_InrE split: if_splits prod.splits)
  have "\<forall>(i, b) \<in> set (enumerate 0 ?new). b < num_gpu_blocks p"
    using ids by (auto simp: in_set_enumerate_eq dest!: in_set_takeD in_set_dropD)
  note res = cache_loop[OF loop inv this]
  have same: "pool_inv p' xs = pool_inv p1 xs" "blk p' = blk p1" using store_event_frame[OF ev] by (auto simp: pool_inv_event)
  have "skipped_at msk p i (bs ! (nc + i)) \<or> (nc + i < length hashes \<and>
      (\<exists>key. make_block_hash_with_group_id (hashes ! (nc + i)) g = Inr key \<and> blk_hash (blk p1 (bs ! (nc + i))) = Some key))"
    if "nc + i < nf" "nc + i < length bs" for i
  proof -
    have "(i, bs ! (nc + i)) \<in> set (enumerate 0 ?new)"
      using that by (auto simp: in_set_enumerate_eq)
    with res have "skipped_at msk p i (bs ! (nc + i)) \<or> (i < length (drop nc hashes) \<and>
      (\<exists>key. make_block_hash_with_group_id (drop nc hashes ! i) g = Inr key \<and> blk_hash (blk p1 (bs ! (nc + i))) = Some key))"
      by blast
    then show ?thesis by (auto simp: less_diff_conv add.commute)
  qed
  with res h show ?thesis unfolding same by blast
qed

end
