(* ===== verification/Pool_Correct.thy ===== *)
theory Pool_Correct
  imports Block_Pool
begin

text \<open>
  What the block pool promises its callers over a whole run: a step relation with one step
  per public operation of \<open>BlockPool\<close>, the invariant of its reachable states, and the
  properties that rest on it (no block handed out twice, sound and complete prefix lookup,
  conservation of blocks, LRU rotation, reset only when idle).
\<close>

section \<open>Counting blocks\<close>

definition real_blocks :: "block_pool \<Rightarrow> nat set" where
  "real_blocks p = {b. b < num_gpu_blocks p \<and> \<not> is_null (blk p b)}"

definition in_use :: "block_pool \<Rightarrow> nat set" where
  "in_use p = {b \<in> real_blocks p. 0 < ref_cnt (blk p b)}"

lemma card_real:
  assumes "pool_inv p xs"
  shows "card (real_blocks p) = num_gpu_blocks p - 1"
proof -
  have "real_blocks p = {0..<num_gpu_blocks p} - {null_block p}"
    unfolding real_blocks_def by (rule set_eqI) (simp add: pool_invD(4)[OF assms])
  then show ?thesis using pool_invD(5)[OF assms] by simp
qed

lemma free_and_used:
  assumes inv: "pool_inv p xs"
  shows "length xs + card (in_use p) = num_gpu_blocks p - 1"
proof -
  have "b \<in> real_blocks p \<longleftrightarrow> b \<in> set xs \<or> b \<in> in_use p" and "\<not> (b \<in> set xs \<and> b \<in> in_use p)" for b
    using pool_invD(3)[OF inv, of b] pool_invD(9)[OF inv, of b]
    by (auto simp: real_blocks_def in_use_def order.order_iff_strict)
  then have "real_blocks p = set xs \<union> in_use p" and "set xs \<inter> in_use p = {}" by blast+
  moreover have "finite (in_use p)" by (simp add: in_use_def real_blocks_def)
  ultimately have "card (real_blocks p) = card (set xs) + card (in_use p)"
    by (simp add: card_Un_disjoint)
  then show ?thesis using card_real[OF inv] distinct_card[OF pool_invD(2)[OF inv]] by simp
qed

section \<open>Resetting\<close>

lemma reset_ok:
  assumes inv: "pool_inv p xs" and idle: "length xs = num_gpu_blocks p - 1"
  shows "fst (pool_reset_prefix_cache p)" and "pool_inv (snd (pool_reset_prefix_cache p)) xs"
    and "cached (snd (pool_reset_prefix_cache p)) = Map.empty"
    and "blk_hash (blk (snd (pool_reset_prefix_cache p)) b) = None"
    and "num_gpu_blocks (snd (pool_reset_prefix_cache p)) = num_gpu_blocks p"
proof -
  define p' where "p' = snd (pool_reset_prefix_cache p)"
  have n: "0 < num_gpu_blocks p" using pool_invD(5)[OF inv] by simp
  have eq: "pool_reset_prefix_cache p = (True, add_event AllBlocksCleared
        (p\<lparr>cached := Map.empty,
           blk := (\<lambda>b. if b < num_gpu_blocks p then reset_hash (blk p b) else blk p b)\<rparr>))"
    using n idle pool_invD(7)[OF inv] by (simp add: pool_reset_prefix_cache_def)
  have none: "blk_hash (blk p b) = None" if "num_gpu_blocks p \<le> b" for b
    using inv that by (simp add: pool_inv_def)
  show "fst (pool_reset_prefix_cache p)" by (simp add: eq)
  show "cached (snd (pool_reset_prefix_cache p)) = Map.empty"
    and "num_gpu_blocks (snd (pool_reset_prefix_cache p)) = num_gpu_blocks p"
    and "blk_hash (blk (snd (pool_reset_prefix_cache p)) b) = None"
    using none by (simp_all add: eq reset_hash_def)
  show "pool_inv (snd (pool_reset_prefix_cache p)) xs"
    using inv none unfolding eq pool_inv_def by (auto simp: reset_hash_def map_ok_def)
qed

lemma reset_refused:
  assumes "pool_inv p xs" and "length xs \<noteq> num_gpu_blocks p - 1"
  shows "pool_reset_prefix_cache p = (False, p)"
  using assms pool_invD(5)[OF assms(1)] pool_invD(7)[OF assms(1)]
  by (auto simp: pool_reset_prefix_cache_def)

section \<open>Runs of the pool\<close>

text \<open>
  One step per operation that changes the pool. The premises are what the callers owe:
  block ids exist, and a caller frees only blocks it holds a reference to.
\<close>

inductive pool_step :: "block_pool \<Rightarrow> block_pool \<Rightarrow> bool" where
  allocate: "get_new_blocks n p = Inr (bs, p') \<Longrightarrow> pool_step p p'"
| touch_hit: "\<forall>b \<in> set bs. b < num_gpu_blocks p \<Longrightarrow> touch bs p = Inr p' \<Longrightarrow> pool_step p p'"
| free: "may_free p bs \<Longrightarrow> free_blocks bs p = Inr p' \<Longrightarrow> pool_step p p'"
| cache: "\<forall>b \<in> set bs. b < num_gpu_blocks p \<Longrightarrow>
    cache_full_blocks digest r bs nc nf bsize g msk p = Inr p' \<Longrightarrow> pool_step p p'"
| evict: "evict_blocks ids p = Inr p' \<Longrightarrow> pool_step p p'"
| reset: "pool_reset_prefix_cache p = (ok, p') \<Longrightarrow> pool_step p p'"
| drain: "pool_take_events p = (evs, p') \<Longrightarrow> pool_step p p'"

inductive pool_reach :: "block_pool \<Rightarrow> bool" where
  init: "new_block_pool n caching hbs ev ints = Inr p \<Longrightarrow> pool_reach p"
| step: "pool_reach p \<Longrightarrow> pool_step p p' \<Longrightarrow> pool_reach p'"

lemma new_block_pool_zero: "new_block_pool 0 caching hbs ev ints = Inl AssertionError"
  by (simp add: new_block_pool_def)

lemma cache_full_blocks_inv:
  assumes "cache_full_blocks digest r bs nc nf bsize g msk p = Inr p'" and "pool_inv p xs"
    and "\<forall>b \<in> set bs. b < num_gpu_blocks p"
  shows "pool_inv p' xs"
proof (cases "nc < nf")
  case True
  from cache_full_blocks_ok[OF assms True] show ?thesis by blast
next
  case False
  with assms show ?thesis by (simp add: cache_full_blocks_def)
qed

lemma pool_step_inv:
  assumes "pool_step p p'" and inv: "pool_inv p xs"
  shows "\<exists>ys. pool_inv p' ys"
  using assms(1)
proof cases
  case (allocate n bs)
  have "n \<le> length xs"
    using allocate pool_invD(7)[OF inv] by (auto simp: get_new_blocks_def split: if_splits)
  from get_new_blocks_ok[OF inv this] allocate show ?thesis by auto
next
  case (touch_hit bs)
  from touch_ok[OF inv touch_hit(1)] touch_hit(2) show ?thesis by auto
next
  case (free bs)
  from free_blocks_ok[OF inv free(1)] free(2) show ?thesis by auto
next
  case (cache bs digest r nc nf bsize g msk)
  from cache_full_blocks_inv[OF cache(2) inv cache(1)] show ?thesis by blast
next
  case (evict ids)
  from evict_blocks_inv[OF evict inv] show ?thesis by blast
next
  case (reset ok)
  show ?thesis
  proof (cases "length xs = num_gpu_blocks p - 1")
    case True
    from reset_ok(2)[OF inv True] reset show ?thesis by auto
  next
    case False
    from reset_refused[OF inv False] reset inv show ?thesis by auto
  qed
next
  case (drain evs)
  then show ?thesis using inv by (auto simp: pool_take_events_def pool_inv_def split: if_splits)
qed

lemma pool_reach_inv: "pool_reach p \<Longrightarrow> \<exists>xs. pool_inv p xs"
proof (induction rule: pool_reach.induct)
  case (init n caching hbs ev ints p)
  then show ?case using new_block_pool_inv[of n caching hbs ev ints]
    by (cases "n = 0") (auto simp: new_block_pool_zero)
next
  case (step p p')
  then show ?case using pool_step_inv by blast
qed

section \<open>Prefix lookup\<close>

text \<open>The packed key of a hash in a group.\<close>

definition key_of :: "bytes \<Rightarrow> int \<Rightarrow> bytes" where
  "key_of h g = (case make_block_hash_with_group_id h g of Inl _ \<Rightarrow> [] | Inr k \<Rightarrow> k)"

lemma make_key: "0 \<le> g \<Longrightarrow> g < 2 ^ 32 \<Longrightarrow> make_block_hash_with_group_id h g = Inr (key_of h g)"
  using make_block_hash_ok[of g h] by (auto simp: key_of_def)

definition holds :: "block_pool \<Rightarrow> bytes \<Rightarrow> int \<Rightarrow> nat \<Rightarrow> bool" where
  "holds p h g b \<longleftrightarrow> b < num_gpu_blocks p \<and> b \<noteq> null_block p \<and> blk_hash (blk p b) = Some (key_of h g)"

lemma get_one_holds:
  assumes "pool_inv p xs"
  shows "\<exists>x. get_one_block (cached p) (key_of h g) = Inr x
    \<and> (case x of None \<Rightarrow> \<forall>b. \<not> holds p h g b | Some b \<Rightarrow> holds p h g b)"
proof -
  have mem: "b \<in> entry_blocks (cached p (key_of h g)) \<longleftrightarrow> holds p h g b" for b
    using pool_invD(4,8)[OF assms] by (simp add: holds_def)
  note ok = pool_invD(6)[OF assms]
  show ?thesis
  proof (cases "entry_blocks (cached p (key_of h g)) = {}")
    case True
    with bm.get_one_None[OF ok True] mem show ?thesis by auto
  next
    case False
    from bm.get_one_Some[OF ok False] mem show ?thesis by auto
  qed
qed

lemma get_cached_block_spec:
  assumes inv: "pool_inv p xs" and "\<forall>g \<in> set gs. 0 \<le> g \<and> g < 2 ^ 32"
  shows "\<exists>x. get_cached_block h gs p = Inr x
    \<and> (case x of None \<Rightarrow> \<exists>g \<in> set gs. \<forall>b. \<not> holds p h g b | Some bs \<Rightarrow> list_all2 (holds p h) gs bs)"
  using assms(2)
proof (induction gs)
  case (Cons g gs)
  then obtain y where IH: "get_cached_block h gs p = Inr y"
    "case y of None \<Rightarrow> \<exists>g \<in> set gs. \<forall>b. \<not> holds p h g b | Some bs \<Rightarrow> list_all2 (holds p h) gs bs" by auto
  have key: "make_block_hash_with_group_id h g = Inr (key_of h g)" using Cons.prems make_key by simp
  obtain x where x: "get_one_block (cached p) (key_of h g) = Inr x"
    "case x of None \<Rightarrow> \<forall>b. \<not> holds p h g b | Some b \<Rightarrow> holds p h g b"
    using get_one_holds[OF inv] by blast
  show ?case
  proof (cases x)
    case None
    with x key show ?thesis by auto
  next
    case (Some b)
    with x key IH show ?thesis by (cases y) auto
  qed
qed simp

text \<open>
  C27. In every reachable pool the prefix lookup never raises, and it is sound and
  complete: a hit names, for each cache group, an existing block other than the null block
  that carries exactly this hash; a miss means that in some group no block carries it.
\<close>

theorem prefix_lookup_exact:
  assumes "pool_reach p" and "\<forall>g \<in> set gs. 0 \<le> g \<and> g < 2 ^ 32"
  shows "case get_cached_block h gs p of
      Inl e \<Rightarrow> False
    | Inr None \<Rightarrow> \<exists>g \<in> set gs. \<forall>b. \<not> holds p h g b
    | Inr (Some bs) \<Rightarrow> list_all2 (holds p h) gs bs"
proof -
  obtain xs where inv: "pool_inv p xs" using pool_reach_inv[OF assms(1)] by blast
  obtain x where "get_cached_block h gs p = Inr x"
    "case x of None \<Rightarrow> \<exists>g \<in> set gs. \<forall>b. \<not> holds p h g b | Some bs \<Rightarrow> list_all2 (holds p h) gs bs"
    using get_cached_block_spec[OF inv assms(2)] by blast
  then show ?thesis by (cases x) auto
qed

section \<open>Caching, then looking up\<close>

lemma holds_lookup:
  assumes inv: "pool_inv p xs" and h: "holds p h g b" and g: "0 \<le> g" "g < 2 ^ 32"
  shows "\<exists>c. get_cached_block h [g] p = Inr (Some [c]) \<and> holds p h g c"
proof -
  have "\<forall>g \<in> set [g]. 0 \<le> g \<and> g < 2 ^ 32" using g by simp
  from get_cached_block_spec[OF inv this, of h] obtain x where x: "get_cached_block h [g] p = Inr x"
    "case x of None \<Rightarrow> \<exists>g \<in> set [g]. \<forall>b. \<not> holds p h g b | Some bs \<Rightarrow> list_all2 (holds p h) [g] bs"
    by blast
  show ?thesis
  proof (cases x)
    case None
    with x h show ?thesis by auto
  next
    case (Some bs)
    with x show ?thesis by (auto simp: list_all2_Cons1)
  qed
qed

text \<open>
  C30. Once \<open>cache_full_blocks\<close> has returned, every new full block of the request
  that is not skipped (null or masked out) is found again under its hash: the lookup of that
  hash in the group hits, reference counts are unchanged and the invariant still holds.
\<close>

theorem cached_blocks_are_found:
  assumes "cache_full_blocks digest r bs nc nf bsize g msk p = Inr p'" and "pool_inv p xs"
    and "\<forall>b \<in> set bs. b < num_gpu_blocks p" and "nc + i < nf" and "nc + i < length bs"
    and "\<not> skipped_at msk p i (bs ! (nc + i))" and "0 \<le> g" and "g < 2 ^ 32"
  shows "\<exists>hashes. group_hashes r bsize p = Inr hashes \<and> nc + i < length hashes
    \<and> (\<exists>c. get_cached_block (hashes ! (nc + i)) [g] p' = Inr (Some [c])
         \<and> blk_hash (blk p' c) = blk_hash (blk p' (bs ! (nc + i))))
    \<and> pool_inv p' xs \<and> (\<forall>b. ref_cnt (blk p' b) = ref_cnt (blk p b))"
proof -
  have "nc < nf" using assms(4) by simp
  from cache_full_blocks_ok[OF assms(1-3) this] obtain hashes where
    h: "group_hashes r bsize p = Inr hashes" and inv: "pool_inv p' xs"
    and refs: "\<forall>c. ref_cnt (blk p' c) = ref_cnt (blk p c)"
    and all: "\<forall>i. nc + i < nf \<and> nc + i < length bs \<longrightarrow> skipped_at msk p i (bs ! (nc + i))
        \<or> (nc + i < length hashes \<and> (\<exists>key. make_block_hash_with_group_id (hashes ! (nc + i)) g = Inr key
             \<and> blk_hash (blk p' (bs ! (nc + i))) = Some key))" by blast
  let ?b = "bs ! (nc + i)" and ?h = "hashes ! (nc + i)"
  have len: "nc + i < length hashes" and hash: "blk_hash (blk p' ?b) = Some (key_of ?h g)"
    using all assms(4-6) make_key[OF assms(7,8), of ?h] by auto
  from hash have "?b < num_gpu_blocks p' \<and> ?b \<noteq> null_block p'"
    using inv unfolding pool_inv_def by (metis not_less option.distinct(1))
  with hash have hb: "holds p' ?h g ?b" by (simp add: holds_def)
  from holds_lookup[OF inv hb assms(7,8)] obtain c where c: "get_cached_block ?h [g] p' = Inr (Some [c])"
    "holds p' ?h g c" by blast
  have "blk_hash (blk p' c) = blk_hash (blk p' ?b)" using c(2) hash by (simp add: holds_def)
  with h len c(1) inv refs show ?thesis by blast
qed

section \<open>Least recently used first\<close>

text \<open>
  Allocating and freeing rotates the free list: when a request's blocks are freed in
  reverse order (as the managers do), they go to the back with the tail of the sequence first,
  still cached or not as before, so the blocks freed earlier, and of these blocks the later
  ones, are reused first.
\<close>

theorem allocate_free_rotates:
  assumes "pool_inv p xs" and "get_new_blocks n p = Inr (bs, p1)"
  shows "\<exists>p2. free_blocks (rev bs) p1 = Inr p2 \<and> pool_inv p2 (drop n xs @ rev (take n xs))
    \<and> (\<forall>b. blk_hash (blk p2 b) = blk_hash (blk p1 b))"
proof -
  have n: "n \<le> length xs"
    using assms pool_invD(7)[OF assms(1)] by (auto simp: get_new_blocks_def split: if_splits)
  from get_new_blocks_ok[OF assms(1) n] assms(2) have bs: "bs = take n xs"
    and inv1: "pool_inv p1 (drop n xs)" and same: "num_gpu_blocks p1 = num_gpu_blocks p" "null_block p1 = null_block p"
    and ref: "\<forall>c. ref_cnt (blk p1 c) = (if c \<in> set (take n xs) then 1 else ref_cnt (blk p c))" by auto
  have mem: "b < num_gpu_blocks p1 \<and> \<not> is_null (blk p1 b) \<and> ref_cnt (blk p1 b) = 1" if "b \<in> set bs" for b
    using that bs ref same pool_invD(3,4)[OF assms(1), of b] pool_invD(4)[OF inv1, of b]
    by (auto dest: in_set_takeD)
  have dist: "distinct bs" using pool_invD(2)[OF assms(1)] bs by simp
  have "filter (\<lambda>b. \<not> is_null (blk p1 b) \<and> ref_cnt (blk p1 b) = 1) (rev bs) = rev bs"
    by (rule filter_True) (use mem in auto)
  moreover have "may_free p1 (rev bs)" using mem dist by (auto simp: may_free_def)
  from free_blocks_ok[OF inv1 this] obtain p2 where "free_blocks (rev bs) p1 = Inr p2"
    "pool_inv p2 (drop n xs @ filter (\<lambda>b. \<not> is_null (blk p1 b) \<and> ref_cnt (blk p1 b) = 1) (rev bs))"
    "\<forall>c. blk_hash (blk p2 c) = blk_hash (blk p1 c)" by blast
  ultimately show ?thesis using bs by auto
qed

section \<open>Conservation, usage and reset\<close>

text \<open>
  C25. In every reachable pool no block is lost or counted twice: walking the free queue
  yields, without repetition, exactly the real blocks nobody uses; free and used blocks add up
  to all blocks but the null block; and the usage is between 0 and 1.
\<close>

theorem pool_conserves_blocks:
  assumes "pool_reach p"
  shows "\<exists>xs. get_all_free_blocks (free_block_queue p) = Inr (Some (map Blk xs)) \<and> distinct xs
    \<and> set xs = real_blocks p - in_use p
    \<and> get_num_free_blocks p + int (card (in_use p)) = int (num_gpu_blocks p) - 1
    \<and> 0 \<le> get_usage p \<and> get_usage p \<le> 1"
proof -
  obtain xs where inv: "pool_inv p xs" using pool_reach_inv[OF assms] by blast
  have sum: "length xs + card (in_use p) = num_gpu_blocks p - 1" by (rule free_and_used[OF inv])
  have pos: "0 < num_gpu_blocks p" using pool_invD(5)[OF inv] by simp
  have "b \<in> set xs \<longleftrightarrow> b \<in> real_blocks p - in_use p" for b
    using pool_invD(3)[OF inv, of b] pool_invD(9)[OF inv, of b]
    by (auto simp: real_blocks_def in_use_def order.order_iff_strict)
  then have "set xs = real_blocks p - in_use p" by blast
  moreover have le: "length xs \<le> num_gpu_blocks p - 1" using sum by simp
  have "0 \<le> get_usage p" "get_usage p \<le> 1"
    using le pos pool_invD(7)[OF inv] by (auto simp: get_usage_def Let_def divide_simps)
  moreover have "get_num_free_blocks p + int (card (in_use p)) = int (num_gpu_blocks p) - 1"
    using sum pos pool_invD(7)[OF inv] by simp
  ultimately show ?thesis
    using get_all_rel[OF pool_invD(1)[OF inv]] pool_invD(2)[OF inv] by blast
qed

text \<open>
  Resetting the prefix cache of a reachable pool succeeds exactly when no real block
  is in use; then no lookup hits any more and the pool still hands out its blocks in the same
  order. Otherwise it changes nothing.
\<close>

theorem reset_exactly_when_idle:
  assumes "pool_reach p"
  shows "if in_use p = {}
    then fst (pool_reset_prefix_cache p)
      \<and> (\<forall>h b g. \<not> holds (snd (pool_reset_prefix_cache p)) h g b)
      \<and> free_block_queue (snd (pool_reset_prefix_cache p)) = free_block_queue p
      \<and> pool_reach (snd (pool_reset_prefix_cache p))
    else pool_reset_prefix_cache p = (False, p)"
proof -
  obtain xs where inv: "pool_inv p xs" using pool_reach_inv[OF assms] by blast
  have "finite (in_use p)" by (simp add: in_use_def real_blocks_def)
  then have idle: "in_use p = {} \<longleftrightarrow> length xs = num_gpu_blocks p - 1"
    using free_and_used[OF inv] by (simp add: card_gt_0_iff) (metis add_cancel_left_right card_0_eq)
  have "pool_reach (snd (pool_reset_prefix_cache p))"
    using pool_reach.step[OF assms pool_step.reset] by (metis prod.collapse)
  moreover have "free_block_queue (snd (pool_reset_prefix_cache p)) = free_block_queue p"
    by (simp add: pool_reset_prefix_cache_def)
  ultimately show ?thesis
    using idle reset_ok(1)[OF inv] reset_ok(4)[OF inv] reset_refused[OF inv] by (auto simp: holds_def)
qed

section \<open>Concrete runs\<close>

text \<open>A pool of four blocks; a request takes two of them and caches the first.\<close>

definition ex_cached_request :: request where
  "ex_cached_request = ex_request\<lparr>block_hashes := [[1], [2]]\<rparr>"

definition ex_alloc :: "(nat list \<times> block_pool) result" where
  "ex_alloc = bindE (new_block_pool 4 True 2 True False) (get_new_blocks 2)"

definition ex_cache :: "block_pool result" where
  "ex_cache = bindE ex_alloc (\<lambda>(bs, p). cache_full_blocks (\<lambda>_. []) ex_cached_request bs 0 1 2 0 None p)"

lemma ex_alloc_runs: "\<exists>p p1. new_block_pool 4 True 2 True False = Inr p \<and> pool_reach p
   \<and> pool_inv p [1, 2, 3] \<and> enable_caching p \<and> num_gpu_blocks p = 4 \<and> null_block p = 0
   \<and> get_new_blocks 2 p = Inr ([1, 2], p1) \<and> pool_inv p1 [3] \<and> ex_alloc = Inr ([1, 2], p1)
   \<and> num_gpu_blocks p1 = 4 \<and> null_block p1 = 0"
proof -
  have upt: "[1..<4] = [1, 2, 3 :: nat]" by (simp add: upt_rec)
  obtain p where p: "new_block_pool 4 True 2 True False = Inr p" "pool_inv p [1, 2, 3]"
    "enable_caching p" "num_gpu_blocks p = 4" "null_block p = 0"
    using new_block_pool_inv[of 4 True 2 True False] unfolding upt by auto
  from get_new_blocks_ok[OF p(2), of 2] obtain p1 where
    p1: "get_new_blocks 2 p = Inr ([1, 2], p1)" "pool_inv p1 [3]" "num_gpu_blocks p1 = 4" "null_block p1 = 0"
    using p(4,5) by auto
  then show ?thesis using p pool_reach.init[OF p(1)] by (auto simp: ex_alloc_def)
qed

lemma ex_cache_runs: "case ex_cache of Inl _ \<Rightarrow> False | Inr p \<Rightarrow> True"
  by code_simp

lemma ex_cache_pool:
  "\<exists>p p'. ex_alloc = Inr ([1, 2], p) \<and> pool_inv p [3] \<and> num_gpu_blocks p = 4 \<and> null_block p = 0
    \<and> cache_full_blocks (\<lambda>_. []) ex_cached_request [1, 2] 0 1 2 0 None p = Inr p'"
proof -
  obtain p p1 where a: "ex_alloc = Inr ([1, 2], p1)" "pool_inv p1 [3]" "num_gpu_blocks p1 = 4" "null_block p1 = 0"
    using ex_alloc_runs by blast
  have "ex_cache = cache_full_blocks (\<lambda>_. []) ex_cached_request [1, 2] 0 1 2 0 None p1"
    unfolding ex_cache_def a(1) bindE_Inr prod.case by (rule refl)
  moreover obtain p' where "ex_cache = Inr p'"
    using ex_cache_runs by (metis sum.case_eq_if sum.collapse(2))
  ultimately show ?thesis using a by metis
qed

theorem get_new_blocks_allocates_witness:
  "\<exists>p p'. pool_reach p \<and> get_new_blocks 2 p = Inr ([1, 2], p') \<and> pool_inv p' [3]
     \<and> ref_cnt (blk p' 1) = 1 \<and> ref_cnt (blk p' 3) = ref_cnt (blk p 3)"
proof -
  obtain p where p: "pool_reach p" "pool_inv p [1, 2, 3]" "enable_caching p"
    using ex_alloc_runs by blast
  from get_new_blocks_allocates[OF p(2,3), of 2] p(1) show ?thesis by auto
qed

theorem prefix_lookup_exact_witness:
  "\<exists>p. pool_reach p \<and> (case get_cached_block [5] [0, 1] p of
      Inl e \<Rightarrow> False
    | Inr None \<Rightarrow> \<exists>g \<in> set [0, 1]. \<forall>b. \<not> holds p [5] g b
    | Inr (Some bs) \<Rightarrow> list_all2 (holds p [5]) [0, 1] bs)"
proof -
  obtain p where p: "pool_reach p" using ex_alloc_runs by blast
  have "\<forall>g \<in> set [0, 1 :: int]. 0 \<le> g \<and> g < 2 ^ 32" by simp
  from prefix_lookup_exact[OF p this, of "[5]"] p show ?thesis by blast
qed

theorem cached_blocks_are_found_witness:
  "\<exists>p p' hashes c. cache_full_blocks (\<lambda>_. []) ex_cached_request [1, 2] 0 1 2 0 None p = Inr p'
    \<and> group_hashes ex_cached_request 2 p = Inr hashes
    \<and> get_cached_block (hashes ! 0) [0] p' = Inr (Some [c]) \<and> pool_inv p' [3]"
proof -
  obtain p p' where p: "pool_inv p [3]" "num_gpu_blocks p = 4" "null_block p = 0"
    "cache_full_blocks (\<lambda>_. []) ex_cached_request [1, 2] 0 1 2 0 None p = Inr p'"
    using ex_cache_pool by blast
  have ids: "\<forall>b \<in> set [1, 2]. b < num_gpu_blocks p" and i: "(0 :: nat) + 0 < 1"
    and len: "0 + 0 < length [1, 2 :: nat]" using p(2) by simp_all
  have nn: "\<not> skipped_at None p 0 ([1, 2] ! (0 + 0))"
    using pool_invD(4)[OF p(1), of 1] p(3) by (simp add: skipped_at_def masked_out_def)
  have g: "(0 :: int) \<le> 0" "(0 :: int) < 2 ^ 32" by simp_all
  from cached_blocks_are_found[OF p(4,1) ids i len nn g] p(4) show ?thesis
    unfolding add_0 by blast
qed

theorem allocate_free_rotates_witness:
  "\<exists>p p1 p2. get_new_blocks 2 p = Inr ([1, 2], p1) \<and> free_blocks [2, 1] p1 = Inr p2
     \<and> pool_inv p2 [3, 2, 1]"
proof -
  obtain p p1 where p: "pool_inv p [1, 2, 3]" "get_new_blocks 2 p = Inr ([1, 2], p1)"
    using ex_alloc_runs by blast
  from allocate_free_rotates[OF p] p(2) show ?thesis by auto
qed

theorem pool_conserves_blocks_witness:
  "\<exists>p xs. get_all_free_blocks (free_block_queue p) = Inr (Some (map Blk xs)) \<and> num_gpu_blocks p = 4
     \<and> get_num_free_blocks p + int (card (in_use p)) = 3"
proof -
  obtain p where p: "pool_reach p" "num_gpu_blocks p = 4" using ex_alloc_runs by blast
  from pool_conserves_blocks[OF p(1)] p(2) show ?thesis by fastforce
qed

theorem reset_exactly_when_idle_witness:
  "\<exists>p. pool_reach p \<and> in_use p = {} \<and> fst (pool_reset_prefix_cache p)"
proof -
  obtain p where p: "pool_reach p" "pool_inv p [1, 2, 3]" "num_gpu_blocks p = 4" using ex_alloc_runs by blast
  have "card (in_use p) = 0" using free_and_used[OF p(2)] p(3) by simp
  then have "in_use p = {}" by (simp add: in_use_def real_blocks_def)
  with reset_exactly_when_idle[OF p(1)] p(1) show ?thesis by auto
qed

end
