(* ===== verification/KV_Manager.thy ===== *)
theory KV_Manager
  imports Pool_Correct
begin

text \<open>
  \<open>vllm/v1/core/single_type_kv_cache_manager.py\<close>: the managers of one KV cache group.
  The class of a manager is its specification \<open>kv_spec\<close>; methods that a subclass
  overrides branch on it. The block pool, which all managers share, is threaded through.
  Token counts are \<open>int\<close>, block sizes are positive. The sink attention manager only
  takes its sink blocks off the pool at construction and is left out.
\<close>

section \<open>State\<close>

text \<open>
  \<open>FullSpec z\<close>: \<open>z\<close> says whether new block ids are recorded for zeroing (the
  exact types \<open>FullAttentionSpec\<close> and \<open>TQFullAttentionSpec\<close>).
  \<open>MambaSpec align n\<close>: \<open>n\<close> speculative blocks.
\<close>

datatype kv_spec = FullSpec bool | SlidingSpec int | ChunkedSpec int | MambaSpec bool int | CrossSpec

record kv_manager =
  kv_spec :: kv_spec
  spec_block_size :: int
  m_block_size :: int
  m_caching :: bool
  admission_cap :: "int option"
  new_block_ids :: "nat list"
  req_to_blocks :: "rid \<rightharpoonup> nat list"
  num_cached_block :: "rid \<rightharpoonup> nat"
  m_group :: int
  cached_this_step :: "bytes set"
  last_state_block_idx :: "rid \<rightharpoonup> int"
  allocated_block_reqs :: "rid set"

text \<open>\<open>max_admission_blocks_per_request\<close> of the recycling specifications.\<close>

definition max_admission_blocks :: "kv_spec \<Rightarrow> int \<Rightarrow> int \<Rightarrow> int \<Rightarrow> int option" where
  "max_admission_blocks spec bs max_batched max_len = (case spec of
      SlidingSpec w \<Rightarrow> Some (cdiv (min (w - 1 + max_batched) max_len) bs + 1)
    | ChunkedSpec c \<Rightarrow> Some (cdiv (min (c + max_batched) max_len) bs)
    | _ \<Rightarrow> None)"

definition new_manager :: "kv_spec \<Rightarrow> int \<Rightarrow> bool \<Rightarrow> int \<Rightarrow> int \<Rightarrow> int \<Rightarrow> int \<Rightarrow> int \<Rightarrow> kv_manager" where
  "new_manager spec bs caching g dcp pcp max_batched max_len =
     \<lparr>kv_spec = spec, spec_block_size = bs,
      m_block_size = (if dcp * pcp > 1 then bs * (dcp * pcp) else bs), m_caching = caching,
      admission_cap = max_admission_blocks spec bs max_batched max_len, new_block_ids = [],
      req_to_blocks = Map.empty, num_cached_block = Map.empty, m_group = g, cached_this_step = {},
      last_state_block_idx = Map.empty, allocated_block_reqs = {}\<rparr>"

text \<open>\<open>req_to_blocks\<close> is a \<open>defaultdict\<close>: indexing enters an empty list.\<close>

definition blocks_of :: "kv_manager \<Rightarrow> rid \<Rightarrow> nat list" where
  "blocks_of m r = (case req_to_blocks m r of None \<Rightarrow> [] | Some bs \<Rightarrow> bs)"

definition set_blocks :: "rid \<Rightarrow> nat list \<Rightarrow> kv_manager \<Rightarrow> kv_manager" where
  "set_blocks r bs m = m\<lparr>req_to_blocks := (req_to_blocks m)(r \<mapsto> bs)\<rparr>"

definition num_skipped_tokens :: "kv_spec \<Rightarrow> int \<Rightarrow> int" where
  "num_skipped_tokens spec n = (case spec of
      SlidingSpec w \<Rightarrow> max 0 (n - w + 1)
    | ChunkedSpec c \<Rightarrow> n div c * c
    | MambaSpec _ _ \<Rightarrow> n - 1
    | _ \<Rightarrow> 0)"

definition num_evictable :: "block_pool \<Rightarrow> nat list \<Rightarrow> int" where
  "num_evictable p bs = int (length (filter (\<lambda>b. ref_cnt (blk p b) = 0 \<and> \<not> is_null (blk p b)) bs))"

section \<open>Counting the blocks to allocate\<close>

definition base_num_blocks :: "kv_manager \<Rightarrow> block_pool \<Rightarrow> rid \<Rightarrow> int \<Rightarrow> nat list \<Rightarrow> int \<Rightarrow> bool \<Rightarrow> int result" where
  "base_num_blocks m p r ntok new_comp total_comp apply_cap =
     (let req0 = cdiv ntok (m_block_size m);
          req = (case admission_cap m of None \<Rightarrow> req0 | Some c \<Rightarrow> if apply_cap then min req0 c else req0);
          n_req = int (length (blocks_of m r)) in
      if num_cached_block m r \<noteq> None
      then bindE (assertE (new_comp = [])) (\<lambda>_. Inr (max (req - n_req) 0))
      else let skipped = num_skipped_tokens (kv_spec m) total_comp div m_block_size m;
               n_local = int (length new_comp) + n_req;
               n_new = max (req - max skipped n_local) 0;
               skipped_new = max 0 (skipped - n_req) in
        Inr (n_new + num_evictable p (drop (nat skipped_new) new_comp)))"

text \<open>In align mode the source reads the \<open>defaultdict\<close> of the request's blocks, which enters an
  empty list; \<open>blocks_of\<close> gives the same for an empty list and for no entry, and every
  operation reads it that way, so the entry is not recorded.\<close>

definition get_num_blocks_to_allocate ::
  "kv_manager \<Rightarrow> block_pool \<Rightarrow> rid \<Rightarrow> int \<Rightarrow> nat list \<Rightarrow> int \<Rightarrow> int \<Rightarrow> bool \<Rightarrow> int result" where
  "get_num_blocks_to_allocate m p r ntok new_comp total_comp num_main apply_cap = (case kv_spec m of
      MambaSpec align n_spec \<Rightarrow>
        if new_comp \<noteq> [] \<and> (\<exists>h \<in> cached_this_step m. blk_hash (blk p (last new_comp)) = Some h)
        then Inr (int (num_gpu_blocks p) + 1)
        else if \<not> align
        then base_num_blocks m p r (if n_spec > 0 then ntok + spec_block_size m * n_spec else ntok)
               new_comp total_comp apply_cap
        else let req = cdiv num_main (m_block_size m) + n_spec;
                 n0 = req - int (length new_comp) - int (length (blocks_of m r));
                 n = (if n0 > 0 then (if r \<in> allocated_block_reqs m then 1 else 1 + n_spec) else n0) in
          Inr (n + num_evictable p new_comp)
    | _ \<Rightarrow> base_num_blocks m p r ntok new_comp total_comp apply_cap)"

section \<open>Taking blocks\<close>

text \<open>Records the ids of freshly allocated blocks of full attention.\<close>

definition note_new :: "nat list \<Rightarrow> kv_manager \<Rightarrow> kv_manager" where
  "note_new bs m = (if kv_spec m = FullSpec True then m\<lparr>new_block_ids := new_block_ids m @ bs\<rparr> else m)"

definition allocate_new_computed_blocks ::
  "rid \<Rightarrow> nat list \<Rightarrow> int \<Rightarrow> int \<Rightarrow> kv_manager \<Rightarrow> block_pool \<Rightarrow> (kv_manager \<times> block_pool) result" where
  "allocate_new_computed_blocks r new_comp n_local n_ext m p =
     (if kv_spec m = CrossSpec then bindE (assertE (new_comp = [])) (\<lambda>_. Inr (m, p))
      else if num_cached_block m r \<noteq> None then bindE (assertE (new_comp = [])) (\<lambda>_. Inr (m, p))
      else bindE (assertE (blocks_of m r = [])) (\<lambda>_.
        let total = n_local + n_ext;
            skipped = num_skipped_tokens (kv_spec m) total;
            n_skip = skipped div m_block_size m;
            comp = (if n_skip > 0 then drop (nat n_skip) new_comp else new_comp);
            ext = (if n_skip > 0 then min (total - skipped) n_ext else n_ext) in
        bindE (if m_caching m then touch comp p else bindE (assertE (comp = [])) (\<lambda>_. Inr p)) (\<lambda>p1.
          let bs = replicate (nat n_skip) (null_block p1) @ comp;
              m1 = (set_blocks r bs m)\<lparr>num_cached_block := (num_cached_block m)(r \<mapsto> length bs)\<rparr> in
          if ext > 0
          then bindE (get_new_blocks (nat (cdiv total (m_block_size m) - int (length bs))) p1) (\<lambda>(new, p2).
            Inr (note_new new (set_blocks r (bs @ new) m1), p2))
          else Inr (m1, p1))))"

definition base_allocate_new_blocks ::
  "rid \<Rightarrow> int \<Rightarrow> kv_manager \<Rightarrow> block_pool \<Rightarrow> (nat list \<times> kv_manager \<times> block_pool) result" where
  "base_allocate_new_blocks r ntok m p =
     (let bs = blocks_of m r;
          n_new = cdiv ntok (m_block_size m) - int (length bs) in
      if n_new \<le> 0 then Inr ([], set_blocks r bs m, p)
      else bindE (get_new_blocks (nat n_new) p) (\<lambda>(new, p').
        Inr (new, note_new new (set_blocks r (bs @ new) m), p')))"

text \<open>Align mode reuses the speculative blocks: those before the new state block move to the
  end of the list.\<close>

fun reuse_spec :: "nat \<Rightarrow> nat \<Rightarrow> nat \<Rightarrow> nat \<Rightarrow> nat list \<Rightarrow> nat list" where
  "reuse_spec nb 0 i n_skip bs = bs"
| "reuse_spec nb (Suc k) i n_skip bs =
     (if i < n_skip then reuse_spec nb k (Suc i) n_skip ((bs @ [bs ! i])[i := nb]) else bs)"

definition mamba_allocate ::
  "rid \<Rightarrow> int \<Rightarrow> int \<Rightarrow> kv_manager \<Rightarrow> block_pool \<Rightarrow> (nat list \<times> kv_manager \<times> block_pool) result" where
  "mamba_allocate r num_main n_spec m p =
     (let bs = blocks_of m r; prev = length bs;
          req = cdiv num_main (m_block_size m) + n_spec;
          had = r \<in> allocated_block_reqs m in
      if req = int prev then Inr ([], set_blocks r bs m, p)
      else bindE (assertE (req > int prev)) (\<lambda>_.
        let m1 = (if had then m\<lparr>last_state_block_idx := (last_state_block_idx m)(r \<mapsto> int prev - 1 - n_spec)\<rparr>
                  else if prev > 0 then m\<lparr>last_state_block_idx := (last_state_block_idx m)(r \<mapsto> int prev - 1)\<rparr>
                  else m);
            n_skip = req - n_spec - 1;
            bs1 = bs @ replicate (nat (n_skip - int prev)) (null_block p);
            bs2 = (if had then reuse_spec (null_block p) (nat n_spec) (nat (int prev - n_spec)) (nat n_skip) bs1 else bs1);
            n_new = req - int (length bs2) in
        bindE (assertE (if had then n_new \<le> 1 else n_new \<le> n_spec + 1)) (\<lambda>_.
        bindE (get_new_blocks (nat n_new) p) (\<lambda>(new, p').
          Inr (drop prev (bs2 @ new),
               (set_blocks r (bs2 @ new) m1)\<lparr>allocated_block_reqs := insert r (allocated_block_reqs m)\<rparr>, p')))))"

definition allocate_new_blocks ::
  "rid \<Rightarrow> int \<Rightarrow> int \<Rightarrow> kv_manager \<Rightarrow> block_pool \<Rightarrow> (nat list \<times> kv_manager \<times> block_pool) result" where
  "allocate_new_blocks r ntok num_main m p = (case kv_spec m of
      MambaSpec align n_spec \<Rightarrow>
        if \<not> align
        then base_allocate_new_blocks r (if n_spec > 0 then ntok + m_block_size m * n_spec else ntok) m p
        else mamba_allocate r num_main n_spec m p
    | _ \<Rightarrow> base_allocate_new_blocks r ntok m p)"

definition take_new_block_ids :: "kv_manager \<Rightarrow> nat list \<times> kv_manager" where
  "take_new_block_ids m = (new_block_ids m, m\<lparr>new_block_ids := []\<rparr>)"

section \<open>Giving blocks back\<close>

definition manager_free :: "rid \<Rightarrow> kv_manager \<Rightarrow> block_pool \<Rightarrow> (kv_manager \<times> block_pool) result" where
  "manager_free r m p =
     (let m0 = (case kv_spec m of
           MambaSpec True _ \<Rightarrow> m\<lparr>allocated_block_reqs := allocated_block_reqs m - {r},
                                 last_state_block_idx := (last_state_block_idx m)(r := None)\<rparr>
         | _ \<Rightarrow> m) in
      bindE (free_blocks (rev (blocks_of m r)) p) (\<lambda>p'.
        Inr (m0\<lparr>req_to_blocks := (req_to_blocks m0)(r := None),
                 num_cached_block := (num_cached_block m0)(r := None)\<rparr>, p')))"

text \<open>Walks down from block \<open>n - 1\<close> to the first null block; collects what it removes.\<close>

fun drop_skipped :: "nat \<Rightarrow> nat \<Rightarrow> nat list \<Rightarrow> nat list \<times> nat list" where
  "drop_skipped nb 0 bs = ([], bs)"
| "drop_skipped nb (Suc i) bs =
     (if bs ! i = nb then ([], bs)
      else let (removed, bs') = drop_skipped nb i (bs[i := nb]) in (bs ! i # removed, bs'))"

definition base_remove_skipped :: "rid \<Rightarrow> int \<Rightarrow> kv_manager \<Rightarrow> block_pool \<Rightarrow> (kv_manager \<times> block_pool) result" where
  "base_remove_skipped r total_comp m p =
     (let n = num_skipped_tokens (kv_spec m) total_comp in
      if n \<le> 0 then Inr (m, p)
      else let bs = blocks_of m r;
               k = min (nat (n div m_block_size m)) (length bs);
               (removed, bs') = drop_skipped (null_block p) k bs in
        bindE (free_blocks removed p) (\<lambda>p'. Inr (set_blocks r bs' m, p')))"

definition remove_skipped_blocks :: "rid \<Rightarrow> int \<Rightarrow> kv_manager \<Rightarrow> block_pool \<Rightarrow> (kv_manager \<times> block_pool) result" where
  "remove_skipped_blocks r num_comp m p = (case kv_spec m of
      MambaSpec align n_spec \<Rightarrow>
        let n = max 0 (num_comp - n_spec) in
        bindE (base_remove_skipped r n m p) (\<lambda>(m1, p1).
          if align then (case last_state_block_idx m1 r of
              Some i \<Rightarrow>
                if i < cdiv n (m_block_size m1) - 1
                then bindE (py_index (blocks_of m1 r) i) (\<lambda>b.
                  if b \<noteq> null_block p1
                  then bindE (free_blocks [b] p1) (\<lambda>p2.
                    Inr (set_blocks r ((blocks_of m1 r)[nat (i mod int (length (blocks_of m1 r))) := null_block p1]) m1, p2))
                  else Inr (set_blocks r (blocks_of m1 r) m1, p1))
                else Inr (m1, p1)
            | None \<Rightarrow> Inr (m1, p1))
          else Inr (m1, p1))
    | _ \<Rightarrow> base_remove_skipped r num_comp m p)"

section \<open>Caching\<close>

text \<open>Blocks of sliding window groups that can never end an aligned hit stay uncached.\<close>

definition cache_block_mask :: "kv_manager \<Rightarrow> nat \<Rightarrow> nat \<Rightarrow> int \<Rightarrow> bool list option result" where
  "cache_block_mask m n_cached n_full align = (case kv_spec m of
      SlidingSpec w \<Rightarrow>
        bindE (assertE (align > m_block_size m)) (\<lambda>_.
          let per_segment = align div m_block_size m;
              tail = cdiv (w - 1) (m_block_size m) in
          Inr (if tail \<ge> per_segment then None
               else Some (map (\<lambda>i. int i mod per_segment \<ge> per_segment - tail) [n_cached..<n_full])))
    | _ \<Rightarrow> Inr None)"

definition base_cache_blocks ::
  "(int list \<Rightarrow> bytes) \<Rightarrow> request \<Rightarrow> int \<Rightarrow> int option \<Rightarrow> kv_manager \<Rightarrow> block_pool \<Rightarrow> (kv_manager \<times> block_pool) result" where
  "base_cache_blocks digest r ntok align m p =
     (let n_cached = (case num_cached_block m (request_id r) of None \<Rightarrow> 0 | Some n \<Rightarrow> n);
          n_full = ntok div m_block_size m in
      if int n_cached \<ge> n_full then Inr (m, p)
      else bindE (case align of None \<Rightarrow> Inr None
                  | Some a \<Rightarrow> if a \<le> m_block_size m then Inr None
                             else cache_block_mask m n_cached (nat n_full) a) (\<lambda>msk.
        bindE (cache_full_blocks digest r (blocks_of m (request_id r)) n_cached (nat n_full)
                 (nat (m_block_size m)) (m_group m) msk p) (\<lambda>p'.
          Inr ((set_blocks (request_id r) (blocks_of m (request_id r)) m)
                 \<lparr>num_cached_block := (num_cached_block m)(request_id r \<mapsto> nat n_full)\<rparr>, p'))))"

definition step_hash :: "block_pool \<Rightarrow> nat \<Rightarrow> bytes set \<Rightarrow> bytes set result" where
  "step_hash p b S = (if is_null (blk p b) then Inr S
     else case blk_hash (blk p b) of None \<Rightarrow> Inl AssertionError | Some h \<Rightarrow> Inr (insert h S))"

definition cache_blocks ::
  "(int list \<Rightarrow> bytes) \<Rightarrow> request \<Rightarrow> int \<Rightarrow> int option \<Rightarrow> kv_manager \<Rightarrow> block_pool \<Rightarrow> (kv_manager \<times> block_pool) result" where
  "cache_blocks digest r ntok align m p = (case kv_spec m of
      CrossSpec \<Rightarrow> Inl ValueError
    | MambaSpec _ _ \<Rightarrow>
        let before = (case num_cached_block m (request_id r) of None \<Rightarrow> 0 | Some n \<Rightarrow> n) in
        bindE (base_cache_blocks digest r ntok align m p) (\<lambda>(m1, p1).
          let after = (case num_cached_block m1 (request_id r) of None \<Rightarrow> 0 | Some n \<Rightarrow> n) in
          bindE (foldE (step_hash p1) (take (after - before) (drop before (blocks_of m1 (request_id r))))
                   (cached_this_step m1)) (\<lambda>S.
            Inr (m1\<lparr>cached_this_step := S\<rparr>, p1)))
    | _ \<Rightarrow> base_cache_blocks digest r ntok align m p)"

definition new_step_starts :: "kv_manager \<Rightarrow> kv_manager" where
  "new_step_starts m = (case kv_spec m of MambaSpec _ _ \<Rightarrow> m\<lparr>cached_this_step := {}\<rparr> | _ \<Rightarrow> m)"

section \<open>Common prefixes\<close>

text \<open>\<open>len(self.req_to_blocks)\<close>. A map does not list its keys, so evaluation stops at
  the count.\<close>

definition num_tracked :: "kv_manager \<Rightarrow> nat" where
  "num_tracked m = card (dom (req_to_blocks m))"

lemma num_tracked_code [code]:
  "num_tracked m = Code.abort (STR ''len of a map'') (\<lambda>_. num_tracked m)"
  by simp

definition get_num_common_prefix_blocks :: "rid \<Rightarrow> kv_manager \<Rightarrow> block_pool \<Rightarrow> nat \<times> kv_manager" where
  "get_num_common_prefix_blocks r m p = (case kv_spec m of
      FullSpec _ \<Rightarrow>
        let m1 = set_blocks r (blocks_of m r) m in
        (length (takeWhile (\<lambda>b. ref_cnt (blk p b) = int (num_tracked m1)) (blocks_of m r)), m1)
    | _ \<Rightarrow> (0, m))"

end
