(* ===== verification/KV_Hits.thy ===== *)
theory KV_Hits
  imports KV_Manager
begin

text \<open>
  \<open>find_longest_cache_hit\<close> of the managers of one cache group. The tuple of block lists
  per group is kept as the list of its rows, one block per group; \<open>columns\<close> gives the
  tuple back. What a hit means is stated with \<open>row_hit\<close>: every group holds the hash.
\<close>

section \<open>Block hashes at the granularity of a group\<close>

datatype hash_source = Plain "bytes list" | Scaled block_hash_list

definition source_at :: "hash_source \<Rightarrow> nat \<Rightarrow> bytes result" where
  "source_at src i = (case src of Plain hs \<Rightarrow> nth_or_raise hs i | Scaled l \<Rightarrow> Inr (get_value_at l i))"

definition source_list :: "hash_source \<Rightarrow> bytes list" where
  "source_list src = (case src of Plain hs \<Rightarrow> hs | Scaled l \<Rightarrow> bhl_from l 0)"

definition columns :: "nat \<Rightarrow> nat list list \<Rightarrow> nat list list" where
  "columns n rows = map (\<lambda>g. map (\<lambda>row. row ! g) rows) [0..<n]"

section \<open>Lookups\<close>

text \<open>Pops blocks until the length is aligned; the result is the length that remains.\<close>

fun aligned_len :: "int \<Rightarrow> int \<Rightarrow> nat \<Rightarrow> nat" where
  "aligned_len bs align 0 = 0"
| "aligned_len bs align (Suc n) =
     (if bs \<noteq> align \<and> (int (Suc n) * bs) mod align \<noteq> 0 then aligned_len bs align n else Suc n)"

fun prefix_rows :: "block_pool \<Rightarrow> int list \<Rightarrow> bytes list \<Rightarrow> nat list list result" where
  "prefix_rows p gs [] = Inr []"
| "prefix_rows p gs (h # hs) =
     bindE (get_cached_block h gs p) (\<lambda>x. case x of
         None \<Rightarrow> Inr []
       | Some row \<Rightarrow> if row = [] then Inr []
                     else bindE (prefix_rows p gs hs) (\<lambda>rows. Inr (row # rows)))"

definition find_hit_full ::
  "block_pool \<Rightarrow> hash_source \<Rightarrow> int \<Rightarrow> int list \<Rightarrow> int \<Rightarrow> bool \<Rightarrow> int \<Rightarrow> nat list list result" where
  "find_hit_full p src max_length gs bs use_eagle align =
     bindE (prefix_rows p gs (take (nat (max_length div bs)) (source_list src))) (\<lambda>rows.
       let rows1 = (if use_eagle \<and> rows \<noteq> [] then butlast rows else rows) in
       Inr (take (aligned_len bs align (length rows1)) rows1))"

text \<open>The search from right to left of the sliding window; \<open>True\<close> when enough contiguous
  blocks were found.\<close>

fun window_search ::
  "block_pool \<Rightarrow> hash_source \<Rightarrow> int list \<Rightarrow> nat \<Rightarrow> bool \<Rightarrow> int \<Rightarrow> int \<Rightarrow> nat \<Rightarrow> nat \<Rightarrow> nat list list \<Rightarrow>
   (bool \<times> nat \<times> nat list list) result" where
  "window_search p src gs need use_eagle bs align 0 contig rows = Inr (False, contig, rows)"
| "window_search p src gs need use_eagle bs align (Suc i) contig rows =
     bindE (source_at src i) (\<lambda>h.
     bindE (get_cached_block h gs p) (\<lambda>x. case x of
         None \<Rightarrow> window_search p src gs need use_eagle bs align i 0 rows
       | Some row \<Rightarrow>
           if row = [] then window_search p src gs need use_eagle bs align i 0 rows
           else if contig = 0 \<and> bs \<noteq> align \<and> (int (if use_eagle then i else i + 1) * bs) mod align \<noteq> 0
           then window_search p src gs need use_eagle bs align i contig rows
           else if contig + 1 \<ge> need then Inr (True, contig + 1, take (i + (contig + 1)) (rows[i := row]))
           else window_search p src gs need use_eagle bs align i (contig + 1) (rows[i := row])))"

definition find_hit_window ::
  "block_pool \<Rightarrow> hash_source \<Rightarrow> int \<Rightarrow> int list \<Rightarrow> int \<Rightarrow> int \<Rightarrow> bool \<Rightarrow> int \<Rightarrow> nat list list result" where
  "find_hit_window p src max_length gs bs window use_eagle align =
     (let need = nat (cdiv (window - 1) bs + (if use_eagle then 1 else 0));
          n = nat (max_length div bs) in
      bindE (window_search p src gs need use_eagle bs align n 0
               (replicate n (replicate (length gs) (null_block p)))) (\<lambda>(found, contig, rows).
        let rows1 = (if found then rows
                     else take (aligned_len bs align (min contig (length rows))) rows);
            rows2 = (if use_eagle \<and> rows1 \<noteq> []
                     then take (aligned_len bs align (length rows1 - 1)) (butlast rows1) else rows1)
        in Inr rows2))"

fun local_rows :: "block_pool \<Rightarrow> hash_source \<Rightarrow> int list \<Rightarrow> nat list \<Rightarrow> nat list list result" where
  "local_rows p src gs [] = Inr []"
| "local_rows p src gs (i # is') =
     bindE (source_at src i) (\<lambda>h.
     bindE (get_cached_block h gs p) (\<lambda>x. case x of
         None \<Rightarrow> Inr []
       | Some row \<Rightarrow> if row = [] then Inr []
                     else bindE (local_rows p src gs is') (\<lambda>rows. Inr (row # rows))))"

definition find_hit_chunked ::
  "block_pool \<Rightarrow> hash_source \<Rightarrow> int \<Rightarrow> int list \<Rightarrow> int \<Rightarrow> int \<Rightarrow> bool \<Rightarrow> int \<Rightarrow> nat list list result" where
  "find_hit_chunked p src max_length gs bs chunk use_eagle align =
     bindE (assertE (\<not> use_eagle)) (\<lambda>_.
     bindE (assertE (bs = align)) (\<lambda>_.
       let start = (if max_length > 0 then max_length div chunk * chunk else 0);
           first = nat (start div bs) in
       bindE (local_rows p src gs [first..<nat (max_length div bs)]) (\<lambda>rows.
         Inr (replicate first (replicate (length gs) (null_block p)) @ rows))))"

fun mamba_search :: "block_pool \<Rightarrow> hash_source \<Rightarrow> int list \<Rightarrow> int \<Rightarrow> int \<Rightarrow> nat \<Rightarrow> nat list list result" where
  "mamba_search p src gs bs align 0 = Inr []"
| "mamba_search p src gs bs align (Suc i) =
     bindE (source_at src i) (\<lambda>h.
     bindE (get_cached_block h gs p) (\<lambda>x. case x of
         None \<Rightarrow> mamba_search p src gs bs align i
       | Some row \<Rightarrow>
           if row = [] \<or> (bs \<noteq> align \<and> (int (i + 1) * bs) mod align \<noteq> 0)
           then mamba_search p src gs bs align i
           else Inr (replicate i (replicate (length gs) (null_block p)) @ [row])))"

definition find_hit_mamba ::
  "block_pool \<Rightarrow> hash_source \<Rightarrow> int \<Rightarrow> int list \<Rightarrow> int \<Rightarrow> int \<Rightarrow> nat list list result" where
  "find_hit_mamba p src max_length gs bs align =
     mamba_search p src gs bs align (nat (max_length div bs))"

text \<open>The class method of the manager class that belongs to the specification.\<close>

definition find_longest_cache_hit ::
  "kv_spec \<Rightarrow> block_pool \<Rightarrow> hash_source \<Rightarrow> int \<Rightarrow> int list \<Rightarrow> int \<Rightarrow> bool \<Rightarrow> int \<Rightarrow> nat list list result" where
  "find_longest_cache_hit spec p src max_length gs bs use_eagle align = (case spec of
      FullSpec _ \<Rightarrow> find_hit_full p src max_length gs bs use_eagle align
    | SlidingSpec w \<Rightarrow> find_hit_window p src max_length gs bs w use_eagle align
    | ChunkedSpec c \<Rightarrow> find_hit_chunked p src max_length gs bs c use_eagle align
    | MambaSpec _ _ \<Rightarrow> find_hit_mamba p src max_length gs bs align
    | CrossSpec \<Rightarrow> Inl NotImplementedError)"

section \<open>What a row means\<close>

definition row_hit :: "block_pool \<Rightarrow> int list \<Rightarrow> bytes \<Rightarrow> nat list \<Rightarrow> bool" where
  "row_hit p gs h row \<longleftrightarrow> list_all2 (holds p h) gs row"

definition missing :: "block_pool \<Rightarrow> int list \<Rightarrow> bytes \<Rightarrow> bool" where
  "missing p gs h \<longleftrightarrow> (\<exists>g \<in> set gs. \<forall>b. \<not> holds p h g b)"

definition groups_ok :: "int list \<Rightarrow> bool" where
  "groups_ok gs \<longleftrightarrow> gs \<noteq> [] \<and> (\<forall>g \<in> set gs. 0 \<le> g \<and> g < 2 ^ 32)"

lemma lookup_row [consumes 2]:
  assumes "pool_inv p xs" and "groups_ok gs"
  obtains (miss) "get_cached_block h gs p = Inr None" "missing p gs h"
  | (hit) row where "get_cached_block h gs p = Inr (Some row)" "row \<noteq> []" "row_hit p gs h row"
proof -
  from assms(2) have "\<forall>g \<in> set gs. 0 \<le> g \<and> g < 2 ^ 32" by (simp add: groups_ok_def)
  from get_cached_block_spec[OF assms(1) this, of h] obtain x where x: "get_cached_block h gs p = Inr x"
    "case x of None \<Rightarrow> \<exists>g \<in> set gs. \<forall>b. \<not> holds p h g b | Some bs \<Rightarrow> list_all2 (holds p h) gs bs" by blast
  show thesis
  proof (cases x)
    case None
    with x miss show thesis by (simp add: missing_def)
  next
    case (Some row)
    with x assms(2) have "row \<noteq> []" by (auto simp: groups_ok_def)
    with Some x hit show thesis by (simp add: row_hit_def)
  qed
qed

lemma hit_not_missing: "row_hit p gs h row \<Longrightarrow> \<not> missing p gs h"
  unfolding row_hit_def missing_def list_all2_conv_all_nth by (metis in_set_conv_nth)

section \<open>Alignment\<close>

lemma aligned_len_le: "aligned_len bs align n \<le> n"
  by (induction n) auto

lemma aligned_len_aligned: "bs = align \<or> (int (aligned_len bs align n) * bs) mod align = 0"
  by (induction n) auto

lemma aligned_len_greatest:
  "m \<le> n \<Longrightarrow> bs = align \<or> (int m * bs) mod align = 0 \<Longrightarrow> m \<le> aligned_len bs align n"
  by (induction n) (auto simp: le_Suc_eq)

section \<open>Full attention\<close>

lemma prefix_rows_spec:
  assumes inv: "pool_inv p xs" and gs: "groups_ok gs"
  shows "\<exists>rows. prefix_rows p gs hs = Inr rows \<and> length rows \<le> length hs
    \<and> (\<forall>i < length rows. row_hit p gs (hs ! i) (rows ! i))
    \<and> (length rows < length hs \<longrightarrow> missing p gs (hs ! length rows))"
proof (induction hs)
  case (Cons h hs)
  from inv gs show ?case
  proof (cases rule: lookup_row[where h = h])
    case miss
    then show ?thesis by simp
  next
    case (hit row)
    from Cons.IH obtain rows where "prefix_rows p gs hs = Inr rows" "length rows \<le> length hs"
      "\<forall>i < length rows. row_hit p gs (hs ! i) (rows ! i)"
      "length rows < length hs \<longrightarrow> missing p gs (hs ! length rows)" by blast
    with hit show ?thesis by (auto simp: nth_Cons')
  qed
qed simp

text \<open>
  C38. Full attention finds the longest prefix: without EAGLE the result covers as many leading
  blocks as are cached, cut to the maximal length and then to the largest aligned number of
  blocks; every row carries the hash of its position in every group. With EAGLE one block less is
  asked for.
\<close>

theorem full_hit_longest:
  assumes "pool_reach p" and "groups_ok gs" and "0 < bs"
    and "k \<le> nat (max_length div bs)" and "k \<le> length (source_list src)"
    and "\<forall>i < k. \<not> missing p gs (source_list src ! i)"
    and "k = nat (max_length div bs) \<or> k = length (source_list src) \<or> missing p gs (source_list src ! k)"
  shows "\<exists>rows. find_longest_cache_hit (FullSpec z) p src max_length gs bs eagle align = Inr rows
    \<and> length rows = aligned_len bs align (if eagle \<and> 0 < k then k - 1 else k)
    \<and> (\<forall>i < length rows. row_hit p gs (source_list src ! i) (rows ! i))"
proof -
  obtain xs where inv: "pool_inv p xs" using pool_reach_inv[OF assms(1)] by blast
  let ?hs = "take (nat (max_length div bs)) (source_list src)"
  obtain rows where r: "prefix_rows p gs ?hs = Inr rows" "length rows \<le> length ?hs"
    "\<forall>i < length rows. row_hit p gs (?hs ! i) (rows ! i)"
    "length rows < length ?hs \<longrightarrow> missing p gs (?hs ! length rows)"
    using prefix_rows_spec[OF inv assms(2)] by blast
  have "length rows = k"
  proof (rule antisym)
    show "length rows \<le> k"
    proof (rule ccontr)
      assume "\<not> length rows \<le> k"
      then have "k < length rows" by simp
      moreover have "row_hit p gs (?hs ! k) (rows ! k)" using r(3) calculation by blast
      ultimately have "\<not> missing p gs (source_list src ! k)" "k < length ?hs"
        using hit_not_missing r(2) by fastforce+
      with assms(7) show False by auto
    qed
    show "k \<le> length rows"
    proof (rule ccontr)
      assume "\<not> k \<le> length rows"
      then have "length rows < k" by simp
      moreover have "length rows < length ?hs" using calculation assms(4,5) by simp
      ultimately show False using r(4) assms(4,6) by auto
    qed
  qed
  moreover have "find_longest_cache_hit (FullSpec z) p src max_length gs bs eagle align =
    (let rows1 = (if eagle \<and> rows \<noteq> [] then butlast rows else rows) in
       Inr (take (aligned_len bs align (length rows1)) rows1))"
    using r(1) by (simp add: find_longest_cache_hit_def find_hit_full_def)
  moreover have "row_hit p gs (source_list src ! i) (rows ! i)" if "i < length rows" for i
    using r(2,3) that by (auto simp: nth_take)
  moreover have "aligned_len bs align n \<le> n" for n by (rule aligned_len_le)
  moreover have "aligned_len bs align (length rows - Suc 0) \<le> length rows"
    using aligned_len_le[of bs align "length rows - Suc 0"] by simp
  ultimately show ?thesis
    by (cases "eagle \<and> rows \<noteq> []") (auto simp: Let_def nth_butlast min_absorb2 order_less_le_trans)
qed

section \<open>Sliding window\<close>

definition hash_ok :: "hash_source \<Rightarrow> nat \<Rightarrow> bool" where
  "hash_ok src n \<longleftrightarrow> (\<forall>i < n. \<exists>h. source_at src i = Inr h)"

definition hash_nth :: "hash_source \<Rightarrow> nat \<Rightarrow> bytes" where
  "hash_nth src i = (case source_at src i of Inl _ \<Rightarrow> [] | Inr h \<Rightarrow> h)"

lemma source_at_hash: "hash_ok src n \<Longrightarrow> i < n \<Longrightarrow> source_at src i = Inr (hash_nth src i)"
  by (auto simp: hash_ok_def hash_nth_def dest!: spec[of _ i])

definition aligned :: "int \<Rightarrow> int \<Rightarrow> nat \<Rightarrow> bool" where
  "aligned bs align n \<longleftrightarrow> bs = align \<or> (int n * bs) mod align = 0"

text \<open>\<open>hits_from i rows\<close>: from row \<open>i\<close> on every row is a hit of its position; the
  rows before are null rows.\<close>

definition null_row :: "block_pool \<Rightarrow> int list \<Rightarrow> nat list" where
  "null_row p gs = replicate (length gs) (null_block p)"

definition hits_between :: "block_pool \<Rightarrow> hash_source \<Rightarrow> int list \<Rightarrow> nat \<Rightarrow> nat \<Rightarrow> nat list list \<Rightarrow> bool" where
  "hits_between p src gs i j rows \<longleftrightarrow> (\<forall>k. i \<le> k \<and> k < j \<longrightarrow> row_hit p gs (hash_nth src k) (rows ! k))"

definition nulls_before :: "block_pool \<Rightarrow> int list \<Rightarrow> nat \<Rightarrow> nat list list \<Rightarrow> bool" where
  "nulls_before p gs i rows \<longleftrightarrow> (\<forall>k < i. rows ! k = null_row p gs)"

lemma window_search_spec:
  assumes inv: "pool_inv p xs" and gs: "groups_ok gs" and src: "hash_ok src n"
  shows "i + contig \<le> n \<Longrightarrow> length rows = n \<Longrightarrow> hits_between p src gs i (i + contig) rows \<Longrightarrow>
    nulls_before p gs i rows \<Longrightarrow>
    (0 < contig \<longrightarrow> aligned bs align (if eagle then i + contig - 1 else i + contig)) \<Longrightarrow>
    \<exists>found c rs. window_search p src gs need eagle bs align i contig rows = Inr (found, c, rs)
      \<and> (if found then (\<exists>j. length rs = j + c \<and> j + c \<le> n \<and> 0 < c \<and> need \<le> c
            \<and> hits_between p src gs j (j + c) rs \<and> nulls_before p gs j rs
            \<and> aligned bs align (if eagle then j + c - 1 else j + c))
         else length rs = n \<and> c \<le> n \<and> hits_between p src gs 0 c rs)"
proof (induction i arbitrary: contig rows)
  case 0
  then show ?case by (intro exI[of _ False] exI[of _ contig] exI[of _ rows]) simp
next
  case (Suc i)
  have i: "i < n" using Suc.prems(1) by simp
  note at = source_at_hash[OF src i]
  have restart: "hits_between p src gs i (i + 0) rows" "nulls_before p gs i rows"
    using Suc.prems(4) by (auto simp: hits_between_def nulls_before_def)
  note again = Suc.IH[of 0 rows, OF _ Suc.prems(2) restart]
  from inv gs show ?case
  proof (cases rule: lookup_row[where h = "hash_nth src i"])
    case miss
    with again i at show ?thesis by simp
  next
    case (hit row)
    have step: "window_search p src gs need eagle bs align (Suc i) contig rows =
      (if contig = 0 \<and> bs \<noteq> align \<and> (int (if eagle then i else i + 1) * bs) mod align \<noteq> 0
       then window_search p src gs need eagle bs align i contig rows
       else if contig + 1 \<ge> need then Inr (True, contig + 1, take (i + (contig + 1)) (rows[i := row]))
       else window_search p src gs need eagle bs align i (contig + 1) (rows[i := row]))"
      by (simp only: window_search.simps at hit(1,2) bindE_Inr option.case if_False)
    let ?skip = "contig = 0 \<and> bs \<noteq> align \<and> (int (if eagle then i else i + 1) * bs) mod align \<noteq> 0"
    show ?thesis
    proof (cases ?skip)
      case True
      with again i at hit show ?thesis by simp
    next
      case False
      let ?rows = "rows[i := row]"
      have al: "aligned bs align (if eagle then i + (contig + 1) - 1 else i + (contig + 1))"
        using False Suc.prems(5) by (cases "contig = 0") (auto simp: aligned_def)
      have hits: "hits_between p src gs i (i + (contig + 1)) ?rows"
        using Suc.prems(2,3) hit(3) i by (auto simp: hits_between_def nth_list_update)
      have nulls: "nulls_before p gs i ?rows"
        using Suc.prems(4) by (auto simp: nulls_before_def)
      have le: "i + (contig + 1) \<le> n" "length ?rows = n" using Suc.prems(1,2) by simp_all
      show ?thesis
      proof (cases "contig + 1 \<ge> need")
        case True
        let ?rs = "take (i + (contig + 1)) ?rows"
        have eq: "window_search p src gs need eagle bs align (Suc i) contig rows = Inr (True, contig + 1, ?rs)"
          using True unfolding step if_not_P[OF False] by (simp only: if_True)
        have "length ?rs = i + (contig + 1)" "hits_between p src gs i (i + (contig + 1)) ?rs"
          "nulls_before p gs i ?rs"
          using hits nulls le by (auto simp: hits_between_def nulls_before_def)
        with eq True le al show ?thesis by (intro exI[of _ True] exI[of _ "contig + 1"] exI[of _ ?rs]) auto
      next
        case more: False
        have eq: "window_search p src gs need eagle bs align (Suc i) contig rows
            = window_search p src gs need eagle bs align i (contig + 1) ?rows"
          using more unfolding step if_not_P[OF False] by (simp only: if_False)
        show ?thesis unfolding eq by (rule Suc.IH[OF le hits nulls]) (use al in simp)
      qed
    qed
  qed
qed

text \<open>Cutting a list of rows keeps what they are.\<close>

lemma cut_rows:
  assumes "hits_between p src gs i j rows" and "m \<le> length rows"
  shows "hits_between p src gs i (min j m) (take m rows)"
  using assms by (auto simp: hits_between_def)

text \<open>
  What a sliding window hit promises: the lookup never raises, the result is aligned and
  not longer than asked for, and of its \<open>length rows\<close> blocks the last \<open>tail\<close> ones
  (all of them if there are fewer) really hold their hashes in every group, where
  \<open>tail\<close> is the number of blocks that the window of the next token can reach into.
\<close>

theorem window_hit_covers:
  assumes "pool_reach p" and "groups_ok gs" and "0 < bs" and "0 < align"
    and "hash_ok src (nat (max_length div bs))" and "0 \<le> cdiv (w - 1) bs"
  shows "\<exists>rows. find_longest_cache_hit (SlidingSpec w) p src max_length gs bs eagle align = Inr rows
    \<and> length rows \<le> nat (max_length div bs) \<and> aligned bs align (length rows)
    \<and> hits_between p src gs (length rows - nat (cdiv (w - 1) bs)) (length rows) rows"
proof -
  obtain xs where inv: "pool_inv p xs" using pool_reach_inv[OF assms(1)] by blast
  let ?n = "nat (max_length div bs)" and ?tail = "nat (cdiv (w - 1) bs)"
  let ?need = "nat (cdiv (w - 1) bs + (if eagle then 1 else 0))"
  define rows0 where "rows0 = replicate ?n (replicate (length gs) (null_block p))"
  have "hits_between p src gs ?n (?n + 0) rows0" "nulls_before p gs ?n rows0" "length rows0 = ?n"
    by (auto simp: hits_between_def nulls_before_def rows0_def null_row_def)
  from window_search_spec[OF inv assms(2,5) _ this(3,1,2), of bs align eagle ?need]
  obtain found c rs where s: "window_search p src gs ?need eagle bs align ?n 0 rows0 = Inr (found, c, rs)"
    and res: "if found then (\<exists>j. length rs = j + c \<and> j + c \<le> ?n \<and> 0 < c \<and> ?need \<le> c
            \<and> hits_between p src gs j (j + c) rs \<and> nulls_before p gs j rs
            \<and> aligned bs align (if eagle then j + c - 1 else j + c))
         else length rs = ?n \<and> c \<le> ?n \<and> hits_between p src gs 0 c rs" by auto
  define rows1 where "rows1 = (if found then rs else take (aligned_len bs align (min c (length rs))) rs)"
  define rows2 where "rows2 = (if eagle \<and> rows1 \<noteq> []
     then take (aligned_len bs align (length rows1 - 1)) (butlast rows1) else rows1)"
  have run: "find_longest_cache_hit (SlidingSpec w) p src max_length gs bs eagle align = Inr rows2"
    using s by (simp add: find_longest_cache_hit_def find_hit_window_def Let_def rows0_def rows1_def rows2_def)
  have al: "aligned bs align (aligned_len bs align k)" for k
    using aligned_len_aligned[of bs align k] by (auto simp: aligned_def)
  have "length rows2 \<le> ?n \<and> aligned bs align (length rows2)
    \<and> hits_between p src gs (length rows2 - ?tail) (length rows2) rows2"
  proof (cases found)
    case True
    then obtain j where j: "length rs = j + c" "j + c \<le> ?n" "0 < c" "?need \<le> c"
      "hits_between p src gs j (j + c) rs" "aligned bs align (if eagle then j + c - 1 else j + c)"
      using res by auto
    show ?thesis
    proof (cases eagle)
      case False
      then have "rows2 = rs" using True by (simp add: rows2_def rows1_def)
      moreover have "?tail \<le> c" using j(4) False by simp
      ultimately show ?thesis using j False by (auto simp: hits_between_def)
    next
      case eg: True
      have len: "length rs = j + c" "rs \<noteq> []" using j by auto
      have "aligned_len bs align (j + c - 1) = j + c - 1"
        using aligned_len_greatest[of "j + c - 1" "j + c - 1" bs align] aligned_len_le[of bs align "j + c - 1"] j(6) eg
        by (auto simp: aligned_def)
      then have r2: "rows2 = take (j + c - 1) rs"
        using True eg len by (simp add: rows2_def rows1_def butlast_conv_take)
      have tail: "?tail + 1 \<le> c" using j(4) eg assms(6) by (simp add: nat_add_distrib)
      have "length rows2 = j + c - 1" using r2 len by simp
      moreover have "hits_between p src gs (j + c - 1 - ?tail) (j + c - 1) (take (j + c - 1) rs)"
      proof -
        have "j \<le> j + c - 1 - ?tail" using tail by simp
        then show ?thesis using j(5) by (auto simp: hits_between_def)
      qed
      ultimately show ?thesis using j eg r2 by auto
    qed
  next
    case False
    with res have nf: "length rs = ?n" "c \<le> ?n" "hits_between p src gs 0 c rs" by simp_all
    define k where "k = aligned_len bs align (min c (length rs))"
    have k: "k \<le> c" "k \<le> ?n" using aligned_len_le[of bs align "min c (length rs)"] nf by (auto simp: k_def)
    have r1: "rows1 = take k rs" "length rows1 = k" using False k nf(1) by (simp_all add: rows1_def k_def)
    have h1: "hits_between p src gs 0 k (take k rs)" using nf(3) k(1) by (auto simp: hits_between_def)
    show ?thesis
    proof (cases "eagle \<and> rows1 \<noteq> []")
      case True
      let ?m = "aligned_len bs align (k - 1)"
      have "?m \<le> k - 1" by (rule aligned_len_le)
      then have "rows2 = take ?m rs" "length rows2 = ?m"
        using True r1 k(2) nf(1) by (simp_all add: rows2_def butlast_conv_take min_def)
      moreover have "?m \<le> c" "?m \<le> ?n" using \<open>?m \<le> k - 1\<close> k by simp_all
      moreover have "hits_between p src gs 0 ?m (take ?m rs)"
        using nf(3) \<open>?m \<le> c\<close> by (auto simp: hits_between_def)
      ultimately show ?thesis using al[of "k - 1"] by (simp add: hits_between_def)
    next
      case no: False
      then have "rows2 = take k rs" "length rows2 = k" using r1 by (auto simp: rows2_def)
      with h1 al[of "min c (length rs)"] k show ?thesis by (auto simp: hits_between_def k_def)
    qed
  qed
  with run show ?thesis by blast
qed

end
