(* ===== verification/KV_Cache_Manager.thy ===== *)
theory KV_Cache_Manager
  imports KV_Hits
begin

text \<open>
  \<open>vllm/v1/core/kv_cache_coordinator.py\<close> and \<open>vllm/v1/core/kv_cache_manager.py\<close>:
  the coordinators run an operation over the managers of all cache groups, which share one
  pool, and combine their cache hits; the KV cache manager is the scheduler's interface.
  Statistics are left out. \<open>KVCacheBlocks\<close> is a list of block lists, one per group;
  the shared empty instance is the list of empty lists.
\<close>

section \<open>Coordinator state\<close>

record cache_group =
  cg_spec :: kv_spec
  cg_block_size :: int
  cg_eagle :: bool

text \<open>An attention group of the hybrid coordinator: a specification and its group ids.\<close>

record attn_group =
  ag_spec :: kv_spec
  ag_block_size :: int
  ag_ids :: "nat list"

datatype coord_kind = NoPrefixCache | Unitary int | Hybrid "attn_group list" int "nat set"

record coordinator =
  co_pool :: block_pool
  co_managers :: "kv_manager list"
  co_eagle :: "nat set"
  co_kind :: coord_kind
  co_hash_block_size :: int

fun is_full :: "kv_spec \<Rightarrow> bool" where
  "is_full (FullSpec _) = True"
| "is_full _ = False"

section \<open>Construction\<close>

text \<open>Groups with equal specifications are merged, then full attention comes first.\<close>

fun add_group :: "nat \<Rightarrow> cache_group \<Rightarrow> attn_group list \<Rightarrow> attn_group list" where
  "add_group i g [] = [\<lparr>ag_spec = cg_spec g, ag_block_size = cg_block_size g, ag_ids = [i]\<rparr>]"
| "add_group i g (a # as) =
     (if ag_spec a = cg_spec g \<and> ag_block_size a = cg_block_size g
      then a\<lparr>ag_ids := ag_ids a @ [i]\<rparr> # as else a # add_group i g as)"

definition split_kv_cache_groups :: "cache_group list \<Rightarrow> attn_group list result" where
  "split_kv_cache_groups groups =
     (let as = fold (\<lambda>(i, g). add_group i g) (enumerate 0 groups) [] in
      bindE (assertE (length as > 1)) (\<lambda>_.
        Inr (filter (\<lambda>a. is_full (ag_spec a)) as @ filter (\<lambda>a. \<not> is_full (ag_spec a)) as)))"

definition new_coordinator ::
  "cache_group list \<Rightarrow> nat \<Rightarrow> int \<Rightarrow> int \<Rightarrow> bool \<Rightarrow> bool \<Rightarrow> bool \<Rightarrow> bool \<Rightarrow> int \<Rightarrow> int \<Rightarrow> int \<Rightarrow> coordinator result" where
  "new_coordinator groups num_blocks max_len max_batched use_eagle caching kv_events ints dcp pcp hash_bs =
     bindE (new_block_pool num_blocks caching (nat hash_bs) kv_events ints) (\<lambda>p.
       let flagged = {i. i < length groups \<and> cg_eagle (groups ! i)};
           eagle = (if use_eagle \<and> flagged = {} then {0..<length groups} else flagged);
           ms = map (\<lambda>(i, g). new_manager (cg_spec g) (cg_block_size g) caching (int i) dcp pcp max_batched max_len)
                  (enumerate 0 groups);
           co = (\<lambda>k. \<lparr>co_pool = p, co_managers = ms, co_eagle = eagle, co_kind = k, co_hash_block_size = hash_bs\<rparr>) in
       if \<not> caching then Inr (co NoPrefixCache)
       else if length groups = 1
       then let bs = cg_block_size (hd groups) * (if dcp > 1 then dcp else 1) * (if pcp > 1 then pcp else 1) in
         bindE (assertE (hash_bs = bs)) (\<lambda>_. Inr (co (Unitary bs)))
       else bindE (assertE (\<forall>g \<in> set groups. cg_block_size g mod hash_bs = 0)) (\<lambda>_.
            bindE (assertE (dcp = 1)) (\<lambda>_.
            bindE (assertE (pcp = 1)) (\<lambda>_.
            bindE (split_kv_cache_groups groups) (\<lambda>as.
              let verified = {i. i < length as \<and> (\<exists>g \<in> set (ag_ids (as ! i)). g \<in> eagle)} in
              Inr (co (Hybrid as (foldr lcm (map ag_block_size as) 1) verified)))))))"

section \<open>Operations over all managers\<close>

text \<open>Runs \<open>f\<close> over the managers from left to right with the pool threaded.\<close>

fun each_manager ::
  "('x \<Rightarrow> kv_manager \<Rightarrow> block_pool \<Rightarrow> ('y \<times> kv_manager \<times> block_pool) result) \<Rightarrow>
   ('x \<times> kv_manager) list \<Rightarrow> block_pool \<Rightarrow> ('y list \<times> kv_manager list \<times> block_pool) result" where
  "each_manager f [] p = Inr ([], [], p)"
| "each_manager f ((x, m) # ms) p =
     bindE (f x m p) (\<lambda>(y, m', p1).
     bindE (each_manager f ms p1) (\<lambda>(ys, ms', p2). Inr (y # ys, m' # ms', p2)))"

definition run_managers ::
  "('x \<Rightarrow> kv_manager \<Rightarrow> block_pool \<Rightarrow> ('y \<times> kv_manager \<times> block_pool) result) \<Rightarrow>
   'x list \<Rightarrow> coordinator \<Rightarrow> ('y list \<times> coordinator) result" where
  "run_managers f xs co =
     bindE (each_manager f (zip xs (co_managers co)) (co_pool co)) (\<lambda>(ys, ms, p).
       Inr (ys, co\<lparr>co_managers := ms, co_pool := p\<rparr>))"

definition quiet :: "(kv_manager \<Rightarrow> block_pool \<Rightarrow> (kv_manager \<times> block_pool) result) \<Rightarrow>
    kv_manager \<Rightarrow> block_pool \<Rightarrow> (unit \<times> kv_manager \<times> block_pool) result" where
  "quiet f m p = bindE (f m p) (\<lambda>(m', p'). Inr ((), m', p'))"

fun sum_blocks ::
  "block_pool \<Rightarrow> rid \<Rightarrow> int \<Rightarrow> int \<Rightarrow> int \<Rightarrow> int \<Rightarrow> bool \<Rightarrow> (nat list \<times> kv_manager) list \<Rightarrow> int result" where
  "sum_blocks p r ntok n_enc total_comp num_main cap [] = Inr 0"
| "sum_blocks p r ntok n_enc total_comp num_main cap ((hitb, m) # ms) =
     bindE (if kv_spec m = CrossSpec then get_num_blocks_to_allocate m p r n_enc [] 0 n_enc cap
            else get_num_blocks_to_allocate m p r ntok hitb total_comp num_main cap) (\<lambda>n.
     bindE (sum_blocks p r ntok n_enc total_comp num_main cap ms) (\<lambda>rest. Inr (n + rest)))"

definition co_num_blocks ::
  "rid \<Rightarrow> int \<Rightarrow> nat list list \<Rightarrow> int \<Rightarrow> int \<Rightarrow> int \<Rightarrow> bool \<Rightarrow> coordinator \<Rightarrow> int result" where
  "co_num_blocks r ntok comps n_enc total_comp num_main cap co =
     sum_blocks (co_pool co) r ntok n_enc total_comp num_main cap (zip comps (co_managers co))"

definition co_allocate_computed ::
  "rid \<Rightarrow> nat list list \<Rightarrow> int \<Rightarrow> int \<Rightarrow> coordinator \<Rightarrow> coordinator result" where
  "co_allocate_computed r comps n_local n_ext co =
     bindE (run_managers (\<lambda>hitb. quiet (allocate_new_computed_blocks r hitb n_local n_ext)) comps co)
       (\<lambda>(_, co'). Inr co')"

definition co_allocate_new ::
  "rid \<Rightarrow> int \<Rightarrow> int \<Rightarrow> int \<Rightarrow> coordinator \<Rightarrow> (nat list list \<times> coordinator) result" where
  "co_allocate_new r ntok num_main n_enc co =
     run_managers (\<lambda>_ m. allocate_new_blocks r (if kv_spec m = CrossSpec then n_enc else ntok) num_main m)
       (replicate (length (co_managers co)) ()) co"

definition co_each :: "(kv_manager \<Rightarrow> block_pool \<Rightarrow> (kv_manager \<times> block_pool) result) \<Rightarrow>
    coordinator \<Rightarrow> coordinator result" where
  "co_each f co =
     bindE (run_managers (\<lambda>_. quiet f) (replicate (length (co_managers co)) ()) co) (\<lambda>(_, co'). Inr co')"

definition co_cache_blocks :: "(int list \<Rightarrow> bytes) \<Rightarrow> request \<Rightarrow> int \<Rightarrow> coordinator \<Rightarrow> coordinator result" where
  "co_cache_blocks digest r n co = (case co_kind co of
      Hybrid _ l _ \<Rightarrow> co_each (cache_blocks digest r (n div l * l) (Some l)) co
    | _ \<Rightarrow> co_each (cache_blocks digest r n None) co)"

definition co_free :: "rid \<Rightarrow> coordinator \<Rightarrow> coordinator result" where
  "co_free r = co_each (manager_free r)"

definition co_remove_skipped :: "rid \<Rightarrow> int \<Rightarrow> coordinator \<Rightarrow> coordinator result" where
  "co_remove_skipped r n = co_each (remove_skipped_blocks r n)"

definition co_get_blocks :: "rid \<Rightarrow> coordinator \<Rightarrow> nat list list" where
  "co_get_blocks r co = map (\<lambda>m. blocks_of m r) (co_managers co)"

definition co_common_prefix :: "rid \<Rightarrow> coordinator \<Rightarrow> nat list \<times> coordinator" where
  "co_common_prefix r co = (case co_kind co of
      NoPrefixCache \<Rightarrow> (replicate (length (co_managers co)) 0, co)
    | _ \<Rightarrow> (map (\<lambda>m. fst (KV_Manager.get_num_common_prefix_blocks r m (co_pool co))) (co_managers co),
            co\<lparr>co_managers := map (\<lambda>m. snd (KV_Manager.get_num_common_prefix_blocks r m (co_pool co))) (co_managers co)\<rparr>))"

definition co_new_step :: "coordinator \<Rightarrow> coordinator" where
  "co_new_step co = co\<lparr>co_managers := map new_step_starts (co_managers co)\<rparr>"

section \<open>Cache hits of all groups\<close>

definition group_source :: "bytes list \<Rightarrow> int \<Rightarrow> int \<Rightarrow> hash_source result" where
  "group_source hashes hash_bs bs =
     (if bs = hash_bs then Inr (Plain hashes)
      else bindE (new_block_hash_list hashes (nat hash_bs) (nat bs)) (\<lambda>l. Inr (Scaled l)))"

text \<open>The state of the fixed point loop: the blocks found per group, and the groups whose EAGLE
  drop is verified.\<close>

record hit_state =
  hs_blocks :: "nat \<rightharpoonup> nat list"
  hs_verified :: "nat set"
  hs_length :: int

definition hybrid_group ::
  "block_pool \<Rightarrow> bytes list \<Rightarrow> int \<Rightarrow> int \<Rightarrow> int \<Rightarrow> nat set \<Rightarrow> nat \<times> attn_group \<Rightarrow> hit_state \<Rightarrow> hit_state result" where
  "hybrid_group p hashes hash_bs align max_len eagle_idx ia s =
     (case ia of (idx, a) \<Rightarrow>
      let bs = ag_block_size a in
      if is_full (ag_spec a) \<and> hs_blocks s (hd (ag_ids a)) \<noteq> None
      then Inr (s\<lparr>hs_length := hs_length s div bs * bs\<rparr>)
      else let use_eagle = idx \<in> eagle_idx \<and> idx \<notin> hs_verified s;
               limit = (if use_eagle then min (hs_length s + bs) max_len else hs_length s) in
        bindE (group_source hashes hash_bs bs) (\<lambda>src.
        bindE (find_longest_cache_hit (ag_spec a) p src limit (map int (ag_ids a)) bs use_eagle align) (\<lambda>rows.
          let new_len = int (length rows) * bs in
          Inr \<lparr>hs_blocks = hs_blocks s ++ map_of (zip (ag_ids a) (columns (length (ag_ids a)) rows)),
               hs_verified = (if use_eagle then insert idx (hs_verified s)
                              else if new_len < hs_length s then {} else hs_verified s),
               hs_length = new_len\<rparr>)))"

text \<open>\<open>None\<close> is a loop that never ends.\<close>

partial_function (option) hybrid_loop ::
  "block_pool \<Rightarrow> bytes list \<Rightarrow> int \<Rightarrow> int \<Rightarrow> int \<Rightarrow> nat set \<Rightarrow> attn_group list \<Rightarrow> bool \<Rightarrow> hit_state \<Rightarrow>
   hit_state result option" where
  "hybrid_loop p hashes hash_bs align max_len eagle_idx as simple s =
     (case foldE (hybrid_group p hashes hash_bs align max_len eagle_idx) (enumerate 0 as) s of
        Inl e \<Rightarrow> Some (Inl e)
      | Inr s' \<Rightarrow>
          if hs_length s' \<ge> hs_length s then Some (Inr (s'\<lparr>hs_length := hs_length s\<rparr>))
          else if simple then Some (Inr s')
          else hybrid_loop p hashes hash_bs align max_len eagle_idx as simple s')"

declare hybrid_loop.simps [code]

definition hybrid_hit ::
  "block_pool \<Rightarrow> bytes list \<Rightarrow> int \<Rightarrow> int \<Rightarrow> nat set \<Rightarrow> attn_group list \<Rightarrow> nat \<Rightarrow> int \<Rightarrow>
   (nat list list \<times> int) result option" where
  "hybrid_hit p hashes hash_bs align eagle_idx as num_groups max_len =
     (let simple = (length as = 2 \<and> is_full (ag_spec (hd as))) in
      Option.bind (hybrid_loop p hashes hash_bs align max_len eagle_idx as simple
             \<lparr>hs_blocks = Map.empty, hs_verified = {}, hs_length = max_len\<rparr>) (\<lambda>res.
        Some (bindE res (\<lambda>s.
          let a = hd as;
              cut = (if is_full (ag_spec a)
                     then (\<lambda>g bs. if g \<in> set (ag_ids a) then take (nat (hs_length s div ag_block_size a)) bs else bs)
                     else (\<lambda>g bs. bs)) in
          Inr (map (\<lambda>g. case hs_blocks s g of None \<Rightarrow> [] | Some bs \<Rightarrow> cut g bs) [0..<num_groups], hs_length s)))))"

definition co_find_hit :: "bytes list \<Rightarrow> int \<Rightarrow> coordinator \<Rightarrow> (nat list list \<times> int) result option" where
  "co_find_hit hashes max_len co = (case co_kind co of
      NoPrefixCache \<Rightarrow> Some (Inr (map (\<lambda>_. []) (co_managers co), 0))
    | Unitary bs \<Rightarrow>
        let m = hd (co_managers co) in
        Some (bindE (find_longest_cache_hit (kv_spec m) (co_pool co) (Plain hashes) max_len [0] bs (0 \<in> co_eagle co) bs)
          (\<lambda>rows. Inr (columns 1 rows, int (length rows) * bs)))
    | Hybrid as l eagle \<Rightarrow>
        hybrid_hit (co_pool co) hashes (co_hash_block_size co) l eagle as (length (co_managers co)) max_len)"

section \<open>The KV cache manager\<close>

record kv_cache_manager =
  km_max_len :: int
  km_caching :: bool
  km_co :: coordinator

definition empty_blocks :: "kv_cache_manager \<Rightarrow> nat list list" where
  "empty_blocks k = map (\<lambda>_. []) (co_managers (km_co k))"

text \<open>\<open>create_kv_cache_blocks\<close>: no blocks at all are the shared empty instance.\<close>

definition create_kv_cache_blocks :: "nat list list \<Rightarrow> nat list list option" where
  "create_kv_cache_blocks bs = (if \<exists>g \<in> set bs. g \<noteq> [] then Some bs else None)"

definition get_computed_blocks :: "request \<Rightarrow> kv_cache_manager \<Rightarrow> (nat list list \<times> int) result option" where
  "get_computed_blocks r k =
     (if \<not> km_caching k \<or> skip_reading_prefix_cache r then Some (Inr (empty_blocks k, 0))
      else co_find_hit (block_hashes r) (num_tokens r - 1) (km_co k))"

text \<open>\<open>allocate_slots\<close> returns the new blocks, or \<open>None\<close> when they do not fit.
  \<open>new_comp = None\<close> stands for the default argument and for the shared empty instance.\<close>

definition allocate_slots ::
  "(int list \<Rightarrow> bytes) \<Rightarrow> request \<Rightarrow> int \<Rightarrow> int \<Rightarrow> nat list list option \<Rightarrow> int \<Rightarrow> int \<Rightarrow> bool \<Rightarrow> int \<Rightarrow> bool \<Rightarrow>
   kv_cache_manager \<Rightarrow> (nat list list option \<times> kv_cache_manager) result" where
  "allocate_slots digest r n_new n_new_comp new_comp n_look n_ext delay n_enc full_fit k =
     (if n_new = 0 \<and> n_ext = 0 then Inl ValueError
      else let comps = (case new_comp of None \<Rightarrow> empty_blocks k | Some c \<Rightarrow> c);
               n_local = num_computed_tokens r + n_new_comp;
               total = min (n_local + n_ext) (km_max_len k);
               full = min (num_tokens r) (km_max_len k);
               rid = request_id r in
        bindE (if full_fit
               then bindE (co_num_blocks rid full comps n_enc total full True (km_co k)) (\<lambda>n.
                 Inr (n > get_num_free_blocks (co_pool (km_co k))))
               else Inr False) (\<lambda>too_long.
        if too_long then Inr (None, k)
        else let num_main = total + n_new;
                 need = min (num_main + n_look) (km_max_len k) in
          bindE (co_remove_skipped rid total (km_co k)) (\<lambda>co1.
          bindE (co_num_blocks rid need comps n_enc (n_local + n_ext) num_main False co1) (\<lambda>n.
          if n > get_num_free_blocks (co_pool co1) then Inr (None, k\<lparr>km_co := co1\<rparr>)
          else bindE (if new_comp \<noteq> None \<or> n_ext > 0
                      then co_allocate_computed rid comps n_local n_ext co1 else Inr co1) (\<lambda>co2.
          bindE (co_allocate_new rid need num_main n_enc co2) (\<lambda>(new, co3).
          if \<not> km_caching k \<or> delay then Inr (Some new, k\<lparr>km_co := co3\<rparr>)
          else bindE (co_cache_blocks digest r (min (total + n_new) (num_tokens r)) co3) (\<lambda>co4.
            Inr (Some new, k\<lparr>km_co := co4\<rparr>))))))))"

definition km_free :: "request \<Rightarrow> kv_cache_manager \<Rightarrow> kv_cache_manager result" where
  "km_free r k = bindE (co_free (request_id r) (km_co k)) (\<lambda>co. Inr (k\<lparr>km_co := co\<rparr>))"

definition km_remove_skipped :: "rid \<Rightarrow> int \<Rightarrow> kv_cache_manager \<Rightarrow> kv_cache_manager result" where
  "km_remove_skipped r n k = bindE (co_remove_skipped r n (km_co k)) (\<lambda>co. Inr (k\<lparr>km_co := co\<rparr>))"

definition km_evict_blocks :: "nat list \<Rightarrow> kv_cache_manager \<Rightarrow> kv_cache_manager result" where
  "km_evict_blocks ids k =
     bindE (evict_blocks ids (co_pool (km_co k))) (\<lambda>p. Inr (k\<lparr>km_co := (km_co k)\<lparr>co_pool := p\<rparr>\<rparr>))"

definition km_reset_prefix_cache :: "kv_cache_manager \<Rightarrow> bool \<times> kv_cache_manager" where
  "km_reset_prefix_cache k =
     (case pool_reset_prefix_cache (co_pool (km_co k)) of (done', p) \<Rightarrow>
        (done', k\<lparr>km_co := (km_co k)\<lparr>co_pool := p\<rparr>\<rparr>))"

definition km_get_blocks :: "rid \<Rightarrow> kv_cache_manager \<Rightarrow> nat list list" where
  "km_get_blocks r k = co_get_blocks r (km_co k)"

definition km_cache_blocks :: "(int list \<Rightarrow> bytes) \<Rightarrow> request \<Rightarrow> int \<Rightarrow> kv_cache_manager \<Rightarrow> kv_cache_manager result" where
  "km_cache_blocks digest r n k =
     (if km_caching k then bindE (co_cache_blocks digest r n (km_co k)) (\<lambda>co. Inr (k\<lparr>km_co := co\<rparr>)) else Inr k)"

definition km_take_new_block_ids :: "kv_cache_manager \<Rightarrow> nat list \<times> kv_cache_manager" where
  "km_take_new_block_ids k =
     (let ms = co_managers (km_co k) in
      (concat (map (\<lambda>m. fst (take_new_block_ids m)) ms),
       k\<lparr>km_co := (km_co k)\<lparr>co_managers := map (\<lambda>m. snd (take_new_block_ids m)) ms\<rparr>\<rparr>))"

definition km_new_step :: "kv_cache_manager \<Rightarrow> kv_cache_manager" where
  "km_new_step k = k\<lparr>km_co := co_new_step (km_co k)\<rparr>"

text \<open>Views of the allocation result.\<close>

definition add_blocks :: "nat list list \<Rightarrow> nat list list \<Rightarrow> nat list list" where
  "add_blocks a b = map (\<lambda>(x, y). x @ y) (zip a b)"

definition get_block_ids :: "bool \<Rightarrow> nat list list \<Rightarrow> nat list list option" where
  "get_block_ids allow_none bs = (if allow_none \<and> (\<forall>g \<in> set bs. g = []) then None else Some bs)"

definition get_unhashed_block_ids :: "block_pool \<Rightarrow> nat list list \<Rightarrow> nat list result" where
  "get_unhashed_block_ids p bs =
     bindE (assertE (length bs = 1)) (\<lambda>_. Inr (filter (\<lambda>b. blk_hash (blk p b) = None) (hd bs)))"

definition get_unhashed_block_ids_all_groups :: "block_pool \<Rightarrow> nat list list \<Rightarrow> nat list list" where
  "get_unhashed_block_ids_all_groups p bs =
     map (filter (\<lambda>b. blk_hash (blk p b) = None \<and> \<not> is_null (blk p b))) bs"

end
