(* ===== verification/KV_Ownership.thy ===== *)
theory KV_Ownership
  imports KV_Cache_Manager
begin

text \<open>
  Who owns the blocks. The reference count of a block is the number of places where it is listed:
  in the block lists of one manager's requests (\<open>held\<close>) and elsewhere (\<open>others\<close>,
  the remaining managers of the pool). Every operation of an attention manager keeps this, and
  from it follow that the caller's obligations of the pool are met, that a running count of free
  blocks suffices to predict whether an allocation fits, and that nothing leaks.
\<close>

section \<open>The invariant\<close>

definition held :: "kv_manager \<Rightarrow> nat \<Rightarrow> int" where
  "held m b = (\<Sum>r \<in> dom (req_to_blocks m). int (count_list (blocks_of m r) b))"

definition owned :: "(nat \<Rightarrow> int) \<Rightarrow> block_pool \<Rightarrow> nat list \<Rightarrow> kv_manager \<Rightarrow> bool" where
  "owned others p xs m \<longleftrightarrow> pool_inv p xs \<and> finite (dom (req_to_blocks m)) \<and> (\<forall>b. 0 \<le> others b)
     \<and> (\<forall>b < num_gpu_blocks p. b \<noteq> null_block p \<longrightarrow> ref_cnt (blk p b) = others b + held m b)
     \<and> (\<forall>r. \<forall>b \<in> set (blocks_of m r). b < num_gpu_blocks p)
     \<and> (\<forall>r. distinct (filter (\<lambda>b. b \<noteq> null_block p) (blocks_of m r)))"

text \<open>Blocks a request holds beyond its cached ones carry no hash and belong to it alone.\<close>

definition n_cached :: "kv_manager \<Rightarrow> rid \<Rightarrow> nat" where
  "n_cached m r = (case num_cached_block m r of None \<Rightarrow> 0 | Some n \<Rightarrow> n)"

definition fresh_tail :: "block_pool \<Rightarrow> kv_manager \<Rightarrow> bool" where
  "fresh_tail p m \<longleftrightarrow> (\<forall>r. \<forall>b \<in> set (drop (n_cached m r) (blocks_of m r)).
     b \<noteq> null_block p \<longrightarrow> blk_hash (blk p b) = None \<and> ref_cnt (blk p b) = 1)"

lemma ownedD:
  assumes "owned others p xs m"
  shows "pool_inv p xs" "finite (dom (req_to_blocks m))" "0 \<le> others b"
    "b < num_gpu_blocks p \<Longrightarrow> b \<noteq> null_block p \<Longrightarrow> ref_cnt (blk p b) = others b + held m b"
    "b \<in> set (blocks_of m r) \<Longrightarrow> b < num_gpu_blocks p"
    "distinct (filter (\<lambda>b. b \<noteq> null_block p) (blocks_of m r))"
  using assms by (auto simp: owned_def)

lemma blocks_of_simps [simp]:
  "blocks_of (set_blocks r bs m) r' = (if r' = r then bs else blocks_of m r')"
  "blocks_of (m\<lparr>num_cached_block := c\<rparr>) r' = blocks_of m r'"
  "blocks_of (note_new bs m) r' = blocks_of m r'"
  "blocks_of (m\<lparr>new_block_ids := ids\<rparr>) r' = blocks_of m r'"
  "blocks_of (m\<lparr>req_to_blocks := (req_to_blocks m)(r := None)\<rparr>) r' = (if r' = r then [] else blocks_of m r')"
  by (simp_all add: blocks_of_def set_blocks_def note_new_def)

lemma note_new_simps [simp]:
  "req_to_blocks (note_new bs m) = req_to_blocks m" "num_cached_block (note_new bs m) = num_cached_block m"
  "kv_spec (note_new bs m) = kv_spec m" "m_block_size (note_new bs m) = m_block_size m"
  "m_caching (note_new bs m) = m_caching m" "m_group (note_new bs m) = m_group m"
  "admission_cap (note_new bs m) = admission_cap m"
  by (simp_all add: note_new_def)

lemma set_blocks_simps [simp]:
  "num_cached_block (set_blocks r bs m) = num_cached_block m" "kv_spec (set_blocks r bs m) = kv_spec m"
  "m_block_size (set_blocks r bs m) = m_block_size m" "m_caching (set_blocks r bs m) = m_caching m"
  "m_group (set_blocks r bs m) = m_group m" "admission_cap (set_blocks r bs m) = admission_cap m"
  "dom (req_to_blocks (set_blocks r bs m)) = insert r (dom (req_to_blocks m))"
  by (auto simp: set_blocks_def)

lemma held_cong: "req_to_blocks m = req_to_blocks m' \<Longrightarrow> held m = held m'"
proof -
  assume eq: "req_to_blocks m = req_to_blocks m'"
  then have bo: "blocks_of m = blocks_of m'" by (simp add: blocks_of_def fun_eq_iff)
  show "held m = held m'" by (rule ext) (simp only: held_def eq bo)
qed

lemma held_over:
  assumes "finite (dom (req_to_blocks m))" and "dom (req_to_blocks m) \<subseteq> S" and "finite S"
  shows "held m b = (\<Sum>r \<in> S. int (count_list (blocks_of m r) b))"
  unfolding held_def using assms
  by (intro sum.mono_neutral_left) (auto simp: blocks_of_def split: option.splits)

lemma held_set:
  assumes "finite (dom (req_to_blocks m))"
  shows "held (set_blocks r bs m) b = held m b - int (count_list (blocks_of m r) b) + int (count_list bs b)"
proof -
  let ?S = "insert r (dom (req_to_blocks m))"
  have "held m b = (\<Sum>r \<in> ?S. int (count_list (blocks_of m r) b))"
    using assms by (intro held_over) auto
  also have "\<dots> = int (count_list (blocks_of m r) b) + (\<Sum>r \<in> ?S - {r}. int (count_list (blocks_of m r) b))"
    using assms by (subst sum.remove[of _ r]) auto
  finally have 1: "held m b = int (count_list (blocks_of m r) b) + (\<Sum>r \<in> ?S - {r}. int (count_list (blocks_of m r) b))" .
  have "held (set_blocks r bs m) b = (\<Sum>r' \<in> ?S. int (count_list (if r' = r then bs else blocks_of m r') b))"
    by (simp add: held_def)
  also have "\<dots> = int (count_list bs b) + (\<Sum>r \<in> ?S - {r}. int (count_list (blocks_of m r) b))"
    using assms by (subst sum.remove[of _ r]) (auto intro!: sum.cong)
  finally show ?thesis using 1 by simp
qed

lemma held_nonneg: "0 \<le> held m b"
  by (simp add: held_def sum_nonneg)

lemma held_ge: "finite (dom (req_to_blocks m)) \<Longrightarrow> int (count_list (blocks_of m r) b) \<le> held m b"
  using held_set[of m r "[]" b] held_nonneg[of "set_blocks r [] m" b] by simp

lemma count_list_pos: "b \<in> set bs \<Longrightarrow> 0 < count_list bs b"
  by (induction bs) auto

lemma owned_ref_pos:
  assumes "owned others p xs m" and "b \<in> set (blocks_of m r)" and "b \<noteq> null_block p"
  shows "1 \<le> ref_cnt (blk p b)"
  using ownedD(3,5)[OF assms(1), of b] ownedD(4)[OF assms(1) ownedD(5)[OF assms(1,2)] assms(3)] assms(2)
    held_ge[OF ownedD(2)[OF assms(1)], of r b] count_list_pos[OF assms(2)] by simp

section \<open>What no operation changes\<close>

text \<open>The configuration of a pool, which every operation keeps.\<close>

definition config :: "block_pool \<Rightarrow> nat \<times> nat \<times> bool \<times> nat \<times> bool \<times> bool" where
  "config p = (num_gpu_blocks p, null_block p, enable_caching p, hash_block_size p,
     enable_kv_cache_events p, use_int_hashes p)"

lemma configD:
  assumes "config p' = config p"
  shows "num_gpu_blocks p' = num_gpu_blocks p" "null_block p' = null_block p"
    "enable_caching p' = enable_caching p" "hash_block_size p' = hash_block_size p"
    "enable_kv_cache_events p' = enable_kv_cache_events p" "use_int_hashes p' = use_int_hashes p"
  using assms by (simp_all add: config_def)

lemma config_simps [simp]:
  "config (set_blk b x p) = config p" "config (add_event e p) = config p"
  "config (p\<lparr>free_block_queue := q\<rparr>) = config p" "config (p\<lparr>cached := c\<rparr>) = config p"
  "config (snd (maybe_evict_cached_block b p)) = config p" "config (fold decr_ref bs p) = config p"
proof -
  show "config (fold decr_ref bs p) = config p"
    by (induction bs arbitrary: p) (simp_all add: decr_ref_def, simp add: config_def)
qed (auto simp: config_def set_blk_def add_event_def maybe_evict_cached_block_def
    split: option.split prod.split)

lemma config_fold:
  assumes "foldE f xs p = Inr p'" and "\<And>x p p'. f x p = Inr p' \<Longrightarrow> config p' = config p"
  shows "config p' = config p"
  by (rule foldE_invariant[OF assms(1), of "\<lambda>q. config q = config p"]) (use assms(2) in auto)

lemma get_new_blocks_config: "get_new_blocks n p = Inr (bs, p') \<Longrightarrow> config p' = config p"
  by (auto simp: get_new_blocks_def take_block_def Let_def assertE_bind split: if_splits
      elim!: bindE_InrE dest!: config_fold)

lemma touch_config: "touch bs p = Inr p' \<Longrightarrow> config p' = config p"
  unfolding touch_def
  by (erule config_fold) (auto simp: touch_one_def elim!: bindE_InrE split: if_splits)

lemma free_blocks_config: "free_blocks bs p = Inr p' \<Longrightarrow> config p' = config p"
  by (auto simp: free_blocks_def Let_def elim!: bindE_InrE)

section \<open>Freeing\<close>

text \<open>Some listed blocks of a request go back to the pool and a shorter list stays.\<close>

lemma owned_give_back:
  assumes own: "owned others p xs m" and rem: "set rem \<subseteq> set (blocks_of m r)"
    and dist: "distinct (filter (\<lambda>b. b \<noteq> null_block p) rem)"
    and rest: "\<And>b. b \<noteq> null_block p \<Longrightarrow> count_list (blocks_of m r) b = count_list rem b + count_list bs b"
    and bs: "set bs \<subseteq> insert (null_block p) (set (blocks_of m r))" "distinct (filter (\<lambda>b. b \<noteq> null_block p) bs)"
  shows "\<exists>p'. free_blocks rem p = Inr p'
    \<and> owned others p' (xs @ filter (\<lambda>b. b \<noteq> null_block p \<and> ref_cnt (blk p b) = 1) rem) (set_blocks r bs m)
    \<and> num_gpu_blocks p' = num_gpu_blocks p \<and> null_block p' = null_block p
    \<and> (\<forall>b. b \<noteq> null_block p \<longrightarrow> ref_cnt (blk p' b) = ref_cnt (blk p b) - (if b \<in> set rem then 1 else 0))
    \<and> (\<forall>b. blk_hash (blk p' b) = blk_hash (blk p b)) \<and> cached p' = cached p"
proof -
  note inv = ownedD(1)[OF own]
  have null: "is_null (blk p b) \<longleftrightarrow> b = null_block p" for b using pool_invD(4)[OF inv] by blast
  have "may_free p rem"
    using dist rem ownedD(5)[OF own, of _ r] owned_ref_pos[OF own, of _ r] by (auto simp: may_free_def null)
  from free_blocks_ok[OF inv this] obtain p' where p': "free_blocks rem p = Inr p'"
    "pool_inv p' (xs @ filter (\<lambda>b. \<not> is_null (blk p b) \<and> ref_cnt (blk p b) = 1) rem)"
    "num_gpu_blocks p' = num_gpu_blocks p" "cached p' = cached p"
    "\<forall>c. \<not> is_null (blk p c) \<longrightarrow> ref_cnt (blk p' c) = ref_cnt (blk p c) - (if c \<in> set rem then 1 else 0)"
    "\<forall>c. blk_hash (blk p' c) = blk_hash (blk p c)" by blast
  have nb: "null_block p' = null_block p"
  proof -
    have "free_blocks rem p = Inr p' \<Longrightarrow> null_block p' = null_block p"
      by (auto simp: free_blocks_def Let_def decr_refs(2) elim!: bindE_InrE)
    with p'(1) show ?thesis by blast
  qed
  have cnt: "count_list rem b = (if b \<in> set rem then 1 else 0)" if "b \<noteq> null_block p" for b
    using count_list_distinct_filter[OF dist] that by blast
  have fin: "finite (dom (req_to_blocks m))" by (rule ownedD(2)[OF own])
  have sub: "b < num_gpu_blocks p" if "b \<in> set bs" for b
    using that bs(1) ownedD(5)[OF own, of b r] pool_invD(5)[OF inv] by auto
  have ref: "ref_cnt (blk p' b) = others b + held (set_blocks r bs m) b"
    if "b < num_gpu_blocks p" "b \<noteq> null_block p" for b
    using ownedD(4)[OF own that] p'(5) null[of b] that held_set[OF fin, of r bs b] rest[OF that(2)] cnt[OF that(2)]
    by (simp split: if_splits)
  have "owned others p' (xs @ filter (\<lambda>b. b \<noteq> null_block p \<and> ref_cnt (blk p b) = 1) rem) (set_blocks r bs m)"
    unfolding owned_def
    using p'(2,3) nb fin ownedD(3,5,6)[OF own] sub bs(2) ref by (auto simp: null)
  with p' nb show ?thesis by (auto simp: null)
qed

text \<open>The fields an operation of an attention manager does not touch.\<close>

definition same_kind :: "kv_manager \<Rightarrow> kv_manager \<Rightarrow> bool" where
  "same_kind m m' \<longleftrightarrow> kv_spec m' = kv_spec m \<and> m_block_size m' = m_block_size m \<and> m_caching m' = m_caching m
     \<and> admission_cap m' = admission_cap m \<and> m_group m' = m_group m"

definition attention :: "kv_manager \<Rightarrow> bool" where
  "attention m \<longleftrightarrow> (case kv_spec m of MambaSpec _ _ \<Rightarrow> False | CrossSpec \<Rightarrow> False | _ \<Rightarrow> True)"

lemma owned_cong:
  assumes "req_to_blocks m' = req_to_blocks m"
  shows "owned others p xs m' = owned others p xs m"
  using held_cong[OF assms] assms by (simp add: owned_def blocks_of_def)

lemma manager_free_ok:
  assumes own: "owned others p xs m" and tail: "enable_caching p \<longrightarrow> fresh_tail p m" and att: "attention m"
  shows "\<exists>m' p'. manager_free r m p = Inr (m', p')
    \<and> owned others p' (xs @ filter (\<lambda>b. b \<noteq> null_block p \<and> ref_cnt (blk p b) = 1) (rev (blocks_of m r))) m'
    \<and> (enable_caching p \<longrightarrow> fresh_tail p' m') \<and> same_kind m m' \<and> config p' = config p
    \<and> blocks_of m' r = [] \<and> num_cached_block m' r = None
    \<and> req_to_blocks m' = (req_to_blocks m)(r := None)
    \<and> (\<forall>r'. r' \<noteq> r \<longrightarrow> blocks_of m' r' = blocks_of m r' \<and> num_cached_block m' r' = num_cached_block m r')"
proof -
  let ?bs = "rev (blocks_of m r)"
  have "\<exists>p'. free_blocks ?bs p = Inr p'
    \<and> owned others p' (xs @ filter (\<lambda>b. b \<noteq> null_block p \<and> ref_cnt (blk p b) = 1) ?bs) (set_blocks r [] m)
    \<and> num_gpu_blocks p' = num_gpu_blocks p \<and> null_block p' = null_block p
    \<and> (\<forall>b. b \<noteq> null_block p \<longrightarrow> ref_cnt (blk p' b) = ref_cnt (blk p b) - (if b \<in> set ?bs then 1 else 0))
    \<and> (\<forall>b. blk_hash (blk p' b) = blk_hash (blk p b)) \<and> cached p' = cached p"
    by (rule owned_give_back[OF own]) (use ownedD(6)[OF own, of r] in \<open>simp_all add: rev_filter[symmetric]\<close>)
  then obtain p' where p': "free_blocks ?bs p = Inr p'"
    "owned others p' (xs @ filter (\<lambda>b. b \<noteq> null_block p \<and> ref_cnt (blk p b) = 1) ?bs) (set_blocks r [] m)"
    "num_gpu_blocks p' = num_gpu_blocks p" "null_block p' = null_block p"
    "\<forall>b. b \<noteq> null_block p \<longrightarrow> ref_cnt (blk p' b) = ref_cnt (blk p b) - (if b \<in> set ?bs then 1 else 0)"
    "\<forall>b. blk_hash (blk p' b) = blk_hash (blk p b)" by blast
  define m' where "m' = m\<lparr>req_to_blocks := (req_to_blocks m)(r := None), num_cached_block := (num_cached_block m)(r := None)\<rparr>"
  have bo: "blocks_of m' r' = (if r' = r then [] else blocks_of m r')" for r' by (simp add: m'_def blocks_of_def)
  have run: "manager_free r m p = Inr (m', p')"
    using att p'(1) by (auto simp: manager_free_def attention_def m'_def split: kv_spec.splits)
  have "held m' b = held (set_blocks r [] m) b" for b
  proof -
    have fin: "finite (dom (req_to_blocks m))" by (rule ownedD(2)[OF own])
    have "held m' b = (\<Sum>r' \<in> insert r (dom (req_to_blocks m)). int (count_list (blocks_of m' r') b))"
      using fin by (intro held_over) (auto simp: m'_def)
    then show ?thesis by (simp add: held_def bo)
  qed
  then have "owned others p' (xs @ filter (\<lambda>b. b \<noteq> null_block p \<and> ref_cnt (blk p b) = 1) ?bs) m'"
    using p'(2) ownedD(2)[OF own] by (auto simp: owned_def bo m'_def split: if_splits)
  moreover have "fresh_tail p' m'" if ft: "fresh_tail p m"
  proof -
    have "blk_hash (blk p' b) = None \<and> ref_cnt (blk p' b) = 1"
      if r': "r' \<noteq> r" and b: "b \<in> set (drop (n_cached m r') (blocks_of m r'))" "b \<noteq> null_block p" for r' b
    proof -
      from ft b have f: "blk_hash (blk p b) = None" "ref_cnt (blk p b) = 1" by (auto simp: fresh_tail_def)
      have "b \<in> set (blocks_of m r')" using b(1) by (rule in_set_dropD)
      have "b \<notin> set (blocks_of m r)"
      proof
        assume "b \<in> set (blocks_of m r)"
        have "held (set_blocks r [] m) b = held m b - int (count_list (blocks_of m r) b)"
          using held_set[OF ownedD(2)[OF own], of r "[]" b] by simp
        moreover have "int (count_list (blocks_of m r') b) \<le> held (set_blocks r [] m) b"
          using held_ge[of "set_blocks r [] m" r' b] ownedD(2)[OF own] r' by simp
        ultimately have "2 \<le> held m b"
          using count_list_pos[OF \<open>b \<in> set (blocks_of m r)\<close>] count_list_pos[OF \<open>b \<in> set (blocks_of m r')\<close>] by simp
        then show False
          using f(2) ownedD(3)[OF own, of b] ownedD(4)[OF own ownedD(5)[OF own \<open>b \<in> set (blocks_of m r')\<close>] b(2)] by simp
      qed
      with p'(5,6) f b(2) show ?thesis by simp
    qed
    then show ?thesis
      by (auto simp: fresh_tail_def bo p'(4) n_cached_def m'_def split: if_splits)
  qed
  ultimately show ?thesis using run tail free_blocks_config[OF p'(1)]
    by (intro exI[of _ m'] exI[of _ p']) (auto simp: bo m'_def same_kind_def)
qed

section \<open>Sharing\<close>

lemma distinct_count:
  "distinct (filter (\<lambda>b. b \<noteq> nb) bs) \<longleftrightarrow> (\<forall>b. b \<noteq> nb \<longrightarrow> count_list bs b \<le> 1)"
proof
  assume d: "distinct (filter (\<lambda>b. b \<noteq> nb) bs)"
  show "\<forall>b. b \<noteq> nb \<longrightarrow> count_list bs b \<le> 1"
  proof (intro allI impI)
    fix b assume "b \<noteq> nb"
    with count_list_distinct_filter[OF d, of b] show "count_list bs b \<le> 1" by simp
  qed
next
  assume "\<forall>b. b \<noteq> nb \<longrightarrow> count_list bs b \<le> 1"
  then show "distinct (filter (\<lambda>b. b \<noteq> nb) bs)"
  proof (induction bs)
    case (Cons a bs)
    have tl: "\<forall>b. b \<noteq> nb \<longrightarrow> count_list bs b \<le> 1"
    proof (intro allI impI)
      fix b assume "b \<noteq> nb"
      with Cons.prems show "count_list bs b \<le> 1" by (auto dest!: spec[of _ b] split: if_splits)
    qed
    have "a \<notin> set bs" if "a \<noteq> nb"
    proof
      assume "a \<in> set bs"
      from count_list_pos[OF this] Cons.prems that show False by (auto dest!: spec[of _ a])
    qed
    with Cons.IH[OF tl] show ?case by simp
  qed simp
qed

text \<open>A block of reference count 1 is listed once.\<close>

lemma single_owner:
  assumes own: "owned others p xs m" and "b \<noteq> null_block p" and "ref_cnt (blk p b) = 1"
    and "b \<in> set (blocks_of m r)" and "b \<in> set (blocks_of m r')"
  shows "r = r'"
proof (rule ccontr)
  assume ne: "r \<noteq> r'"
  have "held (set_blocks r [] m) b = held m b - int (count_list (blocks_of m r) b)"
    using held_set[OF ownedD(2)[OF own], of r "[]" b] by simp
  moreover have "int (count_list (blocks_of m r') b) \<le> held (set_blocks r [] m) b"
    using held_ge[of "set_blocks r [] m" r' b] ownedD(2)[OF own] ne by simp
  ultimately have "2 \<le> held m b"
    using count_list_pos[OF assms(4)] count_list_pos[OF assms(5)] by simp
  then show False
    using assms(3) ownedD(3)[OF own, of b] ownedD(4)[OF own ownedD(5)[OF own assms(4)] assms(2)] by simp
qed

lemma fresh_tailD:
  assumes "fresh_tail p m" and "b \<in> set (drop (n_cached m r) (blocks_of m r))" and "b \<noteq> null_block p"
  shows "blk_hash (blk p b) = None" "ref_cnt (blk p b) = 1" "b \<in> set (blocks_of m r)"
  using assms in_set_dropD[OF assms(2)] by (auto simp: fresh_tail_def)

section \<open>Removing skipped blocks\<close>

lemma count_list_update:
  "i < length bs \<Longrightarrow> b \<noteq> nb \<Longrightarrow> count_list bs b = (if bs ! i = b then 1 else 0) + count_list (bs[i := nb]) b"
proof (induction bs arbitrary: i)
  case (Cons a bs)
  then show ?case by (cases i) auto
qed simp

lemma drop_skipped_spec:
  "k \<le> length bs \<Longrightarrow> drop_skipped nb k bs = (rem, bs') \<Longrightarrow>
   length bs' = length bs \<and> set rem \<subseteq> set bs \<and> nb \<notin> set rem
   \<and> (\<forall>i < length bs. bs' ! i = bs ! i \<or> bs' ! i = nb) \<and> drop k bs' = drop k bs
   \<and> (\<forall>b. b \<noteq> nb \<longrightarrow> count_list bs b = count_list rem b + count_list bs' b)"
proof (induction k arbitrary: bs rem bs')
  case (Suc k)
  show ?case
  proof (cases "bs ! k = nb")
    case True
    with Suc.prems show ?thesis by simp
  next
    case False
    obtain rem1 bs1 where r: "drop_skipped nb k (bs[k := nb]) = (rem1, bs1)" by fastforce
    with Suc.prems False have eq: "rem = bs ! k # rem1" "bs' = bs1" by simp_all
    have k: "k < length bs" using Suc.prems(1) by simp
    from Suc.IH[OF _ r] k have IH: "length bs1 = length bs" "set rem1 \<subseteq> set (bs[k := nb])" "nb \<notin> set rem1"
      "\<forall>i < length bs. bs1 ! i = (bs[k := nb]) ! i \<or> bs1 ! i = nb" "drop k bs1 = drop k (bs[k := nb])"
      "\<forall>b. b \<noteq> nb \<longrightarrow> count_list (bs[k := nb]) b = count_list rem1 b + count_list bs1 b" by auto
    have "set rem1 \<subseteq> set bs" using IH(2,3) set_update_subset_insert[of bs k nb] by blast
    moreover have "drop (Suc k) bs1 = drop (Suc k) bs"
    proof -
      have "drop (Suc k) bs1 = drop 1 (drop k bs1)" by simp
      also have "\<dots> = drop (Suc k) bs" unfolding IH(5) by (simp add: drop_update_swap)
      finally show ?thesis .
    qed
    moreover have "bs1 ! i = bs ! i \<or> bs1 ! i = nb" if "i < length bs" for i
      using IH(4) that by (cases "i = k") auto
    ultimately show ?thesis
      using IH(1,3,6) k False eq count_list_update[OF k, of _ nb] by auto
  qed
qed simp

lemma base_remove_skipped_ok:
  assumes own: "owned others p xs m" and tail: "enable_caching p \<longrightarrow> fresh_tail p m"
  shows "\<exists>m' p' ys. base_remove_skipped r n m p = Inr (m', p') \<and> owned others p' (xs @ ys) m'
    \<and> (enable_caching p \<longrightarrow> fresh_tail p' m') \<and> same_kind m m' \<and> config p' = config p
    \<and> num_cached_block m' = num_cached_block m \<and> length (blocks_of m' r) = length (blocks_of m r)
    \<and> (\<forall>r'. r' \<noteq> r \<longrightarrow> blocks_of m' r' = blocks_of m r') \<and> cached p' = cached p
    \<and> (\<forall>b. b \<noteq> null_block p \<longrightarrow> ref_cnt (blk p' b) \<le> ref_cnt (blk p b))
    \<and> (\<forall>b. blk_hash (blk p' b) = blk_hash (blk p b))
    \<and> (\<forall>i < length (blocks_of m r). blocks_of m' r ! i = blocks_of m r ! i \<or> blocks_of m' r ! i = null_block p)"
proof (cases "num_skipped_tokens (kv_spec m) n \<le> 0")
  case True
  then show ?thesis using own tail
    by (intro exI[of _ m] exI[of _ p] exI[of _ "[]"]) (simp add: base_remove_skipped_def same_kind_def)
next
  case False
  let ?bs = "blocks_of m r"
  let ?k = "min (nat (num_skipped_tokens (kv_spec m) n div m_block_size m)) (length ?bs)"
  obtain rem bs' where d: "drop_skipped (null_block p) ?k ?bs = (rem, bs')" by fastforce
  have "?k \<le> length ?bs" by simp
  from drop_skipped_spec[OF this d] have s: "length bs' = length ?bs" "set rem \<subseteq> set ?bs" "null_block p \<notin> set rem"
    "\<forall>i < length ?bs. bs' ! i = ?bs ! i \<or> bs' ! i = null_block p"
    "\<forall>b. b \<noteq> null_block p \<longrightarrow> count_list ?bs b = count_list rem b + count_list bs' b" by blast+
  have one: "\<forall>b. b \<noteq> null_block p \<longrightarrow> count_list ?bs b \<le> 1"
    using ownedD(6)[OF own, of r] by (simp add: distinct_count)
  have dist: "distinct (filter (\<lambda>b. b \<noteq> null_block p) rem)" "distinct (filter (\<lambda>b. b \<noteq> null_block p) bs')"
    unfolding distinct_count
  proof -
    have "count_list rem b \<le> 1 \<and> count_list bs' b \<le> 1" if "b \<noteq> null_block p" for b
      using one[rule_format, OF that] s(5)[rule_format, OF that] by simp
    then show "\<forall>b. b \<noteq> null_block p \<longrightarrow> count_list rem b \<le> 1"
      "\<forall>b. b \<noteq> null_block p \<longrightarrow> count_list bs' b \<le> 1" by blast+
  qed
  have sub: "set bs' \<subseteq> insert (null_block p) (set ?bs)"
  proof
    fix b assume "b \<in> set bs'"
    then obtain i where "i < length ?bs" "bs' ! i = b" using s(1) by (auto simp: in_set_conv_nth)
    with s(4) show "b \<in> insert (null_block p) (set ?bs)" by (metis insertCI nth_mem)
  qed
  from owned_give_back[OF own s(2) dist(1) _ sub dist(2)] s(5) obtain p' where
    p': "free_blocks rem p = Inr p'"
    "owned others p' (xs @ filter (\<lambda>b. b \<noteq> null_block p \<and> ref_cnt (blk p b) = 1) rem) (set_blocks r bs' m)"
    "null_block p' = null_block p"
    "\<forall>b. b \<noteq> null_block p \<longrightarrow> ref_cnt (blk p' b) = ref_cnt (blk p b) - (if b \<in> set rem then 1 else 0)"
    "\<forall>b. blk_hash (blk p' b) = blk_hash (blk p b)" "cached p' = cached p" by blast
  have run: "base_remove_skipped r n m p = Inr (set_blocks r bs' m, p')"
    using False p'(1) d by (simp add: base_remove_skipped_def Let_def)
  have "fresh_tail p' (set_blocks r bs' m)" if ft: "fresh_tail p m"
    unfolding fresh_tail_def
  proof (intro allI ballI impI)
    fix r' b
    assume b: "b \<in> set (drop (n_cached (set_blocks r bs' m) r') (blocks_of (set_blocks r bs' m) r'))"
      "b \<noteq> null_block p'"
    have nc: "n_cached (set_blocks r bs' m) r' = n_cached m r'" by (simp add: n_cached_def)
    have nn: "b \<noteq> null_block p" using b(2) p'(3) by simp
    have old: "b \<in> set (drop (n_cached m r') (blocks_of m r'))"
    proof (cases "r' = r")
      case True
      with b(1) nc have "b \<in> set (drop (n_cached m r) bs')" by simp
      then obtain i where "n_cached m r \<le> i" "i < length bs'" "bs' ! i = b"
        by (auto simp: in_set_conv_nth) (metis add.commute le_add1 less_diff_conv)
      with s(1,4) nn have "n_cached m r \<le> i \<and> i < length ?bs \<and> ?bs ! i = b" by auto
      then have "b \<in> set (drop (n_cached m r) ?bs)"
        by (auto simp: in_set_conv_nth intro!: exI[of _ "i - n_cached m r"])
      with True show ?thesis by simp
    next
      case False
      with b(1) nc show ?thesis by simp
    qed
    note f = fresh_tailD[OF ft old nn]
    have "b \<notin> set rem"
    proof
      assume rem: "b \<in> set rem"
      then have "r' = r" using single_owner[OF own nn f(2,3)] s(2) by blast
      with b(1) have "b \<in> set bs'" by (auto dest: in_set_dropD)
      with rem one[rule_format, OF nn] s(5)[rule_format, OF nn] count_list_pos[of b rem] count_list_pos[of b bs']
      show False by simp
    qed
    with f p'(4,5) nn show "blk_hash (blk p' b) = None \<and> ref_cnt (blk p' b) = 1" by simp
  qed
  with run p' s(1,4) tail free_blocks_config[OF p'(1)] show ?thesis
    by (intro exI[of _ "set_blocks r bs' m"] exI[of _ p'] exI) (auto simp: same_kind_def)
qed

section \<open>Taking blocks from the pool\<close>

lemma free_not_held:
  assumes own: "owned others p xs m" and b: "b \<in> set xs"
  shows "b \<notin> set (blocks_of m r)" and "b \<noteq> null_block p" and "b < num_gpu_blocks p"
proof -
  note inv = ownedD(1)[OF own]
  have f: "b < num_gpu_blocks p" "\<not> is_null (blk p b)" "ref_cnt (blk p b) = 0"
    using pool_invD(3)[OF inv, of b] b by auto
  then show nn: "b \<noteq> null_block p" and "b < num_gpu_blocks p" using pool_invD(4)[OF inv, of b] by auto
  show "b \<notin> set (blocks_of m r)"
    using owned_ref_pos[OF own _ nn, of r] f(3) by auto
qed

lemma owned_take:
  fixes r :: rid
  assumes own: "owned others p xs m" and tail: "enable_caching p \<longrightarrow> fresh_tail p m" and k: "k \<le> length xs"
  defines "m' \<equiv> set_blocks r (blocks_of m r @ take k xs) m"
  shows "\<exists>p'. get_new_blocks k p = Inr (take k xs, p') \<and> owned others p' (drop k xs) m'
    \<and> (enable_caching p \<longrightarrow> fresh_tail p' m') \<and> config p' = config p
    \<and> (\<forall>b. b \<notin> set (take k xs) \<longrightarrow> blk_hash (blk p' b) = blk_hash (blk p b))"
proof -
  note inv = ownedD(1)[OF own] and fin = ownedD(2)[OF own]
  obtain p' where p': "get_new_blocks k p = Inr (take k xs, p')" "pool_inv p' (drop k xs)"
    "num_gpu_blocks p' = num_gpu_blocks p" "null_block p' = null_block p"
    "\<forall>c. ref_cnt (blk p' c) = (if c \<in> set (take k xs) then 1 else ref_cnt (blk p c))"
    "\<forall>c. blk_hash (blk p' c) = (if c \<in> set (take k xs) \<and> enable_caching p then None else blk_hash (blk p c))"
    using get_new_blocks_ok[OF inv k] by blast
  have new: "b \<notin> set (blocks_of m r')" "b \<noteq> null_block p" "b < num_gpu_blocks p" "ref_cnt (blk p b) = 0"
    if "b \<in> set (take k xs)" for b r'
    using free_not_held[OF own in_set_takeD[OF that]] pool_invD(3)[OF inv, of b] in_set_takeD[OF that] by auto
  have cnt: "count_list (take k xs) b = (if b \<in> set (take k xs) then 1 else 0)" for b
  proof -
    have "distinct (filter (\<lambda>b. True) (take k xs))" using pool_invD(2)[OF inv] by simp
    from count_list_distinct_filter[OF this] show ?thesis by simp
  qed
  have ref: "ref_cnt (blk p' b) = others b + held m' b" if "b < num_gpu_blocks p" "b \<noteq> null_block p" for b
  proof (cases "b \<in> set (take k xs)")
    case True
    with new(4) ownedD(4)[OF own that] ownedD(3)[OF own, of b] held_nonneg[of m b]
    have "others b = 0" "held m b = 0" by auto
    with True cnt[of b] p'(5) new(1)[OF True, of r] show ?thesis
      unfolding m'_def held_set[OF fin] by (simp add: count_list_0_iff)
  next
    case False
    with cnt[of b] p'(5) ownedD(4)[OF own that] show ?thesis unfolding m'_def held_set[OF fin] by simp
  qed
  have dist: "distinct (filter (\<lambda>b. b \<noteq> null_block p) (blocks_of m r @ take k xs))"
    using ownedD(6)[OF own, of r] pool_invD(2)[OF inv] new(1)[of _ r] by auto
  have "owned others p' (drop k xs) m'"
    unfolding owned_def m'_def
    using p'(2-4) fin ownedD(3,5,6)[OF own] dist new(3) ref[unfolded m'_def] by auto
  moreover have "fresh_tail p' m'" if ft: "fresh_tail p m" and ec: "enable_caching p"
    unfolding fresh_tail_def
  proof (intro allI ballI impI)
    fix r' b assume b: "b \<in> set (drop (n_cached m' r') (blocks_of m' r'))" "b \<noteq> null_block p'"
    have nc: "n_cached m' r' = n_cached m r'" by (simp add: n_cached_def m'_def)
    have nn: "b \<noteq> null_block p" using b(2) p'(4) by simp
    show "blk_hash (blk p' b) = None \<and> ref_cnt (blk p' b) = 1"
    proof (cases "b \<in> set (take k xs)")
      case True
      with p'(5,6) ec show ?thesis by simp
    next
      case False
      have "b \<in> set (drop (n_cached m r') (blocks_of m r'))"
        using b(1) False unfolding nc by (cases "r' = r") (auto simp: m'_def dest: in_set_dropD)
      from fresh_tailD(1,2)[OF ft this nn] False p'(5,6) show ?thesis by simp
    qed
  qed
  moreover have "\<forall>b. b \<notin> set (take k xs) \<longrightarrow> blk_hash (blk p' b) = blk_hash (blk p b)" using p'(6) by simp
  ultimately show ?thesis using p'(1) tail get_new_blocks_config[OF p'(1)] by blast
qed

lemma owned_note [simp]: "owned others p xs (note_new ids m) = owned others p xs m"
  by (rule owned_cong) simp

lemma fresh_tail_note [simp]: "fresh_tail p (note_new ids m) = fresh_tail p m"
  by (simp add: fresh_tail_def n_cached_def)

lemma base_allocate_ok:
  assumes own: "owned others p xs m" and tail: "enable_caching p \<longrightarrow> fresh_tail p m"
    and k: "cdiv ntok (m_block_size m) - int (length (blocks_of m r)) \<le> int (length xs)"
  defines "k \<equiv> nat (cdiv ntok (m_block_size m) - int (length (blocks_of m r)))"
  shows "\<exists>m' p'. base_allocate_new_blocks r ntok m p = Inr (take k xs, m', p')
    \<and> owned others p' (drop k xs) m' \<and> (enable_caching p \<longrightarrow> fresh_tail p' m') \<and> same_kind m m'
    \<and> config p' = config p \<and> num_cached_block m' = num_cached_block m
    \<and> blocks_of m' r = blocks_of m r @ take k xs \<and> (\<forall>r'. r' \<noteq> r \<longrightarrow> blocks_of m' r' = blocks_of m r')"
proof -
  have kx: "k \<le> length xs" using k by (simp add: k_def)
  from owned_take[OF own tail kx, of r] obtain p' where p': "get_new_blocks k p = Inr (take k xs, p')"
    "owned others p' (drop k xs) (set_blocks r (blocks_of m r @ take k xs) m)"
    "enable_caching p \<longrightarrow> fresh_tail p' (set_blocks r (blocks_of m r @ take k xs) m)" "config p' = config p" by blast
  show ?thesis
  proof (cases "cdiv ntok (m_block_size m) - int (length (blocks_of m r)) \<le> 0")
    case True
    then have k0: "k = 0" by (simp add: k_def)
    have "owned others p xs (set_blocks r (blocks_of m r) m)"
      using own ownedD(2)[OF own] held_set[OF ownedD(2)[OF own], of r "blocks_of m r"] by (auto simp: owned_def)
    moreover have "fresh_tail p (set_blocks r (blocks_of m r) m) = fresh_tail p m"
      by (auto simp: fresh_tail_def n_cached_def)
    ultimately show ?thesis using True tail k0
      by (auto simp: base_allocate_new_blocks_def Let_def same_kind_def)
  next
    case False
    have "base_allocate_new_blocks r ntok m p
        = Inr (take k xs, note_new (take k xs) (set_blocks r (blocks_of m r @ take k xs) m), p')"
      using False p'(1) by (simp add: base_allocate_new_blocks_def Let_def k_def[symmetric])
    with p' show ?thesis by (auto simp: same_kind_def)
  qed
qed

section \<open>Adding computed blocks\<close>

text \<open>What the prefix lookup hands over: existing blocks, no real one twice, all of them hashed.\<close>

definition hits_ok :: "block_pool \<Rightarrow> nat list \<Rightarrow> bool" where
  "hits_ok p hits \<longleftrightarrow> (\<forall>b \<in> set hits. b < num_gpu_blocks p \<and> (b \<noteq> null_block p \<longrightarrow> blk_hash (blk p b) \<noteq> None))
     \<and> distinct (filter (\<lambda>b. b \<noteq> null_block p) hits)"

lemma touch_hash: "touch bs p = Inr p' \<Longrightarrow> blk_hash (blk p' b) = blk_hash (blk p b)"
  unfolding touch_def
proof (induction bs arbitrary: p)
  case (Cons c bs)
  then obtain p1 where p1: "touch_one c p = Inr p1" "foldE touch_one bs p1 = Inr p'" by (auto elim!: bindE_InrE)
  have "blk_hash (blk p1 b) = blk_hash (blk p b)"
    using p1(1) by (auto simp: touch_one_def elim!: bindE_InrE split: if_splits)
  with Cons.IH[OF p1(2)] show ?case by simp
qed simp

lemma owned_touch:
  fixes n :: nat
  assumes own: "owned others p xs m" and tail: "enable_caching p \<longrightarrow> fresh_tail p m"
    and hits: "hits_ok p hits" and fresh: "blocks_of m r = []"
  defines "m' \<equiv> (set_blocks r (replicate n (null_block p) @ hits) m)
      \<lparr>num_cached_block := (num_cached_block m)(r \<mapsto> n + length hits)\<rparr>"
  shows "\<exists>p'. touch hits p = Inr p' \<and> owned others p' (filter (\<lambda>b. b \<notin> set hits) xs) m'
    \<and> (enable_caching p \<longrightarrow> fresh_tail p' m') \<and> config p' = config p"
proof -
  note inv = ownedD(1)[OF own] and fin = ownedD(2)[OF own]
  have "\<forall>b \<in> set hits. b < num_gpu_blocks p" using hits by (simp add: hits_ok_def)
  from touch_ok[OF inv this] obtain p' where p': "touch hits p = Inr p'"
    "pool_inv p' (filter (\<lambda>b. b \<notin> set hits) xs)" "num_gpu_blocks p' = num_gpu_blocks p" "cached p' = cached p"
    "\<forall>c. ref_cnt (blk p' c) = ref_cnt (blk p c) + int (count_list hits c)" by blast
  note cfg = touch_config[OF p'(1)]
  note nb = configD(2)[OF cfg]
  let ?bs = "replicate n (null_block p) @ hits"
  have rc: "count_list (replicate n (null_block p)) b = 0" if "b \<noteq> null_block p" for b
    using that by (simp add: count_list_0_iff)
  have held': "held m' b = held m b + int (count_list hits b)" if "b \<noteq> null_block p" for b
  proof -
    have "held m' = held (set_blocks r ?bs m)" by (rule held_cong) (simp add: m'_def)
    then show ?thesis using held_set[OF fin, of r ?bs b] fresh rc[OF that] by simp
  qed
  have "owned others p' (filter (\<lambda>b. b \<notin> set hits) xs) m'"
    unfolding owned_def
    using p'(2,3,5) nb fin ownedD(3,4,5,6)[OF own] hits pool_invD(5)[OF inv]
    by (auto simp: held'[unfolded m'_def] hits_ok_def m'_def)
  moreover have "fresh_tail p' m'" if ft: "fresh_tail p m"
    unfolding fresh_tail_def
  proof (intro allI ballI impI)
    fix r' b assume b: "b \<in> set (drop (n_cached m' r') (blocks_of m' r'))" "b \<noteq> null_block p'"
    then have ne: "r' \<noteq> r" and old: "b \<in> set (drop (n_cached m r') (blocks_of m r'))"
      by (auto simp: m'_def n_cached_def split: if_splits)
    note f = fresh_tailD[OF ft old b(2)[unfolded nb]]
    have "b \<notin> set hits" using f(1) hits b(2) nb by (auto simp: hits_ok_def)
    with f p'(5) touch_hash[OF p'(1)] show "blk_hash (blk p' b) = None \<and> ref_cnt (blk p' b) = 1"
      by (simp add: count_list_0_iff)
  qed
  ultimately show ?thesis using p'(1) cfg tail by blast
qed

end
