(* ===== verification/KV_Alloc.thy ===== *)
theory KV_Alloc
  imports KV_Ownership
begin

text \<open>
  \<open>KVCacheManager.allocate_slots\<close> and \<open>free\<close> with one attention group (the
  unitary coordinator): they never raise, the prediction of the number of blocks is exactly
  what the allocation takes, and the ownership of blocks is kept.
\<close>

section \<open>Caching the new full blocks\<close>

lemma cache_loop_total:
  assumes "0 \<le> g" and "g < 2 ^ 32"
  shows "\<forall>(i, b) \<in> set ibs. i < length hashes \<and> (\<not> is_null (blk p b) \<longrightarrow> blk_hash (blk p b) = None) \<Longrightarrow>
    distinct (filter (\<lambda>b. \<not> is_null (blk p b)) (map snd ibs)) \<Longrightarrow>
    \<exists>p' hs'. foldE (cache_one hashes msk g) ibs (p, hs) = Inr (p', hs')"
proof (induction ibs arbitrary: p hs)
  case (Cons ib ibs)
  obtain i b where ib: "ib = (i, b)" by fastforce
  have i: "i < length hashes" and b: "\<not> is_null (blk p b) \<longrightarrow> blk_hash (blk p b) = None"
    using Cons.prems(1) ib by auto
  show ?case
  proof (cases "skipped_at msk p i b")
    case True
    then have "cache_one hashes msk g (i, b) (p, hs) = Inr (p, hs)" by (simp add: cache_one_unfold)
    moreover have "distinct (filter (\<lambda>b. \<not> is_null (blk p b)) (map snd ibs))"
      using Cons.prems(2) by (simp split: if_splits)
    ultimately show ?thesis using Cons.IH[of p hs] Cons.prems(1) by (simp add: ib)
  next
    case False
    then have nn: "\<not> is_null (blk p b)" by (simp add: skipped_at_def)
    define p1 where "p1 = (set_blk b ((blk p b)\<lparr>blk_hash := Some (key_of (hashes ! i) g)\<rparr>) p)
      \<lparr>cached := map_insert (key_of (hashes ! i) g) b (cached p)\<rparr>"
    define hs1 where "hs1 = hs @ [maybe_convert_block_hash (use_int_hashes p) (hashes ! i)]"
    have one: "cache_one hashes msk g (i, b) (p, hs) = Inr (p1, hs1)"
      using False nn b i make_key[OF assms, of "hashes ! i"] by (simp add: cache_one_unfold p1_def hs1_def)
    have null: "is_null (blk p1 c) = is_null (blk p c)" for c by (simp add: p1_def)
    have "b \<notin> snd ` set ibs" using Cons.prems(2) nn ib by auto
    then have "\<forall>(j, c) \<in> set ibs. j < length hashes \<and> (\<not> is_null (blk p1 c) \<longrightarrow> blk_hash (blk p1 c) = None)"
      using Cons.prems(1) by (force simp: p1_def)
    moreover have "distinct (filter (\<lambda>b. \<not> is_null (blk p1 b)) (map snd ibs))"
      using Cons.prems(2) nn ib by (simp add: null)
    ultimately show ?thesis using Cons.IH[of p1 hs1] one by (simp add: ib)
  qed
qed simp

lemma cache_loop_frame:
  "foldE (cache_one hashes msk g) ibs (p, hs) = Inr (p', hs') \<Longrightarrow>
   config p' = config p \<and> (\<forall>c. c \<notin> snd ` set ibs \<longrightarrow> blk p' c = blk p c)"
proof (induction ibs arbitrary: p hs)
  case (Cons ib ibs)
  obtain i b where ib: "ib = (i, b)" by fastforce
  from Cons.prems obtain p1 hs1 where one: "cache_one hashes msk g (i, b) (p, hs) = Inr (p1, hs1)"
    and rest: "foldE (cache_one hashes msk g) ibs (p1, hs1) = Inr (p', hs')"
    by (auto simp: ib elim!: bindE_InrE)
  from one have "config p1 = config p \<and> (\<forall>c. c \<noteq> b \<longrightarrow> blk p1 c = blk p c)"
    by (cases rule: cache_one_cases) auto
  with Cons.IH[OF rest] show ?case by (auto simp: ib)
qed simp

lemma distinct_filter_parts:
  "distinct (filter P (xs @ ys @ zs)) \<Longrightarrow>
   distinct (filter P ys) \<and> (\<forall>b. P b \<longrightarrow> b \<in> set ys \<longrightarrow> b \<notin> set zs)"
  by auto

lemma base_cache_ok:
  assumes own: "owned others p xs m" and tail: "fresh_tail p m" and ev: "\<not> enable_kv_cache_events p"
    and bs: "m_block_size m = int (hash_block_size p)" "0 < m_block_size m"
    and hashes: "ntok div m_block_size m \<le> int (length (block_hashes r))"
    and g: "0 \<le> m_group m" "m_group m < 2 ^ 32"
  shows "\<exists>m' p'. base_cache_blocks digest r ntok None m p = Inr (m', p') \<and> owned others p' xs m'
    \<and> fresh_tail p' m' \<and> same_kind m m' \<and> config p' = config p \<and> blocks_of m' = blocks_of m"
proof -
  let ?id = "request_id r" and ?nf = "nat (ntok div m_block_size m)"
  let ?blocks = "blocks_of m ?id" and ?nc = "n_cached m ?id"
  show ?thesis
  proof (cases "int ?nc \<ge> ntok div m_block_size m")
    case True
    then show ?thesis using own tail
      by (auto simp: base_cache_blocks_def Let_def n_cached_def[symmetric] same_kind_def)
  next
    case False
    then have lt: "?nc < ?nf" by simp
    note inv = ownedD(1)[OF own]
    have null: "is_null (blk p b) \<longleftrightarrow> b = null_block p" for b using pool_invD(4)[OF inv] by blast
    let ?new = "take (?nf - ?nc) (drop ?nc ?blocks)"
    have sub: "set ?new \<subseteq> set (drop ?nc ?blocks)" by (rule set_take_subset)
    have nhash: "?nf \<le> length (block_hashes r)" using hashes by linarith
    have all1: "\<forall>(i, b) \<in> set (enumerate 0 ?new). i < length (drop ?nc (block_hashes r))
        \<and> (\<not> is_null (blk p b) \<longrightarrow> blk_hash (blk p b) = None)"
    proof (clarify, intro conjI impI)
      fix i b assume ib: "(i, b) \<in> set (enumerate 0 ?new)"
      then have "i < length ?new" "b = ?new ! i" by (auto simp: in_set_enumerate_eq)
      then have "i < ?nf - ?nc" by simp
      then show "i < length (drop ?nc (block_hashes r))"
        using diff_le_mono[OF nhash, of ?nc] by (simp only: length_drop)
      have "b \<in> set (drop ?nc ?blocks)" using \<open>i < length ?new\<close> \<open>b = ?new ! i\<close> sub nth_mem by blast
      then show "blk_hash (blk p b) = None" if "\<not> is_null (blk p b)"
        using fresh_tailD(1)[OF tail] that null by blast
    qed
    have dall: "distinct (filter (\<lambda>b. \<not> is_null (blk p b)) ?blocks)"
      using ownedD(6)[OF own, of ?id] by (simp add: null)
    have parts: "?blocks = take ?nc ?blocks @ ?new @ drop ?nf ?blocks"
    proof -
      have "drop ?nc ?blocks = ?new @ drop (?nf - ?nc) (drop ?nc ?blocks)"
        by (rule append_take_drop_id[symmetric])
      also have "drop (?nf - ?nc) (drop ?nc ?blocks) = drop ?nf ?blocks" using lt by simp
      finally show ?thesis by (metis append_take_drop_id)
    qed
    have dall2: "distinct (filter (\<lambda>b. \<not> is_null (blk p b)) (take ?nc ?blocks @ ?new @ drop ?nf ?blocks))"
      by (simp only: parts[symmetric] dall)
    note parts2 = distinct_filter_parts[OF dall2]
    have dparts1: "distinct (filter (\<lambda>b. \<not> is_null (blk p b)) ?new)" by (rule conjunct1[OF parts2])
    have dparts2: "b \<notin> set (drop ?nf ?blocks)" if "\<not> is_null (blk p b)" "b \<in> set ?new" for b
      by (rule conjunct2[OF parts2, rule_format, OF that])
    have d1: "distinct (filter (\<lambda>b. \<not> is_null (blk p b)) (map snd (enumerate 0 ?new)))"
      by (simp only: map_snd_enumerate dparts1)
    from cache_loop_total[OF g all1 d1, of None "[]"]
    obtain p1 hs where loop: "foldE (cache_one (drop ?nc (block_hashes r)) None (m_group m))
        (enumerate 0 ?new) (p, []) = Inr (p1, hs)" by blast
    note frame = cache_loop_frame[OF loop]
    have "group_hashes r (nat (m_block_size m)) p = Inr (block_hashes r)" using bs by (simp add: group_hashes_def)
    moreover have "store_event digest r ?blocks ?nc ?nf (nat (m_block_size m)) (m_group m) None hs p1 = Inr p1"
      using ev configD(5)[of p1 p] frame by (simp add: store_event_def)
    ultimately have run: "cache_full_blocks digest r ?blocks ?nc ?nf (nat (m_block_size m)) (m_group m) None p = Inr p1"
      using lt nhash loop by (simp add: cache_full_blocks_def Let_def)
    define m' where "m' = (set_blocks ?id ?blocks m)\<lparr>num_cached_block := (num_cached_block m)(?id \<mapsto> ?nf)\<rparr>"
    have res: "base_cache_blocks digest r ntok None m p = Inr (m', p1)"
      using False run by (simp add: base_cache_blocks_def Let_def n_cached_def[symmetric] m'_def)
    moreover have bo: "blocks_of m' = blocks_of m" by (rule ext) (simp add: m'_def)
    moreover have cfg: "config p1 = config p" using frame by blast
    have refs: "ref_cnt (blk p1 c) = ref_cnt (blk p c)" for c
    proof -
      have "\<forall>b \<in> set ?blocks. b < num_gpu_blocks p" using ownedD(5)[OF own] by blast
      from cache_full_blocks_ok[OF run inv this lt] show ?thesis by blast
    qed
    have "pool_inv p1 xs"
    proof -
      have "\<forall>b \<in> set ?blocks. b < num_gpu_blocks p" using ownedD(5)[OF own] by blast
      from cache_full_blocks_inv[OF run inv this] show ?thesis .
    qed
    moreover have "held m' = held m"
    proof (rule ext)
      fix b
      have "held m' = held (set_blocks ?id ?blocks m)" by (rule held_cong) (simp add: m'_def)
      then show "held m' b = held m b" using held_set[OF ownedD(2)[OF own], of ?id ?blocks b] by simp
    qed
    ultimately have "owned others p1 xs m'"
      using own refs configD(1,2)[OF cfg] by (simp add: owned_def) (simp add: m'_def)
    moreover have "fresh_tail p1 m'" unfolding fresh_tail_def
    proof (intro allI ballI impI)
      fix r' b assume b: "b \<in> set (drop (n_cached m' r') (blocks_of m' r'))" "b \<noteq> null_block p1"
      have nn: "b \<noteq> null_block p" using b(2) configD(2)[OF cfg] by simp
      have old: "b \<in> set (drop (n_cached m r') (blocks_of m r'))"
      proof (cases "r' = ?id")
        case True
        with b(1) have "b \<in> set (drop ?nf ?blocks)" unfolding bo by (simp add: m'_def n_cached_def)
        then show ?thesis
          using set_drop_subset_set_drop[OF less_imp_le[OF lt], of ?blocks] True by blast
      next
        case False
        with b(1) show ?thesis unfolding bo by (simp add: m'_def n_cached_def)
      qed
      note f = fresh_tailD[OF tail old nn]
      have "b \<notin> set ?new"
      proof
        assume new: "b \<in> set ?new"
        then have "b \<in> set ?blocks" by (auto dest: in_set_takeD in_set_dropD)
        then have "r' = ?id" using single_owner[OF own nn f(2,3)] by blast
        with b(1) have "b \<in> set (drop ?nf ?blocks)" unfolding bo by (simp add: m'_def n_cached_def)
        with dparts2[OF _ new] nn null show False by blast
      qed
      then have "b \<notin> snd ` set (enumerate 0 ?new)" by (metis list.set_map map_snd_enumerate)
      with frame f show "blk_hash (blk p1 b) = None \<and> ref_cnt (blk p1 b) = 1" by simp
    qed
    moreover have "same_kind m m'" by (simp add: same_kind_def m'_def)
    ultimately show ?thesis using cfg res bo by blast
  qed
qed

section \<open>One attention group\<close>

definition window_ok :: "kv_spec \<Rightarrow> bool" where
  "window_ok s \<longleftrightarrow> (case s of SlidingSpec w \<Rightarrow> 1 \<le> w | ChunkedSpec c \<Rightarrow> 1 \<le> c | _ \<Rightarrow> True)"

definition not_hybrid :: "coord_kind \<Rightarrow> bool" where
  "not_hybrid c \<longleftrightarrow> (case c of Hybrid _ _ _ \<Rightarrow> False | _ \<Rightarrow> True)"

definition fixed_ok :: "block_pool \<Rightarrow> kv_manager \<Rightarrow> bool" where
  "fixed_ok p m \<longleftrightarrow> attention m \<and> window_ok (kv_spec m) \<and> m_caching m = enable_caching p
     \<and> 0 < m_block_size m \<and> (enable_caching p \<longrightarrow> m_block_size m = int (hash_block_size p))
     \<and> 0 \<le> m_group m \<and> m_group m < 2 ^ 32 \<and> \<not> enable_kv_cache_events p"

definition one_group :: "kv_cache_manager \<Rightarrow> nat list \<Rightarrow> kv_manager \<Rightarrow> bool" where
  "one_group k xs m \<longleftrightarrow> co_managers (km_co k) = [m] \<and> not_hybrid (co_kind (km_co k))
     \<and> km_caching k = enable_caching (co_pool (km_co k)) \<and> fixed_ok (co_pool (km_co k)) m
     \<and> owned (\<lambda>_. 0) (co_pool (km_co k)) xs m
     \<and> (enable_caching (co_pool (km_co k)) \<longrightarrow> fresh_tail (co_pool (km_co k)) m)"

lemma fixed_ok_step:
  "fixed_ok p m \<Longrightarrow> same_kind m m' \<Longrightarrow> config p' = config p \<Longrightarrow> fixed_ok p' m'"
  using configD(3,4,5)[of p' p] by (auto simp: fixed_ok_def same_kind_def attention_def)

lemma attention_simps:
  assumes "attention m"
  shows "get_num_blocks_to_allocate m p r ntok hits tot main cap = base_num_blocks m p r ntok hits tot cap"
    "allocate_new_blocks r ntok main m p = base_allocate_new_blocks r ntok m p"
    "remove_skipped_blocks r n m p = base_remove_skipped r n m p"
    "cache_blocks digest q ntok al m p = base_cache_blocks digest q ntok al m p"
    "kv_spec m \<noteq> CrossSpec"
  using assms
  by (auto simp: attention_def get_num_blocks_to_allocate_def allocate_new_blocks_def
      remove_skipped_blocks_def cache_blocks_def split: kv_spec.splits)

lemma run_single:
  assumes "co_managers co = [m]"
  shows "run_managers f [x] co = bindE (f x m (co_pool co)) (\<lambda>(y, m', p').
      Inr ([y], co\<lparr>co_managers := [m'], co_pool := p'\<rparr>))"
  using assms by (cases "f x m (co_pool co)") (auto simp: run_managers_def)

lemma co_each_single:
  assumes "co_managers co = [m]"
  shows "co_each f co = bindE (f m (co_pool co)) (\<lambda>(m', p'). Inr (co\<lparr>co_managers := [m'], co_pool := p'\<rparr>))"
  using assms by (cases "f m (co_pool co)") (auto simp: co_each_def run_single quiet_def)

lemma co_allocate_computed_single:
  assumes "co_managers co = [m]"
  shows "co_allocate_computed r [hits] n_local n_ext co =
    bindE (allocate_new_computed_blocks r hits n_local n_ext m (co_pool co)) (\<lambda>(m', p').
      Inr (co\<lparr>co_managers := [m'], co_pool := p'\<rparr>))"
  using assms by (cases "allocate_new_computed_blocks r hits n_local n_ext m (co_pool co)")
    (auto simp: co_allocate_computed_def run_single quiet_def)

lemma co_num_blocks_single:
  assumes "co_managers co = [m]" and "attention m"
  shows "co_num_blocks r ntok [hits] n_enc tot main cap co = base_num_blocks m (co_pool co) r ntok hits tot cap"
  using assms by (cases "base_num_blocks m (co_pool co) r ntok hits tot cap")
    (simp_all add: co_num_blocks_def attention_simps)

section \<open>The prediction\<close>

text \<open>\<open>req\<close> is the number of blocks that all slots need: what is missing of it, and the hits that
  nobody uses, which leave the free queue.\<close>

definition blocks_needed :: "kv_manager \<Rightarrow> block_pool \<Rightarrow> rid \<Rightarrow> int \<Rightarrow> nat list \<Rightarrow> int \<Rightarrow> int" where
  "blocks_needed m p r req hits tot =
     max (req - int (length hits) - int (length (blocks_of m r))) 0
     + num_evictable p (drop (nat (num_skipped_tokens (kv_spec m) tot div m_block_size m)) hits)"

text \<open>The check of the whole sequence counts no more blocks than a window can hold.\<close>

definition capped :: "kv_manager \<Rightarrow> int \<Rightarrow> int" where
  "capped m req = (case admission_cap m of None \<Rightarrow> req | Some c \<Rightarrow> min req c)"

text \<open>The blocks at hand cover the tokens already computed, and hits come for a new request only.\<close>

definition covered :: "kv_manager \<Rightarrow> rid \<Rightarrow> nat list \<Rightarrow> int \<Rightarrow> bool" where
  "covered m r hits tot \<longleftrightarrow> 0 \<le> tot \<and> tot \<le> int (length hits + length (blocks_of m r)) * m_block_size m
     \<and> (hits \<noteq> [] \<longrightarrow> blocks_of m r = [] \<and> num_cached_block m r = None)"

lemma skipped_le:
  assumes "window_ok s"
  shows "num_skipped_tokens s n \<le> max n 0"
proof (cases s)
  case (ChunkedSpec c)
  then have "1 \<le> c" using assms(1) by (simp add: window_ok_def)
  then have "0 \<le> n mod c" by simp
  then have "n div c * c \<le> n" using minus_mod_eq_div_mult[of n c] by linarith
  with ChunkedSpec show ?thesis by (simp add: num_skipped_tokens_def)
qed (use assms in \<open>auto simp: num_skipped_tokens_def window_ok_def\<close>)

lemma skipped_nonneg:
  assumes "attention m" and "window_ok (kv_spec m)" and "0 \<le> n"
  shows "0 \<le> num_skipped_tokens (kv_spec m) n" and "num_skipped_tokens (kv_spec m) n \<le> n"
proof -
  show "num_skipped_tokens (kv_spec m) n \<le> n"
    using skipped_le[OF assms(2), of n] assms(3) by simp
  show "0 \<le> num_skipped_tokens (kv_spec m) n"
    using assms by (auto simp: num_skipped_tokens_def attention_def window_ok_def pos_imp_zdiv_nonneg_iff
        split: kv_spec.splits)
qed

lemma skipped_blocks_le:
  assumes "attention m" and "window_ok (kv_spec m)" and "0 < m_block_size m" and "covered m r hits tot"
  shows "0 \<le> num_skipped_tokens (kv_spec m) tot div m_block_size m"
    and "num_skipped_tokens (kv_spec m) tot div m_block_size m \<le> int (length hits + length (blocks_of m r))"
proof -
  have tot: "0 \<le> tot" "tot \<le> int (length hits + length (blocks_of m r)) * m_block_size m"
    using assms(4) by (simp_all add: covered_def)
  note s = skipped_nonneg[OF assms(1,2) tot(1)]
  show "0 \<le> num_skipped_tokens (kv_spec m) tot div m_block_size m"
    using s(1) assms(3) by (simp add: pos_imp_zdiv_nonneg_iff)
  have "num_skipped_tokens (kv_spec m) tot div m_block_size m
      \<le> (int (length hits + length (blocks_of m r)) * m_block_size m) div m_block_size m"
    using s(2) tot(2) assms(3) by (intro zdiv_mono1) simp_all
  also have "\<dots> = int (length hits + length (blocks_of m r))" using assms(3) by simp
  finally show "num_skipped_tokens (kv_spec m) tot div m_block_size m \<le> int (length hits + length (blocks_of m r))" .
qed

lemma skipped_below:
  assumes "window_ok (kv_spec m)" "0 < m_block_size m" "covered m r hits tot" "tot' \<le> tot"
  shows "num_skipped_tokens (kv_spec m) tot' div m_block_size m \<le> int (length hits + length (blocks_of m r))"
proof -
  have "num_skipped_tokens (kv_spec m) tot' \<le> int (length hits + length (blocks_of m r)) * m_block_size m"
    using skipped_le[OF assms(1), of tot'] assms(3,4) by (auto simp: covered_def)
  then have "num_skipped_tokens (kv_spec m) tot' div m_block_size m
      \<le> (int (length hits + length (blocks_of m r)) * m_block_size m) div m_block_size m"
    using assms(2) by (intro zdiv_mono1) simp_all
  then show ?thesis using assms(2) by simp
qed

lemma base_num_blocks_eq:
  assumes "window_ok (kv_spec m)" and "0 < m_block_size m" and "covered m r hits tot" and "tot' \<le> tot"
  shows "base_num_blocks m p r ntok hits tot' cap
    = Inr (blocks_needed m p r (if cap then capped m (cdiv ntok (m_block_size m)) else cdiv ntok (m_block_size m)) hits tot')"
proof -
  note s = skipped_below[OF assms]
  have new: "blocks_of m r = []" "num_cached_block m r = None" if "hits \<noteq> []"
    using assms(3) that by (simp_all add: covered_def)
  show ?thesis
  proof (cases "hits = []")
    case True
    with s show ?thesis
      by (cases "admission_cap m") (auto simp: base_num_blocks_def blocks_needed_def capped_def Let_def num_evictable_def max_def)
  next
    case False
    have nn: "nat (max 0 x) = nat x" for x :: int by simp
    from False s new show ?thesis
      by (cases "admission_cap m") (auto simp: base_num_blocks_def blocks_needed_def capped_def Let_def max_def)
  qed
qed

text \<open>The blocks that a request has before new ones are taken: its own, or those of its hits
  that it still reads, behind null blocks.\<close>

definition prior_blocks :: "kv_manager \<Rightarrow> block_pool \<Rightarrow> rid \<Rightarrow> nat list \<Rightarrow> int \<Rightarrow> nat list" where
  "prior_blocks m p r hits tot = (if hits = [] then blocks_of m r
     else let n = nat (num_skipped_tokens (kv_spec m) tot div m_block_size m) in replicate n (null_block p) @ drop n hits)"

section \<open>Taking over the computed blocks\<close>

lemma evictable_count:
  assumes inv: "pool_inv p xs" and hits: "hits_ok p hits"
  shows "int (length (filter (\<lambda>b. b \<notin> set hits) xs)) = int (length xs) - num_evictable p hits"
proof -
  have null: "is_null (blk p b) \<longleftrightarrow> b = null_block p" for b using pool_invD(4)[OF inv] by blast
  let ?ev = "filter (\<lambda>b. ref_cnt (blk p b) = 0 \<and> \<not> is_null (blk p b)) hits"
  have dev: "distinct ?ev"
  proof -
    have "?ev = filter (\<lambda>b. ref_cnt (blk p b) = 0) (filter (\<lambda>b. b \<noteq> null_block p) hits)"
      by (simp add: null conj_commute)
    moreover have "distinct (filter (\<lambda>b. b \<noteq> null_block p) hits)" using hits by (simp add: hits_ok_def)
    ultimately show ?thesis by (metis distinct_filter)
  qed
  have "set ?ev = set (filter (\<lambda>b. b \<in> set hits) xs)"
    using pool_invD(3)[OF inv] hits by (auto simp: hits_ok_def)
  moreover have "distinct (filter (\<lambda>b. b \<in> set hits) xs)" using pool_invD(2)[OF inv] by simp
  ultimately have "length ?ev = length (filter (\<lambda>b. b \<in> set hits) xs)"
    using dev by (metis distinct_card)
  moreover have "length xs = length (filter (\<lambda>b. b \<in> set hits) xs) + length (filter (\<lambda>b. b \<notin> set hits) xs)"
    by (rule sum_length_filter_compl[symmetric])
  ultimately show ?thesis by (simp add: num_evictable_def)
qed

lemma hits_ok_drop: "hits_ok p hits \<Longrightarrow> hits_ok p (drop n hits)"
proof -
  assume h: "hits_ok p hits"
  have "hits = take n hits @ drop n hits" by simp
  then have "filter (\<lambda>b. b \<noteq> null_block p) hits
      = filter (\<lambda>b. b \<noteq> null_block p) (take n hits) @ filter (\<lambda>b. b \<noteq> null_block p) (drop n hits)"
    by (metis filter_append)
  with h have "distinct (filter (\<lambda>b. b \<noteq> null_block p) (drop n hits))"
    by (metis hits_ok_def distinct_append)
  with h show ?thesis by (auto simp: hits_ok_def dest: in_set_dropD)
qed

lemma allocate_computed_step:
  assumes "kv_spec m \<noteq> CrossSpec" and nc: "num_cached_block m r = None" and bo: "blocks_of m r = []"
    and cbs: "(if num_skipped_tokens (kv_spec m) n_local div m_block_size m > 0
          then drop (nat (num_skipped_tokens (kv_spec m) n_local div m_block_size m)) hits else hits) = cb"
    and touched: "(if m_caching m then touch cb p else bindE (assertE (cb = [])) (\<lambda>_. Inr p)) = Inr p'"
  shows "allocate_new_computed_blocks r hits n_local 0 m p =
    Inr ((set_blocks r (replicate (nat (num_skipped_tokens (kv_spec m) n_local div m_block_size m)) (null_block p') @ cb) m)
      \<lparr>num_cached_block := (num_cached_block m)
         (r \<mapsto> nat (num_skipped_tokens (kv_spec m) n_local div m_block_size m) + length cb)\<rparr>, p')"
proof -
  have ext: "((if n > 0 then min x (0 :: int) else 0) > 0) = False" for n x :: int by simp
  have ass: "assertE True = Inr ()" by simp
  show ?thesis
    unfolding allocate_new_computed_blocks_def Let_def add_0_right
    by (simp only: assms(1) nc bo if_False not_not simp_thms ass bindE_Inr cbs touched ext
        length_append length_replicate)
qed

lemma computed_ok:
  assumes own: "owned others p xs m" and tail: "enable_caching p \<longrightarrow> fresh_tail p m" and fx: "fixed_ok p m"
    and cov: "covered m r hits n_local" and hits: "hits_ok p hits" "\<not> enable_caching p \<longrightarrow> hits = []"
    and new: "num_cached_block m r \<noteq> None \<or> blocks_of m r = []"
  shows "\<exists>m' p' xs'. allocate_new_computed_blocks r hits n_local 0 m p = Inr (m', p') \<and> owned others p' xs' m'
    \<and> (enable_caching p \<longrightarrow> fresh_tail p' m') \<and> same_kind m m' \<and> config p' = config p
    \<and> int (length xs') = int (length xs)
        - num_evictable p (drop (nat (num_skipped_tokens (kv_spec m) n_local div m_block_size m)) hits)
    \<and> length (blocks_of m' r) = length hits + length (blocks_of m r)
    \<and> (\<forall>r'. r' \<noteq> r \<longrightarrow> blocks_of m' r' = blocks_of m r') \<and> blocks_of m' r = prior_blocks m p r hits n_local"
proof (cases "num_cached_block m r = None")
  case False
  with cov have "hits = []" by (auto simp: covered_def)
  with False own tail fx show ?thesis
    by (intro exI[of _ m] exI[of _ p] exI[of _ xs])
      (auto simp: allocate_new_computed_blocks_def attention_simps fixed_ok_def same_kind_def num_evictable_def prior_blocks_def)
next
  case True
  with new have bo: "blocks_of m r = []" by blast
  have att: "attention m" "window_ok (kv_spec m)" "0 < m_block_size m" "m_caching m = enable_caching p"
    using fx by (auto simp: fixed_ok_def)
  let ?n = "num_skipped_tokens (kv_spec m) n_local div m_block_size m"
  note s = skipped_blocks_le[OF att(1-3) cov]
  let ?comp = "drop (nat ?n) hits"
  define m' where "m' = (set_blocks r (replicate (nat ?n) (null_block p) @ ?comp) m)
      \<lparr>num_cached_block := (num_cached_block m)(r \<mapsto> nat ?n + length ?comp)\<rparr>"
  from owned_touch[OF own tail hits_ok_drop[OF hits(1)] bo, of "nat ?n" "nat ?n", folded m'_def]
  obtain p' where p': "touch ?comp p = Inr p'" "owned others p' (filter (\<lambda>b. b \<notin> set ?comp) xs) m'"
    "enable_caching p \<longrightarrow> fresh_tail p' m'" "config p' = config p" by blast
  have comp: "(if ?n > 0 then drop (nat ?n) hits else hits) = ?comp" using s(1) by auto
  have t: "(if m_caching m then touch ?comp p else bindE (assertE (?comp = [])) (\<lambda>_. Inr p)) = Inr p'"
    using p'(1) hits(2) att(4) by (auto simp: touch_def)
  have len: "nat ?n + length ?comp = length hits" using s(2) bo by simp
  have "allocate_new_computed_blocks r hits n_local 0 m p = Inr (m', p')"
    unfolding m'_def configD(2)[OF p'(4), symmetric]
    by (rule allocate_computed_step[OF attention_simps(5)[OF att(1)] True bo comp t])
  moreover have "length (blocks_of m' r) = length hits + length (blocks_of m r)"
    using len bo by (simp add: m'_def)
  moreover have "\<forall>r'. r' \<noteq> r \<longrightarrow> blocks_of m' r' = blocks_of m r'" "same_kind m m'"
    by (simp_all add: m'_def same_kind_def)
  moreover have "blocks_of m' r = prior_blocks m p r hits n_local"
    using s bo by (cases "hits = []") (simp_all add: m'_def prior_blocks_def Let_def)
  ultimately show ?thesis
    using p'(2-4) evictable_count[OF ownedD(1)[OF own] hits_ok_drop[OF hits(1)]] by blast
qed

section \<open>Allocating the slots of a step\<close>

definition alloc_pre :: "kv_cache_manager \<Rightarrow> kv_manager \<Rightarrow> request \<Rightarrow> int \<Rightarrow> nat list \<Rightarrow> nat list list option \<Rightarrow> bool" where
  "alloc_pre k m r n_comp hits new_comp \<longleftrightarrow>
     (let p = co_pool (km_co k) in
      covered m (request_id r) hits (num_computed_tokens r + n_comp) \<and> hits_ok p hits
      \<and> (\<not> enable_caching p \<longrightarrow> hits = [])
      \<and> (new_comp = None \<and> hits = []
         \<or> new_comp = Some [hits] \<and> (num_cached_block m (request_id r) \<noteq> None \<or> blocks_of m (request_id r) = []))
      \<and> num_tokens r div m_block_size m \<le> int (length (block_hashes r)))"

definition slots_wanted :: "kv_cache_manager \<Rightarrow> request \<Rightarrow> int \<Rightarrow> int \<Rightarrow> int \<Rightarrow> int" where
  "slots_wanted k r n_new n_comp n_look =
     min (min (num_computed_tokens r + n_comp) (km_max_len k) + n_new + n_look) (km_max_len k)"

text \<open>What an allocation does, where \<open>k1\<close> and \<open>m1\<close> are the manager after the blocks
  outside the window have been given back: it refuses exactly if the blocks needed exceed the
  free ones, and takes nothing then; otherwise the request has its prior blocks and then the new
  ones, which are returned, enough for all slots.\<close>

definition slots_promise ::
  "rid \<Rightarrow> int \<Rightarrow> nat list \<Rightarrow> int \<Rightarrow> kv_cache_manager \<Rightarrow> kv_manager \<Rightarrow> nat list list option \<Rightarrow> kv_cache_manager \<Rightarrow> kv_manager \<Rightarrow> bool" where
  "slots_promise r want hits tot k1 m1 res k' m' \<longleftrightarrow>
     (let p1 = co_pool (km_co k1); prior = prior_blocks m1 p1 r hits tot in
      if blocks_needed m1 p1 r (cdiv want (m_block_size m1)) hits tot > get_num_free_blocks p1
      then res = None \<and> k' = k1
      else \<exists>new. res = Some [new] \<and> blocks_of m' r = prior @ new
        \<and> int (length new) = max 0 (cdiv want (m_block_size m1) - int (length prior))
        \<and> (\<forall>r'. r' \<noteq> r \<longrightarrow> blocks_of m' r' = blocks_of m1 r'))"

lemma same_kind_trans: "same_kind m m1 \<Longrightarrow> same_kind m1 m2 \<Longrightarrow> same_kind m m2"
  by (simp add: same_kind_def)

lemma co_upd [simp]:
  "co_managers (co\<lparr>co_managers := ms, co_pool := p\<rparr>) = ms"
  "co_pool (co\<lparr>co_managers := ms, co_pool := p\<rparr>) = p"
  "co_kind (co\<lparr>co_managers := ms, co_pool := p\<rparr>) = co_kind co"
  by simp_all

lemma one_group_upd:
  assumes "one_group k xs m" and "same_kind m m'" and "config p' = config (co_pool (km_co k))"
    and "owned (\<lambda>_. 0) p' xs' m'" and "enable_caching (co_pool (km_co k)) \<longrightarrow> fresh_tail p' m'"
  shows "one_group (k\<lparr>km_co := (km_co k)\<lparr>co_managers := [m'], co_pool := p'\<rparr>\<rparr>) xs' m'"
  using assms fixed_ok_step[of "co_pool (km_co k)" m m' p'] configD(3)[OF assms(3)]
  by (simp add: one_group_def)

lemma co_allocate_new_single:
  assumes "co_managers co = [m]" and "attention m"
  shows "co_allocate_new r want main n_enc co =
    bindE (base_allocate_new_blocks r want m (co_pool co)) (\<lambda>(new, m', p').
      Inr ([new], co\<lparr>co_managers := [m'], co_pool := p'\<rparr>))"
  using assms by (cases "base_allocate_new_blocks r want m (co_pool co)")
    (simp_all add: co_allocate_new_def run_single attention_simps)

lemma co_cache_blocks_single:
  assumes "co_managers co = [m]" and "attention m" and "not_hybrid (co_kind co)"
  shows "co_cache_blocks digest r n co =
    bindE (base_cache_blocks digest r n None m (co_pool co)) (\<lambda>(m', p').
      Inr (co\<lparr>co_managers := [m'], co_pool := p'\<rparr>))"
  using assms by (auto simp: co_cache_blocks_def not_hybrid_def co_each_single attention_simps split: coord_kind.splits)

lemma attention_kept: "attention m \<Longrightarrow> same_kind m m' \<Longrightarrow> attention m'"
  by (simp add: attention_def same_kind_def)

text \<open>The steps after the check that the whole sequence fits.\<close>

definition slots_steps ::
  "(int list \<Rightarrow> bytes) \<Rightarrow> request \<Rightarrow> int \<Rightarrow> nat list list option \<Rightarrow> nat list list \<Rightarrow> int \<Rightarrow> int \<Rightarrow> int \<Rightarrow> int \<Rightarrow> bool \<Rightarrow>
   kv_cache_manager \<Rightarrow> (nat list list option \<times> kv_cache_manager) result" where
  "slots_steps digest r n_local new_comp comps tot main want n_enc delay k =
     bindE (co_remove_skipped (request_id r) tot (km_co k)) (\<lambda>co1.
     bindE (co_num_blocks (request_id r) want comps n_enc n_local main False co1) (\<lambda>n.
     if n > get_num_free_blocks (co_pool co1) then Inr (None, k\<lparr>km_co := co1\<rparr>)
     else bindE (if new_comp \<noteq> None then co_allocate_computed (request_id r) comps n_local 0 co1 else Inr co1) (\<lambda>co2.
     bindE (co_allocate_new (request_id r) want main n_enc co2) (\<lambda>(new, co3).
     if \<not> km_caching k \<or> delay then Inr (Some new, k\<lparr>km_co := co3\<rparr>)
     else bindE (co_cache_blocks digest r (min main (num_tokens r)) co3) (\<lambda>co4.
       Inr (Some new, k\<lparr>km_co := co4\<rparr>))))))"

lemma allocate_slots_steps:
  assumes "n_new \<noteq> 0"
  shows "allocate_slots digest r n_new n_comp new_comp n_look 0 delay n_enc full_fit k =
    (let comps = (case new_comp of None \<Rightarrow> empty_blocks k | Some c \<Rightarrow> c);
         tot = min (num_computed_tokens r + n_comp) (km_max_len k);
         full = min (num_tokens r) (km_max_len k) in
     bindE (if full_fit
            then bindE (co_num_blocks (request_id r) full comps n_enc tot full True (km_co k)) (\<lambda>n.
              Inr (n > get_num_free_blocks (co_pool (km_co k))))
            else Inr False) (\<lambda>too_long.
       if too_long then Inr (None, k)
       else slots_steps digest r (num_computed_tokens r + n_comp) new_comp comps tot (tot + n_new)
              (slots_wanted k r n_new n_comp n_look) n_enc delay k))"
  unfolding allocate_slots_def slots_steps_def slots_wanted_def Let_def add_0_right
  using assms by (simp only: less_irrefl simp_thms if_False cong: if_cong)

lemma slots_steps_ok:
  assumes one: "one_group k xs m" and pre: "alloc_pre k m r n_comp hits new_comp"
  shows "\<exists>k1 m1 res k' m' xs'. km_remove_skipped (request_id r) tot k = Inr k1 \<and> co_managers (km_co k1) = [m1]
      \<and> (\<forall>r'. r' \<noteq> request_id r \<longrightarrow> blocks_of m1 r' = blocks_of m r')
      \<and> list_all2 (\<lambda>b c. c = b \<or> c = null_block (co_pool (km_co k))) (blocks_of m (request_id r)) (blocks_of m1 (request_id r))
      \<and> slots_steps digest r (num_computed_tokens r + n_comp) new_comp [hits] tot main want n_enc delay k
      = Inr (res, k') \<and> one_group k' xs' m'
      \<and> slots_promise (request_id r) want hits (num_computed_tokens r + n_comp) k1 m1 res k' m'"
proof -
  let ?co = "km_co k" and ?r = "request_id r" and ?nl = "num_computed_tokens r + n_comp"
  let ?p = "co_pool ?co" let ?tail = "\<lambda>p m. enable_caching ?p \<longrightarrow> fresh_tail p m"
  have cov: "covered m ?r hits ?nl" and hits: "hits_ok ?p hits" "\<not> enable_caching ?p \<longrightarrow> hits = []"
    and new: "new_comp = None \<and> hits = []
         \<or> new_comp = Some [hits] \<and> (num_cached_block m ?r \<noteq> None \<or> blocks_of m ?r = [])"
    and hashes: "num_tokens r div m_block_size m \<le> int (length (block_hashes r))"
    using pre by (simp_all add: alloc_pre_def Let_def)
  have ms: "co_managers ?co = [m]" and nh: "not_hybrid (co_kind ?co)" and kc: "km_caching k = enable_caching ?p"
    and fx: "fixed_ok ?p m" and own: "owned (\<lambda>_. 0) ?p xs m" and tail: "?tail ?p m"
    using one by (simp_all add: one_group_def)
  have att: "attention m" "window_ok (kv_spec m)" "0 < m_block_size m" using fx by (auto simp: fixed_ok_def)
  from base_remove_skipped_ok[OF own tail, of ?r tot] obtain m1 p1 ys where
    1: "base_remove_skipped ?r tot m ?p = Inr (m1, p1)" "owned (\<lambda>_. 0) p1 (xs @ ys) m1" "?tail p1 m1"
      "same_kind m m1" "config p1 = config ?p" "num_cached_block m1 = num_cached_block m"
      "length (blocks_of m1 ?r) = length (blocks_of m ?r)" "\<forall>r'. r' \<noteq> ?r \<longrightarrow> blocks_of m1 r' = blocks_of m r'"
      "\<forall>b. blk_hash (blk p1 b) = blk_hash (blk ?p b)"
      "\<forall>i < length (blocks_of m ?r). blocks_of m1 ?r ! i = blocks_of m ?r ! i \<or> blocks_of m1 ?r ! i = null_block ?p" by blast
  define co1 where "co1 = ?co\<lparr>co_managers := [m1], co_pool := p1\<rparr>"
  have rem: "co_remove_skipped ?r tot ?co = Inr co1"
    using 1(1) by (simp add: co_remove_skipped_def co_each_single[OF ms] attention_simps[OF att(1)] co1_def)
  have co1: "co_managers co1 = [m1]" "co_pool co1 = p1" by (simp_all add: co1_def)
  let ?k1 = "k\<lparr>km_co := co1\<rparr>"
  have kept: "list_all2 (\<lambda>b c. c = b \<or> c = null_block ?p) (blocks_of m ?r) (blocks_of m1 ?r)"
    using 1(7,10) by (simp add: list_all2_conv_all_nth)
  have skip: "km_remove_skipped ?r tot k = Inr ?k1" by (simp add: km_remove_skipped_def rem)
  have goal: ?thesis if "slots_steps digest r ?nl new_comp [hits] tot main want n_enc delay k = Inr (res, k')"
    "one_group k' xs' m'" "slots_promise ?r want hits ?nl ?k1 m1 res k' m'" for res k' m' xs'
    using that skip co1(1) 1(8) kept by - (rule exI[of _ ?k1], rule exI[of _ m1], rule exI[of _ res], rule exI[of _ k'], rule exI[of _ m'], rule exI[of _ xs'], simp)
  have fx1: "fixed_ok p1 m1" by (rule fixed_ok_step[OF fx 1(4,5)])
  then have att1: "attention m1" "window_ok (kv_spec m1)" "0 < m_block_size m1" by (auto simp: fixed_ok_def)
  have bs1: "m_block_size m1 = m_block_size m" using 1(4) by (simp add: same_kind_def)
  have cov1: "covered m1 ?r hits ?nl" using cov 1(6,7) by (auto simp: covered_def bs1)
  have hits1: "hits_ok p1 hits" using hits(1) configD(1,2)[OF 1(5)] 1(9) by (simp add: hits_ok_def)
  let ?need = "blocks_needed m1 p1 ?r (cdiv want (m_block_size m1)) hits ?nl"
  have num: "co_num_blocks ?r want [hits] n_enc ?nl main False co1 = Inr ?need"
    by (simp add: co_num_blocks_single[OF co1(1) att1(1)] co1(2) base_num_blocks_eq[OF att1(2,3) cov1])
  have free: "get_num_free_blocks p1 = int (length (xs @ ys))" by (rule pool_invD(7)[OF ownedD(1)[OF 1(2)]])
  show ?thesis
  proof (cases "?need > int (length (xs @ ys))")
    case True
    then have "slots_steps digest r ?nl new_comp [hits] tot main want n_enc delay k = Inr (None, k\<lparr>km_co := co1\<rparr>)"
      by (simp add: slots_steps_def rem num co1(2) free)
    moreover have "one_group (k\<lparr>km_co := co1\<rparr>) (xs @ ys) m1"
      unfolding co1_def by (rule one_group_upd[OF one 1(4,5,2,3)])
    ultimately show ?thesis using True by (intro goal) (simp_all add: slots_promise_def Let_def co1(2) free)
  next
    case False
    let ?ev = "num_evictable p1 (drop (nat (num_skipped_tokens (kv_spec m1) ?nl div m_block_size m1)) hits)"
    have "\<exists>m2 p2 xs2. (if new_comp \<noteq> None then co_allocate_computed ?r [hits] ?nl 0 co1 else Inr co1)
          = Inr (co1\<lparr>co_managers := [m2], co_pool := p2\<rparr>) \<and> owned (\<lambda>_. 0) p2 xs2 m2 \<and> ?tail p2 m2
        \<and> same_kind m1 m2 \<and> config p2 = config p1 \<and> int (length xs2) = int (length (xs @ ys)) - ?ev
        \<and> length (blocks_of m2 ?r) = length hits + length (blocks_of m1 ?r)
        \<and> (\<forall>r'. r' \<noteq> ?r \<longrightarrow> blocks_of m2 r' = blocks_of m1 r') \<and> blocks_of m2 ?r = prior_blocks m1 p1 ?r hits ?nl"
    proof (cases "new_comp = None")
      case True
      then have "hits = []" using new by simp
      moreover have "co1\<lparr>co_managers := [m1], co_pool := p1\<rparr> = co1" by (simp add: co1_def)
      ultimately show ?thesis using True 1(2,3)
        by (intro exI[of _ m1] exI[of _ p1] exI[of _ "xs @ ys"]) (simp add: same_kind_def num_evictable_def prior_blocks_def)
    next
      case False
      have "num_cached_block m1 ?r \<noteq> None \<or> blocks_of m1 ?r = []" using False new 1(6,7) by auto
      from computed_ok[OF 1(2) _ fx1 cov1 hits1 _ this, unfolded configD(3)[OF 1(5)], OF 1(3) hits(2)]
      obtain m2 p2 xs2 where c: "allocate_new_computed_blocks ?r hits ?nl 0 m1 p1 = Inr (m2, p2)"
        "owned (\<lambda>_. 0) p2 xs2 m2" "?tail p2 m2" "same_kind m1 m2" "config p2 = config p1"
        "int (length xs2) = int (length (xs @ ys)) - ?ev"
        "length (blocks_of m2 ?r) = length hits + length (blocks_of m1 ?r)"
        "\<forall>r'. r' \<noteq> ?r \<longrightarrow> blocks_of m2 r' = blocks_of m1 r'" "blocks_of m2 ?r = prior_blocks m1 p1 ?r hits ?nl" by (elim exE conjE) (rule that)
      have "(if new_comp \<noteq> None then co_allocate_computed ?r [hits] ?nl 0 co1 else Inr co1)
          = Inr (co1\<lparr>co_managers := [m2], co_pool := p2\<rparr>)"
        using False c(1) by (simp add: co_allocate_computed_single[OF co1(1)] co1(2))
      with c(2-) show ?thesis by blast
    qed
    then obtain m2 p2 xs2 where
      2: "(if new_comp \<noteq> None then co_allocate_computed ?r [hits] ?nl 0 co1 else Inr co1)
          = Inr (co1\<lparr>co_managers := [m2], co_pool := p2\<rparr>)" "owned (\<lambda>_. 0) p2 xs2 m2" "?tail p2 m2"
        "same_kind m1 m2" "config p2 = config p1" "int (length xs2) = int (length (xs @ ys)) - ?ev"
        "length (blocks_of m2 ?r) = length hits + length (blocks_of m1 ?r)"
        "\<forall>r'. r' \<noteq> ?r \<longrightarrow> blocks_of m2 r' = blocks_of m1 r'" "blocks_of m2 ?r = prior_blocks m1 p1 ?r hits ?nl" by blast
    have bs2: "m_block_size m2 = m_block_size m" using 2(4) bs1 by (simp add: same_kind_def)
    have att2: "attention m2" by (rule attention_kept[OF att1(1) 2(4)])
    have cfg2: "config p2 = config ?p" using 1(5) 2(5) by simp
    have ec: "enable_caching p2 = enable_caching ?p" by (rule configD(3)[OF cfg2])
    have room: "cdiv want (m_block_size m2) - int (length (blocks_of m2 ?r)) \<le> int (length xs2)"
      using False 2(6,7) by (simp add: blocks_needed_def bs1 bs2)
    define n where "n = nat (cdiv want (m_block_size m2) - int (length (blocks_of m2 ?r)))"
    from base_allocate_ok[OF 2(2) _ room, folded n_def] 2(3) ec obtain m3 p3 where
      3: "base_allocate_new_blocks ?r want m2 p2 = Inr (take n xs2, m3, p3)" "owned (\<lambda>_. 0) p3 (drop n xs2) m3"
        "?tail p3 m3" "same_kind m2 m3" "config p3 = config p2" "blocks_of m3 ?r = blocks_of m2 ?r @ take n xs2"
        "\<forall>r'. r' \<noteq> ?r \<longrightarrow> blocks_of m3 r' = blocks_of m2 r'" by auto
    have fx3: "fixed_ok p3 m3"
      using fixed_ok_step[OF fixed_ok_step[OF fx1 2(4,5)] 3(4,5)] .
    have sk3: "same_kind m m3" using 1(4) 2(4) 3(4) by (blast intro: same_kind_trans)
    have cfg3: "config p3 = config ?p" using cfg2 3(5) by simp
    define k3 where "k3 = k\<lparr>km_co := ?co\<lparr>co_managers := [m3], co_pool := p3\<rparr>\<rparr>"
    have one3: "one_group k3 (drop n xs2) m3"
      unfolding k3_def by (rule one_group_upd[OF one sk3 cfg3 3(2,3)])
    have n: "int n = max (cdiv want (m_block_size m)) (int (length (blocks_of m2 ?r))) - int (length (blocks_of m2 ?r))"
      "n \<le> length xs2" using room by (auto simp: n_def bs2)
    have promise: "slots_promise ?r want hits ?nl ?k1 m1 (Some [take n xs2]) k' m'"
      if "blocks_of m' = blocks_of m3" for k' m'
    proof -
      have "length (take n xs2) = n" using n(2) by simp
      moreover have "m_block_size m2 = m_block_size m1" by (simp add: bs1 bs2)
      ultimately show ?thesis using 2(8,9) 3(6,7) that False unfolding slots_promise_def Let_def
        by (auto simp: co1(2) free n_def)
    qed
    have co3: "(km_co k)\<lparr>co_managers := [m3], co_pool := p3\<rparr> = km_co k3" by (simp add: k3_def)
    have alloc: "co_allocate_new ?r want main n_enc (co1\<lparr>co_managers := [m2], co_pool := p2\<rparr>)
        = Inr ([take n xs2], km_co k3)"
      using 3(1) by (simp add: co_allocate_new_single[OF _ att2] k3_def co1_def)
    have run: "slots_steps digest r ?nl new_comp [hits] tot main want n_enc delay k =
       (if \<not> km_caching k \<or> delay then Inr (Some [take n xs2], k3)
        else bindE (co_cache_blocks digest r (min main (num_tokens r)) (km_co k3)) (\<lambda>co4.
          Inr (Some [take n xs2], k\<lparr>km_co := co4\<rparr>)))"
      using False alloc 2(1) by (simp add: slots_steps_def rem num co1(2) free k3_def)
    show ?thesis
    proof (cases "\<not> km_caching k \<or> delay")
      case True
      with run one3 promise[OF refl] show ?thesis by (intro goal) auto
    next
      case False
      then have ecp: "enable_caching p3" using kc configD(3)[OF cfg3] by simp
      have bs3: "m_block_size m3 = m_block_size m" using sk3 by (simp add: same_kind_def)
      have "min main (num_tokens r) div m_block_size m3 \<le> num_tokens r div m_block_size m"
        unfolding bs3 using att(3) by (intro zdiv_mono1) simp_all
      with hashes have h: "min main (num_tokens r) div m_block_size m3 \<le> int (length (block_hashes r))" by linarith
      have "fresh_tail p3 m3" using 3(3) ecp configD(3)[OF cfg3] by simp
      note cok = base_cache_ok[OF 3(2) this _ _ _ h, of digest]
      from fx3 ecp have "\<not> enable_kv_cache_events p3" "m_block_size m3 = int (hash_block_size p3)"
        "0 < m_block_size m3" "0 \<le> m_group m3" "m_group m3 < 2 ^ 32" by (auto simp: fixed_ok_def)
      from cok[OF this] obtain m4 p4 where
        4: "base_cache_blocks digest r (min main (num_tokens r)) None m3 p3 = Inr (m4, p4)"
          "owned (\<lambda>_. 0) p4 (drop n xs2) m4" "fresh_tail p4 m4" "same_kind m3 m4" "config p4 = config p3"
          "blocks_of m4 = blocks_of m3" by blast
      define k4 where "k4 = k\<lparr>km_co := ?co\<lparr>co_managers := [m4], co_pool := p4\<rparr>\<rparr>"
      have "one_group k4 (drop n xs2) m4" unfolding k4_def
        by (rule one_group_upd[OF one same_kind_trans[OF sk3 4(4)]]) (use 4 cfg3 in auto)
      moreover have "co_cache_blocks digest r (min main (num_tokens r)) (km_co k3) = Inr (km_co k4)"
        using 4(1) attention_kept[OF att(1) sk3] nh
        by (simp add: co_cache_blocks_single k3_def k4_def)
      moreover have "slots_steps digest r ?nl new_comp [hits] tot main want n_enc delay k = Inr (Some [take n xs2], k4)"
        using run False calculation(2) by (simp add: k4_def)
      ultimately show ?thesis using promise[OF 4(6)] by (intro goal)
    qed
  qed
qed

end
