(* ===== verification/KV_Lifecycle.thy ===== *)
theory KV_Lifecycle
  imports KV_Alloc
begin

text \<open>
  The life of a KV cache manager with one attention group: from its construction, through
  allocations, frees, evictions, window recycling and cache resets. Every reachable state
  satisfies \<open>one_group\<close>, and with it the promises of the operations hold.
\<close>

section \<open>Construction\<close>

lemma owned_new:
  assumes "pool_inv p xs" and "\<And>b. ref_cnt (blk p b) = 0" and "req_to_blocks m = Map.empty"
  shows "owned (\<lambda>_. 0) p xs m" and "fresh_tail p m"
proof -
  have "blocks_of m r = []" for r using assms(3) by (simp add: blocks_of_def)
  then show "owned (\<lambda>_. 0) p xs m" "fresh_tail p m"
    using assms by (simp_all add: owned_def fresh_tail_def held_def)
qed

text \<open>The configurations covered: one attention group, no parallel context, no events.\<close>

definition group_spec_ok :: "cache_group \<Rightarrow> bool" where
  "group_spec_ok g \<longleftrightarrow> 0 < cg_block_size g \<and> window_ok (cg_spec g)
     \<and> (case cg_spec g of MambaSpec _ _ \<Rightarrow> False | CrossSpec \<Rightarrow> False | _ \<Rightarrow> True)"

lemma new_block_pool_fields:
  assumes "new_block_pool n caching hbs ev ints = Inr p"
  shows "enable_caching p = caching" "hash_block_size p = hbs" "enable_kv_cache_events p = ev"
    "ref_cnt (blk p b) = 0" "pool_inv p [1..<n]"
proof -
  have "0 < n" using assms by (cases n) (auto simp: new_block_pool_zero)
  then show "pool_inv p [1..<n]" using new_block_pool_inv[of n caching hbs ev ints] assms by auto
  show "enable_caching p = caching" "hash_block_size p = hbs" "enable_kv_cache_events p = ev"
    "ref_cnt (blk p b) = 0"
    using assms by (auto simp: new_block_pool_def Let_def elim!: bindE_InrE)
qed

lemma new_manager_fields:
  "req_to_blocks (new_manager s bs c i 1 1 b l) = Map.empty" "kv_spec (new_manager s bs c i 1 1 b l) = s"
  "m_block_size (new_manager s bs c i 1 1 b l) = bs" "m_caching (new_manager s bs c i 1 1 b l) = c"
  "m_group (new_manager s bs c i 1 1 b l) = i" "num_cached_block (new_manager s bs c i 1 1 b l) = Map.empty"
  by (simp_all add: new_manager_def)

lemma new_coordinator_one_group:
  assumes new: "new_coordinator [g] n max_len max_batched eagle caching False ints 1 1 hash_bs = Inr co"
    and g: "group_spec_ok g"
  shows "\<exists>m. one_group \<lparr>km_max_len = max_len, km_caching = caching, km_co = co\<rparr> [1..<n] m
    \<and> req_to_blocks m = Map.empty"
proof -
  obtain p where p: "new_block_pool n caching (nat hash_bs) False ints = Inr p"
    using new by (auto simp: new_coordinator_def elim!: bindE_InrE)
  note f = new_block_pool_fields[OF p]
  let ?m = "new_manager (cg_spec g) (cg_block_size g) caching 0 1 1 max_batched max_len"
  note m = new_manager_fields
  have co: "co_pool co = p" "co_managers co = [?m]" "not_hybrid (co_kind co)"
    "caching \<longrightarrow> hash_bs = cg_block_size g"
    using new p by (auto simp: new_coordinator_def Let_def not_hybrid_def assertE_bind split: if_splits)
  have "fixed_ok p ?m" using g co(4) f(1-3)
    by (auto simp: fixed_ok_def group_spec_ok_def attention_def m split: kv_spec.splits)
  with owned_new[OF f(5,4) m(1)] f(1) co m(1) show ?thesis
    by (intro exI[of _ ?m]) (simp add: one_group_def)
qed

section \<open>Operations that leave the blocks where they are\<close>

lemma one_group_pool:
  assumes one: "one_group k xs m" and cfg: "config p' = config (co_pool (km_co k))" and inv: "pool_inv p' xs"
    and refs: "\<And>b. ref_cnt (blk p' b) = ref_cnt (blk (co_pool (km_co k)) b)"
    and hash: "\<And>b. blk_hash (blk p' b) = None \<or> blk_hash (blk p' b) = blk_hash (blk (co_pool (km_co k)) b)"
  shows "one_group (k\<lparr>km_co := (km_co k)\<lparr>co_pool := p'\<rparr>\<rparr>) xs m"
proof -
  let ?p = "co_pool (km_co k)"
  note c = configD[OF cfg]
  have own: "owned (\<lambda>_. 0) ?p xs m" using one by (simp add: one_group_def)
  have "owned (\<lambda>_. 0) p' xs m" using own inv refs c(1,2) by (simp add: owned_def)
  moreover have "fresh_tail p' m" if "fresh_tail ?p m"
    unfolding fresh_tail_def
  proof (intro allI ballI impI)
    fix r b assume "b \<in> set (drop (n_cached m r) (blocks_of m r))" "b \<noteq> null_block p'"
    from fresh_tailD(1,2)[OF that this(1)] this(2) c(2) refs[of b] hash[of b]
    show "blk_hash (blk p' b) = None \<and> ref_cnt (blk p' b) = 1" by auto
  qed
  moreover have "fixed_ok p' m" using one fixed_ok_step[OF _ _ cfg, of m m]
    by (simp add: one_group_def same_kind_def)
  ultimately show ?thesis using one c(3) by (simp add: one_group_def)
qed

lemma evict_blocks_frame:
  assumes "evict_blocks ids p = Inr p'" and "pool_inv p xs"
  shows "config p' = config p \<and> (\<forall>b. ref_cnt (blk p' b) = ref_cnt (blk p b)
    \<and> (blk_hash (blk p' b) = None \<or> blk_hash (blk p' b) = blk_hash (blk p b)))"
  using assms unfolding evict_blocks_def
proof (induction ids arbitrary: p)
  case (Cons b ids)
  let ?q = "snd (maybe_evict_cached_block b p)"
  obtain q where q: "evict_one b p = Inr q" "foldE evict_one ids q = Inr p'"
    using Cons.prems(1) by (auto elim!: bindE_InrE)
  have "q = ?q" using q(1) by (simp add: evict_one_def assertE_bind split: if_splits)
  with q(2) have rest: "foldE evict_one ids ?q = Inr p'" by simp
  note IH = Cons.IH[OF rest maybe_evict_inv[OF Cons.prems(2)]]
  have step: "config ?q = config p" "ref_cnt (blk ?q c) = ref_cnt (blk p c)"
    "blk_hash (blk ?q c) = None \<or> blk_hash (blk ?q c) = blk_hash (blk p c)" for c
    using maybe_evict_effect(1)[OF Cons.prems(2), of b c] by (simp_all add: maybe_evict_frame)
  show ?case
  proof (intro conjI allI)
    show "config p' = config p" using IH step(1) by simp
    fix c
    show "ref_cnt (blk p' c) = ref_cnt (blk p c)" using IH step(2)[of c] by simp
    show "blk_hash (blk p' c) = None \<or> blk_hash (blk p' c) = blk_hash (blk p c)"
      using IH step(3)[of c] by metis
  qed
qed simp

lemma km_evict_blocks_ok:
  assumes "km_evict_blocks ids k = Inr k'" and one: "one_group k xs m"
  shows "one_group k' xs m"
proof -
  obtain p' where p': "evict_blocks ids (co_pool (km_co k)) = Inr p'" "k' = k\<lparr>km_co := (km_co k)\<lparr>co_pool := p'\<rparr>\<rparr>"
    using assms(1) by (auto simp: km_evict_blocks_def elim!: bindE_InrE)
  have inv: "pool_inv (co_pool (km_co k)) xs" using one by (simp add: one_group_def owned_def)
  note fr = evict_blocks_frame[OF p'(1) inv]
  show ?thesis unfolding p'(2)
    by (rule one_group_pool[OF one _ evict_blocks_inv[OF p'(1) inv]]) (use fr in auto)
qed

lemma reset_frame:
  "ref_cnt (blk (snd (pool_reset_prefix_cache p)) b) = ref_cnt (blk p b)"
  "config (snd (pool_reset_prefix_cache p)) = config p"
  by (auto simp: pool_reset_prefix_cache_def reset_hash_def config_def add_event_def)

lemma km_reset_ok:
  assumes one: "one_group k xs m"
  shows "one_group (snd (km_reset_prefix_cache k)) xs m"
proof -
  let ?p = "co_pool (km_co k)" and ?p' = "snd (pool_reset_prefix_cache (co_pool (km_co k)))"
  have inv: "pool_inv ?p xs" using one by (simp add: one_group_def owned_def)
  have "pool_inv ?p' xs \<and> (\<forall>b. blk_hash (blk ?p' b) = None \<or> blk_hash (blk ?p' b) = blk_hash (blk ?p b))"
  proof (cases "length xs = num_gpu_blocks ?p - 1")
    case True
    then show ?thesis using reset_ok(2,4)[OF inv] by blast
  next
    case False
    then show ?thesis using reset_refused[OF inv] inv by simp
  qed
  then show ?thesis
    using one_group_pool[OF one, of ?p'] reset_frame
    by (simp add: km_reset_prefix_cache_def split: prod.split) (metis prod.sel(2) fst_conv snd_conv)
qed

section \<open>Operations on the blocks of one request\<close>

lemma km_free_one:
  assumes one: "one_group k xs m"
  shows "\<exists>k' xs' m'. km_free r k = Inr k' \<and> one_group k' xs' m'
    \<and> req_to_blocks m' = (req_to_blocks m)(request_id r := None)"
proof -
  let ?p = "co_pool (km_co k)"
  have ms: "co_managers (km_co k) = [m]" and att: "attention m" and own: "owned (\<lambda>_. 0) ?p xs m"
    and tail: "enable_caching ?p \<longrightarrow> fresh_tail ?p m"
    using one by (simp_all add: one_group_def fixed_ok_def)
  from manager_free_ok[OF own tail att, of "request_id r"] obtain m' p' ys where
    f: "manager_free (request_id r) m ?p = Inr (m', p')" "owned (\<lambda>_. 0) p' (xs @ ys) m'"
      "enable_caching ?p \<longrightarrow> fresh_tail p' m'" "same_kind m m'" "config p' = config ?p"
      "req_to_blocks m' = (req_to_blocks m)(request_id r := None)" by blast
  have "km_free r k = Inr (k\<lparr>km_co := (km_co k)\<lparr>co_managers := [m'], co_pool := p'\<rparr>\<rparr>)"
    by (simp add: km_free_def co_free_def co_each_single[OF ms] f(1))
  with one_group_upd[OF one f(4,5,2,3)] f(6) show ?thesis by blast
qed

lemma km_remove_skipped_one:
  assumes one: "one_group k xs m"
  shows "\<exists>k' xs' m'. km_remove_skipped r n k = Inr k' \<and> one_group k' xs' m'"
proof -
  let ?p = "co_pool (km_co k)"
  have ms: "co_managers (km_co k) = [m]" and att: "attention m" and own: "owned (\<lambda>_. 0) ?p xs m"
    and tail: "enable_caching ?p \<longrightarrow> fresh_tail ?p m"
    using one by (simp_all add: one_group_def fixed_ok_def)
  from base_remove_skipped_ok[OF own tail, of r n] obtain m' p' ys where
    f: "base_remove_skipped r n m ?p = Inr (m', p')" "owned (\<lambda>_. 0) p' (xs @ ys) m'"
      "enable_caching ?p \<longrightarrow> fresh_tail p' m'" "same_kind m m'" "config p' = config ?p" by blast
  have "km_remove_skipped r n k = Inr (k\<lparr>km_co := (km_co k)\<lparr>co_managers := [m'], co_pool := p'\<rparr>\<rparr>)"
    by (simp add: km_remove_skipped_def co_remove_skipped_def co_each_single[OF ms] attention_simps[OF att] f(1))
  with one_group_upd[OF one f(4,5,2,3)] show ?thesis by blast
qed

lemma km_take_ids_one:
  assumes one: "one_group k xs m"
  shows "one_group (snd (km_take_new_block_ids k)) xs (m\<lparr>new_block_ids := []\<rparr>)"
    and "one_group (km_new_step k) xs m"
proof -
  have ms: "co_managers (km_co k) = [m]" and att: "attention m" using one by (simp_all add: one_group_def fixed_ok_def)
  let ?m = "m\<lparr>new_block_ids := []\<rparr>"
  have "owned (\<lambda>_. 0) p xs ?m = owned (\<lambda>_. 0) p xs m" "fresh_tail p ?m = fresh_tail p m"
    "fixed_ok p ?m = fixed_ok p m" for p
    using owned_cong[of ?m m] by (simp_all add: fresh_tail_def n_cached_def fixed_ok_def attention_def)
  with one show "one_group (snd (km_take_new_block_ids k)) xs ?m"
    by (simp add: one_group_def km_take_new_block_ids_def Let_def take_new_block_ids_def ms)
  have "new_step_starts m = m" using att by (auto simp: new_step_starts_def attention_def split: kv_spec.splits)
  with one show "one_group (km_new_step k) xs m"
    by (simp add: one_group_def km_new_step_def co_new_step_def ms)
qed

lemma allocate_slots_one:
  fixes r :: request and n_comp :: int
  assumes one: "one_group k xs m" and pre: "alloc_pre k m r n_comp hits new_comp" and new: "n_new \<noteq> 0"
  defines "tot \<equiv> num_computed_tokens r + n_comp"
  shows "\<exists>k1 m1 res k' m' xs'. km_remove_skipped (request_id r) (min tot (km_max_len k)) k = Inr k1
    \<and> co_managers (km_co k1) = [m1] \<and> (\<forall>r'. r' \<noteq> request_id r \<longrightarrow> blocks_of m1 r' = blocks_of m r')
    \<and> list_all2 (\<lambda>b c. c = b \<or> c = null_block (co_pool (km_co k))) (blocks_of m (request_id r)) (blocks_of m1 (request_id r))
    \<and> allocate_slots digest r n_new n_comp new_comp n_look 0 delay n_enc full_fit k = Inr (res, k') \<and> one_group k' xs' m'
    \<and> (if full_fit \<and> blocks_needed m (co_pool (km_co k)) (request_id r)
            (capped m (cdiv (min (num_tokens r) (km_max_len k)) (m_block_size m))) hits (min tot (km_max_len k))
          > get_num_free_blocks (co_pool (km_co k))
       then res = None \<and> k' = k
       else slots_promise (request_id r) (slots_wanted k r n_new n_comp n_look) hits tot k1 m1 res k' m')"
proof -
  have ms: "co_managers (km_co k) = [m]" and att: "attention m" "window_ok (kv_spec m)" "0 < m_block_size m"
    using one by (auto simp: one_group_def fixed_ok_def)
  have cov: "covered m (request_id r) hits tot"
    using pre by (simp add: alloc_pre_def Let_def tot_def)
  have comps: "(case new_comp of None \<Rightarrow> empty_blocks k | Some c \<Rightarrow> c) = [hits]"
    using pre by (auto simp: alloc_pre_def Let_def empty_blocks_def ms)
  let ?n = "blocks_needed m (co_pool (km_co k)) (request_id r)
            (capped m (cdiv (min (num_tokens r) (km_max_len k)) (m_block_size m))) hits (min tot (km_max_len k))"
  have "co_num_blocks (request_id r) (min (num_tokens r) (km_max_len k)) [hits] n_enc
      (min tot (km_max_len k)) (min (num_tokens r) (km_max_len k)) True (km_co k) = Inr ?n"
    using base_num_blocks_eq[OF att(2,3) cov, of "min tot (km_max_len k)" "co_pool (km_co k)" _ True]
    by (simp add: co_num_blocks_single[OF ms att(1)])
  then have run: "allocate_slots digest r n_new n_comp new_comp n_look 0 delay n_enc full_fit k =
     (if full_fit \<and> ?n > get_num_free_blocks (co_pool (km_co k)) then Inr (None, k)
      else slots_steps digest r tot new_comp [hits] (min tot (km_max_len k)) (min tot (km_max_len k) + n_new)
             (slots_wanted k r n_new n_comp n_look) n_enc delay k)"
    by (cases full_fit) (simp_all add: allocate_slots_steps[OF new] comps Let_def tot_def)
  from slots_steps_ok[OF one pre, of "min tot (km_max_len k)" digest "min tot (km_max_len k) + n_new"
      "slots_wanted k r n_new n_comp n_look" n_enc delay, folded tot_def]
  obtain k1 m1 res k' m' xs' where
    ok: "km_remove_skipped (request_id r) (min tot (km_max_len k)) k = Inr k1" "co_managers (km_co k1) = [m1]"
      "\<forall>r'. r' \<noteq> request_id r \<longrightarrow> blocks_of m1 r' = blocks_of m r'"
      "list_all2 (\<lambda>b c. c = b \<or> c = null_block (co_pool (km_co k))) (blocks_of m (request_id r)) (blocks_of m1 (request_id r))"
    and steps: "slots_steps digest r tot new_comp [hits] (min tot (km_max_len k)) (min tot (km_max_len k) + n_new)
             (slots_wanted k r n_new n_comp n_look) n_enc delay k = Inr (res, k')" "one_group k' xs' m'"
      "slots_promise (request_id r) (slots_wanted k r n_new n_comp n_look) hits tot k1 m1 res k' m'"
    by (elim exE conjE) (rule that)
  show ?thesis
  proof (cases "full_fit \<and> ?n > get_num_free_blocks (co_pool (km_co k))")
    case True
    with run ok one show ?thesis
      by - (rule exI[of _ k1], rule exI[of _ m1], rule exI[of _ None], rule exI[of _ k], rule exI[of _ m], rule exI[of _ xs], simp)
  next
    case False
    with run ok steps show ?thesis
      by - (rule exI[of _ k1], rule exI[of _ m1], rule exI[of _ res], rule exI[of _ k'], rule exI[of _ m'], rule exI[of _ xs'], auto)
  qed
qed

section \<open>Reachable states\<close>

inductive km_reach :: "kv_cache_manager \<Rightarrow> bool" where
  start: "new_coordinator [g] n max_len max_batched eagle caching False ints 1 1 hash_bs = Inr co \<Longrightarrow>
    group_spec_ok g \<Longrightarrow> km_reach \<lparr>km_max_len = max_len, km_caching = caching, km_co = co\<rparr>"
| allocate: "km_reach k \<Longrightarrow> co_managers (km_co k) = [m] \<Longrightarrow> alloc_pre k m r n_comp hits new_comp \<Longrightarrow> n_new \<noteq> 0 \<Longrightarrow>
    allocate_slots digest r n_new n_comp new_comp n_look 0 delay n_enc full_fit k = Inr (res, k') \<Longrightarrow> km_reach k'"
| free: "km_reach k \<Longrightarrow> km_free r k = Inr k' \<Longrightarrow> km_reach k'"
| recycle: "km_reach k \<Longrightarrow> km_remove_skipped rid n k = Inr k' \<Longrightarrow> km_reach k'"
| evict: "km_reach k \<Longrightarrow> km_evict_blocks ids k = Inr k' \<Longrightarrow> km_reach k'"
| reset: "km_reach k \<Longrightarrow> km_reach (snd (km_reset_prefix_cache k))"
| drain: "km_reach k \<Longrightarrow> km_reach (snd (km_take_new_block_ids k))"
| tick: "km_reach k \<Longrightarrow> km_reach (km_new_step k)"

lemma km_reach_one_group: "km_reach k \<Longrightarrow> \<exists>xs m. one_group k xs m"
proof (induction rule: km_reach.induct)
  case (start g n max_len max_batched eagle caching ints hash_bs co)
  then show ?case using new_coordinator_one_group by blast
next
  case (allocate k m r n_comp hits new_comp n_new digest n_look delay n_enc full_fit res k')
  then obtain xs m0 where one: "one_group k xs m0" by blast
  with allocate.hyps(2) have "m0 = m" by (simp add: one_group_def)
  with allocate_slots_one[OF one _ allocate.hyps(4), of r n_comp hits new_comp digest n_look delay n_enc full_fit]
    allocate.hyps(3,5) show ?case by auto
next
  case (free k r k')
  then obtain xs m where one: "one_group k xs m" by blast
  from km_free_one[OF one, of r] free.hyps(2) show ?case by auto
next
  case (recycle k rid n k')
  then obtain xs m where one: "one_group k xs m" by blast
  from km_remove_skipped_one[OF one, of rid n] recycle.hyps(2) show ?case by auto
next
  case (evict k ids k')
  then show ?case using km_evict_blocks_ok by blast
next
  case (reset k)
  then show ?case using km_reset_ok by blast
next
  case (drain k)
  then show ?case using km_take_ids_one(1) by blast
next
  case (tick k)
  then show ?case using km_take_ids_one(2) by blast
qed

lemma one_groupD:
  assumes "one_group k xs m"
  shows "co_managers (km_co k) = [m]" "owned (\<lambda>_. 0) (co_pool (km_co k)) xs m"
    "pool_inv (co_pool (km_co k)) xs"
  using assms by (simp_all add: one_group_def owned_def)

text \<open>
  C36. In every reachable state of a KV cache manager with one attention group, the reference
  count of a real block is the number of places in the requests' block lists that hold it, no
  request lists a real block twice, and the free blocks are exactly the blocks no request holds.
\<close>

theorem reference_counts_are_holders:
  assumes "km_reach k"
  shows "\<exists>m xs. co_managers (km_co k) = [m]
    \<and> get_all_free_blocks (free_block_queue (co_pool (km_co k))) = Inr (Some (map Blk xs))
    \<and> (\<forall>b \<in> real_blocks (co_pool (km_co k)).
         ref_cnt (blk (co_pool (km_co k)) b) = (\<Sum>r \<in> dom (req_to_blocks m). int (count_list (blocks_of m r) b))
         \<and> (b \<in> set xs \<longleftrightarrow> (\<forall>r. b \<notin> set (blocks_of m r))))
    \<and> (\<forall>r. distinct (filter (\<lambda>b. b \<noteq> null_block (co_pool (km_co k))) (blocks_of m r)))"
proof -
  let ?p = "co_pool (km_co k)"
  obtain xs m where one: "one_group k xs m" using km_reach_one_group[OF assms] by blast
  note own = one_groupD(2)[OF one] and inv = one_groupD(3)[OF one]
  have real: "b < num_gpu_blocks ?p \<and> b \<noteq> null_block ?p" if "b \<in> real_blocks ?p" for b
    using that pool_invD(4)[OF inv] by (auto simp: real_blocks_def)
  have ref: "ref_cnt (blk ?p b) = held m b" if "b \<in> real_blocks ?p" for b
    using ownedD(4)[OF own, of b] real[OF that] by simp
  have "b \<in> set xs \<longleftrightarrow> (\<forall>r. b \<notin> set (blocks_of m r))" if b: "b \<in> real_blocks ?p" for b
  proof
    assume "b \<in> set xs"
    then show "\<forall>r. b \<notin> set (blocks_of m r)" using free_not_held(1)[OF own] by blast
  next
    assume "\<forall>r. b \<notin> set (blocks_of m r)"
    then have "held m b = 0" by (simp add: held_def count_list_0_iff)
    with ref[OF b] real[OF b] show "b \<in> set xs" using pool_invD(3,4)[OF inv] by simp
  qed
  with ref show ?thesis
    using one_groupD(1)[OF one] get_all_rel[OF pool_invD(1)[OF inv]] ownedD(6)[OF own]
    by (intro exI[of _ m] exI[of _ xs]) (simp add: held_def)
qed

text \<open>
  C35. \<open>allocate_slots\<close> never raises on a reachable state when its caller hands over the
  hits of a new request, or none, and the request holds blocks for its computed tokens, and its
  answer is exact. First, on demand, the whole sequence is checked: if the blocks it needs, as
  many as a window can hold at most, exceed the free ones, the request is refused and the state is
  unchanged. Otherwise the blocks outside the window are given back (each block of the request
  stays or becomes the null block, other requests keep theirs), and the request is refused if and
  only if the blocks needed then exceed the free ones, with no other change. If it is not refused,
  it has its own blocks, or those of its hits that it still reads, and then the new blocks that
  are returned, enough for all slots, and the other requests keep theirs.
\<close>

theorem allocate_slots_exact:
  fixes r :: request and n_comp :: int
  assumes "km_reach k" and "co_managers (km_co k) = [m]" and "alloc_pre k m r n_comp hits new_comp" and "n_new \<noteq> 0"
  defines "tot \<equiv> num_computed_tokens r + n_comp"
  shows "\<exists>k1 m1 res k' m'. km_remove_skipped (request_id r) (min tot (km_max_len k)) k = Inr k1
    \<and> co_managers (km_co k1) = [m1] \<and> (\<forall>r'. r' \<noteq> request_id r \<longrightarrow> blocks_of m1 r' = blocks_of m r')
    \<and> list_all2 (\<lambda>b c. c = b \<or> c = null_block (co_pool (km_co k))) (blocks_of m (request_id r)) (blocks_of m1 (request_id r))
    \<and> allocate_slots digest r n_new n_comp new_comp n_look 0 delay n_enc full_fit k = Inr (res, k')
    \<and> km_reach k' \<and> co_managers (km_co k') = [m']
    \<and> (if full_fit \<and> blocks_needed m (co_pool (km_co k)) (request_id r)
            (capped m (cdiv (min (num_tokens r) (km_max_len k)) (m_block_size m))) hits (min tot (km_max_len k))
          > get_num_free_blocks (co_pool (km_co k))
       then res = None \<and> k' = k
       else slots_promise (request_id r) (slots_wanted k r n_new n_comp n_look) hits tot k1 m1 res k' m')"
proof -
  obtain xs where one: "one_group k xs m"
    using km_reach_one_group[OF assms(1)] assms(2) one_groupD(1) by force
  note made = km_reach.allocate[OF assms(1-4)]
  from allocate_slots_one[OF one assms(3,4), of digest n_look delay n_enc full_fit, folded tot_def] show ?thesis
    by (elim exE conjE) (intro exI conjI, assumption+, erule made, erule one_groupD(1), assumption)
qed

text \<open>
  C37. Nothing leaks: from every reachable state, freeing the requests that hold blocks, in any
  order, never raises, and afterwards every block is free again, so that the prefix cache can
  be reset.
\<close>

theorem freeing_all_returns_all_blocks:
  assumes "km_reach k" and "co_managers (km_co k) = [m]" and "dom (req_to_blocks m) \<subseteq> request_id ` set rs"
  shows "\<exists>k'. foldE km_free rs k = Inr k' \<and> in_use (co_pool (km_co k')) = {} \<and> fst (km_reset_prefix_cache k')"
proof -
  obtain xs where one: "one_group k xs m"
    using km_reach_one_group[OF assms(1)] assms(2) one_groupD(1) by force
  from one assms(3) show ?thesis
  proof (induction rs arbitrary: k xs m)
    case Nil
    note own = one_groupD(2)[OF Nil.prems(1)] and inv = one_groupD(3)[OF Nil.prems(1)]
    let ?p = "co_pool (km_co k)"
    have "held m b = 0" for b using Nil.prems(2) by (simp add: held_def)
    then have "in_use ?p = {}"
      using ownedD(4)[OF own] pool_invD(4)[OF inv] by (auto simp: in_use_def real_blocks_def)
    moreover from this have "length xs = num_gpu_blocks ?p - 1" using free_and_used[OF inv] by simp
    then have "fst (km_reset_prefix_cache k)"
      using reset_ok(1)[OF inv]
      by (cases "pool_reset_prefix_cache ?p") (simp add: km_reset_prefix_cache_def)
    ultimately show ?case by simp
  next
    case (Cons r rs)
    from km_free_one[OF Cons.prems(1), of r] obtain k1 xs1 m1 where
      1: "km_free r k = Inr k1" "one_group k1 xs1 m1" "req_to_blocks m1 = (req_to_blocks m)(request_id r := None)"
      by blast
    have "dom (req_to_blocks m1) \<subseteq> request_id ` set rs" using Cons.prems(2) by (auto simp: 1(3))
    from Cons.IH[OF 1(2) this] 1(1) show ?case by simp
  qed
qed

section \<open>A concrete manager\<close>

definition ex_group :: cache_group where
  "ex_group = \<lparr>cg_spec = FullSpec False, cg_block_size = 2, cg_eagle = False\<rparr>"

lemma ex_km:
  "\<exists>k m. km_reach k \<and> co_managers (km_co k) = [m] \<and> req_to_blocks m = Map.empty \<and> m_block_size m = 2
     \<and> km_max_len k = 100 \<and> num_cached_block m = Map.empty \<and> get_num_free_blocks (co_pool (km_co k)) = 3
     \<and> admission_cap m = None \<and> kv_spec m = FullSpec False"
proof -
  obtain p where p: "new_block_pool 4 True 2 False False = Inr p" "pool_inv p [1..<4]"
    using new_block_pool_inv[of 4 True 2 False False] by auto
  define co where "co = \<lparr>co_pool = p, co_managers = [new_manager (FullSpec False) 2 True 0 1 1 8 100],
    co_eagle = {}, co_kind = Unitary 2, co_hash_block_size = 2\<rparr>"
  have "{i. i < length [ex_group] \<and> cg_eagle ([ex_group] ! i)} = {}" by (auto simp: ex_group_def less_Suc_eq)
  then have "new_coordinator [ex_group] 4 100 8 False True False False 1 1 2 = Inr co"
    unfolding new_coordinator_def by (simp add: p co_def assertE_def) (simp add: ex_group_def)
  moreover have "group_spec_ok ex_group" by (simp add: group_spec_ok_def ex_group_def window_ok_def)
  ultimately have "km_reach \<lparr>km_max_len = 100, km_caching = True, km_co = co\<rparr>" by (rule km_reach.start)
  then show ?thesis
    by (intro exI[of _ "\<lparr>km_max_len = 100, km_caching = True, km_co = co\<rparr>"]
        exI[of _ "new_manager (FullSpec False) 2 True 0 1 1 8 100"] conjI)
      (simp_all add: co_def new_manager_fields pool_invD(7)[OF p(2)], simp add: new_manager_def max_admission_blocks_def)
qed

lemma ex_alloc_pre:
  assumes "req_to_blocks m = Map.empty" and "m_block_size m = 2" and "num_cached_block m = Map.empty"
  shows "alloc_pre k m ex_cached_request 0 [] None"
  using assms by (simp add: alloc_pre_def Let_def covered_def hits_ok_def blocks_of_def
      ex_cached_request_def ex_request_def text_request_def num_tokens_def)

theorem reference_counts_are_holders_witness:
  "\<exists>k m xs. km_reach k \<and> co_managers (km_co k) = [m]
    \<and> get_all_free_blocks (free_block_queue (co_pool (km_co k))) = Inr (Some (map Blk xs))"
  using ex_km reference_counts_are_holders by meson

text \<open>Five tokens in blocks of two: three of the three free blocks are taken, also with the check of
  the whole sequence, whose five tokens need three blocks.\<close>

theorem allocate_slots_exact_witness:
  "\<exists>k k' m' new. km_reach k \<and> allocate_slots (\<lambda>_. []) ex_cached_request 5 0 None 0 0 False 0 True k = Inr (Some [new], k')
    \<and> co_managers (km_co k') = [m'] \<and> blocks_of m' ''a'' = new \<and> length new = 3"
proof -
  obtain k m where k: "km_reach k" "co_managers (km_co k) = [m]" "req_to_blocks m = Map.empty" "m_block_size m = 2"
    "km_max_len k = 100" "num_cached_block m = Map.empty" "get_num_free_blocks (co_pool (km_co k)) = 3"
    "admission_cap m = None" "kv_spec m = FullSpec False" using ex_km by blast
  have e: "request_id ex_cached_request = ''a''" "num_computed_tokens ex_cached_request = 0" "num_tokens ex_cached_request = 5"
    by (simp_all add: ex_cached_request_def ex_request_def text_request_def num_tokens_def)
  have bo: "blocks_of m ''a'' = []" by (simp add: blocks_of_def k(3))
  have w: "slots_wanted k ex_cached_request 5 0 0 = 5" by (simp add: slots_wanted_def e k(5))
  have c: "cdiv 5 2 = 3" by (simp add: cdiv_def)
  have full: "\<not> blocks_needed m (co_pool (km_co k)) ''a'' (capped m (cdiv (min 5 100) 2)) [] (min 0 100)
      > get_num_free_blocks (co_pool (km_co k))"
    using bo k(7,8) c by (simp add: blocks_needed_def capped_def num_evictable_def)
  have skip: "km_remove_skipped ''a'' 0 k = Inr k"
    using k(2,9) by (simp add: km_remove_skipped_def co_remove_skipped_def co_each_single remove_skipped_blocks_def
        base_remove_skipped_def num_skipped_tokens_def)
  from allocate_slots_exact[OF k(1,2) ex_alloc_pre[OF k(3,4,6)], of 5 "\<lambda>_. []" 0 False 0 True, unfolded e w k(4,5)]
  obtain res k' m' where r: "allocate_slots (\<lambda>_. []) ex_cached_request 5 0 None 0 0 False 0 True k = Inr (res, k')"
    "co_managers (km_co k') = [m']" "slots_promise ''a'' 5 [] 0 k m res k' m'"
    using full skip k(2) by auto
  then show ?thesis using bo k(1,4,7) c
    by (auto simp: slots_promise_def blocks_needed_def prior_blocks_def num_evictable_def Let_def)
qed

theorem freeing_all_returns_all_blocks_witness:
  "\<exists>k k'. km_reach k \<and> foldE km_free [ex_cached_request] k = Inr k' \<and> in_use (co_pool (km_co k')) = {}"
proof -
  obtain k m where k: "km_reach k" "co_managers (km_co k) = [m]" "req_to_blocks m = Map.empty"
    using ex_km by blast
  have "dom (req_to_blocks m) \<subseteq> request_id ` set [ex_cached_request]" by (simp add: k(3))
  from freeing_all_returns_all_blocks[OF k(1,2) this] k(1) show ?thesis by blast
qed

end
