(* ===== verification/KV_Hybrid.thy ===== *)
theory KV_Hybrid
  imports KV_Lifecycle
begin

text \<open>
  The fixed point loop of the hybrid coordinator: every pass shortens the candidate length or
  is the last one, so the loop ends, with a length between zero and the one asked for. Then
  concrete runs of the lookups.
\<close>

section \<open>One pass\<close>

lemma hybrid_group_nonneg:
  assumes "hybrid_group p hashes hash_bs align max_len eagle_idx (idx, a) s = Inr s'"
    and "0 < ag_block_size a" and "0 \<le> hs_length s"
  shows "0 \<le> hs_length s'"
  using assms
  by (auto simp: hybrid_group_def Let_def pos_imp_zdiv_nonneg_iff elim!: bindE_InrE split: if_splits)

lemma pass_nonneg:
  assumes "foldE (hybrid_group p hashes hash_bs align max_len eagle_idx) ias s = Inr s'"
    and "\<forall>(idx, a) \<in> set ias. 0 < ag_block_size a" and "0 \<le> hs_length s"
  shows "0 \<le> hs_length s'"
  using assms
proof (induction ias arbitrary: s)
  case (Cons ia ias)
  obtain idx a where ia: "ia = (idx, a)" by fastforce
  from Cons.prems(1) obtain s1 where s1: "hybrid_group p hashes hash_bs align max_len eagle_idx (idx, a) s = Inr s1"
    "foldE (hybrid_group p hashes hash_bs align max_len eagle_idx) ias s1 = Inr s'"
    by (auto simp: ia elim!: bindE_InrE)
  have "0 \<le> hs_length s1" by (rule hybrid_group_nonneg[OF s1(1)]) (use Cons.prems(2,3) ia in auto)
  from Cons.IH[OF s1(2) _ this] Cons.prems(2) show ?case by simp
qed simp

section \<open>The loop\<close>

lemma hybrid_loop_ends:
  assumes pos: "\<forall>a \<in> set as. 0 < ag_block_size a" and "0 \<le> hs_length s"
  shows "\<exists>res. hybrid_loop p hashes hash_bs align max_len eagle_idx as simple s = Some res
    \<and> (\<forall>s'. res = Inr s' \<longrightarrow> 0 \<le> hs_length s' \<and> hs_length s' \<le> hs_length s)"
  using assms(2)
proof (induction "nat (hs_length s)" arbitrary: s rule: less_induct)
  case less
  let ?pass = "foldE (hybrid_group p hashes hash_bs align max_len eagle_idx) (enumerate 0 as) s"
  show ?case
  proof (cases ?pass)
    case (Inl e)
    then show ?thesis by (simp add: hybrid_loop.simps[of _ _ _ _ _ _ _ _ s])
  next
    case (Inr s')
    have "\<forall>(idx, a) \<in> set (enumerate 0 as). 0 < ag_block_size a"
      using pos by (auto simp: in_set_enumerate_eq)
    from pass_nonneg[OF Inr this less.prems] have nn: "0 \<le> hs_length s'" .
    show ?thesis
    proof (cases "hs_length s' \<ge> hs_length s \<or> simple")
      case True
      with Inr nn less.prems show ?thesis by (auto simp: hybrid_loop.simps[of _ _ _ _ _ _ _ _ s])
    next
      case False
      then have "nat (hs_length s') < nat (hs_length s)" using nn by simp
      from less.hyps[OF this nn] False Inr show ?thesis
        by (auto simp: hybrid_loop.simps[of _ _ _ _ _ _ _ _ s])
    qed
  qed
qed

text \<open>
  C40. The cache lookup over several attention groups ends whenever block sizes are positive:
  each pass over the groups shortens the candidate length or is the last. When it does not
  raise, it returns a block list for every group and a hit length between zero and the
  length asked for.
\<close>

theorem hybrid_hit_terminates:
  assumes "\<forall>a \<in> set as. 0 < ag_block_size a" and "0 \<le> max_len"
  shows "case hybrid_hit p hashes hash_bs align eagle_idx as n max_len of
      None \<Rightarrow> False
    | Some (Inl e) \<Rightarrow> True
    | Some (Inr (bs, len)) \<Rightarrow> length bs = n \<and> 0 \<le> len \<and> len \<le> max_len"
proof -
  let ?simple = "length as = 2 \<and> is_full (ag_spec (hd as))"
  let ?s = "\<lparr>hs_blocks = Map.empty, hs_verified = {}, hs_length = max_len\<rparr>"
  obtain res where res: "hybrid_loop p hashes hash_bs align max_len eagle_idx as ?simple ?s = Some res"
    "\<forall>s'. res = Inr s' \<longrightarrow> 0 \<le> hs_length s' \<and> hs_length s' \<le> max_len"
    using hybrid_loop_ends[OF assms(1), of ?s p hashes hash_bs align max_len eagle_idx ?simple] assms(2)
    by fastforce
  show ?thesis
    by (cases res) (use res in \<open>simp_all add: hybrid_hit_def Let_def\<close>)
qed

section \<open>Concrete runs\<close>

text \<open>A pool of four blocks in which block 1 is cached under the hash \<open>[1]\<close> of group 0.\<close>

lemma ex_cached_pool: "\<exists>p. pool_reach p \<and> holds p [1] 0 1"
proof -
  obtain p0 p1 where a0: "new_block_pool 4 True 2 True False = Inr p0" and a: "pool_reach p0" "get_new_blocks 2 p0 = Inr ([1, 2], p1)" "ex_alloc = Inr ([1, 2], p1)"
    using ex_alloc_runs by blast
  obtain p p' where c: "ex_alloc = Inr ([1, 2], p)" "pool_inv p [3]" "num_gpu_blocks p = 4" "null_block p = 0"
    "cache_full_blocks (\<lambda>_. []) ex_cached_request [1, 2] 0 1 2 0 None p = Inr p'" using ex_cache_pool by blast
  have eq: "p1 = p" using a(3) c(1) by (metis sum.inject(2) prod.inject)
  have ids: "\<forall>b \<in> set [1, 2]. b < num_gpu_blocks p" using c(3) by simp
  have reach: "pool_reach p" using pool_reach.step[OF a(1) pool_step.allocate[OF a(2)]] eq by simp
  from pool_reach.step[OF reach pool_step.cache[OF ids c(5)]] have "pool_reach p'" .
  moreover have "holds p' [1] 0 1"
  proof -
    have nn: "\<not> skipped_at None p 0 1" using pool_invD(4)[OF c(2), of 1] c(4) by (simp add: skipped_at_def masked_out_def)
    have lt: "(0 :: nat) < 1" by simp
    from cache_full_blocks_ok[OF c(5,2) ids lt] obtain hashes where
      h: "group_hashes ex_cached_request 2 p = Inr hashes" "pool_inv p' [3]"
      "\<forall>i. 0 + i < 1 \<and> 0 + i < length [1, 2 :: nat] \<longrightarrow> skipped_at None p i ([1, 2] ! (0 + i))
        \<or> (0 + i < length hashes \<and> (\<exists>key. make_block_hash_with_group_id (hashes ! (0 + i)) 0 = Inr key
             \<and> blk_hash (blk p' ([1, 2] ! (0 + i))) = Some key))" by blast
    from h(3)[rule_format, of 0] nn obtain key where
      key: "make_block_hash_with_group_id (hashes ! 0) 0 = Inr key" "blk_hash (blk p' 1) = Some key" by auto
    have "hash_block_size p = 2"
      using configD(4)[OF get_new_blocks_config[OF a(2)]] new_block_pool_fields(2)[OF a0] eq by simp
    with h(1) have "hashes ! 0 = [1]" by (auto simp: group_hashes_def ex_cached_request_def)
    with key make_key[of 0 "[1]"] have "blk_hash (blk p' 1) = Some (key_of [1] 0)" by simp
    moreover from this have "1 < num_gpu_blocks p' \<and> 1 \<noteq> null_block p'"
      using h(2) unfolding pool_inv_def by (metis not_less option.distinct(1))
    ultimately show ?thesis by (simp add: holds_def)
  qed
  ultimately show ?thesis by blast
qed

text \<open>The request's only full block is found by a manager of full attention and by one with a
  window of two tokens.\<close>

theorem full_hit_longest_witness:
  "\<exists>p rows. find_longest_cache_hit (FullSpec False) p (Plain [[1], [2]]) 3 [0] 2 False 2 = Inr rows
    \<and> length rows = 1 \<and> row_hit p [0] [1] (rows ! 0)"
proof -
  obtain p where p: "pool_reach p" "holds p [1] 0 1" using ex_cached_pool by blast
  let ?src = "Plain [[1], [2]]"
  have "\<forall>i < 1. \<not> missing p [0] (source_list ?src ! i)"
    using p(2) by (auto simp: missing_def source_list_def)
  with full_hit_longest[OF p(1), of "[0]" 2 1 3 ?src False False 2]
  obtain rows where "find_longest_cache_hit (FullSpec False) p ?src 3 [0] 2 False 2 = Inr rows"
    "length rows = 1" "row_hit p [0] [1] (rows ! 0)"
    by (auto simp: groups_ok_def source_list_def)
  then show ?thesis by blast
qed

theorem window_hit_covers_witness:
  "\<exists>p rows. find_longest_cache_hit (SlidingSpec 2) p (Plain [[1], [2]]) 3 [0] 2 False 2 = Inr rows
    \<and> length rows \<le> 1 \<and> aligned 2 2 (length rows)
    \<and> hits_between p (Plain [[1], [2]]) [0] (length rows - 1) (length rows) rows"
proof -
  obtain p where p: "pool_reach p" using ex_cached_pool by blast
  have g: "groups_ok [0]" by (simp add: groups_ok_def)
  have h: "hash_ok (Plain [[1], [2]]) (nat (3 div 2))"
    by (auto simp: hash_ok_def source_at_def nth_or_raise_def)
  have c: "(0 :: int) \<le> cdiv (2 - 1) 2" "nat (cdiv (2 - 1) 2) = 1" "nat (3 div 2 :: int) = 1"
    by (simp_all add: cdiv_def)
  have two: "(0 :: int) < 2" by simp
  from window_hit_covers[OF p g two two h c(1), of False] show ?thesis unfolding c(2,3) by blast
qed

theorem hybrid_hit_terminates_witness:
  "\<exists>p. (case hybrid_hit p [[1], [2]] 2 2 {} [\<lparr>ag_spec = FullSpec False, ag_block_size = 2, ag_ids = [0]\<rparr>] 1 3 of
      None \<Rightarrow> False
    | Some (Inl e) \<Rightarrow> True
    | Some (Inr (bs, len)) \<Rightarrow> length bs = 1 \<and> 0 \<le> len \<and> len \<le> 3)"
  by (rule exI, rule hybrid_hit_terminates) simp_all

end
