(* ===== verification/Queue_Correct.thy ===== *)
theory Queue_Correct
  imports Queue_Manager
begin

text \<open>
  Correctness of the queue manager. The specification of the two indices is the pair of
  full scans \<open>last_running\<close> and \<open>first_waiting\<close>; \<open>qm_inv\<close> says that the
  stored indices agree with them and that the id sets are disjoint. Combining establishes
  the invariant, the incremental updates keep it, and under it the split of the combined
  list is the partition into running and not running.
\<close>

section \<open>Search lemmas\<close>

lemma find_append: "find P (xs @ ys) = (case find P xs of None \<Rightarrow> find P ys | Some x \<Rightarrow> Some x)"
  by (induction xs) auto

lemma find_upt_from:
  assumes "m \<le> n" and "\<And>j. j < m \<Longrightarrow> \<not> P j"
  shows "find P [0..<n] = find P [m..<n]"
proof -
  have "[0..<n] = [0..<m] @ [m..<n]" using assms(1) upt_add_eq_append[of 0 m "n - m"] by simp
  moreover have "find P [0..<m] = None" using assms(2) by (simp add: find_upt_None)
  ultimately show ?thesis by (simp add: find_append)
qed

lemma find_rev_upt_below:
  assumes "m \<le> n" and "\<And>j. m \<le> j \<Longrightarrow> j < n \<Longrightarrow> \<not> P j"
  shows "find P (rev [0..<n]) = find P (rev [0..<m])"
proof -
  have "rev [0..<n] = rev [m..<n] @ rev [0..<m]"
    using assms(1) upt_add_eq_append[of 0 m "n - m"] by simp
  moreover have "find P (rev [m..<n]) = None" using assms(2) by (auto simp: find_None_iff)
  ultimately show ?thesis by (simp add: find_append)
qed

lemma find_upt_insert:
  assumes "l < n"
  shows "find (\<lambda>i. P i \<or> i = l) [0..<n]
    = (case find P [0..<n] of None \<Rightarrow> Some l | Some f \<Rightarrow> Some (min f l))"
  using assms
  by (auto simp: find_upt_Some find_upt_None min_def split: option.split)

lemma find_rev_upt_insert:
  assumes "f < n"
  shows "find (\<lambda>i. P i \<or> i = f) (rev [0..<n])
    = (case find P (rev [0..<n]) of None \<Rightarrow> Some f | Some l \<Rightarrow> Some (max l f))"
  using assms
  by (auto simp: find_rev_upt_Some find_rev_upt_None max_def split: option.split)

section \<open>The invariant\<close>

definition last_running :: "queue_manager \<Rightarrow> nat option" where
  "last_running qm =
     find (\<lambda>i. combined qm ! i \<in> running_req_ids qm) (rev [0..<length (combined qm)])"

definition first_waiting :: "queue_manager \<Rightarrow> nat option" where
  "first_waiting qm =
     find (\<lambda>i. combined qm ! i \<in> waiting_req_ids qm \<or> combined qm ! i \<in> preempted_req_ids qm)
       [0..<length (combined qm)]"

definition qm_inv :: "queue_manager \<Rightarrow> bool" where
  "qm_inv qm \<longleftrightarrow> distinct (combined qm)
     \<and> running_req_ids qm \<union> waiting_req_ids qm \<union> preempted_req_ids qm \<subseteq> set (combined qm)
     \<and> running_req_ids qm \<inter> (waiting_req_ids qm \<union> preempted_req_ids qm) = {}
     \<and> waiting_req_ids qm \<inter> preempted_req_ids qm = {}
     \<and> last_running_idx qm = last_running qm
     \<and> first_waiting_idx qm = first_waiting qm"

text \<open>\<open>no_gaps\<close>: every combined request is running, waiting or preempted.\<close>

definition no_gaps :: "queue_manager \<Rightarrow> bool" where
  "no_gaps qm \<longleftrightarrow>
     set (combined qm) \<subseteq> running_req_ids qm \<union> waiting_req_ids qm \<union> preempted_req_ids qm"

lemma qm_invD:
  assumes "qm_inv qm"
  shows "distinct (combined qm)"
    and "running_req_ids qm \<subseteq> set (combined qm)"
    and "waiting_req_ids qm \<subseteq> set (combined qm)"
    and "preempted_req_ids qm \<subseteq> set (combined qm)"
    and "r \<in> running_req_ids qm \<Longrightarrow> r \<notin> waiting_req_ids qm \<and> r \<notin> preempted_req_ids qm"
    and "r \<in> waiting_req_ids qm \<Longrightarrow> r \<notin> preempted_req_ids qm"
    and "last_running_idx qm = last_running qm"
    and "first_waiting_idx qm = first_waiting qm"
  using assms by (auto simp: qm_inv_def)

lemma last_running_Some:
  "last_running qm = Some l \<Longrightarrow> l < length (combined qm) \<and> combined qm ! l \<in> running_req_ids qm
     \<and> (\<forall>j. l < j \<and> j < length (combined qm) \<longrightarrow> combined qm ! j \<notin> running_req_ids qm)"
  by (simp add: last_running_def find_rev_upt_Some)

lemma first_waiting_Some:
  "first_waiting qm = Some f \<Longrightarrow> f < length (combined qm)
     \<and> (combined qm ! f \<in> waiting_req_ids qm \<or> combined qm ! f \<in> preempted_req_ids qm)
     \<and> (\<forall>j < f. combined qm ! j \<notin> waiting_req_ids qm \<and> combined qm ! j \<notin> preempted_req_ids qm)"
  by (simp add: first_waiting_def find_upt_Some)

lemma first_waiting_None:
  "first_waiting qm = None \<Longrightarrow> j < length (combined qm) \<Longrightarrow>
     combined qm ! j \<notin> waiting_req_ids qm \<and> combined qm ! j \<notin> preempted_req_ids qm"
  by (simp add: first_waiting_def find_upt_None)

lemma last_running_None:
  "last_running qm = None \<Longrightarrow> j < length (combined qm) \<Longrightarrow> combined qm ! j \<notin> running_req_ids qm"
  by (simp add: last_running_def find_rev_upt_None)

section \<open>Combining\<close>

lemma set_tag_queues: "snd ` snd ` set (tag_queues st running waiting) = set running \<union> set waiting"
  by (auto simp: tag_queues_def image_image image_Un)

lemma map_tag_queues: "map (\<lambda>x. snd (snd x)) (tag_queues st running waiting) = running @ waiting"
  by (simp add: tag_queues_def o_def)

lemma mset_combined:
  "mset (combined (combine_queues st running waiting qm)) = mset running + mset waiting"
proof -
  have "mset (combined (combine_queues st running waiting qm))
      = image_mset (\<lambda>x. snd (snd x)) (mset (tag_queues st running waiting))"
    by (simp add: combine_queues_def Let_def)
  also have "\<dots> = mset (running @ waiting)"
    by (metis map_tag_queues mset_map)
  finally show ?thesis by simp
qed

lemma set_combined:
  "set (combined (combine_queues st running waiting qm)) = set running \<union> set waiting"
  by (metis mset_combined set_mset_mset set_mset_union)

lemma combine_queues_fields:
  "running_req_ids (combine_queues st running waiting qm) = {r \<in> set running. status (st r) \<noteq> PREEMPTED}"
  "preempted_req_ids (combine_queues st running waiting qm) = {r \<in> set running. status (st r) = PREEMPTED}"
  "waiting_req_ids (combine_queues st running waiting qm) = set waiting"
  "ignored_req_ids (combine_queues st running waiting qm) = ignored_req_ids qm"
  "skipped_req_ids (combine_queues st running waiting qm) = skipped_req_ids qm"
  "policy (combine_queues st running waiting qm) = policy qm"
  by (simp_all add: combine_queues_def Let_def)

lemma combine_queues_inv:
  assumes "distinct (running @ waiting)"
  shows "qm_inv (combine_queues st running waiting qm)"
    and "no_gaps (combine_queues st running waiting qm)"
proof -
  let ?q = "combine_queues st running waiting qm"
  have "distinct (combined ?q)"
    using assms mset_combined[of st running waiting qm]
    by (metis mset_append mset_eq_imp_distinct_iff)
  moreover have "last_running_idx ?q = last_running ?q" "first_waiting_idx ?q = first_waiting ?q"
    by (simp_all add: combine_queues_def Let_def last_running_def first_waiting_def)
  ultimately show "qm_inv ?q" using assms
    by (auto simp: qm_inv_def combine_queues_fields set_combined)
  show "no_gaps ?q" by (auto simp: no_gaps_def combine_queues_fields set_combined)
qed

text \<open>The combined list is ordered by priority: the first component of the sort key.\<close>

lemma combined_sorted:
  "sorted (map (\<lambda>r. priority (st r)) (combined (combine_queues st running waiting qm)))"
proof -
  let ?xs = "sort_key (\<lambda>x. (fst (snd x), fst x)) (tag_queues st running waiting)"
  have prio: "fst (snd x) = priority (st (snd (snd x)))" if "x \<in> set ?xs" for x
    using that by (auto simp: tag_queues_def)
  have "sorted (map (\<lambda>x. (fst (snd x), fst x)) ?xs)" by simp
  then have "sorted_wrt (\<lambda>x y. fst (snd x) \<le> fst (snd y)) ?xs"
    unfolding sorted_map by (rule sorted_wrt_mono_rel[rotated]) (auto simp: less_eq_prod_def)
  then have "sorted_wrt (\<lambda>x y. priority (st (snd (snd x))) \<le> priority (st (snd (snd y)))) ?xs"
    by (rule sorted_wrt_mono_rel[rotated]) (simp add: prio)
  then show ?thesis by (simp add: combine_queues_def Let_def sorted_map sorted_wrt_map)
qed

section \<open>Preemption\<close>

lemma preemption_kept:
  assumes "update_idxs_after_preemption qm = Inr qm'"
  shows "combined qm' = combined qm" "ignored_req_ids qm' = ignored_req_ids qm"
    "skipped_req_ids qm' = skipped_req_ids qm" "policy qm' = policy qm"
    "waiting_req_ids qm' = waiting_req_ids qm"
  using assms
  by (auto simp: update_idxs_after_preemption_def Let_def assertE_def split: option.splits if_splits)

text \<open>What preemption computes, in terms of the two scans.\<close>

lemma preemption_scans:
  assumes inv: "qm_inv qm" and l: "last_running_idx qm = Some l"
  defines "r \<equiv> combined qm ! l"
  defines "qm0 \<equiv> qm\<lparr>running_req_ids := running_req_ids qm - {r},
                    preempted_req_ids := insert r (preempted_req_ids qm)\<rparr>"
  shows "last_running qm0 = find (\<lambda>i. combined qm ! i \<in> running_req_ids qm - {r}) (rev [0..<Suc l])"
    and "first_waiting qm0 = (case first_waiting qm of None \<Rightarrow> Some l | Some f \<Rightarrow> Some (min f l))"
proof -
  have lr: "l < length (combined qm)" "r \<in> running_req_ids qm"
      "\<And>j. l < j \<Longrightarrow> j < length (combined qm) \<Longrightarrow> combined qm ! j \<notin> running_req_ids qm"
    using last_running_Some[of qm l] qm_invD(7)[OF inv] l by (auto simp: r_def)
  show "last_running qm0 = find (\<lambda>i. combined qm ! i \<in> running_req_ids qm - {r}) (rev [0..<Suc l])"
    unfolding last_running_def qm0_def using lr
    by (simp del: upt_Suc, intro find_rev_upt_below) auto
  have "first_waiting qm0 = find (\<lambda>i. (combined qm ! i \<in> waiting_req_ids qm
      \<or> combined qm ! i \<in> preempted_req_ids qm) \<or> i = l) [0..<length (combined qm)]"
    unfolding first_waiting_def qm0_def using lr(1) qm_invD(1)[OF inv]
    by (simp, intro find_cong_on) (auto simp: r_def nth_eq_iff_index_eq)
  also have "\<dots> = (case first_waiting qm of None \<Rightarrow> Some l | Some f \<Rightarrow> Some (min f l))"
    unfolding first_waiting_def by (rule find_upt_insert[OF lr(1)])
  finally show "first_waiting qm0 = (case first_waiting qm of None \<Rightarrow> Some l | Some f \<Rightarrow> Some (min f l))" .
qed

lemma no_gaps_all_running:
  assumes "qm_inv qm" "no_gaps qm" "first_waiting_idx qm = None" "last_running_idx qm = Some l"
  shows "l = length (combined qm) - 1"
proof -
  let ?n = "length (combined qm)"
  have l: "l < ?n" "\<And>j. l < j \<Longrightarrow> j < ?n \<Longrightarrow> combined qm ! j \<notin> running_req_ids qm"
    using last_running_Some[of qm l] qm_invD(7)[OF assms(1)] assms(4) by auto
  have m: "?n - 1 < ?n" using l(1) by simp
  have "combined qm ! (?n - 1) \<in> running_req_ids qm"
    using assms(2) first_waiting_None[OF _ m] qm_invD(8)[OF assms(1)] assms(3) nth_mem[OF m]
    unfolding no_gaps_def by auto
  with l(2)[of "?n - 1"] l(1) show ?thesis by linarith
qed

lemma finite_preempted: "qm_inv qm \<Longrightarrow> finite (preempted_req_ids qm)"
  using qm_invD(4) finite_subset by blast

lemma preemption_unfold:
  assumes inv: "qm_inv qm" and l: "last_running_idx qm = Some l"
  defines "qm1 \<equiv> qm\<lparr>running_req_ids := running_req_ids qm - {combined qm ! l},
                    preempted_req_ids := insert (combined qm ! l) (preempted_req_ids qm),
                    last_running_idx := find (\<lambda>i. combined qm ! i \<in> running_req_ids qm - {combined qm ! l})
                       (rev [0..<Suc l])\<rparr>"
  shows "update_idxs_after_preemption qm =
     (if last_running_idx qm1 = None
      then bindE (assertE (first_waiting_idx qm = Some 0)) (\<lambda>_. Inr qm1)
      else (case first_waiting_idx qm of
            Some f \<Rightarrow> if l < f then Inr (qm1\<lparr>first_waiting_idx := Some l\<rparr>) else Inr qm1
          | None \<Rightarrow> Inr (qm1\<lparr>first_waiting_idx := Some (length (combined qm) - 1)\<rparr>)))"
proof -
  have lr: "l < length (combined qm)" "combined qm ! l \<in> running_req_ids qm"
    using last_running_Some[of qm l] qm_invD(7)[OF inv] l by auto
  have "card (insert (combined qm ! l) (preempted_req_ids qm)) > 0"
    using finite_preempted[OF inv] by (simp add: card_gt_0_iff)
  with lr l show ?thesis
    by (simp add: update_idxs_after_preemption_def qm1_def Let_def
        del: upt_Suc Diff_iff not_None_eq split: option.split)
qed

lemma preemption_inv:
  assumes inv: "qm_inv qm" and gaps: "no_gaps qm"
    and upd: "update_idxs_after_preemption qm = Inr qm'"
  shows "qm_inv qm' \<and> no_gaps qm'"
proof (cases "last_running_idx qm")
  case None
  with assms show ?thesis by (simp add: update_idxs_after_preemption_def)
next
  case (Some l)
  define r where "r = combined qm ! l"
  define qm0 where "qm0 = qm\<lparr>running_req_ids := running_req_ids qm - {r},
                    preempted_req_ids := insert r (preempted_req_ids qm)\<rparr>"
  have lr: "l < length (combined qm)" "r \<in> running_req_ids qm"
    using last_running_Some[of qm l] qm_invD(7)[OF inv] Some by (auto simp: r_def)
  note scans = preemption_scans[OF inv Some, folded r_def, folded qm0_def]
  have fw: "first_waiting_idx qm = first_waiting qm" by (rule qm_invD(8)[OF inv])
  have idx: "last_running_idx qm' = last_running qm0 \<and> first_waiting_idx qm' = first_waiting qm0
      \<and> combined qm' = combined qm \<and> running_req_ids qm' = running_req_ids qm0
      \<and> preempted_req_ids qm' = preempted_req_ids qm0 \<and> waiting_req_ids qm' = waiting_req_ids qm"
    using upd no_gaps_all_running[OF inv gaps _ Some] fw
    unfolding preemption_unfold[OF inv Some] scans
    by (auto simp: qm0_def r_def assertE_def min_def simp del: upt_Suc split: if_splits option.splits)
  have "last_running qm' = last_running qm0" "first_waiting qm' = first_waiting qm0"
    using idx by (simp_all add: last_running_def first_waiting_def qm0_def)
  with idx have "qm_inv qm'"
    using inv lr by (auto simp: qm_inv_def qm0_def)
  moreover have "no_gaps qm'" using gaps idx by (auto simp: no_gaps_def qm0_def)
  ultimately show ?thesis by simp
qed

text \<open>Which request loses its slot: the last running one.\<close>

lemma preemption_moves:
  assumes "qm_inv qm" and "last_running_idx qm = Some l"
    and "update_idxs_after_preemption qm = Inr qm'"
  shows "running_req_ids qm' = running_req_ids qm - {combined qm ! l}"
    and "preempted_req_ids qm' = insert (combined qm ! l) (preempted_req_ids qm)"
  using assms(3) unfolding preemption_unfold[OF assms(1,2)]
  by (auto simp: assertE_def split: if_splits option.splits)

section \<open>Admission\<close>

lemma scheduling_inv:
  assumes inv: "qm_inv qm" and gaps: "no_gaps qm"
    and upd: "update_idxs_after_new_scheduling qm = Inr qm'"
  shows "qm_inv qm' \<and> no_gaps qm'"
proof (cases "first_waiting_idx qm")
  case None
  with assms show ?thesis by (simp add: update_idxs_after_new_scheduling_def)
next
  case (Some f)
  define r where "r = combined qm ! f"
  define qm0 where "qm0 = qm\<lparr>running_req_ids := insert r (running_req_ids qm),
     waiting_req_ids := waiting_req_ids qm - {r}, preempted_req_ids := preempted_req_ids qm - {r}\<rparr>"
  let ?n = "length (combined qm)"
  have f: "f < ?n" "\<And>j. j < f \<Longrightarrow> combined qm ! j \<notin> waiting_req_ids qm
      \<and> combined qm ! j \<notin> preempted_req_ids qm" "r \<in> waiting_req_ids qm \<or> r \<in> preempted_req_ids qm"
    using first_waiting_Some[of qm f] qm_invD(8)[OF inv] Some by (auto simp: r_def)
  have nw: "next_waiting qm (waiting_req_ids qm - {r}) (preempted_req_ids qm - {r}) f = first_waiting qm0"
    unfolding next_waiting_def first_waiting_def qm0_def using f
    by (simp, intro find_upt_from[symmetric]) auto
  have "last_running qm0 = find (\<lambda>i. combined qm ! i \<in> running_req_ids qm \<or> i = f) (rev [0..<?n])"
    unfolding last_running_def qm0_def using f(1) qm_invD(1)[OF inv]
    by (simp, intro find_cong_on) (auto simp: r_def nth_eq_iff_index_eq)
  then have lr: "last_running qm0 = (case last_running qm of None \<Rightarrow> Some f | Some l \<Rightarrow> Some (max l f))"
    unfolding last_running_def by (simp only: find_rev_upt_insert[OF f(1)])
  have gap0: "set (combined qm) \<subseteq> running_req_ids qm0 \<union> waiting_req_ids qm0 \<union> preempted_req_ids qm0"
    using gaps by (auto simp: no_gaps_def qm0_def)
  have all: "last_running qm0 = Some (?n - 1)" if "first_waiting qm0 = None"
  proof -
    define m where "m = ?n - 1"
    have m: "m < ?n" "\<And>j. m < j \<Longrightarrow> \<not> j < ?n" using f(1) by (auto simp: m_def)
    have "combined qm ! m \<in> running_req_ids qm0"
      using subsetD[OF gap0 nth_mem[OF m(1)]] first_waiting_None[OF that, of m] m(1)
      by (auto simp: qm0_def)
    then have "last_running qm0 = Some m"
      using m by (auto simp: last_running_def find_rev_upt_Some qm0_def)
    then show ?thesis by (simp add: m_def)
  qed
  have first: "f = 0" if "last_running qm = None"
  proof (rule ccontr)
    assume "f \<noteq> 0"
    then have z: "0 < f" "0 < ?n" using f(1) by linarith+
    then have "combined qm ! 0 \<in> running_req_ids qm"
      using subsetD[OF gaps[unfolded no_gaps_def] nth_mem[OF z(2)]] f(2)[OF z(1)] by blast
    with last_running_None[OF that z(2)] show False by blast
  qed
  have fin: "card (insert r (running_req_ids qm)) > 0"
    using qm_invD(2)[OF inv] finite_subset by (fastforce simp: card_gt_0_iff)
  have old: "last_running_idx qm = last_running qm" by (rule qm_invD(7)[OF inv])
  define nx where "nx = next_waiting qm (waiting_req_ids qm - {r}) (preempted_req_ids qm - {r}) f"
  note nw = nw[folded nx_def]
  have step: "update_idxs_after_new_scheduling qm =
     (let qm1 = qm0\<lparr>first_waiting_idx := nx\<rparr> in
      if nx = None \<and> card (insert r (running_req_ids qm)) > 0
      then Inr (qm1\<lparr>last_running_idx := Some (?n - 1)\<rparr>)
      else (case last_running_idx qm of
          Some l \<Rightarrow> if f > l then Inr (qm1\<lparr>last_running_idx := Some f\<rparr>) else Inr qm1
        | None \<Rightarrow> Inr (qm1\<lparr>last_running_idx := Some 0\<rparr>)))"
    using f(1) Some
    by (simp add: update_idxs_after_new_scheduling_def Let_def nx_def qm0_def r_def split: option.split)
  have idx: "last_running_idx qm' = last_running qm0 \<and> first_waiting_idx qm' = first_waiting qm0
      \<and> combined qm' = combined qm \<and> running_req_ids qm' = running_req_ids qm0
      \<and> preempted_req_ids qm' = preempted_req_ids qm0 \<and> waiting_req_ids qm' = waiting_req_ids qm0"
    using upd fin all first lr old unfolding step nw
    by (auto simp: qm0_def max_def Let_def split: if_splits option.splits)
  have "last_running qm' = last_running qm0" "first_waiting qm' = first_waiting qm0"
    using idx by (simp_all add: last_running_def first_waiting_def qm0_def)
  with idx have "qm_inv qm'"
    using inv f by (auto simp: qm_inv_def qm0_def r_def)
  moreover have "no_gaps qm'" using gap0 idx by (auto simp: no_gaps_def qm0_def)
  ultimately show ?thesis by simp
qed

text \<open>Which request gets a slot: the first waiting one; admission never raises.\<close>

lemma scheduling_moves:
  assumes "qm_inv qm" and "first_waiting_idx qm = Some f"
  obtains qm' where "update_idxs_after_new_scheduling qm = Inr qm'"
    and "running_req_ids qm' = insert (combined qm ! f) (running_req_ids qm)"
    and "waiting_req_ids qm' = waiting_req_ids qm - {combined qm ! f}"
    and "preempted_req_ids qm' = preempted_req_ids qm - {combined qm ! f}"
    and "combined qm' = combined qm" and "policy qm' = policy qm"
    and "ignored_req_ids qm' = ignored_req_ids qm" and "skipped_req_ids qm' = skipped_req_ids qm"
proof -
  have "f < length (combined qm)"
    using first_waiting_Some[of qm f] qm_invD(8)[OF assms(1)] assms(2) by simp
  then have "\<exists>qm'. update_idxs_after_new_scheduling qm = Inr qm'
    \<and> running_req_ids qm' = insert (combined qm ! f) (running_req_ids qm)
    \<and> waiting_req_ids qm' = waiting_req_ids qm - {combined qm ! f}
    \<and> preempted_req_ids qm' = preempted_req_ids qm - {combined qm ! f}
    \<and> combined qm' = combined qm \<and> policy qm' = policy qm
    \<and> ignored_req_ids qm' = ignored_req_ids qm \<and> skipped_req_ids qm' = skipped_req_ids qm"
    using assms(2)
    by (simp add: update_idxs_after_new_scheduling_def Let_def split: option.split)
  with that show thesis by blast
qed

lemma scheduling_kept:
  assumes "update_idxs_after_new_scheduling qm = Inr qm'"
  shows "combined qm' = combined qm" "ignored_req_ids qm' = ignored_req_ids qm"
    "skipped_req_ids qm' = skipped_req_ids qm" "policy qm' = policy qm"
  using assms
  by (auto simp: update_idxs_after_new_scheduling_def Let_def split: option.splits if_splits)

lemma ignored_kept:
  assumes "update_idxs_after_ignored qm = Inr qm'" and "first_waiting_idx qm \<noteq> None"
  shows "combined qm' = combined qm" "policy qm' = policy qm" "ignored_req_ids qm' \<noteq> {}"
    "running_req_ids qm' = running_req_ids qm"
  using assms
  by (auto simp: update_idxs_after_ignored_def Let_def split: option.splits if_splits)

lemma skipped_kept:
  assumes "update_idxs_after_skipped qm = Inr qm'" and "first_waiting_idx qm \<noteq> None"
  shows "combined qm' = combined qm" "policy qm' = policy qm" "skipped_req_ids qm' \<noteq> {}"
    "ignored_req_ids qm' = ignored_req_ids qm" "running_req_ids qm' = running_req_ids qm"
  using assms
  by (auto simp: update_idxs_after_skipped_def Let_def split: option.splits if_splits)

section \<open>Reachable states of one step\<close>

text \<open>
  A scheduling step combines the two queues and then applies the four updates in any order
  the scheduler chooses.
\<close>

inductive qm_step :: "queue_manager \<Rightarrow> queue_manager \<Rightarrow> bool" where
  preempt: "update_idxs_after_preemption qm = Inr qm' \<Longrightarrow> qm_step qm qm'"
| admit: "update_idxs_after_new_scheduling qm = Inr qm' \<Longrightarrow> qm_step qm qm'"
| ignore: "update_idxs_after_ignored qm = Inr qm' \<Longrightarrow> qm_step qm qm'"
| skip: "update_idxs_after_skipped qm = Inr qm' \<Longrightarrow> qm_step qm qm'"

inductive qm_steps :: "queue_manager \<Rightarrow> queue_manager \<Rightarrow> bool" where
  stay: "qm_steps qm qm"
| more: "qm_steps qm qm' \<Longrightarrow> qm_step qm' qm'' \<Longrightarrow> qm_steps qm qm''"

inductive_cases qm_stepE: "qm_step qm qm'"

definition fast_path :: "queue_manager \<Rightarrow> bool" where
  "fast_path qm \<longleftrightarrow> ignored_req_ids qm = {} \<and> skipped_req_ids qm = {}"

definition qm_ok :: "queue_manager \<Rightarrow> bool" where
  "qm_ok qm \<longleftrightarrow> (fast_path qm \<longrightarrow> qm_inv qm \<and> no_gaps qm)"

lemma preempt_ok:
  assumes "update_idxs_after_preemption qm = Inr qm'" and "qm_ok qm"
  shows "qm_ok qm' \<and> combined qm' = combined qm \<and> policy qm' = policy qm"
  using preemption_inv[OF _ _ assms(1)] preemption_kept[OF assms(1)] assms(2)
  by (simp add: qm_ok_def fast_path_def)

lemma admit_ok:
  assumes "update_idxs_after_new_scheduling qm = Inr qm'" and "qm_ok qm"
  shows "qm_ok qm' \<and> combined qm' = combined qm \<and> policy qm' = policy qm"
  using scheduling_inv[OF _ _ assms(1)] scheduling_kept[OF assms(1)] assms(2)
  by (simp add: qm_ok_def fast_path_def)

lemma ignore_ok:
  assumes "update_idxs_after_ignored qm = Inr qm'" and "qm_ok qm"
  shows "qm_ok qm' \<and> combined qm' = combined qm \<and> policy qm' = policy qm"
proof (cases "first_waiting_idx qm = None")
  case True
  with assms show ?thesis by (simp add: update_idxs_after_ignored_def)
next
  case False
  with ignored_kept[OF assms(1)] show ?thesis by (simp add: qm_ok_def fast_path_def)
qed

lemma skip_ok:
  assumes "update_idxs_after_skipped qm = Inr qm'" and "qm_ok qm"
  shows "qm_ok qm' \<and> combined qm' = combined qm \<and> policy qm' = policy qm"
proof (cases "first_waiting_idx qm = None")
  case True
  with assms show ?thesis by (simp add: update_idxs_after_skipped_def)
next
  case False
  with skipped_kept[OF assms(1)] show ?thesis by (simp add: qm_ok_def fast_path_def)
qed

lemma qm_step_ok:
  "qm_step qm qm' \<Longrightarrow> qm_ok qm \<Longrightarrow> qm_ok qm' \<and> combined qm' = combined qm \<and> policy qm' = policy qm"
  by (erule qm_stepE) (erule preempt_ok admit_ok ignore_ok skip_ok, assumption)+

lemma qm_steps_ok:
  assumes "qm_steps qm qm'" and "qm_ok qm"
  shows "qm_ok qm' \<and> combined qm' = combined qm \<and> policy qm' = policy qm"
  using assms
  by (induction rule: qm_steps.induct) (use qm_step_ok in metis)+

section \<open>Splitting\<close>

lemma filter_take_prefix:
  assumes "\<And>j. j < length xs \<Longrightarrow> P (xs ! j) \<longleftrightarrow> j < f"
  shows "filter P xs = take f xs" and "filter (\<lambda>x. \<not> P x) xs = drop f xs"
proof -
  have t: "\<forall>x \<in> set (take f xs). P x" and d: "\<forall>x \<in> set (drop f xs). \<not> P x"
    using assms by (auto simp: in_set_conv_nth)
  have "filter P xs = filter P (take f xs @ drop f xs)" by simp
  also have "\<dots> = take f xs" using t d by (simp only: filter_append) (simp add: filter_id_conv)
  finally show "filter P xs = take f xs" .
  have "filter (\<lambda>x. \<not> P x) xs = filter (\<lambda>x. \<not> P x) (take f xs @ drop f xs)" by simp
  also have "\<dots> = drop f xs" using t d by (simp only: filter_append) (simp add: filter_id_conv)
  finally show "filter (\<lambda>x. \<not> P x) xs = drop f xs" .
qed

lemma queue_from_Nil: "queue_from lt p [] = create_request_queue p"
  by (simp add: queue_from_def)

lemma no_gaps_empty:
  assumes "qm_inv qm" "no_gaps qm" "last_running_idx qm = None" "first_waiting_idx qm = None"
  shows "combined qm = []"
proof (rule ccontr)
  assume "combined qm \<noteq> []"
  then have z: "0 < length (combined qm)" by simp
  from subsetD[OF assms(2)[unfolded no_gaps_def] nth_mem[OF z]]
    first_waiting_None[OF _ z] last_running_None[OF _ z] qm_invD(7,8)[OF assms(1)] assms(3,4)
  show False by auto
qed

text \<open>Both paths of \<open>update_queues\<close> compute the partition by \<open>running_req_ids\<close>.\<close>

lemma update_queues_partition:
  assumes ok: "qm_ok qm" and upd: "update_queues lt qm = Inr (run, wait)"
  shows "run = filter (\<lambda>r. r \<in> running_req_ids qm) (combined qm)"
    and "wait = queue_from lt (policy qm) (filter (\<lambda>r. r \<notin> running_req_ids qm) (combined qm))"
proof -
  have "run = filter (\<lambda>r. r \<in> running_req_ids qm) (combined qm)
    \<and> wait = queue_from lt (policy qm) (filter (\<lambda>r. r \<notin> running_req_ids qm) (combined qm))"
  proof (cases "fast_path qm")
    case False
    with upd show ?thesis by (simp add: update_queues_def fast_path_def)
  next
    case True
    with ok have inv: "qm_inv qm" and gaps: "no_gaps qm" by (simp_all add: qm_ok_def)
    note idx = qm_invD(7,8)[OF inv]
    define k where "k = (case first_waiting_idx qm of Some f \<Rightarrow>
        (if last_running_idx qm = None then 0 else f) | None \<Rightarrow> length (combined qm))"
    have emp: "combined qm = []" if "last_running_idx qm = None" "first_waiting_idx qm = None"
      using that no_gaps_empty[OF inv gaps] by simp
    have res: "run = take k (combined qm) \<and> wait = queue_from lt (policy qm) (drop k (combined qm))
        \<and> (\<forall>l f. last_running_idx qm = Some l \<longrightarrow> first_waiting_idx qm = Some f \<longrightarrow> l < f)"
      using upd True emp
      by (cases "last_running_idx qm"; cases "first_waiting_idx qm")
        (simp_all add: update_queues_def fast_path_def k_def queue_from_Nil assertE_bind split: if_splits)
    have gap: "\<And>l f. last_running_idx qm = Some l \<Longrightarrow> first_waiting_idx qm = Some f \<Longrightarrow> l < f"
      using res by blast
    have "combined qm ! j \<in> running_req_ids qm \<longleftrightarrow> j < k" if j: "j < length (combined qm)" for j
    proof -
      have cov: "combined qm ! j \<in> running_req_ids qm \<union> waiting_req_ids qm \<union> preempted_req_ids qm"
        using gaps nth_mem[OF j] by (auto simp: no_gaps_def)
      show ?thesis
      proof (cases "first_waiting_idx qm")
        case None
        then have "k = length (combined qm)" by (simp add: k_def)
        then show ?thesis using cov first_waiting_None[of qm j] idx(2) None j by simp
      next
        case (Some f)
        note fw = first_waiting_Some[of qm f]
        show ?thesis
        proof (cases "last_running_idx qm")
          case None
          with Some have "k = 0" by (simp add: k_def)
          then show ?thesis using last_running_None[of qm j] idx(1) None j by simp
        next
          case l: (Some l)
          have "k = f" using Some l by (simp add: k_def)
          moreover have "combined qm ! j \<in> running_req_ids qm" if "j < f"
            using fw idx(2) Some that cov by auto
          moreover have "combined qm ! j \<notin> running_req_ids qm" if "f \<le> j"
            using last_running_Some[of qm l] gap[OF l Some] idx(1) l j that by auto
          ultimately show ?thesis using not_less by blast
        qed
      qed
    qed
    from filter_take_prefix[of "combined qm" "\<lambda>r. r \<in> running_req_ids qm" k, OF this] res
    show ?thesis by simp
  qed
  then show "run = filter (\<lambda>r. r \<in> running_req_ids qm) (combined qm)"
    and "wait = queue_from lt (policy qm) (filter (\<lambda>r. r \<notin> running_req_ids qm) (combined qm))"
    by blast+
qed

lemma mset_queue_from: "mset (queue_iter lt (queue_from lt p rs)) = mset rs"
  by (simp add: queue_from_def rq.mset_add_all)

section \<open>What one step guarantees\<close>

lemma combine_ok: "distinct (running @ waiting) \<Longrightarrow> qm_ok (combine_queues st running waiting qm)"
  by (simp add: qm_ok_def combine_queues_inv)

lemma steps_combined:
  assumes "distinct (running @ waiting)" and "qm_steps (combine_queues st running waiting qm) qm'"
  shows "qm_ok qm'" and "combined qm' = combined (combine_queues st running waiting qm)"
    and "policy qm' = policy qm"
  using qm_steps_ok[OF assms(2) combine_ok[OF assms(1)]] by (simp_all add: combine_queues_fields)

lemma set_queue_from: "set (queue_iter lt (queue_from lt p rs)) = set rs"
  by (metis mset_queue_from set_mset_mset)

text \<open>
  A scheduling step neither loses nor duplicates a request: whatever sequence of
  preemptions, admissions, ignored and skipped requests the scheduler makes between
  \<open>combine_queues\<close> and \<open>update_queues\<close>, the two queues that come out hold
  together exactly the requests that went in, each in the running queue iff its id is in
  \<open>running_req_ids\<close>, and the running queue is ordered by priority.
\<close>

theorem step_partition:
  assumes "distinct (running @ waiting)"
    and "qm_steps (combine_queues st running waiting qm) qm'"
    and "update_queues lt qm' = Inr (run, wait)"
  shows "mset run + mset (queue_iter lt wait) = mset running + mset waiting
    \<and> set run \<subseteq> running_req_ids qm' \<and> set (queue_iter lt wait) \<inter> running_req_ids qm' = {}
    \<and> sorted (map (\<lambda>r. priority (st r)) run)"
proof -
  note q = steps_combined[OF assms(1,2)]
  note part = update_queues_partition[OF q(1) assms(3)]
  have "mset run + mset (queue_iter lt wait) = mset (combined qm')"
    by (simp add: part mset_queue_from)
  moreover have "sorted (map (\<lambda>r. priority (st r)) run)"
    using combined_sorted[of st running waiting qm] unfolding part q(2) sorted_map
    by (rule sorted_wrt_filter)
  ultimately show ?thesis by (auto simp: q(2) mset_combined part set_queue_from)
qed

text \<open>
  The guarantee the combined list exists for: when the fast path of
  \<open>update_queues\<close> succeeds, no request left waiting is more urgent (has a smaller
  priority number) than a running one.
\<close>

theorem running_most_urgent:
  assumes "distinct (running @ waiting)"
    and "qm_steps (combine_queues st running waiting qm) qm'" and "fast_path qm'"
    and "update_queues lt qm' = Inr (run, wait)"
    and "r \<in> set run" and "w \<in> set (queue_iter lt wait)"
  shows "priority (st r) \<le> priority (st w)"
proof -
  note q = steps_combined[OF assms(1,2)]
  have "\<exists>k. run = take k (combined qm') \<and> set (queue_iter lt wait) \<subseteq> set (drop k (combined qm'))"
    using assms(3,4) unfolding update_queues_def fast_path_def
    by (auto simp: assertE_bind set_queue_from split: option.splits if_splits
        intro: exI[of _ 0] exI[of _ "length (combined qm')"])
  then obtain k where "r \<in> set (take k (combined qm'))" "w \<in> set (drop k (combined qm'))"
    using assms(5,6) by blast
  moreover have "sorted_wrt (\<lambda>a b. priority (st a) \<le> priority (st b))
      (take k (combined qm') @ drop k (combined qm'))"
    using combined_sorted[of st running waiting qm] by (simp add: q(2) sorted_map)
  ultimately show ?thesis unfolding sorted_wrt_append by blast
qed

lemma fast_path_prefix:
  assumes inv: "qm_inv qm" and gaps: "no_gaps qm"
    and l: "last_running_idx qm = Some l" and f: "first_waiting_idx qm = Some f"
  shows "int l = int f - 1 \<longleftrightarrow>
    (\<exists>k. \<forall>j < length (combined qm). combined qm ! j \<in> running_req_ids qm \<longleftrightarrow> j < k)"
proof -
  note lr = last_running_Some[of qm l] and fw = first_waiting_Some[of qm f]
  have L: "l < length (combined qm)" "combined qm ! l \<in> running_req_ids qm"
    "\<And>j. l < j \<Longrightarrow> j < length (combined qm) \<Longrightarrow> combined qm ! j \<notin> running_req_ids qm"
    using lr l qm_invD(7)[OF inv] by auto
  have F: "f < length (combined qm)" "combined qm ! f \<notin> running_req_ids qm"
    using fw f qm_invD(8)[OF inv] qm_invD(5)[OF inv] by auto
  have B: "combined qm ! j \<in> running_req_ids qm" if "j < f" for j
    using fw f qm_invD(8)[OF inv] subsetD[OF gaps[unfolded no_gaps_def] nth_mem, of j] F(1) that by auto
  show ?thesis
  proof
    assume "int l = int f - 1"
    then have "f = Suc l" by linarith
    then show "\<exists>k. \<forall>j < length (combined qm). combined qm ! j \<in> running_req_ids qm \<longleftrightarrow> j < k"
      using L(3) B not_less_eq by (intro exI[of _ f]) blast
  next
    assume "\<exists>k. \<forall>j < length (combined qm). combined qm ! j \<in> running_req_ids qm \<longleftrightarrow> j < k"
    then obtain k where k: "\<And>j. j < length (combined qm) \<Longrightarrow>
        combined qm ! j \<in> running_req_ids qm \<longleftrightarrow> j < k" by blast
    have "l < k" "k \<le> f" using k L(1,2) F by (auto simp: not_less)
    moreover have "f \<le> Suc l"
    proof (rule ccontr)
      assume "\<not> f \<le> Suc l"
      with B[of "Suc l"] L(3)[of "Suc l"] F(1) show False by simp
    qed
    ultimately show "int l = int f - 1" by linarith
  qed
qed

text \<open>
  When the fast path raises: \<open>update_queues\<close> fails, with an assertion error,
  exactly when the running requests are not a prefix of the combined list.
\<close>

theorem update_queues_error:
  assumes "distinct (running @ waiting)"
    and "qm_steps (combine_queues st running waiting qm) qm'" and "fast_path qm'"
  shows "update_queues lt qm' = Inl e \<longleftrightarrow> e = AssertionError
    \<and> \<not> (\<exists>k. \<forall>j < length (combined qm'). combined qm' ! j \<in> running_req_ids qm' \<longleftrightarrow> j < k)"
proof -
  have inv: "qm_inv qm'" and gaps: "no_gaps qm'"
    using steps_combined(1)[OF assms(1,2)] assms(3) by (simp_all add: qm_ok_def)
  have cov: "combined qm' ! j \<in> running_req_ids qm' \<union> waiting_req_ids qm' \<union> preempted_req_ids qm'"
    if "j < length (combined qm')" for j
    using gaps nth_mem[OF that] by (auto simp: no_gaps_def)
  note idx = qm_invD(7,8)[OF inv]
  show ?thesis
  proof (cases "first_waiting_idx qm'")
    case None
    then have "\<forall>j < length (combined qm'). combined qm' ! j \<in> running_req_ids qm'
        \<longleftrightarrow> j < length (combined qm')"
      using first_waiting_None[of qm'] idx(2) cov by fastforce
    moreover have "\<exists>x. update_queues lt qm' = Inr x"
      using None assms(3) by (simp add: update_queues_def fast_path_def split: option.split)
    ultimately show ?thesis by auto
  next
    case f: (Some f)
    show ?thesis
    proof (cases "last_running_idx qm'")
      case None
      then have "\<forall>j < length (combined qm'). combined qm' ! j \<in> running_req_ids qm' \<longleftrightarrow> j < 0"
        using last_running_None[of qm'] idx(1) by simp
      moreover have "\<exists>x. update_queues lt qm' = Inr x"
        using None f assms(3) by (simp add: update_queues_def fast_path_def)
      ultimately show ?thesis by auto
    next
      case (Some l)
      then have "update_queues lt qm' = (if int l = int f - 1 then
          Inr (take f (combined qm'), queue_from lt (policy qm') (drop f (combined qm')))
          else Inl AssertionError)"
        using f assms(3) by (simp add: update_queues_def fast_path_def assertE_bind)
      then show ?thesis unfolding fast_path_prefix[OF inv gaps Some f, symmetric] by auto
    qed
  qed
qed

text \<open>
  Preemption raises in exactly one situation on the fast path: when the victim, the last
  running request, heads the combined list. Then nothing else runs, and the assertion
  \<open>first_waiting_idx == 0\<close> is checked before the index is moved to the victim.
\<close>

theorem preemption_error:
  assumes "distinct (running @ waiting)"
    and "qm_steps (combine_queues st running waiting qm) qm'" and "fast_path qm'"
  shows "update_idxs_after_preemption qm' = Inl e
    \<longleftrightarrow> e = AssertionError \<and> last_running_idx qm' = Some 0"
proof (cases "last_running_idx qm'")
  case None
  then show ?thesis by (simp add: update_idxs_after_preemption_def)
next
  case (Some l)
  have inv: "qm_inv qm'" and gaps: "no_gaps qm'"
    using steps_combined(1)[OF assms(1,2)] assms(3) by (simp_all add: qm_ok_def)
  define P where "P = (\<lambda>i. combined qm' ! i \<in> running_req_ids qm' - {combined qm' ! l})"
  have l: "l < length (combined qm')" "combined qm' ! l \<in> running_req_ids qm'"
    using last_running_Some[of qm' l] Some qm_invD(7)[OF inv] by auto
  have z: "0 < length (combined qm')" using l(1) by linarith
  have zero: "combined qm' ! 0 \<in> running_req_ids qm' \<longleftrightarrow> first_waiting_idx qm' \<noteq> Some 0"
    using z subsetD[OF gaps[unfolded no_gaps_def] nth_mem[OF z]]
      qm_invD(5)[OF inv, of "combined qm' ! 0"] qm_invD(8)[OF inv]
    by (auto simp: first_waiting_def find_upt_Some)
  have none: "find P (rev [0..<Suc l]) = None \<longleftrightarrow> (\<forall>i < Suc l. \<not> P i)"
    by (rule find_rev_upt_None)
  have "P 0" if "l \<noteq> 0" "first_waiting_idx qm' \<noteq> Some 0"
    using that zero nth_eq_iff_index_eq[OF qm_invD(1)[OF inv] z l(1)] by (simp add: P_def)
  then have "find P (rev [0..<Suc l]) = None \<and> first_waiting_idx qm' \<noteq> Some 0 \<longleftrightarrow> l = 0"
    using zero l(2) unfolding none by (auto simp: P_def)
  then show ?thesis
    unfolding preemption_unfold[OF inv Some, folded P_def] using Some
    by (auto simp: assertE_bind split: option.split)
qed

section \<open>Concrete instances\<close>

definition ex_store :: store where
  "ex_store r = text_request r (if r = ''a'' then 1 else 2) 0 []"

definition ex_qm :: "rid list \<Rightarrow> rid list \<Rightarrow> queue_manager" where
  "ex_qm running waiting = combine_queues ex_store running waiting (new_queue_manager ''m'' FCFS False)"

lemma ex_qm_a: "ex_qm [''a''] [''b''] = (new_queue_manager ''m'' FCFS False)
   \<lparr>combined := [''a'', ''b''], running_req_ids := {''a''}, waiting_req_ids := {''b''},
    preempted_req_ids := {}, last_running_idx := Some 0, first_waiting_idx := Some 1\<rparr>"
  by (simp add: ex_qm_def combine_queues_def tag_queues_def ex_store_def text_request_def Let_def
      less_eq_prod_def)

lemma ex_qm_b: "ex_qm [''b''] [''a''] = (new_queue_manager ''m'' FCFS False)
   \<lparr>combined := [''a'', ''b''], running_req_ids := {''b''}, waiting_req_ids := {''a''},
    preempted_req_ids := {}, last_running_idx := Some 1, first_waiting_idx := Some 0\<rparr>"
  by (simp add: ex_qm_def combine_queues_def tag_queues_def ex_store_def text_request_def Let_def
      less_eq_prod_def)

lemma ex_new [simp]:
  "ignored_req_ids (new_queue_manager m p t) = {}" "skipped_req_ids (new_queue_manager m p t) = {}"
  "policy (new_queue_manager m p t) = p"
  by (simp_all add: new_queue_manager_def Let_def)

lemma ex_update: "update_queues lt (ex_qm [''a''] [''b'']) = Inr ([''a''], FCFSRequestQueue [''b''])"
  by (simp add: ex_qm_a update_queues_def queue_from_def create_request_queue_def)

lemma ex_steps: "qm_steps (combine_queues ex_store running waiting (new_queue_manager ''m'' FCFS False))
    (ex_qm running waiting)"
  unfolding ex_qm_def by (rule qm_steps.stay)

theorem step_partition_witness:
  "mset [''a''] + mset (queue_iter (<) (FCFSRequestQueue [''b''])) = mset [''a''] + mset [''b'']
   \<and> set [''a''] \<subseteq> running_req_ids (ex_qm [''a''] [''b''])
   \<and> set (queue_iter (<) (FCFSRequestQueue [''b''])) \<inter> running_req_ids (ex_qm [''a''] [''b'']) = {}
   \<and> sorted (map (\<lambda>r. priority (ex_store r)) [''a''])"
  by (rule step_partition[OF _ ex_steps ex_update]) simp

lemma ex_fast: "fast_path (ex_qm running waiting)"
  by (simp add: ex_qm_def fast_path_def combine_queues_fields)

theorem running_most_urgent_witness:
  "priority (ex_store ''a'') \<le> priority (ex_store ''b'')"
  by (rule running_most_urgent[OF _ ex_steps ex_fast ex_update]) simp_all

theorem update_queues_error_witness:
  "update_queues (<) (ex_qm [''b''] [''a'']) = Inl AssertionError
   \<longleftrightarrow> AssertionError = AssertionError
     \<and> \<not> (\<exists>k. \<forall>j < length (combined (ex_qm [''b''] [''a''])).
          combined (ex_qm [''b''] [''a'']) ! j \<in> running_req_ids (ex_qm [''b''] [''a'']) \<longleftrightarrow> j < k)"
  by (rule update_queues_error[OF _ ex_steps ex_fast]) simp

lemma ex_gap: "update_queues lt (ex_qm [''b''] [''a'']) = Inl AssertionError"
  by (simp add: ex_qm_b update_queues_def)

theorem preemption_error_witness:
  "update_idxs_after_preemption (ex_qm [''a''] [''b'']) = Inl AssertionError
   \<longleftrightarrow> AssertionError = AssertionError \<and> last_running_idx (ex_qm [''a''] [''b'']) = Some 0"
  by (rule preemption_error[OF _ ex_steps ex_fast]) simp

lemma ex_preempt_fails: "update_idxs_after_preemption (ex_qm [''a''] [''b'']) = Inl AssertionError"
  by (simp add: ex_qm_a update_idxs_after_preemption_def)

end
