(* ===== verification/Encoder_Cache.thy ===== *)
theory Encoder_Cache
  imports Request_Model
begin

text \<open>
  \<open>vllm/v1/core/encoder_cache_manager.py\<close> and its client in the scheduler,
  \<open>Scheduler._try_schedule_encoder_inputs\<close>. The manager of multimodal models keeps
  encoder outputs by the hash of the input and evicts unreferenced ones, oldest first; the
  manager of encoder-decoder models only counts slots. What the scheduler relies on is the
  locale \<open>encoder_slots\<close>, which both provide.
\<close>

section \<open>The manager of multimodal models\<close>

record encoder_cache =
  cache_size :: int
  num_free_slots :: int
  num_freeable_slots :: int
  enc_cached :: "string \<rightharpoonup> rid set"
  freeable :: "(string \<times> int) list"
  freed :: "string list"

definition new_encoder_cache :: "int \<Rightarrow> encoder_cache" where
  "new_encoder_cache n = \<lparr>cache_size = n, num_free_slots = n, num_freeable_slots = n,
     enc_cached = Map.empty, freeable = [], freed = []\<rparr>"

definition enc_reset :: "encoder_cache \<Rightarrow> encoder_cache" where
  "enc_reset m = m\<lparr>enc_cached := Map.empty, freeable := [], freed := [],
     num_free_slots := cache_size m, num_freeable_slots := cache_size m\<rparr>"

definition check_and_update_cache ::
  "request \<Rightarrow> nat \<Rightarrow> encoder_cache \<Rightarrow> (bool \<times> encoder_cache) result" where
  "check_and_update_cache r input_id m =
     bindE (nth_or_raise (mm_features r) input_id) (\<lambda>f.
       let h = mm_identifier f in
       case enc_cached m h of
         None \<Rightarrow> Inr (False, m)
       | Some refs \<Rightarrow>
           bindE (if refs = {}
                  then (case map_of (freeable m) h of
                      None \<Rightarrow> Inl KeyError
                    | Some n \<Rightarrow> Inr (m\<lparr>freeable := filter (\<lambda>x. fst x \<noteq> h) (freeable m),
                                       num_freeable_slots := num_freeable_slots m - n\<rparr>))
                  else Inr m)
             (\<lambda>m1. Inr (True, m1\<lparr>enc_cached := (enc_cached m1)(h \<mapsto> insert (request_id r) refs)\<rparr>)))"

text \<open>The eviction loop walks the freeable entries from the oldest.\<close>

fun evict_until :: "int \<Rightarrow> (string \<times> int) list \<Rightarrow> encoder_cache \<Rightarrow> encoder_cache result" where
  "evict_until need [] m =
     (if need > num_free_slots m then Inl KeyError else Inr (m\<lparr>freeable := []\<rparr>))"
| "evict_until need ((h, n) # rest) m =
     (if need > num_free_slots m
      then if enc_cached m h = None then Inl KeyError
           else evict_until need rest
                  (m\<lparr>enc_cached := (enc_cached m)(h := None), freed := freed m @ [h],
                     num_free_slots := num_free_slots m + n\<rparr>)
      else Inr (m\<lparr>freeable := (h, n) # rest\<rparr>))"

definition can_allocate ::
  "request \<Rightarrow> nat \<Rightarrow> int \<Rightarrow> int \<Rightarrow> encoder_cache \<Rightarrow> (bool \<times> encoder_cache) result" where
  "can_allocate r input_id encoder_compute_budget num_embeds_to_schedule m =
     bindE (get_num_encoder_embeds r input_id) (\<lambda>n.
       if n > encoder_compute_budget then Inr (False, m)
       else let need = n + num_embeds_to_schedule in
         if need \<le> num_free_slots m then Inr (True, m)
         else if need > num_freeable_slots m then Inr (False, m)
         else bindE (evict_until need (freeable m) m) (\<lambda>m'. Inr (True, m')))"

definition enc_allocate :: "request \<Rightarrow> nat \<Rightarrow> encoder_cache \<Rightarrow> encoder_cache result" where
  "enc_allocate r input_id m =
     bindE (nth_or_raise (mm_features r) input_id) (\<lambda>f.
       let h = mm_identifier f;
           m1 = (if enc_cached m h = None then m\<lparr>enc_cached := (enc_cached m)(h \<mapsto> {})\<rparr> else m) in
       bindE (get_num_encoder_embeds r input_id) (\<lambda>n.
       bindE (assertE (num_free_slots m1 \<ge> n)) (\<lambda>_.
       bindE (assertE (num_freeable_slots m1 \<ge> n)) (\<lambda>_.
         Inr (m1\<lparr>enc_cached := (enc_cached m1)(h \<mapsto> insert (request_id r) (the (enc_cached m1 h))),
                  num_free_slots := num_free_slots m1 - n,
                  num_freeable_slots := num_freeable_slots m1 - n\<rparr>)))))"

text \<open>The set of input ids is listed in ascending order.\<close>

definition get_cached_input_ids :: "request \<Rightarrow> encoder_cache \<Rightarrow> nat list" where
  "get_cached_input_ids r m =
     filter (\<lambda>i. enc_cached m (mm_identifier (mm_features r ! i)) \<noteq> None) [0..<length (mm_features r)]"

text \<open>\<open>OrderedDict.__setitem__\<close>: a present key keeps its place.\<close>

definition od_set :: "string \<Rightarrow> int \<Rightarrow> (string \<times> int) list \<Rightarrow> (string \<times> int) list" where
  "od_set h n xs = (if h \<in> fst ` set xs then map (\<lambda>(k, v). (k, if k = h then n else v)) xs else xs @ [(h, n)])"

definition free_encoder_input :: "request \<Rightarrow> nat \<Rightarrow> encoder_cache \<Rightarrow> encoder_cache result" where
  "free_encoder_input r input_id m =
     bindE (nth_or_raise (mm_features r) input_id) (\<lambda>f.
       let h = mm_identifier f in
       case enc_cached m h of
         None \<Rightarrow> Inr m
       | Some refs \<Rightarrow>
           if refs = {} then Inr m
           else let refs' = refs - {request_id r};
                    m1 = m\<lparr>enc_cached := (enc_cached m)(h \<mapsto> refs')\<rparr> in
             if refs' = {}
             then bindE (get_num_encoder_embeds r input_id) (\<lambda>n.
                    Inr (m1\<lparr>freeable := od_set h n (freeable m1),
                            num_freeable_slots := num_freeable_slots m1 + n\<rparr>))
             else Inr m1)"

definition enc_free :: "request \<Rightarrow> encoder_cache \<Rightarrow> encoder_cache result" where
  "enc_free r m = foldE (free_encoder_input r) (get_cached_input_ids r m) m"

definition get_freed_mm_hashes :: "encoder_cache \<Rightarrow> string list \<times> encoder_cache" where
  "get_freed_mm_hashes m = (freed m, m\<lparr>freed := []\<rparr>)"

section \<open>The manager of encoder-decoder models\<close>

record encdec_cache =
  ed_cache_size :: int
  ed_free_slots :: int
  allocated :: "string list"
  to_free :: "string list"

definition new_encdec_cache :: "int \<Rightarrow> encdec_cache" where
  "new_encdec_cache n = \<lparr>ed_cache_size = n, ed_free_slots = n, allocated = [], to_free = []\<rparr>"

definition ed_reset :: "encdec_cache \<Rightarrow> encdec_cache" where
  "ed_reset m = m\<lparr>ed_free_slots := ed_cache_size m, allocated := [], to_free := []\<rparr>"

definition ed_check :: "request \<Rightarrow> nat \<Rightarrow> encdec_cache \<Rightarrow> (bool \<times> encdec_cache) result" where
  "ed_check r input_id m = Inr (False, m)"

definition ed_can_allocate ::
  "request \<Rightarrow> nat \<Rightarrow> int \<Rightarrow> int \<Rightarrow> encdec_cache \<Rightarrow> (bool \<times> encdec_cache) result" where
  "ed_can_allocate r input_id encoder_compute_budget num_embeds_to_schedule m =
     bindE (get_num_encoder_embeds r input_id) (\<lambda>n.
       Inr (\<not> n > encoder_compute_budget \<and> n + num_embeds_to_schedule \<le> ed_free_slots m, m))"

definition ed_allocate :: "request \<Rightarrow> nat \<Rightarrow> encdec_cache \<Rightarrow> encdec_cache result" where
  "ed_allocate r input_id m =
     bindE (get_num_encoder_embeds r input_id) (\<lambda>n.
     bindE (nth_or_raise (mm_features r) input_id) (\<lambda>f.
       Inr (m\<lparr>ed_free_slots := ed_free_slots m - n, allocated := allocated m @ [mm_identifier f]\<rparr>)))"

definition ed_free_encoder_input :: "request \<Rightarrow> nat \<Rightarrow> encdec_cache \<Rightarrow> encdec_cache result" where
  "ed_free_encoder_input r input_id m =
     bindE (get_num_encoder_embeds r input_id) (\<lambda>n. Inr (m\<lparr>ed_free_slots := ed_free_slots m + n\<rparr>))"

definition ed_cached_input_ids :: "request \<Rightarrow> encdec_cache \<Rightarrow> nat list" where
  "ed_cached_input_ids r m = [0..<length (mm_features r)]"

definition ed_free :: "request \<Rightarrow> encdec_cache \<Rightarrow> encdec_cache result" where
  "ed_free r m = foldE (ed_free_encoder_input r) [0..<length (mm_features r)] m"

definition ed_get_freed :: "encdec_cache \<Rightarrow> string list \<times> encdec_cache" where
  "ed_get_freed m = (to_free m, m\<lparr>to_free := allocated m, allocated := []\<rparr>)"

section \<open>Budgets\<close>

text \<open>\<open>mm_max_toks_per_item\<close> as the list of its values.\<close>

definition compute_mm_encoder_budget ::
  "bool \<Rightarrow> int \<Rightarrow> int \<Rightarrow> int \<Rightarrow> int list \<Rightarrow> (int \<times> int) result" where
  "compute_mm_encoder_budget disable_chunked_mm_input max_num_batched_tokens
       max_num_encoder_input_tokens encoder_cache_size mm_max_toks =
     (if mm_max_toks = [] then Inr (0, 0)
      else let max_item = Max (set mm_max_toks) in
        if disable_chunked_mm_input \<and> max_item > max_num_batched_tokens then Inl ValueError
        else Inr (max max_num_encoder_input_tokens max_item, max encoder_cache_size max_item))"

section \<open>The invariant of the multimodal manager\<close>

text \<open>\<open>sz\<close> gives the number of embeddings of an input by its hash: the same hash means
  the same item.\<close>

definition sized :: "(string \<Rightarrow> int) \<Rightarrow> request \<Rightarrow> bool" where
  "sized sz r \<longleftrightarrow> (\<forall>f \<in> set (mm_features r).
     get_num_embeds (mm_position f) = sz (mm_identifier f) \<and> 0 \<le> sz (mm_identifier f))"

definition used :: "(string \<Rightarrow> int) \<Rightarrow> encoder_cache \<Rightarrow> int" where
  "used sz m = (\<Sum>h \<in> dom (enc_cached m). sz h)"

definition reclaimable :: "(string \<Rightarrow> int) \<Rightarrow> encoder_cache \<Rightarrow> int" where
  "reclaimable sz m = (\<Sum>h \<in> fst ` set (freeable m). sz h)"

definition enc_inv :: "(string \<Rightarrow> int) \<Rightarrow> encoder_cache \<Rightarrow> bool" where
  "enc_inv sz m \<longleftrightarrow> finite (dom (enc_cached m))
     \<and> num_free_slots m = cache_size m - used sz m \<and> 0 \<le> num_free_slots m
     \<and> num_freeable_slots m = num_free_slots m + reclaimable sz m
     \<and> distinct (map fst (freeable m)) \<and> (\<forall>(h, n) \<in> set (freeable m). n = sz h \<and> 0 \<le> n)
     \<and> (\<forall>h. h \<in> fst ` set (freeable m) \<longleftrightarrow> enc_cached m h = Some {})"

lemma enc_invD:
  assumes "enc_inv sz m"
  shows "finite (dom (enc_cached m))" "num_free_slots m = cache_size m - used sz m" "0 \<le> num_free_slots m"
    "num_freeable_slots m = num_free_slots m + reclaimable sz m" "distinct (map fst (freeable m))"
    "(h, n) \<in> set (freeable m) \<Longrightarrow> n = sz h" "(h, n) \<in> set (freeable m) \<Longrightarrow> 0 \<le> n"
    "h \<in> fst ` set (freeable m) \<longleftrightarrow> enc_cached m h = Some {}"
  using assms by (auto simp: enc_inv_def)

lemma sizedD:
  assumes "sized sz r" and "i < length (mm_features r)"
  shows "get_num_encoder_embeds r i = Inr (sz (mm_identifier (mm_features r ! i)))"
    and "0 \<le> sz (mm_identifier (mm_features r ! i))"
  using assms by (auto simp: sized_def get_num_encoder_embeds_def)

lemma new_encoder_cache_inv: "0 \<le> n \<Longrightarrow> enc_inv sz (new_encoder_cache n)"
  by (simp add: enc_inv_def new_encoder_cache_def used_def reclaimable_def)

lemma enc_reset_inv: "0 \<le> cache_size m \<Longrightarrow> enc_inv sz (enc_reset m)"
  by (simp add: enc_inv_def enc_reset_def used_def reclaimable_def)

text \<open>Changing the references of a cached entry from a set that is not empty to another.\<close>

lemma enc_inv_refs:
  assumes "enc_inv sz m" and "enc_cached m h = Some S" and "S \<noteq> {}" and "T \<noteq> {}"
  shows "enc_inv sz (m\<lparr>enc_cached := (enc_cached m)(h \<mapsto> T)\<rparr>)"
proof -
  have "dom ((enc_cached m)(h \<mapsto> T)) = dom (enc_cached m)" using assms(2) by auto
  with assms show ?thesis by (simp add: enc_inv_def used_def reclaimable_def)
qed

text \<open>An unreferenced entry gets its first reference back.\<close>

lemma enc_inv_revive:
  assumes inv: "enc_inv sz m" and h: "enc_cached m h = Some {}" and T: "T \<noteq> {}"
  shows "map_of (freeable m) h = Some (sz h)"
    and "enc_inv sz (m\<lparr>freeable := filter (\<lambda>x. fst x \<noteq> h) (freeable m),
           num_freeable_slots := num_freeable_slots m - sz h, enc_cached := (enc_cached m)(h \<mapsto> T)\<rparr>)"
proof -
  let ?F = "fst ` set (freeable m)"
  have hF: "h \<in> ?F" using enc_invD(8)[OF inv, of h] h by simp
  then obtain n where hn: "(h, n) \<in> set (freeable m)" by auto
  with enc_invD(6)[OF inv] have n: "n = sz h" by blast
  show "map_of (freeable m) h = Some (sz h)"
    using hn n enc_invD(5)[OF inv] by (simp add: map_of_eq_Some_iff)
  have F: "fst ` {x \<in> set (freeable m). fst x \<noteq> h} = ?F - {h}" by auto
  have "sum sz ?F = sz h + sum sz (?F - {h})" using hF by (simp add: sum.remove)
  moreover have "dom ((enc_cached m)(h \<mapsto> T)) = dom (enc_cached m)" using h by auto
  moreover have "distinct (map fst (filter (\<lambda>x. fst x \<noteq> h) (freeable m)))"
    using enc_invD(5)[OF inv] by (rule distinct_map_filter)
  ultimately show "enc_inv sz (m\<lparr>freeable := filter (\<lambda>x. fst x \<noteq> h) (freeable m),
           num_freeable_slots := num_freeable_slots m - sz h, enc_cached := (enc_cached m)(h \<mapsto> T)\<rparr>)"
    using inv T by (auto simp: enc_inv_def used_def reclaimable_def F)
qed

lemma check_and_update_cache_ok:
  assumes inv: "enc_inv sz m" and i: "i < length (mm_features r)"
  defines "h \<equiv> mm_identifier (mm_features r ! i)"
  shows "\<exists>m'. check_and_update_cache r i m = Inr (enc_cached m h \<noteq> None, m') \<and> enc_inv sz m'
    \<and> num_free_slots m' = num_free_slots m \<and> cache_size m' = cache_size m \<and> freed m' = freed m
    \<and> enc_cached m' = (if enc_cached m h = None then enc_cached m
        else (enc_cached m)(h \<mapsto> insert (request_id r) (the (enc_cached m h))))"
proof (cases "enc_cached m h")
  case None
  then show ?thesis using inv i by (simp add: check_and_update_cache_def h_def)
next
  case (Some refs)
  show ?thesis
  proof (cases "refs = {}")
    case True
    note rev = enc_inv_revive[OF inv Some[unfolded True], of "{request_id r}"]
    show ?thesis using Some True rev i by (simp add: check_and_update_cache_def h_def Let_def)
  next
    case False
    have "insert (request_id r) refs \<noteq> {}" by simp
    from enc_inv_refs[OF inv Some False this] show ?thesis
      using Some False i by (simp add: check_and_update_cache_def h_def)
  qed
qed

section \<open>Eviction\<close>

lemma evict_step_inv:
  assumes inv: "enc_inv sz (m\<lparr>freeable := (h, n) # rest\<rparr>)"
  shows "enc_inv sz (m\<lparr>enc_cached := (enc_cached m)(h := None), freed := freed m @ [h],
      num_free_slots := num_free_slots m + n, freeable := rest\<rparr>)"
    and "n = sz h" and "enc_cached m h = Some {}"
proof -
  have props: "finite (dom (enc_cached m))" "enc_cached m h = Some {}" "n = sz h" "0 \<le> n"
    "distinct (map fst ((h, n) # rest))"
    using inv by (auto simp: enc_inv_def)
  then have d: "dom ((enc_cached m)(h := None)) = dom (enc_cached m) - {h}" and mem: "h \<in> dom (enc_cached m)"
    by auto
  have "sum sz (dom (enc_cached m)) = sz h + sum sz (dom (enc_cached m) - {h})"
    using props(1) mem by (rule sum.remove)
  moreover have "h \<notin> fst ` set rest" using props(5) by auto
  ultimately show "enc_inv sz (m\<lparr>enc_cached := (enc_cached m)(h := None), freed := freed m @ [h],
      num_free_slots := num_free_slots m + n, freeable := rest\<rparr>)"
    using inv props d by (auto simp: enc_inv_def used_def reclaimable_def)
  show "n = sz h" "enc_cached m h = Some {}" using props by blast+
qed

lemma evict_until_ok:
  "enc_inv sz (m\<lparr>freeable := fl\<rparr>) \<Longrightarrow> need \<le> num_free_slots m + sum_list (map snd fl) \<Longrightarrow>
   \<exists>m' k. evict_until need fl m = Inr m' \<and> enc_inv sz m' \<and> need \<le> num_free_slots m'
     \<and> num_free_slots m \<le> num_free_slots m' \<and> cache_size m' = cache_size m
     \<and> k \<le> length fl \<and> freeable m' = drop k fl \<and> freed m' = freed m @ map fst (take k fl)
     \<and> enc_cached m' = enc_cached m |` (- set (map fst (take k fl)))
     \<and> num_free_slots m' = num_free_slots m + sum_list (map snd (take k fl))
     \<and> (0 < k \<longrightarrow> num_free_slots m' - snd (fl ! (k - 1)) < need)"
proof (induction need fl m rule: evict_until.induct)
  case (1 need m)
  then show ?case by (intro exI[of _ "m\<lparr>freeable := []\<rparr>"] exI[of _ 0]) auto
next
  case (2 need h n rest m)
  show ?case
  proof (cases "need > num_free_slots m")
    case False
    with 2(2) show ?thesis
      by (intro exI[of _ "m\<lparr>freeable := (h, n) # rest\<rparr>"] exI[of _ 0]) auto
  next
    case True
    note st = evict_step_inv[OF 2(2)]
    let ?m = "m\<lparr>enc_cached := (enc_cached m)(h := None), freed := freed m @ [h],
      num_free_slots := num_free_slots m + n\<rparr>"
    have n0: "0 \<le> n" using 2(2) by (simp add: enc_inv_def)
    have "need \<le> num_free_slots ?m + sum_list (map snd rest)" using 2(3) by simp
    moreover have "enc_cached m h \<noteq> None" using st(3) by simp
    moreover have "enc_inv sz (?m\<lparr>freeable := rest\<rparr>)" using st(1) by simp
    ultimately obtain m' k where IH: "evict_until need rest ?m = Inr m'" "enc_inv sz m'"
      "need \<le> num_free_slots m'" "num_free_slots ?m \<le> num_free_slots m'" "cache_size m' = cache_size ?m"
      "k \<le> length rest" "freeable m' = drop k rest" "freed m' = freed ?m @ map fst (take k rest)"
      "enc_cached m' = enc_cached ?m |` (- set (map fst (take k rest)))"
      "num_free_slots m' = num_free_slots ?m + sum_list (map snd (take k rest))"
      "0 < k \<longrightarrow> num_free_slots m' - snd (rest ! (k - 1)) < need"
      using 2(1)[OF True] by blast
    have cached: "enc_cached m' = enc_cached m |` (- set (map fst (take (Suc k) ((h, n) # rest))))"
      unfolding IH(9) by (rule ext) (auto simp: restrict_map_def)
    have "num_free_slots m' - snd (((h, n) # rest) ! (Suc k - 1)) < need"
      using IH(10,11) True by (cases k) auto
    then show ?thesis
      using IH True st(3) n0 cached by (intro exI[of _ m'] exI[of _ "Suc k"]) auto
  qed
qed

lemma reclaimable_list: "enc_inv sz m \<Longrightarrow> sum_list (map snd (freeable m)) = reclaimable sz m"
proof -
  assume inv: "enc_inv sz m"
  have "map snd (freeable m) = map sz (map fst (freeable m))"
    using enc_invD(6)[OF inv] by auto
  then show ?thesis
    using enc_invD(5)[OF inv] by (simp add: reclaimable_def sum_list_distinct_conv_sum_set del: map_map)
qed

lemma reclaimable_nonneg: "enc_inv sz m \<Longrightarrow> 0 \<le> reclaimable sz m"
  using reclaimable_list[of sz m] enc_invD(7)[of sz m]
  by (metis (no_types, lifting) imageE list.set_map prod.collapse sum_list_nonneg)

lemma can_allocate_ok:
  assumes inv: "enc_inv sz m" and r: "sized sz r" and i: "i < length (mm_features r)"
  defines "n \<equiv> sz (mm_identifier (mm_features r ! i))"
  shows "\<exists>m' k. can_allocate r i bud s m = Inr (n \<le> bud \<and> n + s \<le> num_freeable_slots m, m')
    \<and> enc_inv sz m' \<and> num_free_slots m \<le> num_free_slots m' \<and> cache_size m' = cache_size m
    \<and> freeable m' = drop k (freeable m) \<and> freed m' = freed m @ map fst (take k (freeable m))
    \<and> enc_cached m' = enc_cached m |` (- set (map fst (take k (freeable m))))
    \<and> (n \<le> bud \<and> n + s \<le> num_freeable_slots m \<longrightarrow> n + s \<le> num_free_slots m')
    \<and> (0 < k \<longrightarrow> num_free_slots m' - snd (freeable m ! (k - 1)) < n + s)"
proof -
  have le: "num_free_slots m \<le> num_freeable_slots m"
    using enc_invD(4)[OF inv] reclaimable_nonneg[OF inv] by simp
  have n: "get_num_encoder_embeds r i = Inr n" unfolding n_def by (rule sizedD(1)[OF r i])
  show ?thesis
  proof (cases "n \<le> bud \<and> num_free_slots m < n + s \<and> n + s \<le> num_freeable_slots m")
    case False
    have "can_allocate r i bud s m = Inr (n \<le> bud \<and> n + s \<le> num_freeable_slots m, m)"
      using False le n by (auto simp: can_allocate_def Let_def)
    then show ?thesis using inv False le by (intro exI[of _ m] exI[of _ 0]) auto
  next
    case True
    have "enc_inv sz (m\<lparr>freeable := freeable m\<rparr>)" using inv by simp
    moreover have "n + s \<le> num_free_slots m + sum_list (map snd (freeable m))"
      using True enc_invD(4)[OF inv] reclaimable_list[OF inv] by simp
    ultimately obtain m' k where ev: "evict_until (n + s) (freeable m) m = Inr m'" "enc_inv sz m'"
      "n + s \<le> num_free_slots m'" "num_free_slots m \<le> num_free_slots m'" "cache_size m' = cache_size m"
      "freeable m' = drop k (freeable m)" "freed m' = freed m @ map fst (take k (freeable m))"
      "enc_cached m' = enc_cached m |` (- set (map fst (take k (freeable m))))"
      "0 < k \<longrightarrow> num_free_slots m' - snd (freeable m ! (k - 1)) < n + s"
      using evict_until_ok[of sz "freeable m" m "n + s"] by blast
    have "can_allocate r i bud s m = Inr (True, m')"
      using True n ev(1) by (simp add: can_allocate_def)
    with True ev show ?thesis by (intro exI[of _ m'] exI[of _ k]) simp
  qed
qed

lemma enc_allocate_ok:
  assumes inv: "enc_inv sz m" and r: "sized sz r" and i: "i < length (mm_features r)"
  defines "h \<equiv> mm_identifier (mm_features r ! i)"
  assumes absent: "enc_cached m h = None" and room: "sz h \<le> num_free_slots m"
  shows "\<exists>m'. enc_allocate r i m = Inr m' \<and> enc_inv sz m' \<and> num_free_slots m' = num_free_slots m - sz h
    \<and> cache_size m' = cache_size m \<and> enc_cached m' = (enc_cached m)(h \<mapsto> {request_id r})
    \<and> freeable m' = freeable m"
proof -
  have n: "get_num_encoder_embeds r i = Inr (sz h)" unfolding h_def by (rule sizedD(1)[OF r i])
  have room2: "sz h \<le> num_freeable_slots m"
    using room enc_invD(4)[OF inv] reclaimable_nonneg[OF inv] by simp
  have dom: "sum sz (dom ((enc_cached m)(h \<mapsto> S))) = sz h + sum sz (dom (enc_cached m))" for S
    using absent enc_invD(1)[OF inv] by (simp add: domIff)
  have hF: "h \<notin> fst ` set (freeable m)" using enc_invD(8)[OF inv, of h] absent by simp
  define m' where "m' = m\<lparr>enc_cached := (enc_cached m)(h \<mapsto> {request_id r}),
    num_free_slots := num_free_slots m - sz h, num_freeable_slots := num_freeable_slots m - sz h\<rparr>"
  have "enc_allocate r i m = Inr m'"
    using i absent n room room2 by (simp add: enc_allocate_def h_def[symmetric] m'_def Let_def)
  moreover have "enc_inv sz m'"
    using inv room hF dom by (auto simp: enc_inv_def m'_def used_def reclaimable_def)
  ultimately show ?thesis by (auto simp: m'_def)
qed

lemma free_encoder_input_ok:
  assumes inv: "enc_inv sz m" and r: "sized sz r" and i: "i < length (mm_features r)"
  defines "h \<equiv> mm_identifier (mm_features r ! i)"
  shows "\<exists>m'. free_encoder_input r i m = Inr m' \<and> enc_inv sz m' \<and> num_free_slots m' = num_free_slots m
    \<and> cache_size m' = cache_size m \<and> freed m' = freed m
    \<and> enc_cached m' = (case enc_cached m h of None \<Rightarrow> enc_cached m
        | Some refs \<Rightarrow> (enc_cached m)(h \<mapsto> refs - {request_id r}))"
proof -
  have n: "get_num_encoder_embeds r i = Inr (sz h)" "0 \<le> sz h" unfolding h_def using sizedD[OF r i] by simp_all
  have f: "nth_or_raise (mm_features r) i = Inr (mm_features r ! i)" using i by simp
  consider "enc_cached m h = None" | "enc_cached m h = Some {}"
    | refs where "enc_cached m h = Some refs" "refs \<noteq> {}" "refs - {request_id r} \<noteq> {}"
    | "enc_cached m h = Some {request_id r}" by fastforce
  then show ?thesis
  proof cases
    case 1
    then show ?thesis using inv i by (simp add: free_encoder_input_def h_def[symmetric])
  next
    case 2
    have "(enc_cached m)(h \<mapsto> {}) = enc_cached m" using 2 by auto
    then show ?thesis using 2 inv i by (simp add: free_encoder_input_def h_def[symmetric])
  next
    case (3 refs)
    from enc_inv_refs[OF inv 3(1,2) 3(3)] 3 i show ?thesis
      by (simp add: free_encoder_input_def h_def[symmetric] Let_def)
  next
    case 4
    have hF: "h \<notin> fst ` set (freeable m)" using enc_invD(8)[OF inv, of h] 4 by simp
    have dom: "dom ((enc_cached m)(h \<mapsto> {})) = dom (enc_cached m)" using 4 by auto
    define m' where "m' = m\<lparr>enc_cached := (enc_cached m)(h \<mapsto> {}), freeable := freeable m @ [(h, sz h)],
      num_freeable_slots := num_freeable_slots m + sz h\<rparr>"
    have "free_encoder_input r i m = Inr m'"
      using 4 n i hF by (simp add: free_encoder_input_def h_def[symmetric] Let_def m'_def od_set_def)
    moreover have "enc_inv sz m'"
      using inv hF dom n(2) by (auto simp: enc_inv_def m'_def used_def reclaimable_def)
    ultimately show ?thesis using 4 by (auto simp: m'_def)
  qed
qed

text \<open>Freeing a request never raises and leaves no reference of it to its inputs.\<close>

lemma free_inputs_ok:
  assumes "sized sz r"
  shows "enc_inv sz m \<Longrightarrow> \<forall>i \<in> set js. i < length (mm_features r) \<Longrightarrow>
    \<exists>m'. foldE (free_encoder_input r) js m = Inr m' \<and> enc_inv sz m' \<and> num_free_slots m' = num_free_slots m
      \<and> cache_size m' = cache_size m \<and> freed m' = freed m
      \<and> (\<forall>h. enc_cached m' h = (case enc_cached m h of None \<Rightarrow> None
          | Some refs \<Rightarrow> Some (if \<exists>i \<in> set js. mm_identifier (mm_features r ! i) = h
              then refs - {request_id r} else refs)))"
proof (induction js arbitrary: m)
  case Nil
  then show ?case by (auto split: option.split)
next
  case (Cons i js)
  from Cons.prems(2) have i: "i < length (mm_features r)" by simp
  from free_encoder_input_ok[OF Cons.prems(1) assms i] obtain m1 where
    m1: "free_encoder_input r i m = Inr m1" "enc_inv sz m1" "num_free_slots m1 = num_free_slots m"
      "cache_size m1 = cache_size m" "freed m1 = freed m"
      "enc_cached m1 = (case enc_cached m (mm_identifier (mm_features r ! i)) of None \<Rightarrow> enc_cached m
        | Some refs \<Rightarrow> (enc_cached m)(mm_identifier (mm_features r ! i) \<mapsto> refs - {request_id r}))" by blast
  from Cons.IH[OF m1(2)] Cons.prems(2) obtain m2 where
    m2: "foldE (free_encoder_input r) js m1 = Inr m2" "enc_inv sz m2" "num_free_slots m2 = num_free_slots m1"
      "cache_size m2 = cache_size m1" "freed m2 = freed m1"
      "\<forall>h. enc_cached m2 h = (case enc_cached m1 h of None \<Rightarrow> None
          | Some refs \<Rightarrow> Some (if \<exists>i \<in> set js. mm_identifier (mm_features r ! i) = h
              then refs - {request_id r} else refs))" by auto
  have "foldE (free_encoder_input r) (i # js) m = Inr m2" using m1(1) m2(1) by simp
  moreover have "enc_cached m2 h = (case enc_cached m h of None \<Rightarrow> None
      | Some refs \<Rightarrow> Some (if \<exists>i \<in> set (i # js). mm_identifier (mm_features r ! i) = h
          then refs - {request_id r} else refs))" for h
    using m2(6)[rule_format, of h] m1(6) by (auto split: option.splits)
  ultimately show ?case using m1 m2 by auto
qed

lemma enc_free_ok:
  assumes "enc_inv sz m" and "sized sz r"
  shows "\<exists>m'. enc_free r m = Inr m' \<and> enc_inv sz m' \<and> num_free_slots m' = num_free_slots m
    \<and> cache_size m' = cache_size m \<and> dom (enc_cached m') = dom (enc_cached m)
    \<and> (\<forall>h refs. enc_cached m h = Some refs \<longrightarrow>
         enc_cached m' h = Some (if h \<in> mm_identifier ` set (mm_features r) then refs - {request_id r} else refs))"
proof -
  have "\<forall>i \<in> set (get_cached_input_ids r m). i < length (mm_features r)" by (simp add: get_cached_input_ids_def)
  from free_inputs_ok[OF assms(2,1) this] obtain m' where m': "enc_free r m = Inr m'" "enc_inv sz m'"
    "num_free_slots m' = num_free_slots m" "cache_size m' = cache_size m"
    "\<forall>h. enc_cached m' h = (case enc_cached m h of None \<Rightarrow> None
          | Some refs \<Rightarrow> Some (if \<exists>i \<in> set (get_cached_input_ids r m). mm_identifier (mm_features r ! i) = h
              then refs - {request_id r} else refs))" unfolding enc_free_def by blast
  have "(\<exists>i \<in> set (get_cached_input_ids r m). mm_identifier (mm_features r ! i) = h)
      \<longleftrightarrow> h \<in> mm_identifier ` set (mm_features r)" if "enc_cached m h = Some refs" for h refs
  proof
    assume "h \<in> mm_identifier ` set (mm_features r)"
    then obtain i where "i < length (mm_features r)" "mm_identifier (mm_features r ! i) = h"
      by (auto simp: in_set_conv_nth)
    with that show "\<exists>i \<in> set (get_cached_input_ids r m). mm_identifier (mm_features r ! i) = h"
      by (auto simp: get_cached_input_ids_def)
  qed (auto simp: get_cached_input_ids_def)
  moreover have "dom (enc_cached m') = dom (enc_cached m)" using m'(5) by (auto simp: dom_def split: option.splits)
  ultimately show ?thesis using m' by auto
qed

section \<open>Runs of the multimodal manager\<close>

text \<open>
  One step per operation. \<open>allocate\<close> is only called after a lookup has missed and
  \<open>can_allocate\<close> has made room, as its documentation demands.
\<close>

inductive enc_step :: "(string \<Rightarrow> int) \<Rightarrow> encoder_cache \<Rightarrow> encoder_cache \<Rightarrow> bool" for sz where
  check: "check_and_update_cache r i m = Inr (b, m') \<Longrightarrow> enc_step sz m m'"
| can: "sized sz r \<Longrightarrow> can_allocate r i bud s m = Inr (b, m') \<Longrightarrow> enc_step sz m m'"
| alloc: "sized sz r \<Longrightarrow> enc_cached m (mm_identifier (mm_features r ! i)) = None
    \<Longrightarrow> enc_allocate r i m = Inr m' \<Longrightarrow> enc_step sz m m'"
| free_one: "sized sz r \<Longrightarrow> free_encoder_input r i m = Inr m' \<Longrightarrow> enc_step sz m m'"
| free_all: "sized sz r \<Longrightarrow> enc_free r m = Inr m' \<Longrightarrow> enc_step sz m m'"
| drain: "get_freed_mm_hashes m = (hs, m') \<Longrightarrow> enc_step sz m m'"
| reset: "enc_step sz m (enc_reset m)"

inductive enc_reach :: "(string \<Rightarrow> int) \<Rightarrow> int \<Rightarrow> encoder_cache \<Rightarrow> bool" for sz n where
  init: "0 \<le> n \<Longrightarrow> enc_reach sz n (new_encoder_cache n)"
| step: "enc_reach sz n m \<Longrightarrow> enc_step sz m m' \<Longrightarrow> enc_reach sz n m'"

lemma index_in_range:
  "check_and_update_cache r i m = Inr x \<Longrightarrow> i < length (mm_features r)"
  "can_allocate r i bud s m = Inr x \<Longrightarrow> i < length (mm_features r)"
  "enc_allocate r i m = Inr m' \<Longrightarrow> i < length (mm_features r)"
  "free_encoder_input r i m = Inr m' \<Longrightarrow> i < length (mm_features r)"
  by (auto simp: check_and_update_cache_def can_allocate_def enc_allocate_def free_encoder_input_def
      nth_or_raise_def get_num_encoder_embeds_def assertE_bind split: if_splits)

lemma enc_allocate_room:
  assumes "enc_allocate r i m = Inr m'" and "sized sz r"
    and "enc_cached m (mm_identifier (mm_features r ! i)) = None"
  shows "sz (mm_identifier (mm_features r ! i)) \<le> num_free_slots m"
  using assms(1,3) sizedD(1)[OF assms(2) index_in_range(3)[OF assms(1)]] index_in_range(3)[OF assms(1)]
  by (auto simp: enc_allocate_def Let_def assertE_bind split: if_splits)

lemma enc_step_inv:
  assumes "enc_step sz m m'" and inv: "enc_inv sz m" and n: "0 \<le> cache_size m"
  shows "enc_inv sz m' \<and> cache_size m' = cache_size m"
  using assms(1)
proof cases
  case (check r i b)
  from check_and_update_cache_ok[OF inv index_in_range(1)[OF check]] check show ?thesis by auto
next
  case (can r i bud s b)
  from can_allocate_ok[OF inv can(1) index_in_range(2)[OF can(2)], of bud s] can(2) show ?thesis by auto
next
  case (alloc r i)
  from enc_allocate_ok[OF inv alloc(1) index_in_range(3)[OF alloc(3)] alloc(2)
      enc_allocate_room[OF alloc(3,1,2)]] alloc(3) show ?thesis by auto
next
  case (free_one r i)
  from free_encoder_input_ok[OF inv free_one(1) index_in_range(4)[OF free_one(2)]] free_one(2)
  show ?thesis by auto
next
  case (free_all r)
  from enc_free_ok[OF inv free_all(1)] free_all(2) show ?thesis by auto
next
  case (drain hs)
  then have "m' = m\<lparr>freed := []\<rparr>" by (simp add: get_freed_mm_hashes_def)
  moreover have "enc_inv sz (m\<lparr>freed := []\<rparr>) = enc_inv sz m"
    by (simp add: enc_inv_def used_def reclaimable_def)
  ultimately show ?thesis using inv by simp
next
  case reset
  then show ?thesis using enc_reset_inv[OF n] by (simp add: enc_reset_def)
qed

lemma enc_reach_inv: "enc_reach sz n m \<Longrightarrow> enc_inv sz m \<and> cache_size m = n \<and> 0 \<le> n"
proof (induction rule: enc_reach.induct)
  case init
  then show ?case using new_encoder_cache_inv[of n sz] by (simp add: new_encoder_cache_def)
next
  case (step m m')
  then show ?case using enc_step_inv[OF step(2)] by auto
qed

text \<open>
  C33. In every reachable encoder cache the slots add up: the free slots are the capacity
  less the sizes of all entries, the freeable slots add the sizes of the entries nobody
  references, which are exactly the freeable list, and all of it stays within the capacity.
\<close>

theorem encoder_slots_add_up:
  assumes "enc_reach sz n m" and "\<forall>h. 0 \<le> sz h"
  shows "num_free_slots m = n - (\<Sum>h \<in> dom (enc_cached m). sz h)
    \<and> num_freeable_slots m = n - (\<Sum>h \<in> {h \<in> dom (enc_cached m). enc_cached m h \<noteq> Some {}}. sz h)
    \<and> set (map fst (freeable m)) = {h. enc_cached m h = Some {}}
    \<and> 0 \<le> num_free_slots m \<and> num_free_slots m \<le> num_freeable_slots m \<and> num_freeable_slots m \<le> n"
proof -
  from enc_reach_inv[OF assms(1)] have inv: "enc_inv sz m" and n: "cache_size m = n" by blast+
  let ?D = "dom (enc_cached m)" and ?F = "fst ` set (freeable m)"
  have F: "?F = {h. enc_cached m h = Some {}}" using enc_invD(8)[OF inv] by blast
  then have sub: "?F \<subseteq> ?D" by auto
  have D: "?D - ?F = {h \<in> ?D. enc_cached m h \<noteq> Some {}}" using F by auto
  have "sum sz ?D = sum sz (?D - ?F) + sum sz ?F"
    by (rule sum.subset_diff[OF sub enc_invD(1)[OF inv]])
  moreover have "0 \<le> sum sz (?D - ?F)" "0 \<le> sum sz ?F"
    using assms(2) by (simp_all add: sum_nonneg)
  ultimately show ?thesis
    using enc_invD(2,3,4)[OF inv] n F unfolding used_def reclaimable_def D[symmetric] by simp
qed

text \<open>
  \<open>can_allocate\<close> never raises; it says yes exactly when the budget and the
  freeable slots suffice, and then there are enough free slots for the input and those already
  planned. It evicts a shortest prefix of the freeable list, the oldest entries first, reports
  them, and never touches an entry that a request references.
\<close>

theorem eviction_oldest_unreferenced:
  assumes "enc_reach sz n m" and "sized sz r" and "i < length (mm_features r)"
  shows "\<exists>m' k. can_allocate r i bud s m = Inr (sz (mm_identifier (mm_features r ! i)) \<le> bud
        \<and> sz (mm_identifier (mm_features r ! i)) + s \<le> num_freeable_slots m, m')
    \<and> freeable m' = drop k (freeable m) \<and> freed m' = freed m @ map fst (take k (freeable m))
    \<and> (\<forall>h. enc_cached m' h = (if h \<in> set (map fst (take k (freeable m))) then None else enc_cached m h))
    \<and> (\<forall>h \<in> set (map fst (take k (freeable m))). enc_cached m h = Some {})
    \<and> (sz (mm_identifier (mm_features r ! i)) \<le> bud
        \<and> sz (mm_identifier (mm_features r ! i)) + s \<le> num_freeable_slots m
       \<longrightarrow> sz (mm_identifier (mm_features r ! i)) + s \<le> num_free_slots m')
    \<and> (0 < k \<longrightarrow> num_free_slots m' - snd (freeable m ! (k - 1)) < sz (mm_identifier (mm_features r ! i)) + s)"
proof -
  from enc_reach_inv[OF assms(1)] have inv: "enc_inv sz m" by blast
  from can_allocate_ok[OF inv assms(2,3), of bud s] obtain m' k where
    c: "can_allocate r i bud s m = Inr (sz (mm_identifier (mm_features r ! i)) \<le> bud
        \<and> sz (mm_identifier (mm_features r ! i)) + s \<le> num_freeable_slots m, m')"
      "freeable m' = drop k (freeable m)" "freed m' = freed m @ map fst (take k (freeable m))"
      "enc_cached m' = enc_cached m |` (- set (map fst (take k (freeable m))))"
      "sz (mm_identifier (mm_features r ! i)) \<le> bud \<and> sz (mm_identifier (mm_features r ! i)) + s \<le> num_freeable_slots m
       \<longrightarrow> sz (mm_identifier (mm_features r ! i)) + s \<le> num_free_slots m'"
      "0 < k \<longrightarrow> num_free_slots m' - snd (freeable m ! (k - 1)) < sz (mm_identifier (mm_features r ! i)) + s"
    by blast
  have "enc_cached m h = Some {}" if "h \<in> set (map fst (take k (freeable m)))" for h
  proof -
    from that have "h \<in> fst ` set (freeable m)" by (auto dest: in_set_takeD)
    then show ?thesis using enc_invD(8)[OF inv, of h] by simp
  qed
  moreover have "enc_cached m' h = (if h \<in> set (map fst (take k (freeable m))) then None else enc_cached m h)" for h
    unfolding c(4) by (simp add: restrict_map_def)
  ultimately show ?thesis using c by blast
qed

end
