(* ===== verification/Encoder_Schedule.thy ===== *)
theory Encoder_Schedule
  imports Encoder_Cache
begin

text \<open>
  \<open>Scheduler._try_schedule_encoder_inputs\<close> of \<open>vllm/v1/core/sched/scheduler.py\<close>
  and the allocations that \<open>schedule\<close> makes from its answer. The manager's operations
  are arguments, as the scheduler only knows the class interface; the contract it relies on is
  the locale \<open>encoder_slots\<close>, interpreted for both managers.
\<close>

section \<open>The planning loop\<close>

record enc_config =
  is_encoder_decoder :: bool
  disable_chunked_mm_input :: bool

record enc_plan =
  plan_ids :: "nat list"
  plan_external :: "nat list"
  plan_hashes :: "string list"
  plan_embeds :: int
  plan_new :: int
  plan_budget :: int

text \<open>
  \<open>has_item\<close> is \<open>ec_connector.has_cache_item\<close> (constantly false without a
  connector). Each round ends the loop, skips the input or plans it.
\<close>

fun enc_inputs_loop ::
  "(request \<Rightarrow> nat \<Rightarrow> 'm \<Rightarrow> (bool \<times> 'm) result) \<Rightarrow>
   (request \<Rightarrow> nat \<Rightarrow> int \<Rightarrow> int \<Rightarrow> 'm \<Rightarrow> (bool \<times> 'm) result) \<Rightarrow>
   (string \<Rightarrow> bool) \<Rightarrow> enc_config \<Rightarrow> request \<Rightarrow> int \<Rightarrow> int \<Rightarrow>
   (nat \<times> mm_feature) list \<Rightarrow> enc_plan \<Rightarrow> 'm \<Rightarrow> (enc_plan \<times> 'm) result" where
  "enc_inputs_loop check can has_item cfg r nc shift [] s m = Inr (s, m)"
| "enc_inputs_loop check can has_item cfg r nc shift ((i, f) # fs) s m =
     (let start_pos = offset (mm_position f); n_tokens = mm_length (mm_position f);
          n_embeds = get_num_embeds (mm_position f); h = mm_identifier f in
      if start_pos \<ge> nc + plan_new s + shift then Inr (s, m)
      else if is_encoder_decoder cfg \<and> nc > 0
      then bindE (assertE (start_pos = 0))
             (\<lambda>_. enc_inputs_loop check can has_item cfg r nc shift fs s m)
      else if start_pos + n_tokens \<le> nc then enc_inputs_loop check can has_item cfg r nc shift fs s m
      else if \<not> is_encoder_decoder cfg \<and> h \<in> set (plan_hashes s)
      then enc_inputs_loop check can has_item cfg r nc shift fs s m
      else bindE (if is_encoder_decoder cfg then Inr (False, m) else check r i m) (\<lambda>(hit, m1).
        if hit then enc_inputs_loop check can has_item cfg r nc shift fs s m1
        else if disable_chunked_mm_input cfg \<and> nc < start_pos \<and> nc + plan_new s < start_pos + n_tokens
        then Inr (s\<lparr>plan_new := max 0 (start_pos - (nc + shift))\<rparr>, m1)
        else bindE (can r i (plan_budget s) (plan_embeds s) m1) (\<lambda>(ok, m2).
          if \<not> ok
          then Inr (s\<lparr>plan_new := (if nc + shift < start_pos then start_pos - (nc + shift) else 0)\<rparr>, m2)
          else bindE (get_embeds_indices_in_range (mm_position f) (max 0 (nc - start_pos))
                       (min n_tokens (nc + plan_new s - start_pos))) (\<lambda>(a, b).
            if b - a = 0 then enc_inputs_loop check can has_item cfg r nc shift fs s m2
            else if has_item h
            then enc_inputs_loop check can has_item cfg r nc shift fs
                   (s\<lparr>plan_hashes := plan_hashes s @ [h], plan_external := plan_external s @ [i],
                      plan_embeds := plan_embeds s + n_embeds\<rparr>) m2
            else enc_inputs_loop check can has_item cfg r nc shift fs
                   (s\<lparr>plan_embeds := plan_embeds s + n_embeds, plan_budget := plan_budget s - n_embeds,
                      plan_hashes := plan_hashes s @ [h], plan_ids := plan_ids s @ [i]\<rparr>) m2))))"

definition try_schedule_encoder_inputs ::
  "(request \<Rightarrow> nat \<Rightarrow> 'm \<Rightarrow> (bool \<times> 'm) result) \<Rightarrow>
   (request \<Rightarrow> nat \<Rightarrow> int \<Rightarrow> int \<Rightarrow> 'm \<Rightarrow> (bool \<times> 'm) result) \<Rightarrow>
   (string \<Rightarrow> bool) \<Rightarrow> enc_config \<Rightarrow> request \<Rightarrow> int \<Rightarrow> int \<Rightarrow> int \<Rightarrow> int \<Rightarrow> 'm \<Rightarrow>
   (enc_plan \<times> 'm) result" where
  "try_schedule_encoder_inputs check can has_item cfg r nc num_new_tokens budget shift m =
     (let s = \<lparr>plan_ids = [], plan_external = [], plan_hashes = [], plan_embeds = 0,
               plan_new = num_new_tokens, plan_budget = budget\<rparr> in
      if num_new_tokens = 0 \<or> \<not> has_encoder_inputs r then Inr (s, m)
      else enc_inputs_loop check can has_item cfg r nc shift (enumerate 0 (mm_features r)) s m)"

text \<open>What \<open>schedule\<close> does with the plan of a request it admits.\<close>

definition allocate_plan :: "(request \<Rightarrow> nat \<Rightarrow> 'm \<Rightarrow> 'm result) \<Rightarrow> request \<Rightarrow> enc_plan \<Rightarrow> 'm \<Rightarrow> 'm result" where
  "allocate_plan alloc r s m = foldE (alloc r) (plan_ids s @ plan_external s) m"

section \<open>The contract of a manager\<close>

definition embeds_of :: "request \<Rightarrow> nat \<Rightarrow> int" where
  "embeds_of r i = get_num_embeds (mm_position (mm_features r ! i))"

definition hash_of :: "request \<Rightarrow> nat \<Rightarrow> string" where
  "hash_of r i = mm_identifier (mm_features r ! i)"

text \<open>
  \<open>slots\<close> is the free capacity, \<open>absent\<close> says that an input has no entry. A
  manager that does not look inputs up (\<open>encdec\<close>) treats every input as absent.
\<close>

locale encoder_slots =
  fixes check :: "request \<Rightarrow> nat \<Rightarrow> 'm \<Rightarrow> (bool \<times> 'm) result"
    and can :: "request \<Rightarrow> nat \<Rightarrow> int \<Rightarrow> int \<Rightarrow> 'm \<Rightarrow> (bool \<times> 'm) result"
    and alloc :: "request \<Rightarrow> nat \<Rightarrow> 'm \<Rightarrow> 'm result"
    and ok :: "'m \<Rightarrow> bool" and slots :: "'m \<Rightarrow> int" and absent :: "'m \<Rightarrow> string \<Rightarrow> bool"
    and fits :: "request \<Rightarrow> bool" and encdec :: bool
  assumes embeds_nonneg: "fits r \<Longrightarrow> i < length (mm_features r) \<Longrightarrow> 0 \<le> embeds_of r i"
    and always_absent: "encdec \<Longrightarrow> absent m h"
    and check_ok: "\<not> encdec \<Longrightarrow> ok m \<Longrightarrow> fits r \<Longrightarrow> i < length (mm_features r) \<Longrightarrow>
      \<exists>m'. check r i m = Inr (\<not> absent m (hash_of r i), m') \<and> ok m' \<and> slots m' = slots m
        \<and> (\<forall>h. absent m' h = absent m h)"
    and can_ok: "ok m \<Longrightarrow> fits r \<Longrightarrow> i < length (mm_features r) \<Longrightarrow>
      \<exists>b m'. can r i bud s m = Inr (b, m') \<and> ok m' \<and> slots m \<le> slots m'
        \<and> (\<forall>h. absent m h \<longrightarrow> absent m' h)
        \<and> (b \<longrightarrow> embeds_of r i \<le> bud \<and> embeds_of r i + s \<le> slots m')"
    and alloc_ok: "ok m \<Longrightarrow> fits r \<Longrightarrow> i < length (mm_features r) \<Longrightarrow> absent m (hash_of r i) \<Longrightarrow>
      embeds_of r i \<le> slots m \<Longrightarrow>
      \<exists>m'. alloc r i m = Inr m' \<and> ok m' \<and> slots m' = slots m - embeds_of r i
        \<and> (\<forall>h. h \<noteq> hash_of r i \<longrightarrow> absent m' h = absent m h)"
begin

definition planned :: "request \<Rightarrow> int \<Rightarrow> int \<Rightarrow> enc_plan \<Rightarrow> 'm \<Rightarrow> bool" where
  "planned r budget new s m \<longleftrightarrow> ok m
     \<and> (\<forall>i \<in> set (plan_ids s @ plan_external s). i < length (mm_features r) \<and> absent m (hash_of r i))
     \<and> (\<not> encdec \<longrightarrow> distinct (map (hash_of r) (plan_ids s @ plan_external s)))
     \<and> set (plan_hashes s) = hash_of r ` set (plan_ids s @ plan_external s)
     \<and> plan_embeds s = sum_list (map (embeds_of r) (plan_ids s @ plan_external s))
     \<and> plan_embeds s \<le> slots m
     \<and> plan_budget s = budget - sum_list (map (embeds_of r) (plan_ids s)) \<and> 0 \<le> plan_budget s
     \<and> 0 \<le> plan_new s \<and> plan_new s \<le> new"

text \<open>Whatever was planned can be allocated.\<close>

lemma allocate_all:
  assumes "fits r"
  shows "ok m \<Longrightarrow> \<forall>i \<in> set js. i < length (mm_features r) \<and> absent m (hash_of r i) \<Longrightarrow>
    (\<not> encdec \<longrightarrow> distinct (map (hash_of r) js)) \<Longrightarrow> sum_list (map (embeds_of r) js) \<le> slots m \<Longrightarrow>
    \<exists>m'. foldE (alloc r) js m = Inr m' \<and> ok m' \<and> slots m' = slots m - sum_list (map (embeds_of r) js)"
proof (induction js arbitrary: m)
  case (Cons i js)
  have nonneg: "0 \<le> sum_list (map (embeds_of r) js)"
    using Cons.prems(2) embeds_nonneg[OF assms] by (intro sum_list_nonneg) auto
  have i: "i < length (mm_features r)" "absent m (hash_of r i)" "embeds_of r i \<le> slots m"
    using Cons.prems nonneg by auto
  from alloc_ok[OF Cons.prems(1) assms i] obtain m1 where m1: "alloc r i m = Inr m1" "ok m1"
    "slots m1 = slots m - embeds_of r i" "\<forall>h. h \<noteq> hash_of r i \<longrightarrow> absent m1 h = absent m h" by blast
  have "absent m1 (hash_of r j)" if "j \<in> set js" for j
  proof (cases encdec)
    case True
    then show ?thesis by (rule always_absent)
  next
    case False
    then have "hash_of r j \<noteq> hash_of r i" using Cons.prems(3) that by auto (metis imageI)
    then show ?thesis using m1(4) Cons.prems(2) that by simp
  qed
  with Cons.IH[OF m1(2)] Cons.prems m1 show ?case by auto
qed simp

lemma plan_can_be_allocated:
  assumes "fits r" and "planned r budget new s m"
  shows "\<exists>m'. allocate_plan alloc r s m = Inr m' \<and> ok m' \<and> slots m' = slots m - plan_embeds s"
  using allocate_all[OF assms(1), of m "plan_ids s @ plan_external s"] assms(2)
  by (simp add: planned_def allocate_plan_def)

lemma planned_mono:
  assumes "planned r budget new s m" and "ok m'" and "slots m \<le> slots m'"
    and "\<forall>h. absent m h \<longrightarrow> absent m' h"
  shows "planned r budget new s m'"
  using assms unfolding planned_def by auto

lemma lookup_ok:
  assumes "ok m" and "fits r" and "i < length (mm_features r)"
  shows "\<exists>m1. (if encdec then Inr (False, m) else check r i m) = Inr (\<not> absent m (hash_of r i), m1)
    \<and> ok m1 \<and> slots m1 = slots m \<and> (\<forall>h. absent m1 h = absent m h)"
  using check_ok[OF _ assms] assms(1) always_absent by (cases encdec) auto

end

section \<open>The loop keeps the plan allocatable\<close>

definition position_ok :: "placeholder_range \<Rightarrow> bool" where
  "position_ok p \<longleftrightarrow> 0 \<le> mm_length p \<and> (case is_embed p of None \<Rightarrow> True | Some bs \<Rightarrow> int (length bs) = mm_length p)"

lemma length_cumsum [simp]: "length (cumsum_from a bs) = length bs"
  by (induction bs arbitrary: a) simp_all

lemma embeds_indices_total:
  assumes "position_ok p" and "s \<le> mm_length p" and "e \<le> mm_length p"
  shows "\<exists>a b. get_embeds_indices_in_range p s e = Inr (a, b)"
  using assms by (auto simp: position_ok_def get_embeds_indices_in_range_def embeds_cumsum_def py_index_def
      split: option.split)

definition fits_config :: "enc_config \<Rightarrow> int \<Rightarrow> request \<Rightarrow> bool" where
  "fits_config cfg nc r \<longleftrightarrow> (\<forall>f \<in> set (mm_features r). position_ok (mm_position f)
     \<and> (is_encoder_decoder cfg \<and> 0 < nc \<longrightarrow> offset (mm_position f) = 0))"

context encoder_slots
begin

lemma planned_shrink:
  "planned r budget new s m \<Longrightarrow> 0 \<le> k \<Longrightarrow> k \<le> plan_new s \<Longrightarrow> planned r budget new (s\<lparr>plan_new := k\<rparr>) m"
  by (simp add: planned_def)

lemma planned_add:
  assumes pl: "planned r budget new s m" and r: "fits r" and i: "i < length (mm_features r)"
    and abs: "absent m (hash_of r i)" and fresh: "\<not> encdec \<Longrightarrow> hash_of r i \<notin> set (plan_hashes s)"
    and room: "embeds_of r i \<le> plan_budget s" "embeds_of r i + plan_embeds s \<le> slots m"
  shows "planned r budget new (s\<lparr>plan_hashes := plan_hashes s @ [hash_of r i],
      plan_external := plan_external s @ [i], plan_embeds := plan_embeds s + embeds_of r i\<rparr>) m"
    and "planned r budget new (s\<lparr>plan_embeds := plan_embeds s + embeds_of r i,
      plan_budget := plan_budget s - embeds_of r i, plan_hashes := plan_hashes s @ [hash_of r i],
      plan_ids := plan_ids s @ [i]\<rparr>) m"
  using pl i abs fresh room by (auto simp: planned_def)

lemma loop_ok:
  assumes r: "fits r" and cfg: "is_encoder_decoder cfg = encdec" and fc: "fits_config cfg nc r"
  shows "planned r budget new s m \<Longrightarrow>
    \<forall>(i, f) \<in> set ifs. i < length (mm_features r) \<and> f = mm_features r ! i \<Longrightarrow>
    \<exists>s' m'. enc_inputs_loop check can has_item cfg r nc shift ifs s m = Inr (s', m')
      \<and> planned r budget new s' m'"
proof (induction ifs arbitrary: s m)
  case (Cons x ifs)
  obtain i f where x: "x = (i, f)" by fastforce
  with Cons.prems have i: "i < length (mm_features r)" and f: "f = mm_features r ! i" by auto
  have ids: "mm_identifier f = hash_of r i" "get_num_embeds (mm_position f) = embeds_of r i"
    by (simp_all add: f hash_of_def embeds_of_def)
  have pos: "position_ok (mm_position f)" "encdec \<and> 0 < nc \<longrightarrow> offset (mm_position f) = 0"
    using fc i cfg by (auto simp: fits_config_def f)
  have len: "0 \<le> mm_length (mm_position f)" using pos(1) by (simp add: position_ok_def)
  have rest: "\<forall>(i, f) \<in> set ifs. i < length (mm_features r) \<and> f = mm_features r ! i" using Cons.prems(2) by auto
  note IH = Cons.IH[OF _ rest]
  have ok: "ok m" using Cons.prems(1) by (simp add: planned_def)
  obtain m1 where m1: "(if encdec then Inr (False, m) else check r i m) = Inr (\<not> absent m (hash_of r i), m1)"
    "ok m1" "slots m1 = slots m" "\<forall>h. absent m1 h = absent m h"
    using lookup_ok[OF ok r i] by blast
  have p1: "planned r budget new s m1"
    by (rule planned_mono[OF Cons.prems(1) m1(2)]) (use m1 in auto)
  obtain b m2 where m2: "can r i (plan_budget s) (plan_embeds s) m1 = Inr (b, m2)" "ok m2" "slots m1 \<le> slots m2"
    "\<forall>h. absent m1 h \<longrightarrow> absent m2 h" "b \<longrightarrow> embeds_of r i \<le> plan_budget s \<and> embeds_of r i + plan_embeds s \<le> slots m2"
    using can_ok[OF m1(2) r i, of "plan_budget s" "plan_embeds s"] by blast
  have p2: "planned r budget new s m2" by (rule planned_mono[OF p1 m2(2-4)])
  let ?st = "offset (mm_position f)" and ?n = "mm_length (mm_position f)"
  let ?go = "enc_inputs_loop check can has_item cfg r nc shift ifs"
  have step: "enc_inputs_loop check can has_item cfg r nc shift (x # ifs) s m =
     (if ?st \<ge> nc + plan_new s + shift then Inr (s, m)
      else if encdec \<and> nc > 0 then bindE (assertE (?st = 0)) (\<lambda>_. ?go s m)
      else if ?st + ?n \<le> nc then ?go s m
      else if \<not> encdec \<and> hash_of r i \<in> set (plan_hashes s) then ?go s m
      else if \<not> absent m (hash_of r i) then ?go s m1
      else if disable_chunked_mm_input cfg \<and> nc < ?st \<and> nc + plan_new s < ?st + ?n
        then Inr (s\<lparr>plan_new := max 0 (?st - (nc + shift))\<rparr>, m1)
      else if \<not> b then Inr (s\<lparr>plan_new := (if nc + shift < ?st then ?st - (nc + shift) else 0)\<rparr>, m2)
      else bindE (get_embeds_indices_in_range (mm_position f) (max 0 (nc - ?st)) (min ?n (nc + plan_new s - ?st))) (\<lambda>(a, b).
        if b - a = 0 then ?go s m2
        else if has_item (hash_of r i)
        then ?go (s\<lparr>plan_hashes := plan_hashes s @ [hash_of r i], plan_external := plan_external s @ [i],
                     plan_embeds := plan_embeds s + embeds_of r i\<rparr>) m2
        else ?go (s\<lparr>plan_embeds := plan_embeds s + embeds_of r i, plan_budget := plan_budget s - embeds_of r i,
                     plan_hashes := plan_hashes s @ [hash_of r i], plan_ids := plan_ids s @ [i]\<rparr>) m2))"
    unfolding x enc_inputs_loop.simps Let_def cfg ids m1(1) bindE_Inr prod.case m2(1) by (rule refl)
  consider (past) "?st \<ge> nc + plan_new s + shift"
    | (skip) "encdec \<and> nc > 0 \<or> ?st + ?n \<le> nc \<or> (\<not> encdec \<and> hash_of r i \<in> set (plan_hashes s))"
    | (hit) "\<not> ?st \<ge> nc + plan_new s + shift" "\<not> (encdec \<and> nc > 0)" "\<not> ?st + ?n \<le> nc"
        "\<not> (\<not> encdec \<and> hash_of r i \<in> set (plan_hashes s))" "\<not> absent m (hash_of r i)"
    | (roll) "\<not> ?st \<ge> nc + plan_new s + shift" "\<not> (encdec \<and> nc > 0)" "\<not> ?st + ?n \<le> nc"
        "\<not> (\<not> encdec \<and> hash_of r i \<in> set (plan_hashes s))" "\<not> \<not> absent m (hash_of r i)"
        "disable_chunked_mm_input cfg \<and> nc < ?st \<and> nc + plan_new s < ?st + ?n"
    | (full) "\<not> ?st \<ge> nc + plan_new s + shift" "\<not> (encdec \<and> nc > 0)" "\<not> ?st + ?n \<le> nc"
        "\<not> (\<not> encdec \<and> hash_of r i \<in> set (plan_hashes s))" "\<not> \<not> absent m (hash_of r i)"
        "\<not> (disable_chunked_mm_input cfg \<and> nc < ?st \<and> nc + plan_new s < ?st + ?n)" "\<not> b"
    | (plan) "\<not> ?st \<ge> nc + plan_new s + shift" "\<not> (encdec \<and> nc > 0)" "\<not> ?st + ?n \<le> nc"
        "\<not> (\<not> encdec \<and> hash_of r i \<in> set (plan_hashes s))" "\<not> \<not> absent m (hash_of r i)"
        "\<not> (disable_chunked_mm_input cfg \<and> nc < ?st \<and> nc + plan_new s < ?st + ?n)" "\<not> \<not> b"
    by blast
  then show ?case
  proof cases
    case past
    then show ?thesis using Cons.prems(1) unfolding step by (simp only: if_True) blast
  next
    case skip
    show ?thesis
    proof (cases "?st \<ge> nc + plan_new s + shift")
      case True
      then show ?thesis using Cons.prems(1) unfolding step by (simp only: if_True) blast
    next
      case False
      have zero: "(?st = 0) = True" if "encdec \<and> nc > 0" using pos(2) that by blast
      have "enc_inputs_loop check can has_item cfg r nc shift (x # ifs) s m = ?go s m"
      proof (cases "encdec \<and> nc > 0")
        case enc: True
        show ?thesis using False enc unfolding step zero[OF enc]
          by (simp only: if_True if_False assertE_True bindE_Inr simp_thms)
      next
        case dec: False
        show ?thesis
        proof (cases "?st + ?n \<le> nc")
          case True
          with False dec show ?thesis unfolding step by (simp only: if_True if_False)
        next
          case early: False
          with skip dec have "\<not> encdec \<and> hash_of r i \<in> set (plan_hashes s)" by blast
          with False dec early show ?thesis unfolding step by (simp only: if_True if_False simp_thms)
        qed
      qed
      with IH[OF Cons.prems(1)] show ?thesis by (simp only:)
    qed
  next
    case hit
    then show ?thesis using IH[OF p1] unfolding step by (simp only: if_True if_False simp_thms)
  next
    case roll
    have "planned r budget new (s\<lparr>plan_new := max 0 (?st - (nc + shift))\<rparr>) m1"
      using roll(1) p1 by (intro planned_shrink) (auto simp: planned_def)
    then show ?thesis using roll unfolding step by (simp only: if_True if_False simp_thms) blast
  next
    case full
    have "planned r budget new (s\<lparr>plan_new := (if nc + shift < ?st then ?st - (nc + shift) else 0)\<rparr>) m2"
      using full(1) p2 by (intro planned_shrink) (auto simp: planned_def)
    then show ?thesis using full unfolding step by (simp only: if_True if_False simp_thms) blast
  next
    case plan
    obtain a e where ae: "get_embeds_indices_in_range (mm_position f) (max 0 (nc - ?st))
        (min ?n (nc + plan_new s - ?st)) = Inr (a, e)"
      using embeds_indices_total[OF pos(1), of "max 0 (nc - ?st)" "min ?n (nc + plan_new s - ?st)"]
        plan(3) len by auto
    have abs2: "absent m2 (hash_of r i)" using plan(5) m1(4) m2(4) by simp
    have room: "embeds_of r i \<le> plan_budget s" "embeds_of r i + plan_embeds s \<le> slots m2" using m2(5) plan(7) by blast+
    have fresh: "hash_of r i \<notin> set (plan_hashes s)" if "\<not> encdec" using plan(4) that by blast
    note add = planned_add[OF p2 r i abs2 fresh room]
    have "?thesis \<longleftrightarrow> (\<exists>s' m'. (if e - a = 0 then ?go s m2
        else if has_item (hash_of r i)
        then ?go (s\<lparr>plan_hashes := plan_hashes s @ [hash_of r i], plan_external := plan_external s @ [i],
                     plan_embeds := plan_embeds s + embeds_of r i\<rparr>) m2
        else ?go (s\<lparr>plan_embeds := plan_embeds s + embeds_of r i, plan_budget := plan_budget s - embeds_of r i,
                     plan_hashes := plan_hashes s @ [hash_of r i], plan_ids := plan_ids s @ [i]\<rparr>) m2) = Inr (s', m')
        \<and> planned r budget new s' m')"
      using plan unfolding step ae bindE_Inr prod.case by (simp only: if_True if_False simp_thms)
    then show ?thesis using IH[OF p2] IH[OF add(1)] IH[OF add(2)]
      by (cases "e - a = 0"; cases "has_item (hash_of r i)") (simp_all only: if_True if_False simp_thms)
  qed
qed simp

end

section \<open>Both managers keep the contract\<close>

interpretation mm: encoder_slots check_and_update_cache can_allocate enc_allocate "enc_inv sz"
  num_free_slots "\<lambda>m h. enc_cached m h = None" "sized sz" False for sz
proof unfold_locales
  fix r :: request and i assume "sized sz r" "i < length (mm_features r)"
  then show "0 \<le> embeds_of r i" by (auto simp: sized_def embeds_of_def)
next
  fix m and r :: request and i assume "enc_inv sz m" "i < length (mm_features r)"
  from check_and_update_cache_ok[OF this]
  show "\<exists>m'. check_and_update_cache r i m = Inr (\<not> enc_cached m (hash_of r i) = None, m') \<and> enc_inv sz m'
      \<and> num_free_slots m' = num_free_slots m \<and> (\<forall>h. (enc_cached m' h = None) = (enc_cached m h = None))"
    unfolding hash_of_def by (auto split: if_splits)
next
  fix m and r :: request and i bud s assume a: "enc_inv sz m" "sized sz r" "i < length (mm_features r)"
  have e: "sz (mm_identifier (mm_features r ! i)) = embeds_of r i"
    using a(2,3) by (simp add: sized_def embeds_of_def)
  from can_allocate_ok[OF a, of bud s]
  show "\<exists>b m'. can_allocate r i bud s m = Inr (b, m') \<and> enc_inv sz m' \<and> num_free_slots m \<le> num_free_slots m'
      \<and> (\<forall>h. enc_cached m h = None \<longrightarrow> enc_cached m' h = None)
      \<and> (b \<longrightarrow> embeds_of r i \<le> bud \<and> embeds_of r i + s \<le> num_free_slots m')"
    unfolding e by (auto simp: restrict_map_def)
next
  fix m and r :: request and i assume a: "enc_inv sz m" "sized sz r" "i < length (mm_features r)"
    and b: "enc_cached m (hash_of r i) = None" "embeds_of r i \<le> num_free_slots m"
  have e: "sz (mm_identifier (mm_features r ! i)) = embeds_of r i"
    using a(2,3) by (simp add: sized_def embeds_of_def)
  from enc_allocate_ok[OF a] b
  show "\<exists>m'. enc_allocate r i m = Inr m' \<and> enc_inv sz m' \<and> num_free_slots m' = num_free_slots m - embeds_of r i
      \<and> (\<forall>h. h \<noteq> hash_of r i \<longrightarrow> (enc_cached m' h = None) = (enc_cached m h = None))"
    unfolding e by (auto simp: hash_of_def)
qed simp

definition nonneg_embeds :: "request \<Rightarrow> bool" where
  "nonneg_embeds r \<longleftrightarrow> (\<forall>f \<in> set (mm_features r). 0 \<le> get_num_embeds (mm_position f))"

interpretation ed: encoder_slots ed_check ed_can_allocate ed_allocate "\<lambda>m. 0 \<le> ed_free_slots m"
  ed_free_slots "\<lambda>m h. True" nonneg_embeds True
  by unfold_locales
    (auto simp: nonneg_embeds_def embeds_of_def ed_can_allocate_def ed_allocate_def get_num_encoder_embeds_def)

section \<open>Scheduled inputs fit\<close>

context encoder_slots
begin

lemma try_schedule_planned:
  assumes "fits r" and "is_encoder_decoder cfg = encdec" and "fits_config cfg nc r"
    and "ok m" and "0 \<le> slots m" and "0 \<le> budget" and "0 \<le> new"
  shows "\<exists>s m'. try_schedule_encoder_inputs check can has_item cfg r nc new budget shift m = Inr (s, m')
    \<and> planned r budget new s m'"
proof -
  define s where "s = \<lparr>plan_ids = [], plan_external = [], plan_hashes = [], plan_embeds = 0,
    plan_new = new, plan_budget = budget\<rparr>"
  have p: "planned r budget new s m" using assms(4-7) by (simp add: planned_def s_def)
  have "\<forall>(i, f) \<in> set (enumerate 0 (mm_features r)). i < length (mm_features r) \<and> f = mm_features r ! i"
    by (auto simp: in_set_enumerate_eq)
  from loop_ok[OF assms(1-3) p this, of has_item shift] p show ?thesis
    by (auto simp: try_schedule_encoder_inputs_def s_def[symmetric] Let_def)
qed

lemma try_schedule_fits:
  assumes "fits r" and "is_encoder_decoder cfg = encdec" and "fits_config cfg nc r"
    and "ok m" and "0 \<le> slots m" and "0 \<le> budget" and "0 \<le> new"
  shows "\<exists>s m' m''. try_schedule_encoder_inputs check can has_item cfg r nc new budget shift m = Inr (s, m')
    \<and> allocate_plan alloc r s m' = Inr m'' \<and> ok m'' \<and> 0 \<le> slots m''
    \<and> 0 \<le> plan_new s \<and> plan_new s \<le> new
    \<and> plan_budget s = budget - sum_list (map (embeds_of r) (plan_ids s)) \<and> 0 \<le> plan_budget s"
proof -
  obtain s m' where s: "try_schedule_encoder_inputs check can has_item cfg r nc new budget shift m = Inr (s, m')"
    "planned r budget new s m'" using try_schedule_planned[OF assms] by blast
  from plan_can_be_allocated[OF assms(1) s(2)] obtain m'' where
    "allocate_plan alloc r s m' = Inr m''" "ok m''" "slots m'' = slots m' - plan_embeds s" by blast
  with s show ?thesis by (auto simp: planned_def)
qed

end

text \<open>
  C32. Planning the encoder inputs of a request on a reachable encoder cache never raises, and
  whatever it plans can be allocated afterwards without failing an assertion: the free slots
  stay nonnegative. The number of tokens is only ever lowered, and the compute budget is charged
  exactly the embeddings of the planned inputs and never overdrawn.
\<close>

theorem planned_inputs_allocate:
  assumes "enc_reach sz n m" and "sized sz r" and "\<not> is_encoder_decoder cfg"
    and "fits_config cfg nc r" and "0 \<le> budget" and "0 \<le> new"
  shows "\<exists>s m' m''. try_schedule_encoder_inputs check_and_update_cache can_allocate has_item cfg r nc new
      budget shift m = Inr (s, m')
    \<and> allocate_plan enc_allocate r s m' = Inr m'' \<and> 0 \<le> num_free_slots m''
    \<and> 0 \<le> plan_new s \<and> plan_new s \<le> new
    \<and> plan_budget s = budget - sum_list (map (embeds_of r) (plan_ids s)) \<and> 0 \<le> plan_budget s"
proof -
  have inv: "enc_inv sz m" using enc_reach_inv[OF assms(1)] by blast
  have "is_encoder_decoder cfg = False" using assms(3) by simp
  from mm.try_schedule_fits[OF assms(2) this assms(4) inv enc_invD(3)[OF inv] assms(5,6)]
  show ?thesis by blast
qed

text \<open>
  The same for encoder-decoder models, whose manager only counts slots.
\<close>

theorem planned_inputs_allocate_encdec:
  assumes "0 \<le> ed_free_slots m" and "nonneg_embeds r" and "is_encoder_decoder cfg"
    and "fits_config cfg nc r" and "0 \<le> budget" and "0 \<le> new"
  shows "\<exists>s m' m''. try_schedule_encoder_inputs ed_check ed_can_allocate has_item cfg r nc new
      budget shift m = Inr (s, m')
    \<and> allocate_plan ed_allocate r s m' = Inr m'' \<and> 0 \<le> ed_free_slots m''
    \<and> plan_budget s = budget - sum_list (map (embeds_of r) (plan_ids s)) \<and> 0 \<le> plan_budget s"
proof -
  have "is_encoder_decoder cfg = True" using assms(3) by simp
  from ed.try_schedule_fits[OF assms(2) this assms(4,1,1,5,6)] show ?thesis by blast
qed

section \<open>No encoder cache miss\<close>

text \<open>An embedding of the placeholder sits at position \<open>k\<close> of it.\<close>

definition embed_at :: "placeholder_range \<Rightarrow> int \<Rightarrow> bool" where
  "embed_at p k \<longleftrightarrow> 0 \<le> k \<and> k < mm_length p \<and> (case is_embed p of None \<Rightarrow> True | Some bs \<Rightarrow> bs ! nat k)"

lemma cumsum_nth: "i < length bs \<Longrightarrow> cumsum_from a bs ! i = a + int (length (filter id (take (Suc i) bs)))"
proof (induction bs arbitrary: a i)
  case (Cons b bs)
  then show ?case by (cases i) auto
qed simp

lemma no_embeds_between:
  assumes "get_embeds_indices_in_range p s e = Inr (a, a)" and "position_ok p"
    and "0 \<le> s" and "s < e" and "e \<le> mm_length p" and "s \<le> k" and "k < e"
  shows "\<not> embed_at p k"
proof (cases "is_embed p")
  case None
  with assms(1,4) show ?thesis by (simp add: get_embeds_indices_in_range_def embeds_cumsum_def)
next
  case (Some bs)
  let ?c = "\<lambda>j. length (filter id (take j bs))"
  have len: "int (length bs) = mm_length p" using assms(2) Some by (simp add: position_ok_def)
  have at: "(if j > 0 then py_index (cumsum_from 0 bs) (j - 1) else Inr 0) = Inr (int (?c (nat j)))"
    if "0 \<le> j" "j \<le> mm_length p" for j
    using that len cumsum_nth[of "nat (j - 1)" bs 0] by (auto simp: py_index_def Suc_nat_eq_nat_zadd1)
  have eq: "?c (nat s) = ?c (nat e)"
    using assms(1) at[of s] at[of e] assms(3-5)
    by (simp add: get_embeds_indices_in_range_def embeds_cumsum_def Some)
  show ?thesis
  proof
    assume "embed_at p k"
    then have k: "bs ! nat k" "nat k < length bs" using len Some assms(3,6) by (auto simp: embed_at_def)
    have mono: "?c i \<le> ?c j" if "i \<le> j" for i j
      using that by (metis filter_append le_add1 length_append take_add le_Suc_ex)
    have "?c (Suc (nat k)) = Suc (?c (nat k))" using k by (simp add: take_Suc_conv_app_nth)
    moreover have "?c (nat s) \<le> ?c (nat k)" "?c (Suc (nat k)) \<le> ?c (nat e)"
      using assms(3,4,6,7) by (auto intro!: mono)
    ultimately show False using eq by linarith
  qed
qed

lemma loop_cases [consumes 2]:
  assumes "enc_inputs_loop check can has_item cfg r nc shift ((i, f) # fs) s m = Inr (s', m')"
    and "\<not> is_encoder_decoder cfg"
  obtains (past) "offset (mm_position f) \<ge> nc + plan_new s + shift" "s' = s" "m' = m"
  | (early) "offset (mm_position f) + mm_length (mm_position f) \<le> nc"
      "enc_inputs_loop check can has_item cfg r nc shift fs s m = Inr (s', m')"
  | (dup) "mm_identifier f \<in> set (plan_hashes s)"
      "enc_inputs_loop check can has_item cfg r nc shift fs s m = Inr (s', m')"
  | (hit) m1 where "check r i m = Inr (True, m1)"
      "enc_inputs_loop check can has_item cfg r nc shift fs s m1 = Inr (s', m')"
  | (roll) "check r i m = Inr (False, m')" "offset (mm_position f) < nc + plan_new s + shift"
      "nc < offset (mm_position f)" "s' = s\<lparr>plan_new := max 0 (offset (mm_position f) - (nc + shift))\<rparr>"
  | (full) m1 where "check r i m = Inr (False, m1)" "offset (mm_position f) < nc + plan_new s + shift"
      "can r i (plan_budget s) (plan_embeds s) m1 = Inr (False, m')"
      "s' = s\<lparr>plan_new := (if nc + shift < offset (mm_position f)
                          then offset (mm_position f) - (nc + shift) else 0)\<rparr>"
  | (none) m1 m2 a where "check r i m = Inr (False, m1)" "can r i (plan_budget s) (plan_embeds s) m1 = Inr (True, m2)"
      "get_embeds_indices_in_range (mm_position f) (max 0 (nc - offset (mm_position f)))
         (min (mm_length (mm_position f)) (nc + plan_new s - offset (mm_position f))) = Inr (a, a)"
      "enc_inputs_loop check can has_item cfg r nc shift fs s m2 = Inr (s', m')"
  | (plan) m1 m2 s1 where "check r i m = Inr (False, m1)" "can r i (plan_budget s) (plan_embeds s) m1 = Inr (True, m2)"
      "set (plan_hashes s1) = insert (mm_identifier f) (set (plan_hashes s))" "plan_new s1 = plan_new s"
      "enc_inputs_loop check can has_item cfg r nc shift fs s1 m2 = Inr (s', m')"
proof -
  have "is_encoder_decoder cfg = False" using assms(2) by simp
  note A = assms(1)[unfolded enc_inputs_loop.simps Let_def this if_False simp_thms]
  show ?thesis
  proof (cases "offset (mm_position f) \<ge> nc + plan_new s + shift")
    case True
    from A[unfolded if_P[OF True]] show ?thesis by (intro past[OF True]) simp_all
  next
    case lt: False
    show ?thesis
    proof (cases "offset (mm_position f) + mm_length (mm_position f) \<le> nc")
      case True
      from A[unfolded if_not_P[OF lt] if_P[OF True]] show ?thesis by (rule early[OF True])
    next
      case notearly: False
      show ?thesis
      proof (cases "mm_identifier f \<in> set (plan_hashes s)")
        case True
        from A[unfolded if_not_P[OF lt] if_not_P[OF notearly] if_P[OF True]] show ?thesis by (rule dup[OF True])
      next
        case False
        note A2 = A[unfolded if_not_P[OF lt] if_not_P[OF notearly] if_not_P[OF False]]
        from A2 obtain h m1 where c: "check r i m = Inr (h, m1)" by (elim bindE_InrE) (metis prod.collapse)
        note A3 = A2[unfolded c bindE_Inr prod.case]
        show ?thesis
        proof (cases h)
          case True
          with c have "check r i m = Inr (True, m1)" by simp
          then show ?thesis using A3[unfolded if_P[OF True]] by (rule hit)
        next
          case nohit: False
          note A4 = A3[unfolded if_not_P[OF nohit]]
          have c': "check r i m = Inr (False, m1)" using c nohit by simp
          show ?thesis
          proof (cases "disable_chunked_mm_input cfg \<and> nc < offset (mm_position f)
              \<and> nc + plan_new s < offset (mm_position f) + mm_length (mm_position f)")
            case True
            from A4[unfolded if_P[OF True]] have eq: "m' = m1" "s' = s\<lparr>plan_new := max 0 (offset (mm_position f) - (nc + shift))\<rparr>"
              by simp_all
            show ?thesis by (rule roll) (use eq c' lt True in auto)
          next
            case False
            note A5 = A4[unfolded if_not_P[OF False]]
            from A5 obtain b m2 where k: "can r i (plan_budget s) (plan_embeds s) m1 = Inr (b, m2)"
              by (elim bindE_InrE) (metis prod.collapse)
            note A6 = A5[unfolded k bindE_Inr prod.case]
            show ?thesis
            proof (cases b)
              case False
              from A6[unfolded if_P[OF False]] have eq: "m' = m2" "s' = s\<lparr>plan_new := (if nc + shift < offset (mm_position f)
                          then offset (mm_position f) - (nc + shift) else 0)\<rparr>" by simp_all
              show ?thesis by (rule full[OF c']) (use eq k False lt in simp_all)
            next
              case True
              then have nb: "\<not> \<not> b" by simp
              have k': "can r i (plan_budget s) (plan_embeds s) m1 = Inr (True, m2)" using k True by simp
              note A7 = A6[unfolded if_not_P[OF nb]]
              from A7 obtain a e where g: "get_embeds_indices_in_range (mm_position f)
                 (max 0 (nc - offset (mm_position f)))
                 (min (mm_length (mm_position f)) (nc + plan_new s - offset (mm_position f))) = Inr (a, e)"
                by (elim bindE_InrE) (metis prod.collapse)
              note A8 = A7[unfolded g bindE_Inr prod.case]
              show ?thesis
              proof (cases "e - a = 0")
                case True
                with g show ?thesis by (intro none[OF c' k' _ A8[unfolded if_P[OF True]]]) simp
              next
                case False
                note A9 = A8[unfolded if_not_P[OF False]]
                show ?thesis
                proof (cases "has_item (mm_identifier f)")
                  case True
                  show ?thesis by (rule plan[OF c' k' _ _ A9[unfolded if_P[OF True]]]) simp_all
                next
                  case False
                  show ?thesis by (rule plan[OF c' k' _ _ A9[unfolded if_not_P[OF False]]]) simp_all
                qed
              qed
            qed
          qed
        qed
      qed
    qed
  qed
qed

definition referenced :: "encoder_cache \<Rightarrow> request \<Rightarrow> string \<Rightarrow> bool" where
  "referenced m r h \<longleftrightarrow> (\<exists>refs. enc_cached m h = Some refs \<and> request_id r \<in> refs)"

lemma check_referenced:
  assumes "enc_inv sz m" and "check_and_update_cache r i m = Inr (b, m1)"
  shows "enc_inv sz m1" and "referenced m r h \<Longrightarrow> referenced m1 r h"
    and "b \<Longrightarrow> referenced m1 r (mm_identifier (mm_features r ! i))"
  using check_and_update_cache_ok[OF assms(1) index_in_range(1)[OF assms(2)]] assms(2)
  by (auto simp: referenced_def split: if_splits)

lemma can_referenced:
  assumes "enc_inv sz m" and "sized sz r" and "can_allocate r i bud s m = Inr (b, m1)"
  shows "enc_inv sz m1" and "referenced m r h \<Longrightarrow> referenced m1 r h"
proof -
  from can_allocate_ok[OF assms(1,2) index_in_range(2)[OF assms(3)], of bud s] assms(3)
  obtain k where k: "enc_inv sz m1" "enc_cached m1 = enc_cached m |` (- set (map fst (take k (freeable m))))"
    by auto
  then show "enc_inv sz m1" by blast
  have "enc_cached m g = Some {}" if "g \<in> set (map fst (take k (freeable m)))" for g
    using that enc_invD(8)[OF assms(1), of g] by (auto dest: in_set_takeD)
  then have "h \<notin> set (map fst (take k (freeable m)))" if "referenced m r h"
    using that unfolding referenced_def by fastforce
  then show "referenced m1 r h" if "referenced m r h"
    using that unfolding referenced_def k(2) by (simp add: restrict_map_def)
qed

text \<open>The token \<open>t\<close> needs the encoder output of the feature \<open>f\<close>.\<close>

definition needs :: "mm_feature \<Rightarrow> int \<Rightarrow> bool" where
  "needs f t \<longleftrightarrow> embed_at (mm_position f) (t - offset (mm_position f))"

lemma needsD: "needs f t \<Longrightarrow> offset (mm_position f) \<le> t \<and> t < offset (mm_position f) + mm_length (mm_position f)"
  by (auto simp: needs_def embed_at_def)

definition covered :: "request \<Rightarrow> int \<Rightarrow> enc_plan \<Rightarrow> encoder_cache \<Rightarrow> mm_feature \<Rightarrow> bool" where
  "covered r nc s m f \<longleftrightarrow> (\<forall>t. nc \<le> t \<and> t < nc + plan_new s \<and> needs f t \<longrightarrow>
     mm_identifier f \<in> set (plan_hashes s) \<or> referenced m r (mm_identifier f))"

definition loop_effect :: "request \<Rightarrow> enc_plan \<Rightarrow> encoder_cache \<Rightarrow> enc_plan \<Rightarrow> encoder_cache \<Rightarrow> bool" where
  "loop_effect r s m s' m' \<longleftrightarrow> set (plan_hashes s) \<subseteq> set (plan_hashes s') \<and> plan_new s' \<le> plan_new s
     \<and> (\<forall>h. referenced m r h \<longrightarrow> referenced m' r h)"

lemma covered_later:
  "covered r nc s m f \<Longrightarrow> loop_effect r s m s' m' \<Longrightarrow> covered r nc s' m' f"
  unfolding covered_def loop_effect_def by (meson add_left_mono order_less_le_trans subsetD)

lemma covered_vacuous: "nc + plan_new s \<le> offset (mm_position f) \<Longrightarrow> covered r nc s m f"
  using needsD[of f] unfolding covered_def by (meson not_le order_trans)

lemma loop_covers:
  assumes cfg: "\<not> is_encoder_decoder cfg" and r: "sized sz r" and fc: "fits_config cfg nc r"
  shows "enc_inputs_loop check_and_update_cache can_allocate has_item cfg r nc 0 ifs s m = Inr (s', m') \<Longrightarrow>
    enc_inv sz m \<Longrightarrow> \<forall>(i, f) \<in> set ifs. i < length (mm_features r) \<and> f = mm_features r ! i \<Longrightarrow>
    sorted (map (\<lambda>(i, f). offset (mm_position f)) ifs) \<Longrightarrow> 0 \<le> plan_new s \<Longrightarrow>
    loop_effect r s m s' m' \<and> (\<forall>(i, f) \<in> set ifs. covered r nc s' m' f)"
proof (induction ifs arbitrary: s m)
  case Nil
  then show ?case by (simp add: loop_effect_def)
next
  case (Cons x ifs)
  obtain i f where x: "x = (i, f)" by fastforce
  have i: "i < length (mm_features r)" and f: "f = mm_features r ! i" using Cons.prems(3) x by auto
  have pos: "position_ok (mm_position f)" using fc i by (auto simp: fits_config_def f)
  have rest: "\<forall>(i, f) \<in> set ifs. i < length (mm_features r) \<and> f = mm_features r ! i"
    "sorted (map (\<lambda>(i, f). offset (mm_position f)) ifs)" using Cons.prems(3,4) by auto
  have below: "\<forall>(j, g) \<in> set (x # ifs). offset (mm_position f) \<le> offset (mm_position g)"
    using Cons.prems(4) by (auto simp: x)
  note IH = Cons.IH[OF _ _ rest]
  have stop: "\<forall>(j, g) \<in> set (x # ifs). covered r nc s' m' g" if "nc + plan_new s' \<le> offset (mm_position f)"
    using that below by (auto intro!: covered_vacuous)
  have zero: "\<forall>(j, g) \<in> set (x # ifs). covered r nc s' m' g" if "plan_new s' = 0"
    using that by (auto simp: covered_def)
  from Cons.prems(1)[unfolded x] cfg show ?case
  proof (cases rule: loop_cases)
    case past
    then show ?thesis using stop by (simp add: loop_effect_def)
  next
    case early
    from IH[OF early(2) Cons.prems(2,5)] have "loop_effect r s m s' m'" "\<forall>(j, g) \<in> set ifs. covered r nc s' m' g"
      by blast+
    moreover have "covered r nc s m f" using early(1) needsD[of f] unfolding covered_def by (meson leD order_trans)
    ultimately show ?thesis using covered_later by (auto simp: x)
  next
    case dup
    from IH[OF dup(2) Cons.prems(2,5)] have "loop_effect r s m s' m'" "\<forall>(j, g) \<in> set ifs. covered r nc s' m' g"
      by blast+
    moreover have "covered r nc s m f" using dup(1) by (simp add: covered_def)
    ultimately show ?thesis using covered_later by (auto simp: x)
  next
    case (hit m1)
    note c = check_referenced[OF Cons.prems(2) hit(1)]
    from IH[OF hit(2) c(1) Cons.prems(5)] have "loop_effect r s m1 s' m'" "\<forall>(j, g) \<in> set ifs. covered r nc s' m' g"
      by blast+
    moreover have "covered r nc s m1 f" using c(3) by (simp add: covered_def f)
    ultimately show ?thesis using covered_later c(2) by (auto simp: x loop_effect_def)
  next
    case roll
    note c = check_referenced[OF Cons.prems(2) roll(1)]
    have "plan_new s' = offset (mm_position f) - nc" using roll(3,4) by simp
    with stop roll c(2) show ?thesis by (auto simp: loop_effect_def)
  next
    case (full m1)
    note c = check_referenced[OF Cons.prems(2) full(1)]
    note d = can_referenced[OF c(1) r full(3)]
    have "(\<forall>(j, g) \<in> set (x # ifs). covered r nc s' m' g) \<and> plan_new s' \<le> plan_new s"
    proof (cases "nc < offset (mm_position f)")
      case True
      with full(2,4) stop show ?thesis by simp
    next
      case False
      with full(4) zero Cons.prems(5) show ?thesis by simp
    qed
    with full(4) c(2) d(2) show ?thesis by (auto simp: loop_effect_def)
  next
    case (none m1 m2 a)
    note c = check_referenced[OF Cons.prems(2) none(1)]
    note d = can_referenced[OF c(1) r none(2)]
    from IH[OF none(4) d(1) Cons.prems(5)] have IH': "loop_effect r s m2 s' m'" "\<forall>(j, g) \<in> set ifs. covered r nc s' m' g"
      by blast+
    have "covered r nc s m2 f" unfolding covered_def
    proof (intro allI impI, elim conjE)
      fix t assume t: "nc \<le> t" "t < nc + plan_new s" "needs f t"
      then have "\<not> embed_at (mm_position f) (t - offset (mm_position f))"
        using needsD[OF t(3)] by (intro no_embeds_between[OF none(3) pos]) auto
      with t(3) show "mm_identifier f \<in> set (plan_hashes s) \<or> referenced m2 r (mm_identifier f)"
        by (simp add: needs_def)
    qed
    with IH' covered_later c(2) d(2) show ?thesis by (auto simp: x loop_effect_def)
  next
    case (plan m1 m2 s1)
    note c = check_referenced[OF Cons.prems(2) plan(1)]
    note d = can_referenced[OF c(1) r plan(2)]
    have "0 \<le> plan_new s1" using plan(4) Cons.prems(5) by simp
    from IH[OF plan(5) d(1) this] have IH': "loop_effect r s1 m2 s' m'" "\<forall>(j, g) \<in> set ifs. covered r nc s' m' g"
      by blast+
    have "covered r nc s1 m2 f" using plan(3) by (simp add: covered_def)
    from covered_later[OF this IH'(1)] IH' plan(3,4) c(2) d(2) show ?thesis by (auto simp: x loop_effect_def)
  qed
qed

lemma enc_allocate_referenced:
  assumes "enc_allocate r i m = Inr m'"
  shows "referenced m' r (hash_of r i)" and "referenced m r h \<Longrightarrow> referenced m' r h"
proof -
  have i: "i < length (mm_features r)" by (rule index_in_range(3)[OF assms])
  from assms i have "enc_cached m' = (enc_cached m)(hash_of r i \<mapsto> insert (request_id r)
      (case enc_cached m (hash_of r i) of None \<Rightarrow> {} | Some refs \<Rightarrow> refs))"
    unfolding enc_allocate_def Let_def
    by (auto elim!: bindE_InrE simp: hash_of_def split: option.splits if_splits)
  then show "referenced m' r (hash_of r i)" and "referenced m r h \<Longrightarrow> referenced m' r h"
    by (auto simp: referenced_def)
qed

lemma allocate_all_referenced:
  "foldE (enc_allocate r) js m = Inr m' \<Longrightarrow>
   (\<forall>i \<in> set js. referenced m' r (hash_of r i)) \<and> (\<forall>h. referenced m r h \<longrightarrow> referenced m' r h)"
proof (induction js arbitrary: m)
  case (Cons i js)
  from Cons.prems obtain m1 where m1: "enc_allocate r i m = Inr m1" "foldE (enc_allocate r) js m1 = Inr m'"
    by (auto elim!: bindE_InrE)
  from Cons.IH[OF m1(2)] enc_allocate_referenced[OF m1(1)] show ?case by auto
qed simp

text \<open>
  C31. No encoder cache miss: once the planned inputs are allocated, every token the request may
  compute in this step, \<open>[nc, nc + plan_new s)\<close>, that needs the output of an encoder
  input finds it in the cache, referenced by the request (so it cannot be evicted). This is
  without the EAGLE shift and with features in the order of their positions.
\<close>

theorem no_encoder_cache_miss:
  assumes "enc_reach sz n m" and "sized sz r" and "\<not> is_encoder_decoder cfg"
    and "fits_config cfg nc r" and "0 \<le> budget" and "0 \<le> new"
    and "sorted (map (\<lambda>f. offset (mm_position f)) (mm_features r))"
    and "try_schedule_encoder_inputs check_and_update_cache can_allocate has_item cfg r nc new budget 0 m = Inr (s, m')"
    and "allocate_plan enc_allocate r s m' = Inr m''"
    and "f \<in> set (mm_features r)" and "nc \<le> t" and "t < nc + plan_new s" and "needs f t"
  shows "\<exists>refs. enc_cached m'' (mm_identifier f) = Some refs \<and> request_id r \<in> refs"
proof -
  have inv: "enc_inv sz m" using enc_reach_inv[OF assms(1)] by blast
  have "is_encoder_decoder cfg = False" using assms(3) by simp
  from mm.try_schedule_planned[OF assms(2) this assms(4) inv enc_invD(3)[OF inv] assms(5,6), of has_item 0]
  have hashes: "set (plan_hashes s) = hash_of r ` set (plan_ids s @ plan_external s)"
    using assms(8) by (auto simp: mm.planned_def)
  define s0 where "s0 = \<lparr>plan_ids = [], plan_external = [], plan_hashes = [], plan_embeds = 0,
    plan_new = new, plan_budget = budget\<rparr>"
  have new: "0 < new"
  proof (rule ccontr)
    assume "\<not> 0 < new"
    with assms(6,8) have "plan_new s = 0" by (auto simp: try_schedule_encoder_inputs_def)
    with assms(11,12) show False by simp
  qed
  have "mm_features r \<noteq> []" using assms(10) by auto
  with new assms(8) have run: "enc_inputs_loop check_and_update_cache can_allocate has_item cfg r nc 0
      (enumerate 0 (mm_features r)) s0 m = Inr (s, m')"
    by (simp add: try_schedule_encoder_inputs_def s0_def has_encoder_inputs_def num_encoder_inputs_def)
  have "map (\<lambda>(i, f). offset (mm_position f)) (enumerate 0 (mm_features r)) = map (\<lambda>f. offset (mm_position f)) (mm_features r)"
    by (simp add: enumerate_eq_zip map_zip_map2 case_prod_unfold comp_def map_snd_zip
        flip: map_map[of "\<lambda>f. offset (mm_position f)" snd, unfolded comp_def])
  with assms(7) have ord: "sorted (map (\<lambda>(i, f). offset (mm_position f)) (enumerate 0 (mm_features r)))" by simp
  have idx: "\<forall>(i, f) \<in> set (enumerate 0 (mm_features r)). i < length (mm_features r) \<and> f = mm_features r ! i"
    by (auto simp: in_set_enumerate_eq)
  have "0 \<le> plan_new s0" using assms(6) by (simp add: s0_def)
  from loop_covers[OF assms(3,2,4) run inv idx ord this]
  have "\<forall>(i, f) \<in> set (enumerate 0 (mm_features r)). covered r nc s m' f" by blast
  moreover from assms(10) obtain i where "i < length (mm_features r)" "f = mm_features r ! i"
    by (auto simp: in_set_conv_nth)
  then have "(i, f) \<in> set (enumerate 0 (mm_features r))" by (simp add: in_set_enumerate_eq)
  ultimately have "covered r nc s m' f" by blast
  with assms(11-13) have "mm_identifier f \<in> set (plan_hashes s) \<or> referenced m' r (mm_identifier f)"
    unfolding covered_def by blast
  with allocate_all_referenced[OF assms(9)[unfolded allocate_plan_def]] have "referenced m'' r (mm_identifier f)"
    unfolding hashes by auto
  then show ?thesis by (simp add: referenced_def)
qed

section \<open>Freeing encoder inputs after a step\<close>

text \<open>\<open>Scheduler._free_encoder_inputs\<close>\<close>

definition free_encoder_inputs ::
  "(request \<Rightarrow> 'm \<Rightarrow> nat list) \<Rightarrow> (request \<Rightarrow> nat \<Rightarrow> 'm \<Rightarrow> 'm result) \<Rightarrow> enc_config \<Rightarrow> request \<Rightarrow> 'm \<Rightarrow> 'm result" where
  "free_encoder_inputs cached_ids free_input cfg r m =
     foldE (\<lambda>i m. bindE (nth_or_raise (mm_features r) i) (\<lambda>f.
       if is_encoder_decoder cfg \<and> num_computed_tokens r > 0 then free_input r i m
       else if offset (mm_position f) + mm_length (mm_position f) \<le> num_computed_tokens r then free_input r i m
       else Inr m)) (cached_ids r m) m"

text \<open>
  For an encoder-decoder request the slots of its inputs are given back after every step,
  although they were taken once: the free slots grow without bound, past the cache size.
\<close>

lemma encdec_slots_grow:
  assumes "is_encoder_decoder cfg" and "0 < num_computed_tokens r"
  shows "\<exists>m'. free_encoder_inputs ed_cached_input_ids ed_free_encoder_input cfg r m = Inr m'
    \<and> ed_free_slots m' = ed_free_slots m + sum_list (map (embeds_of r) [0..<length (mm_features r)])"
proof -
  have "\<exists>m'. foldE (\<lambda>i m. bindE (nth_or_raise (mm_features r) i) (\<lambda>f.
       if is_encoder_decoder cfg \<and> num_computed_tokens r > 0 then ed_free_encoder_input r i m
       else if offset (mm_position f) + mm_length (mm_position f) \<le> num_computed_tokens r
            then ed_free_encoder_input r i m
       else Inr m)) js m = Inr m' \<and> ed_free_slots m' = ed_free_slots m + sum_list (map (embeds_of r) js)"
    if "\<forall>j \<in> set js. j < length (mm_features r)" for js
    using that
  proof (induction js arbitrary: m)
    case (Cons j js)
    let ?m = "m\<lparr>ed_free_slots := ed_free_slots m + embeds_of r j\<rparr>"
    have "ed_free_encoder_input r j m = Inr ?m"
      using Cons.prems by (simp add: ed_free_encoder_input_def get_num_encoder_embeds_def embeds_of_def)
    with Cons.IH[of ?m] Cons.prems assms show ?case by auto
  qed simp
  from this[of "[0..<length (mm_features r)]"] show ?thesis
    by (simp add: free_encoder_inputs_def ed_cached_input_ids_def)
qed

text \<open>
  With the EAGLE shift of one token the loop looks at an input that starts exactly at the end
  of the chunk, which the drafter then reads, but the range of embeddings it computes ignores
  the shift and is empty: the input is not planned.
\<close>

lemma eagle_boundary_not_planned:
  assumes "mm_features r = [f]" and "is_embed (mm_position f) = None" and "0 < mm_length (mm_position f)"
    and "offset (mm_position f) = nc + new" and "0 < new"
    and "\<not> is_encoder_decoder cfg" and "\<not> disable_chunked_mm_input cfg"
    and "check_and_update_cache r 0 m = Inr (False, m1)" and "can_allocate r 0 budget 0 m1 = Inr (True, m2)"
  shows "\<exists>s. try_schedule_encoder_inputs check_and_update_cache can_allocate has_item cfg r nc new budget 1 m = Inr (s, m2)
    \<and> plan_ids s = [] \<and> plan_external s = [] \<and> plan_new s = new \<and> needs f (nc + new)"
  using assms
  by (simp add: try_schedule_encoder_inputs_def has_encoder_inputs_def num_encoder_inputs_def Let_def
      get_embeds_indices_in_range_def embeds_cumsum_def needs_def embed_at_def)

text \<open>
  An entry is a cache hit as soon as it is allocated, whether or not the encoder has run: if the
  request is preempted before the step is executed, another request still hits.
\<close>

lemma preempted_allocation_still_hits:
  assumes "enc_inv sz m" and "sized sz r" and "enc_allocate r i m = Inr m1"
    and "enc_cached m (hash_of r i) = None" and "j < length (mm_features q)" and "hash_of q j = hash_of r i"
  shows "\<exists>m2 m3. enc_free r m1 = Inr m2 \<and> check_and_update_cache q j m2 = Inr (True, m3)"
proof -
  note i = index_in_range(3)[OF assms(3)]
  have abs: "enc_cached m (mm_identifier (mm_features r ! i)) = None" using assms(4) by (simp add: hash_of_def)
  from enc_allocate_ok[OF assms(1,2) i abs enc_allocate_room[OF assms(3,2) abs]] assms(3)
  have m1: "enc_inv sz m1" "enc_cached m1 (hash_of r i) = Some {request_id r}" by (auto simp: hash_of_def)
  from enc_free_ok[OF m1(1) assms(2)] obtain m2 where m2: "enc_free r m1 = Inr m2" "enc_inv sz m2"
    "dom (enc_cached m2) = dom (enc_cached m1)" by blast
  then have "enc_cached m2 (mm_identifier (mm_features q ! j)) \<noteq> None"
    using m1(2) assms(6) by (auto simp: hash_of_def)
  with check_and_update_cache_ok[OF m2(2) assms(5)] m2(1) show ?thesis by auto
qed

section \<open>Concrete instances\<close>

text \<open>A request with one image of three tokens after one text token.\<close>

definition ex_image_request :: request where
  "ex_image_request = (text_request ''a'' 1 0 [1, 2, 3, 4, 5])\<lparr>mm_features :=
     [\<lparr>modality = ''image'', mm_identifier = ''h'',
       mm_position = \<lparr>offset = 1, mm_length = 3, is_embed = None\<rparr>\<rparr>]\<rparr>"

definition ex_enc_config :: "bool \<Rightarrow> enc_config" where
  "ex_enc_config encdec = \<lparr>is_encoder_decoder = encdec, disable_chunked_mm_input = False\<rparr>"

lemma ex_image_facts:
  "mm_features ex_image_request = [\<lparr>modality = ''image'', mm_identifier = ''h'',
       mm_position = \<lparr>offset = 1, mm_length = 3, is_embed = None\<rparr>\<rparr>]"
  "sized (\<lambda>_. 3) ex_image_request" "nonneg_embeds ex_image_request"
  "fits_config (ex_enc_config b) 0 ex_image_request"
  "is_encoder_decoder (ex_enc_config b) = b"
  "enc_reach (\<lambda>_. 3) 8 (new_encoder_cache 8)"
  by (auto simp: ex_image_request_def sized_def get_num_embeds_def embeds_cumsum_def nonneg_embeds_def
      fits_config_def position_ok_def ex_enc_config_def intro: enc_reach.init)

theorem planned_inputs_allocate_witness:
  "\<exists>s m' m''. try_schedule_encoder_inputs check_and_update_cache can_allocate (\<lambda>_. False) (ex_enc_config False)
      ex_image_request 0 5 4 0 (new_encoder_cache 8) = Inr (s, m')
    \<and> allocate_plan enc_allocate ex_image_request s m' = Inr m'' \<and> 0 \<le> num_free_slots m'' \<and> plan_new s \<le> 5"
  using planned_inputs_allocate[OF ex_image_facts(6,2) _ ex_image_facts(4), of False 4 5 "\<lambda>_. False" 0]
  by (auto simp: ex_image_facts(5))

theorem planned_inputs_allocate_encdec_witness:
  "\<exists>s m' m''. try_schedule_encoder_inputs ed_check ed_can_allocate (\<lambda>_. False) (ex_enc_config True)
      ex_image_request 0 5 4 0 (new_encdec_cache 8) = Inr (s, m')
    \<and> allocate_plan ed_allocate ex_image_request s m' = Inr m'' \<and> 0 \<le> ed_free_slots m''"
  using planned_inputs_allocate_encdec[OF _ ex_image_facts(3) _ ex_image_facts(4),
      of "new_encdec_cache 8" True 4 5 "\<lambda>_. False" 0]
  by (auto simp: ex_image_facts(5) new_encdec_cache_def)

theorem no_encoder_cache_miss_witness:
  "\<exists>s m' m'' refs. try_schedule_encoder_inputs check_and_update_cache can_allocate (\<lambda>_. False)
      (ex_enc_config False) ex_image_request 0 5 4 0 (new_encoder_cache 8) = Inr (s, m')
    \<and> allocate_plan enc_allocate ex_image_request s m' = Inr m''
    \<and> enc_cached m'' ''h'' = Some refs \<and> request_id ex_image_request \<in> refs"
proof -
  have reach: "enc_reach (\<lambda>_. 3) 8 (new_encoder_cache 8)" and sz: "sized (\<lambda>_. 3) ex_image_request"
    and fc: "fits_config (ex_enc_config False) 0 ex_image_request" and dec: "\<not> is_encoder_decoder (ex_enc_config False)"
    using ex_image_facts by blast+
  have run: "\<exists>s m' m''. try_schedule_encoder_inputs check_and_update_cache can_allocate (\<lambda>_. False) (ex_enc_config False)
      ex_image_request 0 5 4 0 (new_encoder_cache 8) = Inr (s, m') \<and> plan_new s = 5
      \<and> allocate_plan enc_allocate ex_image_request s m' = Inr m''"
    by (simp add: try_schedule_encoder_inputs_def has_encoder_inputs_def num_encoder_inputs_def ex_image_facts(1)
        ex_enc_config_def new_encoder_cache_def check_and_update_cache_def can_allocate_def
        get_num_encoder_embeds_def get_num_embeds_def embeds_cumsum_def get_embeds_indices_in_range_def
        allocate_plan_def enc_allocate_def)
  then obtain s m' m'' where s: "try_schedule_encoder_inputs check_and_update_cache can_allocate (\<lambda>_. False)
      (ex_enc_config False) ex_image_request 0 5 4 0 (new_encoder_cache 8) = Inr (s, m')" "plan_new s = 5"
      "allocate_plan enc_allocate ex_image_request s m' = Inr m''" by blast
  let ?f = "hd (mm_features ex_image_request)"
  have f: "?f \<in> set (mm_features ex_image_request)" "mm_identifier ?f = ''h''" by (simp_all add: ex_image_facts(1))
  have "needs ?f 2" by (simp add: ex_image_facts(1) needs_def embed_at_def)
  moreover have "sorted (map (\<lambda>f. offset (mm_position f)) (mm_features ex_image_request))"
    by (simp add: ex_image_facts(1))
  ultimately show ?thesis
    using no_encoder_cache_miss[OF reach sz dec fc _ _ _ s(1,3) f(1), of 2] s f(2) by auto
qed

theorem encoder_slots_add_up_witness:
  "num_free_slots (new_encoder_cache 8) = 8 - (\<Sum>h \<in> dom (enc_cached (new_encoder_cache 8)). 3)
   \<and> num_freeable_slots (new_encoder_cache 8) \<le> 8"
  using encoder_slots_add_up[OF ex_image_facts(6)] by simp

theorem eviction_oldest_unreferenced_witness:
  "\<exists>m' k. can_allocate ex_image_request 0 4 0 (new_encoder_cache 8) = Inr (True, m')
    \<and> freeable m' = drop k (freeable (new_encoder_cache 8))"
proof -
  have "0 < length (mm_features ex_image_request)" by (simp add: ex_image_facts(1))
  from eviction_oldest_unreferenced[OF ex_image_facts(6,2) this, of 4 0] show ?thesis
    by (auto simp: new_encoder_cache_def)
qed

end
