(* ===== verification/Scheduler_State.thy ===== *)
theory Scheduler_State
  imports Queue_Correct SLO_Manager Encoder_Schedule KV_Cache_Manager "HOL-Library.AList"
begin

text \<open>
  \<open>vllm/v1/core/sched/scheduler.py\<close>: configuration and state of the scheduler, and
  the operations on one request that \<open>schedule\<close> is built from. Requests are objects
  shared by many lists, so the lists hold ids and the objects live in a store. Dicts whose
  order is observed are association lists. KV and encoder connectors are absent
  (\<open>connector = None\<close>, \<open>ec_connector = None\<close>), routed experts and statistics
  for logging are left out.
\<close>

section \<open>Configuration\<close>

text \<open>
  \<open>sc_digest\<close> digests prompt embeddings, \<open>sc_hasher\<close> is the block hasher of the
  requests and \<open>sc_oid\<close> is \<open>id\<close>, the last tie-breaker of comparisons.
\<close>

record sched_config =
  sc_max_running :: nat
  sc_max_tokens :: int
  sc_max_len :: int
  sc_max_enc_tokens :: int
  sc_long_prefill :: int
  sc_chunked_prefill :: bool
  sc_reserve_full :: bool
  sc_lookahead :: int
  sc_eagle :: bool
  sc_mamba_split :: bool
  sc_cache_block_size :: int
  sc_num_blocks :: int
  sc_block_size :: int
  sc_enc :: enc_config
  sc_log_stats :: bool
  sc_zeroing :: bool
  sc_pp :: bool
  sc_async :: bool
  sc_v2_runner :: bool
  sc_num_spec :: nat
  sc_policy :: scheduling_policy
  sc_slo_policy :: string
  sc_digest :: "int list \<Rightarrow> bytes"
  sc_hasher :: "block_hasher option"
  sc_oid :: "request \<Rightarrow> int"

datatype pause_state = UNPAUSED | PAUSED_NEW | PAUSED_ALL

section \<open>The encoder cache behind its interface\<close>

datatype enc_manager = MM encoder_cache | EncDec encdec_cache

definition lift_enc :: "(encoder_cache \<Rightarrow> ('a \<times> encoder_cache) result) \<Rightarrow>
    (encdec_cache \<Rightarrow> ('a \<times> encdec_cache) result) \<Rightarrow> enc_manager \<Rightarrow> ('a \<times> enc_manager) result" where
  "lift_enc f g m = (case m of
      MM c \<Rightarrow> bindE (f c) (\<lambda>(x, c'). Inr (x, MM c'))
    | EncDec c \<Rightarrow> bindE (g c) (\<lambda>(x, c'). Inr (x, EncDec c')))"

definition lift_enc_unit :: "(encoder_cache \<Rightarrow> encoder_cache result) \<Rightarrow>
    (encdec_cache \<Rightarrow> encdec_cache result) \<Rightarrow> enc_manager \<Rightarrow> enc_manager result" where
  "lift_enc_unit f g m = (case m of
      MM c \<Rightarrow> bindE (f c) (\<lambda>c'. Inr (MM c'))
    | EncDec c \<Rightarrow> bindE (g c) (\<lambda>c'. Inr (EncDec c')))"

definition em_check :: "request \<Rightarrow> nat \<Rightarrow> enc_manager \<Rightarrow> (bool \<times> enc_manager) result" where
  "em_check r i = lift_enc (check_and_update_cache r i) (ed_check r i)"

definition em_can :: "request \<Rightarrow> nat \<Rightarrow> int \<Rightarrow> int \<Rightarrow> enc_manager \<Rightarrow> (bool \<times> enc_manager) result" where
  "em_can r i b s = lift_enc (can_allocate r i b s) (ed_can_allocate r i b s)"

definition em_alloc :: "request \<Rightarrow> nat \<Rightarrow> enc_manager \<Rightarrow> enc_manager result" where
  "em_alloc r i = lift_enc_unit (enc_allocate r i) (ed_allocate r i)"

definition em_free :: "request \<Rightarrow> enc_manager \<Rightarrow> enc_manager result" where
  "em_free r = lift_enc_unit (enc_free r) (ed_free r)"

definition em_free_input :: "request \<Rightarrow> nat \<Rightarrow> enc_manager \<Rightarrow> enc_manager result" where
  "em_free_input r i = lift_enc_unit (free_encoder_input r i) (ed_free_encoder_input r i)"

definition em_cached_ids :: "request \<Rightarrow> enc_manager \<Rightarrow> nat list" where
  "em_cached_ids r m = (case m of MM c \<Rightarrow> get_cached_input_ids r c | EncDec c \<Rightarrow> ed_cached_input_ids r c)"

definition em_freed :: "enc_manager \<Rightarrow> string list \<times> enc_manager" where
  "em_freed m = (case m of
      MM c \<Rightarrow> (case get_freed_mm_hashes c of (hs, c') \<Rightarrow> (hs, MM c'))
    | EncDec c \<Rightarrow> (case ed_get_freed c of (hs, c') \<Rightarrow> (hs, EncDec c')))"

definition em_reset :: "enc_manager \<Rightarrow> enc_manager" where
  "em_reset m = (case m of MM c \<Rightarrow> MM (enc_reset c) | EncDec c \<Rightarrow> EncDec (ed_reset c))"

section \<open>State\<close>

text \<open>\<open>sd_requests\<close> lists the keys of \<open>self.requests\<close> in the order of insertion.\<close>

record scheduler =
  sd_store :: store
  sd_requests :: "rid list"
  sd_waiting :: request_queue
  sd_skipped :: request_queue
  sd_running :: "rid list"
  sd_finished :: "rid set"
  sd_finished_dict :: "(int \<rightharpoonup> rid set) option"
  sd_streaming :: int
  sd_qm :: queue_manager
  sd_km :: kv_cache_manager
  sd_enc :: enc_manager
  sd_prev :: "rid set"
  sd_pause :: pause_state

definition sched_lt :: "sched_config \<Rightarrow> store \<Rightarrow> rid \<Rightarrow> rid \<Rightarrow> bool" where
  "sched_lt cfg = queue_lt (sc_oid cfg)"

definition upd_req :: "rid \<Rightarrow> (request \<Rightarrow> request) \<Rightarrow> store \<Rightarrow> store" where
  "upd_req r f st = st(r := f (st r))"

lemma upd_req_simps [simp]:
  "upd_req r f st r = f (st r)" "r' \<noteq> r \<Longrightarrow> upd_req r f st r' = st r'"
  by (simp_all add: upd_req_def)

section \<open>Operations on one request\<close>

text \<open>\<open>_mamba_block_aligned_split\<close>, without external tokens.\<close>

definition mamba_block_aligned_split :: "sched_config \<Rightarrow> request \<Rightarrow> int \<Rightarrow> int \<Rightarrow> int" where
  "mamba_block_aligned_split cfg r num_new n_local =
     (let n_comp = num_computed_tokens r + n_local in
      if n_comp < max (num_prompt_tokens r) (num_tokens r - 1)
      then let bs = sc_cache_block_size cfg;
               last0 = num_tokens r - num_tokens r mod bs;
               last' = (if sc_eagle cfg then max (last0 - bs) 0 else last0);
               after = n_comp + num_new in
        if after < last' then num_new div bs * bs
        else if n_comp < last' \<and> last' < after then last' - n_comp
        else num_new
      else num_new)"

definition log_event :: "sched_config \<Rightarrow> event_type \<Rightarrow> real \<Rightarrow> request \<Rightarrow> request" where
  "log_event cfg ty t r = (if sc_log_stats cfg then record_event ty t r else r)"

text \<open>\<open>_preempt_request\<close>: frees what the request holds; it is not queued again.\<close>

definition preempt_request ::
  "sched_config \<Rightarrow> real \<Rightarrow> rid \<Rightarrow> store \<Rightarrow> kv_cache_manager \<Rightarrow> enc_manager \<Rightarrow>
   (store \<times> kv_cache_manager \<times> enc_manager) result" where
  "preempt_request cfg ts v st km em =
     bindE (assertE (status (st v) = RUNNING)) (\<lambda>_.
     bindE (km_free (st v) km) (\<lambda>km'.
     bindE (em_free (st v) em) (\<lambda>em'.
       Inr (upd_req v (\<lambda>r. log_event cfg EV_PREEMPTED ts
              (r\<lparr>status := PREEMPTED, num_computed_tokens := 0, spec_token_ids := [],
                 num_preemptions := num_preemptions r + 1\<rparr>)) st, km', em'))))"

text \<open>\<open>_try_schedule_encoder_inputs\<close> on the scheduler's manager, without a connector.\<close>

definition plan_encoder ::
  "sched_config \<Rightarrow> request \<Rightarrow> int \<Rightarrow> int \<Rightarrow> int \<Rightarrow> enc_manager \<Rightarrow> (enc_plan \<times> enc_manager) result" where
  "plan_encoder cfg r n_comp n_new budget em =
     (if has_encoder_inputs r
      then try_schedule_encoder_inputs em_check em_can (\<lambda>_. False) (sc_enc cfg) r n_comp n_new budget
             (if sc_eagle cfg then 1 else 0) em
      else Inr (\<lparr>plan_ids = [], plan_external = [], plan_hashes = [], plan_embeds = 0,
                 plan_new = n_new, plan_budget = budget\<rparr>, em))"

definition sum_embeds :: "request \<Rightarrow> nat list \<Rightarrow> int result" where
  "sum_embeds r is' = foldE (\<lambda>i n. bindE (get_num_encoder_embeds r i) (\<lambda>e. Inr (n + e))) is' 0"

end
