(* ===== verification/Schedule.thy ===== *)
theory Schedule
  imports Scheduler_State
begin

text \<open>
  \<open>Scheduler.schedule\<close>. One step orders all requests by priority, visits them in that
  order with a token budget, preempts the least urgent running request whenever blocks run
  out, and splits the list into running and waiting requests again. The local variables of the
  method are the record \<open>step\<close>; one iteration of the loop is \<open>visit\<close>, whose
  result says how the iteration ended. A loop that never ends is \<open>None\<close>.
\<close>

section \<open>The local variables of a step\<close>

record step =
  sp_store :: store
  sp_qm :: queue_manager
  sp_km :: kv_cache_manager
  sp_enc :: enc_manager
  sp_budget :: int
  sp_enc_budget :: int
  sp_index :: nat
  sp_new :: "rid list"
  sp_resumed :: "rid list"
  sp_running :: "rid list"
  sp_preempted :: "rid list"
  sp_blocks :: "rid \<rightharpoonup> nat list list"
  sp_tokens :: "(rid \<times> int) list"
  sp_spec :: "rid \<rightharpoonup> int list"
  sp_enc_inputs :: "rid \<rightharpoonup> nat list"

text \<open>\<open>Next\<close>: the iteration ended (\<open>continue\<close> or its last line), \<open>Break\<close>:
  the loop ended, \<open>Fall\<close>: on to the next statement of the body.\<close>

datatype flow = Next step | Break step | Fall step

section \<open>Making room\<close>

text \<open>A victim that was scheduled in this step is taken out of it again.\<close>

definition unschedule :: "rid \<Rightarrow> step \<Rightarrow> step result" where
  "unschedule v s =
     (if v \<in> set (sp_running s)
      then (case map_of (sp_tokens s) v of
          None \<Rightarrow> Inl KeyError
        | Some n \<Rightarrow>
            if sp_blocks s v = None then Inl KeyError
            else bindE (case sp_enc_inputs s v of
                    None \<Rightarrow> Inr 0 | Some ids \<Rightarrow> sum_embeds (sp_store s v) ids) (\<lambda>e.
              Inr (s\<lparr>sp_running := remove1 v (sp_running s), sp_budget := sp_budget s + n,
                     sp_tokens := AList.delete v (sp_tokens s), sp_blocks := (sp_blocks s)(v := None),
                     sp_spec := (sp_spec s)(v := None), sp_enc_inputs := (sp_enc_inputs s)(v := None),
                     sp_enc_budget := sp_enc_budget s + e, sp_index := sp_index s - 1\<rparr>)))
      else Inr s)"

definition preempt_step :: "sched_config \<Rightarrow> real \<Rightarrow> rid \<Rightarrow> step \<Rightarrow> step result" where
  "preempt_step cfg ts v s =
     bindE (unschedule v s) (\<lambda>s1.
     bindE (preempt_request cfg ts v (sp_store s1) (sp_km s1) (sp_enc s1)) (\<lambda>(st, km, em).
     bindE (update_idxs_after_preemption (sp_qm s1)) (\<lambda>qm.
       Inr (s1\<lparr>sp_store := st, sp_km := km, sp_enc := em, sp_qm := qm,
               sp_preempted := sp_preempted s1 @ [v]\<rparr>))))"

text \<open>The loop around \<open>allocate_slots\<close>: \<open>alloc\<close> is the call, \<open>rid\<close> the
  request it is for.\<close>

partial_function (option) alloc_loop ::
  "sched_config \<Rightarrow> real \<Rightarrow> (request \<Rightarrow> kv_cache_manager \<Rightarrow> (nat list list option \<times> kv_cache_manager) result) \<Rightarrow>
   rid \<Rightarrow> step \<Rightarrow> (nat list list option \<times> step) result option" where
  "alloc_loop cfg ts alloc rid s =
     (case alloc (sp_store s rid) (sp_km s) of
        Inl e \<Rightarrow> Some (Inl e)
      | Inr (res, km) \<Rightarrow>
          let s1 = s\<lparr>sp_km := km\<rparr> in
          if res \<noteq> None then Some (Inr (res, s1))
          else (case last_running_idx (sp_qm s1) of
              None \<Rightarrow> Some (Inr (None, s1))
            | Some l \<Rightarrow>
                if l \<ge> length (combined (sp_qm s1)) then Some (Inl IndexError)
                else let v = combined (sp_qm s1) ! l;
                         pv = priority (sp_store s1 v); pr = priority (sp_store s1 rid) in
                if pv \<noteq> 0 \<and> pr \<noteq> 0 \<and> pv < pr then Some (Inr (None, s1))
                else (case preempt_step cfg ts v s1 of
                    Inl e \<Rightarrow> Some (Inl e)
                  | Inr s2 \<Rightarrow> if v = rid then Some (Inr (None, s2)) else alloc_loop cfg ts alloc rid s2)))"

section \<open>A running request\<close>

definition note_encoder :: "rid \<Rightarrow> enc_plan \<Rightarrow> step \<Rightarrow> step result" where
  "note_encoder rid plan s =
     (let s1 = (if plan_ids plan \<noteq> []
                then s\<lparr>sp_enc_inputs := (sp_enc_inputs s)(rid \<mapsto> plan_ids plan), sp_enc_budget := plan_budget plan\<rparr>
                else s) in
      bindE (allocate_plan em_alloc (sp_store s rid) plan (sp_enc s)) (\<lambda>em. Inr (s1\<lparr>sp_enc := em\<rparr>)))"

definition note_spec :: "rid \<Rightarrow> int \<Rightarrow> step \<Rightarrow> step" where
  "note_spec rid n s =
     (let r = sp_store s rid in
      if spec_token_ids r = [] then s
      else let k = n + num_computed_tokens r - num_tokens r - num_output_placeholders r in
        s\<lparr>sp_spec := (if k > 0 then (sp_spec s)(rid \<mapsto> take (nat k) (spec_token_ids r)) else sp_spec s),
          sp_store := upd_req rid (\<lambda>r. r\<lparr>spec_token_ids := []\<rparr>) (sp_store s)\<rparr>)"

definition running_tokens :: "sched_config \<Rightarrow> request \<Rightarrow> int \<Rightarrow> int" where
  "running_tokens cfg r budget =
     (let n0 = num_tokens_with_spec r + num_output_placeholders r - num_computed_tokens r;
          n1 = (if 0 < sc_long_prefill cfg \<and> sc_long_prefill cfg < n0 then sc_long_prefill cfg else n0) in
      min (min n1 budget) (sc_max_len cfg - 1 - num_computed_tokens r))"

definition visit_running :: "sched_config \<Rightarrow> real \<Rightarrow> rid \<Rightarrow> step \<Rightarrow> flow result option" where
  "visit_running cfg ts rid s =
     (let r = sp_store s rid in
      case plan_encoder cfg r (num_computed_tokens r) (running_tokens cfg r (sp_budget s)) (sp_enc_budget s) (sp_enc s) of
        Inl e \<Rightarrow> Some (Inl e)
      | Inr (plan, em) \<Rightarrow>
          let n = (if sc_mamba_split cfg then mamba_block_aligned_split cfg r (plan_new plan) 0 else plan_new plan);
              s1 = s\<lparr>sp_enc := em\<rparr> in
          if n = 0 then Some (Inr (Next (s1\<lparr>sp_index := sp_index s1 + 1\<rparr>)))
          else Option.bind (alloc_loop cfg ts
                 (\<lambda>r. allocate_slots (sc_digest cfg) r n 0 None (sc_lookahead cfg) 0 False 0 False) rid s1)
            (\<lambda>res. Some (bindE res (\<lambda>(new, s2). case new of
                None \<Rightarrow> Inr (Break s2)
              | Some bs \<Rightarrow>
                  let s3 = s2\<lparr>sp_running := sp_running s2 @ [rid], sp_blocks := (sp_blocks s2)(rid \<mapsto> bs),
                              sp_tokens := AList.update rid n (sp_tokens s2), sp_budget := sp_budget s2 - n,
                              sp_index := sp_index s2 + 1\<rparr> in
                  bindE (note_encoder rid plan (note_spec rid n s3)) (\<lambda>s4. Inr (Fall s4))))))"

section \<open>A waiting request\<close>

definition ignore_request :: "rid \<Rightarrow> step \<Rightarrow> flow result" where
  "ignore_request rid s =
     bindE (update_idxs_after_ignored (sp_qm s)) (\<lambda>qm.
       Inr (Next (s\<lparr>sp_store := upd_req rid (\<lambda>r. r\<lparr>status := FINISHED_IGNORED\<rparr>) (sp_store s),
                    sp_qm := qm, sp_index := sp_index s + 1\<rparr>)))"

text \<open>The cached prefix of a request with no computed tokens, which also sets its statistics.\<close>

definition computed_prefix ::
  "rid \<Rightarrow> step \<Rightarrow> (nat list list option \<times> int \<times> int \<times> step) result option" where
  "computed_prefix rid s =
     (let r = sp_store s rid in
      if num_computed_tokens r \<noteq> 0 then Some (Inr (None, 0, num_computed_tokens r, s))
      else Option.bind (get_computed_blocks r (sp_km s)) (\<lambda>res. Some (bindE res (\<lambda>(bs, n_local).
        bindE (assertE (n_local \<le> num_tokens r)) (\<lambda>_.
        bindE (case prefill_stats r of
            None \<Rightarrow> Inr s
          | Some _ \<Rightarrow> bindE (assertE (n_local \<le> num_prompt_tokens r)) (\<lambda>_.
              bindE (prefill_stats_set (num_prompt_tokens r) n_local 0) (\<lambda>ps.
                Inr (s\<lparr>sp_store := upd_req rid (\<lambda>r. r\<lparr>prefill_stats := Some ps\<rparr>) (sp_store s)\<rparr>)))) (\<lambda>s1.
          Inr (create_kv_cache_blocks bs, n_local, n_local, s1)))))))"

text \<open>The encoder part: \<open>Inl\<close> ends the iteration.\<close>

definition waiting_encoder ::
  "sched_config \<Rightarrow> rid \<Rightarrow> int \<Rightarrow> int \<Rightarrow> step \<Rightarrow> (flow + enc_plan \<times> step) result" where
  "waiting_encoder cfg rid n_comp n s =
     (let r = sp_store s rid in
      if has_encoder_inputs r
        \<and> (sum_list (map (\<lambda>f. get_num_embeds (mm_position f)) (mm_features r))
              > (case sp_enc s of MM c \<Rightarrow> cache_size c | EncDec c \<Rightarrow> ed_cache_size c)
           \<or> sum_list (map (\<lambda>f. get_num_embeds (mm_position f)) (mm_features r)) > sc_max_enc_tokens cfg)
      then bindE (ignore_request rid s) (\<lambda>f. Inr (Inl f))
      else bindE (plan_encoder cfg r n_comp n (sp_enc_budget s) (sp_enc s)) (\<lambda>(plan, em).
        let s1 = s\<lparr>sp_enc := em\<rparr> in
        if has_encoder_inputs r \<and> plan_new plan = 0 then Inr (Inl (Break s1)) else Inr (Inr (plan, s1))))"

text \<open>After the blocks are there: bookkeeping of an admitted request.\<close>

definition admit :: "sched_config \<Rightarrow> real \<Rightarrow> rid \<Rightarrow> int \<Rightarrow> int \<Rightarrow> enc_plan \<Rightarrow> step \<Rightarrow> step result" where
  "admit cfg ts rid n n_comp plan s =
     (let s1 = s\<lparr>sp_index := sp_index s + 1,
                 sp_store := upd_req rid (log_event cfg SCHEDULED ts) (sp_store s)\<rparr> in
      bindE (if status (sp_store s1 rid) = WAITING then Inr (s1\<lparr>sp_new := sp_new s1 @ [rid]\<rparr>)
             else if status (sp_store s1 rid) = PREEMPTED then Inr (s1\<lparr>sp_resumed := sp_resumed s1 @ [rid]\<rparr>)
             else Inl RuntimeError) (\<lambda>s2.
      bindE (update_idxs_after_new_scheduling (sp_qm s2)) (\<lambda>qm.
        note_encoder rid plan
          (s2\<lparr>sp_qm := qm, sp_blocks := (sp_blocks s2)(rid \<mapsto> km_get_blocks rid (sp_km s2)),
              sp_tokens := AList.update rid n (sp_tokens s2), sp_budget := sp_budget s2 - n,
              sp_store := upd_req rid (\<lambda>r. r\<lparr>status := RUNNING, num_computed_tokens := n_comp\<rparr>) (sp_store s2)\<rparr>))))"

definition waiting_tokens :: "sched_config \<Rightarrow> request \<Rightarrow> int \<Rightarrow> int" where
  "waiting_tokens cfg r n_comp =
     (let n0 = num_tokens r - n_comp in
      if 0 < sc_long_prefill cfg \<and> sc_long_prefill cfg < n0 then sc_long_prefill cfg else n0)"

definition visit_waiting :: "sched_config \<Rightarrow> real \<Rightarrow> rid \<Rightarrow> step \<Rightarrow> flow result option" where
  "visit_waiting cfg ts rid s =
     (if num_prompt_tokens (sp_store s rid) > sc_num_blocks cfg * sc_block_size cfg
      then Some (ignore_request rid s)
      else Option.bind (computed_prefix rid s) (\<lambda>res. case res of
          Inl e \<Rightarrow> Some (Inl e)
        | Inr (comps, n_local, n_comp, s1) \<Rightarrow>
            let r = sp_store s1 rid; n0 = waiting_tokens cfg r n_comp in
            if \<not> sc_chunked_prefill cfg \<and> n0 > sp_budget s1 then Some (Inr (Break s1))
            else let n1 = min n0 (sp_budget s1) in
              if n1 \<le> 0 then Some (Inl AssertionError)
              else (case waiting_encoder cfg rid n_comp n1 s1 of
                  Inl e \<Rightarrow> Some (Inl e)
                | Inr (Inl f) \<Rightarrow> Some (Inr f)
                | Inr (Inr (plan, s2)) \<Rightarrow>
                    let n = (if sc_mamba_split cfg then mamba_block_aligned_split cfg r (plan_new plan) n_local
                             else plan_new plan) in
                    if sc_mamba_split cfg \<and> n = 0 then Some (Inr (Break s2))
                    else (case (if is_encoder_decoder (sc_enc cfg) \<and> has_encoder_inputs r
                                then sum_embeds r (plan_ids plan) else Inr 0) of
                        Inl e \<Rightarrow> Some (Inl e)
                      | Inr n_enc \<Rightarrow>
                          Option.bind (alloc_loop cfg ts
                            (\<lambda>r. allocate_slots (sc_digest cfg) r n n_local comps
                               (if num_computed_tokens r = 0 then 0 else sc_lookahead cfg) 0 False n_enc (sc_reserve_full cfg))
                            rid s2)
                          (\<lambda>res. Some (bindE res (\<lambda>(new, s3). case new of
                              None \<Rightarrow>
                                if has_encoder_inputs r
                                then bindE (em_free (sp_store s3 rid) (sp_enc s3)) (\<lambda>em. Inr (Break (s3\<lparr>sp_enc := em\<rparr>)))
                                else Inr (Break s3)
                            | Some _ \<Rightarrow> bindE (admit cfg ts rid n n_comp plan s3) (\<lambda>s4. Inr (Next s4)))))))))"

section \<open>The loop\<close>

text \<open>Async scheduling: the previous step is known to reach the token limit.\<close>

definition will_finish :: "request \<Rightarrow> bool" where
  "will_finish r \<longleftrightarrow> num_output_placeholders r > 0
     \<and> num_computed_tokens r + 2 - num_output_placeholders r \<ge> num_prompt_tokens r + max_tokens r"

definition visit :: "sched_config \<Rightarrow> real \<Rightarrow> rid \<Rightarrow> step \<Rightarrow> flow result option" where
  "visit cfg ts rid s =
     (if rid \<in> set (sp_preempted s) then Some (Inr (Break s))
      else if will_finish (sp_store s rid) then Some (Inr (Next (s\<lparr>sp_index := sp_index s + 1\<rparr>)))
      else Option.bind (if rid \<in> running_req_ids (sp_qm s) then visit_running cfg ts rid s else Some (Inr (Fall s)))
        (\<lambda>res. case res of
            Inl e \<Rightarrow> Some (Inl e)
          | Inr (Next s1) \<Rightarrow> Some (Inr (Next s1))
          | Inr (Break s1) \<Rightarrow> Some (Inr (Break s1))
          | Inr (Fall s1) \<Rightarrow>
              if rid \<in> waiting_req_ids (sp_qm s1) then visit_waiting cfg ts rid s1 else Some (Inr (Next s1))))"

partial_function (option) visit_loop :: "sched_config \<Rightarrow> real \<Rightarrow> step \<Rightarrow> step result option" where
  "visit_loop cfg ts s =
     (if sp_index s < length (combined (sp_qm s)) \<and> sp_budget s > 0
      then (case visit cfg ts (combined (sp_qm s) ! sp_index s) s of
          None \<Rightarrow> None
        | Some (Inl e) \<Rightarrow> Some (Inl e)
        | Some (Inr (Next s1)) \<Rightarrow> visit_loop cfg ts s1
        | Some (Inr (Fall s1)) \<Rightarrow> visit_loop cfg ts s1
        | Some (Inr (Break s1)) \<Rightarrow> Some (Inr s1))
      else Some (Inr s))"

section \<open>After the loop\<close>

text \<open>When the budget is spent, the running requests that were not reached are preempted.\<close>

definition preempt_rest :: "sched_config \<Rightarrow> real \<Rightarrow> nat \<Rightarrow> step \<Rightarrow> step result" where
  "preempt_rest cfg ts i s =
     (let v = combined (sp_qm s) ! i in
      if status (sp_store s v) \<noteq> RUNNING then Inr s
      else bindE (km_free (sp_store s v) (sp_km s)) (\<lambda>km.
           bindE (em_free (sp_store s v) (sp_enc s)) (\<lambda>em.
           bindE (update_idxs_after_preemption (sp_qm s)) (\<lambda>qm.
             Inr (s\<lparr>sp_km := km, sp_enc := em, sp_qm := qm, sp_preempted := sp_preempted s @ [v],
                    sp_store := upd_req v (\<lambda>r. log_event cfg EV_PREEMPTED ts
                      (r\<lparr>status := PREEMPTED, num_computed_tokens := 0\<rparr>)) (sp_store s)\<rparr>)))))"

definition preempt_remaining :: "sched_config \<Rightarrow> real \<Rightarrow> step \<Rightarrow> step result" where
  "preempt_remaining cfg ts s =
     (if sp_budget s = 0 \<and> sp_index s < length (combined (sp_qm s))
      then foldE (preempt_rest cfg ts) [sp_index s..<length (combined (sp_qm s))] s
      else Inr s)"

text \<open>The data sent to the workers.\<close>

record new_request_data =
  nr_req_id :: rid
  nr_prompt_token_ids :: "int list option"
  nr_mm_features :: "mm_feature list"
  nr_sampling_params :: "sampling_params option"
  nr_pooling_params :: "pooling_params option"
  nr_block_ids :: "nat list list"
  nr_num_computed_tokens :: int
  nr_lora_request :: "string option"
  nr_prompt_embeds :: "int list option"
  nr_prompt_is_token_ids :: "bool list option"
  nr_prefill_token_ids :: "int list option"

definition new_request_data_of :: "request \<Rightarrow> nat list list \<Rightarrow> int list option \<Rightarrow> new_request_data" where
  "new_request_data_of r blocks prefill =
     \<lparr>nr_req_id = request_id r, nr_prompt_token_ids = prompt_token_ids r, nr_mm_features = mm_features r,
      nr_sampling_params = sampling_params r, nr_pooling_params = pooling_params r, nr_block_ids = blocks,
      nr_num_computed_tokens = num_computed_tokens r, nr_lora_request = lora_request r,
      nr_prompt_embeds = prompt_embeds r, nr_prompt_is_token_ids = prompt_is_token_ids r,
      nr_prefill_token_ids = prefill\<rparr>"

record cached_request_data =
  cr_req_ids :: "rid list"
  cr_resumed :: "rid set"
  cr_new_token_ids :: "int list list"
  cr_all_token_ids :: "rid \<rightharpoonup> int list"
  cr_new_block_ids :: "nat list list option list"
  cr_num_computed :: "int list"
  cr_num_output :: "int list"

text \<open>Slicing with bounds that are not negative.\<close>

definition slice :: "int \<Rightarrow> int \<Rightarrow> 'a list \<Rightarrow> 'a list" where
  "slice a b xs = take (nat b - nat a) (drop (nat a) xs)"

definition cached_one :: "sched_config \<Rightarrow> rid set \<Rightarrow> nat \<Rightarrow> step \<Rightarrow> nat \<times> rid \<Rightarrow>
    cached_request_data \<Rightarrow> cached_request_data result" where
  "cached_one cfg prev n_running s ir d =
     (case ir of (i, rid) \<Rightarrow>
      let r = sp_store s rid; seen = rid \<in> prev in
      bindE (if sc_pp cfg \<and> \<not> sc_async cfg
             then (case map_of (sp_tokens s) rid of
                 None \<Rightarrow> Inl KeyError
               | Some k \<Rightarrow> let n = k - int (length (case sp_spec s rid of None \<Rightarrow> [] | Some t \<Rightarrow> t)) in
                   Inr (cr_new_token_ids d @ [slice (num_computed_tokens r) (num_computed_tokens r + n) (all_token_ids r)]))
             else Inr (cr_new_token_ids d)) (\<lambda>toks.
      bindE (assertE (i \<ge> n_running \<longrightarrow> \<not> seen)) (\<lambda>_.
        case sp_blocks s rid of
          None \<Rightarrow> Inl KeyError
        | Some bs \<Rightarrow> Inr
            \<lparr>cr_req_ids = cr_req_ids d @ [rid],
             cr_resumed = (if i \<ge> n_running then insert rid (cr_resumed d) else cr_resumed d),
             cr_new_token_ids = toks,
             cr_all_token_ids = (if seen then cr_all_token_ids d else (cr_all_token_ids d)(rid \<mapsto> all_token_ids r)),
             cr_new_block_ids = cr_new_block_ids d @ [get_block_ids True bs],
             cr_num_computed = cr_num_computed d @ [num_computed_tokens r],
             cr_num_output = cr_num_output d @ [num_output_tokens r + num_output_placeholders r]\<rparr>)))"

definition make_cached_request_data ::
  "sched_config \<Rightarrow> rid set \<Rightarrow> rid list \<Rightarrow> rid list \<Rightarrow> step \<Rightarrow> cached_request_data result" where
  "make_cached_request_data cfg prev running resumed s =
     foldE (cached_one cfg prev (length running) s) (enumerate 0 (running @ resumed))
       \<lparr>cr_req_ids = [], cr_resumed = {}, cr_new_token_ids = [], cr_all_token_ids = Map.empty,
        cr_new_block_ids = [], cr_num_computed = [], cr_num_output = []\<rparr>"

record sched_output =
  so_new :: "new_request_data list"
  so_cached :: cached_request_data
  so_tokens :: "(rid \<times> int) list"
  so_total :: int
  so_spec :: "rid \<rightharpoonup> int list"
  so_enc_inputs :: "rid \<rightharpoonup> nat list"
  so_common_prefix :: "nat list"
  so_finished :: "rid set"
  so_free_hashes :: "string list"
  so_preempted :: "rid set"
  so_structured :: bool
  so_pending_structured :: bool
  so_to_zero :: "nat list option"

definition new_request_one :: "sched_config \<Rightarrow> step \<Rightarrow> rid \<Rightarrow> new_request_data list \<Rightarrow> new_request_data list result" where
  "new_request_one cfg s rid ds = (case sp_blocks s rid of
      None \<Rightarrow> Inl KeyError
    | Some bs \<Rightarrow> Inr (ds @ [new_request_data_of (sp_store s rid) bs
        (if sc_v2_runner cfg then Some (all_token_ids (sp_store s rid)) else None)]))"

text \<open>\<open>_update_after_schedule\<close> of the scheduler and of the async scheduler. A scheduled id
  that is not in the table raises; the lookups of the loop are made before it, since an error
  drops the state anyway.\<close>

definition find_request :: "rid list \<Rightarrow> rid \<times> int \<Rightarrow> unit \<Rightarrow> unit result" where
  "find_request known rn u = (if fst rn \<in> set known then Inr () else Inl KeyError)"

definition advance_one :: "rid \<times> int \<Rightarrow> store \<times> bool \<Rightarrow> store \<times> bool" where
  "advance_one rn sb = (case rn of (rid, n) \<Rightarrow> case sb of (st, structured) \<Rightarrow>
     let r = st rid; c = num_computed_tokens r + n;
         chunk = (c < num_tokens r + num_output_placeholders r) in
     (upd_req rid (\<lambda>r. r\<lparr>num_computed_tokens := c, is_prefill_chunk := chunk\<rparr>) st,
      structured \<or> use_structured_output r \<and> \<not> chunk))"

definition placeholders_one :: "sched_config \<Rightarrow> (rid \<rightharpoonup> int list) \<Rightarrow> rid \<Rightarrow> store \<times> bool \<Rightarrow> store \<times> bool" where
  "placeholders_one cfg spec rid sb = (case sb of (st, pending) \<Rightarrow>
     let r = st rid in
     if is_prefill_chunk r then (st, pending)
     else (upd_req rid (\<lambda>r. r\<lparr>num_output_placeholders := num_output_placeholders r + 1
               + int (length (case spec rid of None \<Rightarrow> [] | Some t \<Rightarrow> t)),
             spec_token_ids := replicate (sc_num_spec cfg) (- 1)\<rparr>) st,
           pending \<or> use_structured_output r \<and> num_output_placeholders r > 0))"

definition update_after_schedule :: "sched_config \<Rightarrow> sched_output \<Rightarrow> store \<Rightarrow> store \<times> sched_output" where
  "update_after_schedule cfg out st =
     (let (st1, structured) = fold advance_one (so_tokens out) (st, so_structured out);
          (st2, pending) = (if sc_async cfg
             then fold (placeholders_one cfg (so_spec out)) (map fst (so_tokens out)) (st1, so_pending_structured out)
             else (st1, so_pending_structured out)) in
      (st2, out\<lparr>so_structured := structured, so_pending_structured := pending\<rparr>))"

section \<open>The step\<close>

definition start_step :: "sched_config \<Rightarrow> scheduler \<Rightarrow> store \<Rightarrow> queue_manager \<Rightarrow> step" where
  "start_step cfg s st qm =
     (let run = reorder_running_queue st (sd_running s);
          wait = reorder_waiting_queue (sched_lt cfg st) st (sd_waiting s) in
      \<lparr>sp_store = st, sp_qm = combine_queues st run wait qm, sp_km = km_new_step (sd_km s), sp_enc = sd_enc s,
       sp_budget = (if sd_pause s = PAUSED_ALL then 0 else sc_max_tokens cfg),
       sp_enc_budget = sc_max_enc_tokens cfg, sp_index = 0, sp_new = [], sp_resumed = [], sp_running = [],
       sp_preempted = [], sp_blocks = Map.empty, sp_tokens = [], sp_spec = Map.empty, sp_enc_inputs = Map.empty\<rparr>)"

text \<open>The output is built from the final locals \<open>s1\<close>; \<open>running\<close> and
  \<open>waiting\<close> are the split queues.\<close>

definition finish_step ::
  "sched_config \<Rightarrow> scheduler \<Rightarrow> rid list \<Rightarrow> request_queue \<Rightarrow> step \<Rightarrow> (sched_output \<times> scheduler) result" where
  "finish_step cfg s running waiting s1 =
     (let total' = sum_list (map snd (sp_tokens s1)) in
      bindE (assertE (total' \<le> sc_max_tokens cfg)) (\<lambda>_.
      bindE (assertE (sp_budget s1 \<ge> 0)) (\<lambda>_.
      bindE (assertE (length running \<le> sc_max_running cfg)) (\<lambda>_.
      bindE (assertE (length (sp_new s1) + length (sp_resumed s1) + length (sp_running s1) \<le> length running)) (\<lambda>_.
        let (common, co) = (if running = [] then (replicate (length (co_managers (km_co (sp_km s1)))) 0, km_co (sp_km s1))
                            else co_common_prefix (hd running) (km_co (sp_km s1)));
            km1 = (sp_km s1)\<lparr>km_co := co\<rparr>;
            new = (if sc_v2_runner cfg then sp_new s1 @ sp_resumed s1 else sp_new s1);
            resumed = (if sc_v2_runner cfg then [] else sp_resumed s1) in
        bindE (foldE (new_request_one cfg s1) new []) (\<lambda>nrs.
        bindE (make_cached_request_data cfg (sd_prev s) (sp_running s1) resumed s1) (\<lambda>crs.
        bindE (foldE (find_request (sd_requests s)) (sp_tokens s1) ()) (\<lambda>_.
          let (zero, km2) = (if sc_zeroing cfg
                 then (case km_take_new_block_ids km1 of (ids, k) \<Rightarrow> (if ids = [] then None else Some ids, k))
                 else (None, km1));
              (freed_hashes, em) = em_freed (sp_enc s1);
              (st, out) = update_after_schedule cfg
                \<lparr>so_new = nrs, so_cached = crs, so_tokens = sp_tokens s1, so_total = total', so_spec = sp_spec s1,
                 so_enc_inputs = sp_enc_inputs s1, so_common_prefix = common, so_finished = sd_finished s,
                 so_free_hashes = freed_hashes, so_preempted = set (sp_preempted s1), so_structured = False,
                 so_pending_structured = False, so_to_zero = zero\<rparr> (sp_store s1) in
          Inr (out, s\<lparr>sd_store := st, sd_waiting := waiting, sd_running := running, sd_finished := {},
                      sd_qm := sp_qm s1, sd_km := km2, sd_enc := em, sd_prev := fst ` set (sp_tokens s1)\<rparr>)))))))))"

text \<open>From the queues of requests \<open>st\<close>, whose priorities are set, to the output.\<close>

definition schedule_queues :: "sched_config \<Rightarrow> real \<Rightarrow> store \<Rightarrow> rid list \<Rightarrow> queue_manager \<Rightarrow> scheduler \<Rightarrow>
    (sched_output \<times> scheduler) result option" where
  "schedule_queues cfg ts st rids qm s =
     Option.bind (visit_loop cfg ts (start_step cfg s st qm)) (\<lambda>res. Some (bindE res (\<lambda>s1.
       bindE (preempt_remaining cfg ts s1) (\<lambda>s2.
       bindE (update_queues (sched_lt cfg (sp_store s2)) (sp_qm s2)) (\<lambda>(running, waiting).
         finish_step cfg (s\<lparr>sd_requests := rids\<rparr>) running waiting s2)))))"

text \<open>\<open>now\<close> and \<open>now'\<close> are the clock readings of the statistics and of the
  priorities, \<open>ts\<close> the one of the events.\<close>

definition schedule :: "sched_config \<Rightarrow> real \<Rightarrow> real \<Rightarrow> real \<Rightarrow> scheduler \<Rightarrow>
    (sched_output \<times> scheduler) result option" where
  "schedule cfg ts now now' s =
     (case bindE (update_queue_stats now (sd_requests s) (sd_store s) (sd_qm s)) (\<lambda>(st1, qm).
           bindE (update_priorities (sc_slo_policy cfg) qm now' (sd_requests s) st1) (\<lambda>(st2, rids).
             Inr (st2, rids, qm))) of
        Inl e \<Rightarrow> Some (Inl e)
      | Inr (st2, rids, qm) \<Rightarrow> schedule_queues cfg ts st2 rids qm s)"

declare alloc_loop.simps [code] visit_loop.simps [code]

end
