(* ===== verification/Schedule_Steps.thy ===== *)
theory Schedule_Steps
  imports Schedule
begin

text \<open>
  Reasoning about one scheduling step. The loops of \<open>schedule\<close> change the store, the
  queue manager, the token budget and the scheduled tokens only through a handful of
  primitives: a victim is preempted, a running request takes tokens, a waiting one is admitted
  or ignored. The locale \<open>step_invariant\<close> names what a predicate has to satisfy for
  each of them; inside it the predicate is carried through the whole loop once.
\<close>

section \<open>Inversion\<close>

lemma bind_result_eq:
  "Option.bind m (\<lambda>res. case res of Inl e \<Rightarrow> Some (Inl e) | Inr x \<Rightarrow> k x) = Some (Inr y)
   \<longleftrightarrow> (\<exists>x. m = Some (Inr x) \<and> k x = Some (Inr y))"
proof (cases m)
  case (Some res)
  then show ?thesis by (cases res) simp_all
qed simp

text \<open>Where an iteration ended.\<close>

definition flow_step :: "flow \<Rightarrow> step" where
  "flow_step f = (case f of Next s \<Rightarrow> s | Break s \<Rightarrow> s | Fall s \<Rightarrow> s)"

lemma flow_step_simps [simp]:
  "flow_step (Next s) = s" "flow_step (Break s) = s" "flow_step (Fall s) = s"
  by (simp_all add: flow_step_def)

lemma unschedule_cases:
  assumes "unschedule v s = Inr s'"
  obtains (absent) "v \<notin> set (sp_running s)" "s' = s"
  | (scheduled) n e where "v \<in> set (sp_running s)" "map_of (sp_tokens s) v = Some n"
      "s' = s\<lparr>sp_running := remove1 v (sp_running s), sp_budget := sp_budget s + n,
                     sp_tokens := AList.delete v (sp_tokens s), sp_blocks := (sp_blocks s)(v := None),
                     sp_spec := (sp_spec s)(v := None), sp_enc_inputs := (sp_enc_inputs s)(v := None),
                     sp_enc_budget := sp_enc_budget s + e, sp_index := sp_index s - 1\<rparr>"
proof (cases "v \<in> set (sp_running s)")
  case True
  obtain n where n: "map_of (sp_tokens s) v = Some n"
    using assms True by (cases "map_of (sp_tokens s) v") (simp_all add: unschedule_def)
  have b: "sp_blocks s v \<noteq> None" using assms True n by (auto simp: unschedule_def split: if_splits)
  define f where "f = (\<lambda>e. s\<lparr>sp_running := remove1 v (sp_running s), sp_budget := sp_budget s + n,
                     sp_tokens := AList.delete v (sp_tokens s), sp_blocks := (sp_blocks s)(v := None),
                     sp_spec := (sp_spec s)(v := None), sp_enc_inputs := (sp_enc_inputs s)(v := None),
                     sp_enc_budget := sp_enc_budget s + e, sp_index := sp_index s - 1\<rparr>)"
  have "unschedule v s = bindE (case sp_enc_inputs s v of
      None \<Rightarrow> Inr 0 | Some ids \<Rightarrow> sum_embeds (sp_store s v) ids) (\<lambda>e. Inr (f e))"
    by (simp only: unschedule_def f_def True n b if_True if_False option.case simp_thms)
  with assms obtain e where "s' = f e" by (auto elim: bindE_InrE)
  with scheduled[OF True n] show thesis by (simp only: f_def)
next
  case False
  with assms have "s' = s" by (simp add: unschedule_def)
  with False show thesis by (rule absent)
qed

lemma preempt_request_store:
  assumes "preempt_request cfg ts v st km em = Inr (st', km', em')"
  shows "st' = upd_req v (\<lambda>r. log_event cfg EV_PREEMPTED ts
              (r\<lparr>status := PREEMPTED, num_computed_tokens := 0, spec_token_ids := [],
                 num_preemptions := num_preemptions r + 1\<rparr>)) st"
    and "status (st v) = RUNNING"
  using assms by (auto simp: preempt_request_def bindE_eq_Inr)

lemma preempt_step_cases:
  assumes "preempt_step cfg ts v s = Inr s'"
  obtains s1 st km em qm where "unschedule v s = Inr s1"
    "preempt_request cfg ts v (sp_store s1) (sp_km s1) (sp_enc s1) = Inr (st, km, em)"
    "update_idxs_after_preemption (sp_qm s1) = Inr qm"
    "s' = s1\<lparr>sp_store := st, sp_km := km, sp_enc := em, sp_qm := qm, sp_preempted := sp_preempted s1 @ [v]\<rparr>"
  using assms by (auto simp: preempt_step_def bindE_eq_Inr split: prod.splits)

lemma unschedule_kept:
  "unschedule v s = Inr s' \<Longrightarrow> sp_store s' = sp_store s \<and> sp_qm s' = sp_qm s"
  by (auto elim: unschedule_cases)

lemma preempt_step_qm:
  "preempt_step cfg ts v s = Inr s' \<Longrightarrow> update_idxs_after_preemption (sp_qm s) = Inr (sp_qm s')"
  by (auto elim!: preempt_step_cases dest!: unschedule_kept)

lemma record_event_kept [simp]:
  "num_tokens (record_event ty t r) = num_tokens r"
  "num_computed_tokens (record_event ty t r) = num_computed_tokens r"
  "spec_token_ids (record_event ty t r) = spec_token_ids r"
  "status (record_event ty t r) = status r"
  "num_output_placeholders (record_event ty t r) = num_output_placeholders r"
  by (simp_all add: record_event_def num_tokens_def)

lemma log_event_kept [simp]:
  "num_tokens (log_event cfg ty t r) = num_tokens r"
  "num_computed_tokens (log_event cfg ty t r) = num_computed_tokens r"
  "spec_token_ids (log_event cfg ty t r) = spec_token_ids r"
  "status (log_event cfg ty t r) = status r"
  "num_output_placeholders (log_event cfg ty t r) = num_output_placeholders r"
  by (simp_all add: log_event_def)

lemma preempt_step_num_tokens:
  "preempt_step cfg ts v s = Inr s' \<Longrightarrow> num_tokens (sp_store s' r) = num_tokens (sp_store s r)"
  by (cases "r = v")
    (auto elim!: preempt_step_cases dest!: preempt_request_store(1) unschedule_kept simp: num_tokens_def log_event_def record_event_def)

section \<open>Preemption until the blocks are there\<close>

lemma alloc_loop_induct [consumes 1, case_names start km preempt]:
  assumes "alloc_loop cfg ts alloc rid s = Some (Inr (res, s'))" and "P s"
    and km: "\<And>s km. P s \<Longrightarrow> P (s\<lparr>sp_km := km\<rparr>)"
    and pre: "\<And>v s s'. P s \<Longrightarrow> preempt_step cfg ts v s = Inr s' \<Longrightarrow> P s'"
  shows "P s'"
proof -
  have "P s \<longrightarrow> (\<forall>res s'. y = Inr (res, s') \<longrightarrow> P s')"
    if "alloc_loop cfg ts alloc rid s = Some y" for y
    using km pre
  proof (induction rule: alloc_loop.raw_induct[OF _ that])
    case (1 self cfg ts alloc rid s y)
    show ?case
    proof (intro impI allI)
      fix res s' assume ok: "P s" and y: "y = Inr (res, s')"
      show "P s'"
      proof (cases "alloc (sp_store s rid) (sp_km s)")
        case (Inr p)
        obtain r km where p: "p = (r, km)" by (cases p)
        let ?s1 = "s\<lparr>sp_km := km\<rparr>"
        have ok1: "P ?s1" by (rule 1(3)[OF ok])
        show ?thesis
        proof (cases "?s1 = s' \<or> y = Inl IndexError")
          case True
          then show ?thesis using ok1 y by auto
        next
          case False
          with 1(2) y Inr p obtain v where v: "(case preempt_step cfg ts v ?s1 of
                  Inl e \<Rightarrow> Some (Inl e)
                | Inr s2 \<Rightarrow> if v = rid then Some (Inr (None, s2)) else self cfg ts alloc rid s2) = Some y"
            by (auto simp: Let_def split: if_splits option.splits)
          then obtain s2 where s2: "preempt_step cfg ts v ?s1 = Inr s2" using y by (auto split: sum.splits)
          have ok2: "P s2" by (rule 1(4)[OF ok1 s2])
          show ?thesis
          proof (cases "v = rid")
            case True
            then show ?thesis using v s2 y ok2 by simp
          next
            case False
            then show ?thesis using v s2 y ok2 1(1)[of cfg ts alloc rid s2 y, OF _ 1(3,4)] by simp
          qed
        qed
      qed (use 1(2) y in simp)
    qed
  qed
  with assms(1,2) show ?thesis by blast
qed

section \<open>Invariants of a step\<close>

text \<open>
  \<open>fits rid n s\<close> says that taking \<open>n\<close> tokens for \<open>rid\<close> is still
  possible in \<open>s\<close>; it is established before the blocks are allocated and must survive
  the preemptions of that loop.
\<close>

definition shared_eq :: "step \<Rightarrow> step \<Rightarrow> bool" where
  "shared_eq s s' \<longleftrightarrow> sp_store s' = sp_store s \<and> sp_qm s' = sp_qm s
     \<and> sp_budget s' = sp_budget s \<and> sp_tokens s' = sp_tokens s"

definition split_tokens :: "sched_config \<Rightarrow> request \<Rightarrow> enc_plan \<Rightarrow> int \<Rightarrow> int" where
  "split_tokens cfg r plan n_local =
     (if sc_mamba_split cfg then mamba_block_aligned_split cfg r (plan_new plan) n_local else plan_new plan)"

text \<open>A request can only be ignored for the size of its prompt or for its encoder inputs.\<close>

definition ignorable :: "sched_config \<Rightarrow> request \<Rightarrow> bool" where
  "ignorable cfg r \<longleftrightarrow> num_prompt_tokens r > sc_num_blocks cfg * sc_block_size cfg \<or> has_encoder_inputs r"

locale step_invariant =
  fixes cfg :: sched_config and ts :: real and comb :: "rid list"
    and ok :: "step \<Rightarrow> bool" and fits :: "rid \<Rightarrow> int \<Rightarrow> step \<Rightarrow> bool"
  assumes ok_combined: "ok s \<Longrightarrow> combined (sp_qm s) = comb"
    and frame: "ok s \<Longrightarrow> shared_eq s s' \<Longrightarrow> ok s'"
    and fits_frame: "fits rid n s \<Longrightarrow> shared_eq s s' \<Longrightarrow> fits rid n s'"
    and stats_ok: "ok s \<Longrightarrow> ok (s\<lparr>sp_store := upd_req rid (\<lambda>r. r\<lparr>prefill_stats := p\<rparr>) (sp_store s)\<rparr>)"
    and preempt_ok: "ok s \<Longrightarrow> preempt_step cfg ts v s = Inr s' \<Longrightarrow> ok s'"
    and preempt_fits: "ok s \<Longrightarrow> fits rid n s \<Longrightarrow> preempt_step cfg ts v s = Inr s' \<Longrightarrow> fits rid n s'"
    and running_fits: "ok s \<Longrightarrow> 0 < sp_budget s \<Longrightarrow> rid \<in> set comb \<Longrightarrow>
      plan_encoder cfg (sp_store s rid) c (running_tokens cfg (sp_store s rid) (sp_budget s)) b em = Inr (plan, em') \<Longrightarrow>
      split_tokens cfg (sp_store s rid) plan 0 \<noteq> 0 \<Longrightarrow> fits rid (split_tokens cfg (sp_store s rid) plan 0) s"
    and waiting_fits: "ok s \<Longrightarrow> 0 < n \<Longrightarrow> n \<le> sp_budget s \<Longrightarrow> rid \<in> set comb \<Longrightarrow>
      plan_encoder cfg (sp_store s rid) c n b em = Inr (plan, em') \<Longrightarrow>
      (has_encoder_inputs (sp_store s rid) \<Longrightarrow> plan_new plan \<noteq> 0) \<Longrightarrow>
      (sc_mamba_split cfg \<Longrightarrow> split_tokens cfg (sp_store s rid) plan loc \<noteq> 0) \<Longrightarrow>
      fits rid (split_tokens cfg (sp_store s rid) plan loc) s"
    and run_ok: "ok s \<Longrightarrow> fits rid n s \<Longrightarrow>
      ok (note_spec rid n (s\<lparr>sp_tokens := AList.update rid n (sp_tokens s), sp_budget := sp_budget s - n\<rparr>))"
    and admit_ok: "ok s \<Longrightarrow> fits rid n s \<Longrightarrow> c < num_tokens (sp_store s rid) \<Longrightarrow>
      update_idxs_after_new_scheduling (sp_qm s) = Inr qm \<Longrightarrow>
      ok (s\<lparr>sp_qm := qm, sp_tokens := AList.update rid n (sp_tokens s), sp_budget := sp_budget s - n,
           sp_store := upd_req rid (\<lambda>r. (log_event cfg SCHEDULED ts r)\<lparr>status := RUNNING, num_computed_tokens := c\<rparr>) (sp_store s)\<rparr>)"
    and ignore_ok: "ok s \<Longrightarrow> rid \<in> set comb \<Longrightarrow> rid \<in> waiting_req_ids (sp_qm s) \<Longrightarrow>
      ignorable cfg (sp_store s rid) \<Longrightarrow> update_idxs_after_ignored (sp_qm s) = Inr qm \<Longrightarrow>
      ok (s\<lparr>sp_store := upd_req rid (\<lambda>r. r\<lparr>status := FINISHED_IGNORED\<rparr>) (sp_store s), sp_qm := qm\<rparr>)"
    and rest_ok: "ok s \<Longrightarrow> preempt_rest cfg ts i s = Inr s' \<Longrightarrow> ok s'"
begin

lemma alloc_ok:
  assumes "alloc_loop cfg ts alloc rid s = Some (Inr (res, s'))" and "ok s" and "fits x n s"
  shows "ok s' \<and> fits x n s' \<and> num_tokens (sp_store s' rid) = num_tokens (sp_store s rid)"
proof -
  from assms(1) have "ok s' \<and> fits x n s' \<and> num_tokens (sp_store s' rid) = num_tokens (sp_store s rid)"
  proof (induction rule: alloc_loop_induct)
    case start
    show ?case using assms(2,3) by simp
  next
    case (km s0 km)
    then show ?case using frame[of s0 "s0\<lparr>sp_km := km\<rparr>"] fits_frame[of x n s0 "s0\<lparr>sp_km := km\<rparr>"]
      by (simp add: shared_eq_def)
  next
    case (preempt v s0 s1)
    then show ?case using preempt_ok[of s0 v s1] preempt_fits[of s0 x n v s1] preempt_step_num_tokens by simp
  qed
  then show ?thesis .
qed

lemma note_encoder_ok:
  assumes "note_encoder rid plan s = Inr s'" and "ok s"
  shows "ok s'"
  using assms frame[OF assms(2), of s'] unfolding note_encoder_def Let_def
  by (auto simp: shared_eq_def elim!: bindE_InrE split: if_splits)

lemma ignore_request_ok:
  assumes "ignore_request rid s = Inr f" and "ok s" and "rid \<in> set comb"
    and "rid \<in> waiting_req_ids (sp_qm s)" and "ignorable cfg (sp_store s rid)"
  shows "ok (flow_step f)"
proof -
  from assms(1) obtain qm where qm: "update_idxs_after_ignored (sp_qm s) = Inr qm"
    and f: "f = Next (s\<lparr>sp_store := upd_req rid (\<lambda>r. r\<lparr>status := FINISHED_IGNORED\<rparr>) (sp_store s),
                    sp_qm := qm, sp_index := sp_index s + 1\<rparr>)"
    by (auto simp: ignore_request_def elim: bindE_InrE)
  show ?thesis by (rule frame[OF ignore_ok[OF assms(2-5) qm]]) (simp add: f shared_eq_def)
qed

end


section \<open>The iteration for a running and for a waiting request\<close>

lemma note_spec_eq:
  "shared_eq s s' \<Longrightarrow> shared_eq (note_spec rid n s) (note_spec rid n s')"
  by (auto simp: shared_eq_def note_spec_def Let_def)

lemma computed_prefix_cases:
  assumes "computed_prefix rid s = Some (Inr (comps, loc, c, s'))"
  obtains "s' = s" | p where "s' = s\<lparr>sp_store := upd_req rid (\<lambda>r. r\<lparr>prefill_stats := Some p\<rparr>) (sp_store s)\<rparr>"
  using assms
  by (auto simp: computed_prefix_def Let_def bindE_eq_Inr bind_eq_Some_conv split: if_splits option.splits)

lemma waiting_encoder_cases:
  assumes "waiting_encoder cfg rid c n s = Inr res"
  obtains (ignored) f where "ignore_request rid s = Inr f" "res = Inl f" "has_encoder_inputs (sp_store s rid)"
  | (full) em where "res = Inl (Break (s\<lparr>sp_enc := em\<rparr>))"
  | (planned) plan em where "plan_encoder cfg (sp_store s rid) c n (sp_enc_budget s) (sp_enc s) = Inr (plan, em)"
      "has_encoder_inputs (sp_store s rid) \<Longrightarrow> plan_new plan \<noteq> 0" "res = Inr (plan, s\<lparr>sp_enc := em\<rparr>)"
  using assms unfolding waiting_encoder_def Let_def
  by (auto elim!: bindE_InrE split: if_splits)

text \<open>The end of an iteration for a waiting request, once the allocation is decided.\<close>

definition finish_waiting :: "sched_config \<Rightarrow> real \<Rightarrow> rid \<Rightarrow> request \<Rightarrow> int \<Rightarrow> int \<Rightarrow> enc_plan \<Rightarrow>
    nat list list option \<times> step \<Rightarrow> flow result" where
  "finish_waiting cfg ts rid r n c plan = (\<lambda>(new, s). case new of
       None \<Rightarrow>
         if has_encoder_inputs r
         then bindE (em_free (sp_store s rid) (sp_enc s)) (\<lambda>em. Inr (Break (s\<lparr>sp_enc := em\<rparr>)))
         else Inr (Break s)
     | Some _ \<Rightarrow> bindE (admit cfg ts rid n c plan s) (\<lambda>s4. Inr (Next s4)))"

lemma visit_waiting_unfold:
  "visit_waiting cfg ts rid s =
     (if num_prompt_tokens (sp_store s rid) > sc_num_blocks cfg * sc_block_size cfg
      then Some (ignore_request rid s)
      else Option.bind (computed_prefix rid s) (\<lambda>res. case res of
          Inl e \<Rightarrow> Some (Inl e)
        | Inr (comps, n_local, n_comp, s1) \<Rightarrow>
            let r = sp_store s1 rid; n0 = waiting_tokens cfg r n_comp in
            if \<not> sc_chunked_prefill cfg \<and> n0 > sp_budget s1 then Some (Inr (Break s1))
            else let n1 = min n0 (sp_budget s1) in
              if n1 \<le> 0 then Some (Inl AssertionError)
              else (case waiting_encoder cfg rid n_comp n1 s1 of
                  Inl e \<Rightarrow> Some (Inl e)
                | Inr (Inl f) \<Rightarrow> Some (Inr f)
                | Inr (Inr (plan, s2)) \<Rightarrow>
                    let n = split_tokens cfg r plan n_local in
                    if sc_mamba_split cfg \<and> n = 0 then Some (Inr (Break s2))
                    else (case (if is_encoder_decoder (sc_enc cfg) \<and> has_encoder_inputs r
                                then sum_embeds r (plan_ids plan) else Inr 0) of
                        Inl e \<Rightarrow> Some (Inl e)
                      | Inr n_enc \<Rightarrow>
                          Option.bind (alloc_loop cfg ts
                            (\<lambda>r. allocate_slots (sc_digest cfg) r n n_local comps
                               (if num_computed_tokens r = 0 then 0 else sc_lookahead cfg) 0 False n_enc (sc_reserve_full cfg))
                            rid s2)
                          (\<lambda>res. Some (bindE res (finish_waiting cfg ts rid r n n_comp plan)))))))"
  by (simp only: visit_waiting_def split_tokens_def finish_waiting_def)

lemma waiting_tokens_pos: "0 < waiting_tokens cfg r c \<Longrightarrow> c < num_tokens r"
  by (auto simp: waiting_tokens_def Let_def split: if_splits)

context step_invariant
begin

lemma visit_running_ok:
  assumes v: "visit_running cfg ts rid s = Some (Inr f)" and ok: "ok s"
    and b: "0 < sp_budget s" and rid: "rid \<in> set comb"
  shows "ok (flow_step f)"
proof -
  let ?r = "sp_store s rid"
  obtain plan em where pl: "plan_encoder cfg ?r (num_computed_tokens ?r)
      (running_tokens cfg ?r (sp_budget s)) (sp_enc_budget s) (sp_enc s) = Inr (plan, em)"
    using v by (auto simp: visit_running_def Let_def split: sum.splits)
  define n where "n = split_tokens cfg ?r plan 0"
  let ?s1 = "s\<lparr>sp_enc := em\<rparr>"
  have ok1: "ok ?s1" by (rule frame[OF ok]) (simp add: shared_eq_def)
  show ?thesis
  proof (cases "n = 0")
    case True
    then have "f = Next (?s1\<lparr>sp_index := sp_index ?s1 + 1\<rparr>)"
      using v pl by (simp add: visit_running_def Let_def n_def split_tokens_def cong: if_cong)
    then show ?thesis using frame[OF ok] by (simp add: shared_eq_def)
  next
    case False
    have "fits rid n s" unfolding n_def
      by (rule running_fits[OF ok b rid pl]) (use False in \<open>simp add: n_def\<close>)
    then have fits1: "fits rid n ?s1" by (rule fits_frame) (simp add: shared_eq_def)
    obtain new s2 where al: "alloc_loop cfg ts
        (\<lambda>r. allocate_slots (sc_digest cfg) r n 0 None (sc_lookahead cfg) 0 False 0 False) rid ?s1 = Some (Inr (new, s2))"
      and f: "(case new of None \<Rightarrow> Inr (Break s2)
              | Some bs \<Rightarrow> bindE (note_encoder rid plan (note_spec rid n
                  (s2\<lparr>sp_running := sp_running s2 @ [rid], sp_blocks := (sp_blocks s2)(rid \<mapsto> bs),
                      sp_tokens := AList.update rid n (sp_tokens s2), sp_budget := sp_budget s2 - n,
                      sp_index := sp_index s2 + 1\<rparr>))) (\<lambda>s4. Inr (Fall s4))) = Inr f"
      using v pl False unfolding visit_running_def Let_def n_def split_tokens_def
      by (auto simp: bindE_eq_Inr bind_eq_Some_conv cong: if_cong)
    note ok2 = alloc_ok[OF al ok1 fits1]
    show ?thesis
    proof (cases new)
      case None
      then have "f = Break s2" using f by simp
      then show ?thesis using ok2 by simp
    next
      case (Some bs)
      let ?base = "s2\<lparr>sp_tokens := AList.update rid n (sp_tokens s2), sp_budget := sp_budget s2 - n\<rparr>"
      let ?s3 = "s2\<lparr>sp_running := sp_running s2 @ [rid], sp_blocks := (sp_blocks s2)(rid \<mapsto> bs),
                      sp_tokens := AList.update rid n (sp_tokens s2), sp_budget := sp_budget s2 - n,
                      sp_index := sp_index s2 + 1\<rparr>"
      have "shared_eq ?base ?s3" by (simp add: shared_eq_def)
      from frame[OF run_ok note_spec_eq[OF this]] ok2 have ok3: "ok (note_spec rid n ?s3)" by blast
      obtain s4 where "note_encoder rid plan (note_spec rid n ?s3) = Inr s4" "f = Fall s4"
        using f Some by (auto elim: bindE_InrE)
      then show ?thesis using note_encoder_ok ok3 by simp
    qed
  qed
qed

lemma admit_request_ok:
  assumes a: "admit cfg ts rid n c plan s = Inr s'" and ok: "ok s" and fits: "fits rid n s"
    and c: "c < num_tokens (sp_store s rid)"
  shows "ok s'"
proof -
  obtain s2 qm where s2: "shared_eq (s\<lparr>sp_store := upd_req rid (log_event cfg SCHEDULED ts) (sp_store s)\<rparr>) s2"
    and qm: "update_idxs_after_new_scheduling (sp_qm s2) = Inr qm"
    and n: "note_encoder rid plan
          (s2\<lparr>sp_qm := qm, sp_blocks := (sp_blocks s2)(rid \<mapsto> km_get_blocks rid (sp_km s2)),
              sp_tokens := AList.update rid n (sp_tokens s2), sp_budget := sp_budget s2 - n,
              sp_store := upd_req rid (\<lambda>r. r\<lparr>status := RUNNING, num_computed_tokens := c\<rparr>) (sp_store s2)\<rparr>) = Inr s'"
    using a unfolding admit_def Let_def
    apply (elim bindE_InrE)
    apply (rule that)
      prefer 2 apply assumption
     prefer 2 apply assumption
    apply (auto simp: shared_eq_def split: if_splits)
    done
  show ?thesis
  proof (rule note_encoder_ok[OF n], rule frame[OF admit_ok[OF ok fits c, of qm]])
    show "update_idxs_after_new_scheduling (sp_qm s) = Inr qm" using qm s2 by (simp add: shared_eq_def)
  qed (use s2 in \<open>simp add: shared_eq_def upd_req_def\<close>)
qed

end


lemma visit_waiting_cases:
  assumes "visit_waiting cfg ts rid s = Some (Inr f)"
  obtains (ignored) "ignore_request rid s = Inr f" "ignorable cfg (sp_store s rid)"
  | (stopped) comps loc c s1 em where "computed_prefix rid s = Some (Inr (comps, loc, c, s1))"
      "f = Break s1 \<or> f = Break (s1\<lparr>sp_enc := em\<rparr>)"
  | (unfit) comps loc c s1 where "computed_prefix rid s = Some (Inr (comps, loc, c, s1))" "ignore_request rid s1 = Inr f"
      "ignorable cfg (sp_store s1 rid)"
  | (visited) comps loc c s1 n plan em alloc res where "computed_prefix rid s = Some (Inr (comps, loc, c, s1))"
      "n = min (waiting_tokens cfg (sp_store s1 rid) c) (sp_budget s1)" "0 < n"
      "plan_encoder cfg (sp_store s1 rid) c n (sp_enc_budget s1) (sp_enc s1) = Inr (plan, em)"
      "has_encoder_inputs (sp_store s1 rid) \<Longrightarrow> plan_new plan \<noteq> 0"
      "sc_mamba_split cfg \<Longrightarrow> split_tokens cfg (sp_store s1 rid) plan loc \<noteq> 0"
      "alloc_loop cfg ts alloc rid (s1\<lparr>sp_enc := em\<rparr>) = Some (Inr res)"
      "finish_waiting cfg ts rid (sp_store s1 rid) (split_tokens cfg (sp_store s1 rid) plan loc) c plan res = Inr f"
proof (cases "num_prompt_tokens (sp_store s rid) > sc_num_blocks cfg * sc_block_size cfg")
  case True
  with assms ignored show thesis by (simp add: visit_waiting_unfold ignorable_def)
next
  case False
  then obtain comps loc c s1 where pre: "computed_prefix rid s = Some (Inr (comps, loc, c, s1))"
  proof (cases "computed_prefix rid s")
    case (Some y)
    then show thesis using that assms False
      by (cases y) (simp_all add: visit_waiting_unfold split_paired_all)
  qed (use assms False in \<open>simp add: visit_waiting_unfold\<close>)
  define r where "r = sp_store s1 rid"
  define n where "n = min (waiting_tokens cfg r c) (sp_budget s1)"
  define full where "full \<longleftrightarrow> \<not> sc_chunked_prefill cfg \<and> waiting_tokens cfg r c > sp_budget s1"
  show thesis
  proof (cases full)
    case True
    then have "f = Break s1"
      using assms False pre by (simp add: visit_waiting_unfold Let_def full_def r_def)
    then show thesis using stopped[OF pre] by blast
  next
    case nf: False
    define rest where "rest = (\<lambda>plan s2.
       let k = split_tokens cfg r plan loc in
       if sc_mamba_split cfg \<and> k = 0 then Some (Inr (Break s2))
       else (case (if is_encoder_decoder (sc_enc cfg) \<and> has_encoder_inputs r
                   then sum_embeds r (plan_ids plan) else Inr 0) of
           Inl e \<Rightarrow> Some (Inl e)
         | Inr n_enc \<Rightarrow>
             Option.bind (alloc_loop cfg ts
               (\<lambda>r. allocate_slots (sc_digest cfg) r k loc comps
                  (if num_computed_tokens r = 0 then 0 else sc_lookahead cfg) 0 False n_enc (sc_reserve_full cfg))
               rid s2)
             (\<lambda>res. Some (bindE res (finish_waiting cfg ts rid r k c plan)))))"
    have eq: "(if n \<le> 0 then Some (Inl AssertionError)
        else (case waiting_encoder cfg rid c n s1 of
                  Inl e \<Rightarrow> Some (Inl e)
                | Inr (Inl f) \<Rightarrow> Some (Inr f)
                | Inr (Inr (plan, s2)) \<Rightarrow> rest plan s2)) = Some (Inr f)"
      using assms nf unfolding visit_waiting_unfold rest_def full_def
      by (simp only: False pre bind.bind_lunit sum.case prod.case Let_def n_def r_def if_False)
    then have pos: "0 < n" by (auto split: if_splits)
    obtain res where res: "waiting_encoder cfg rid c n s1 = Inr res"
      using eq pos by (auto split: sum.splits)
    from res show thesis
    proof (cases rule: waiting_encoder_cases)
      case (ignored g)
      then have "ignore_request rid s1 = Inr f" using eq pos res by simp
      then show thesis using unfit[OF pre] ignored(3) by (simp add: ignorable_def r_def)
    next
      case (full em)
      then have "f = Break (s1\<lparr>sp_enc := em\<rparr>)" using eq pos res by simp
      then show thesis using stopped[OF pre] by blast
    next
      case (planned plan em)
      let ?k = "split_tokens cfg r plan loc"
      have rest: "rest plan (s1\<lparr>sp_enc := em\<rparr>) = Some (Inr f)"
        using eq pos res planned(3) by simp
      show thesis
      proof (cases "sc_mamba_split cfg \<and> ?k = 0")
        case True
        then have "f = Break (s1\<lparr>sp_enc := em\<rparr>)" using rest by (simp add: rest_def Let_def)
        then show thesis using stopped[OF pre] by blast
      next
        case nm: False
        then obtain n_enc out where "alloc_loop cfg ts
               (\<lambda>r. allocate_slots (sc_digest cfg) r ?k loc comps
                  (if num_computed_tokens r = 0 then 0 else sc_lookahead cfg) 0 False n_enc (sc_reserve_full cfg))
               rid (s1\<lparr>sp_enc := em\<rparr>) = Some (Inr out)" "finish_waiting cfg ts rid r ?k c plan out = Inr f"
          using rest by (auto simp: rest_def Let_def bind_eq_Some_conv bindE_eq_Inr split: sum.splits)
        then show thesis
          using visited[OF pre n_def[unfolded r_def] pos] planned(1,2) nm by (simp add: r_def)
      qed
    qed
  qed
qed

context step_invariant
begin

lemma computed_prefix_ok:
  assumes "computed_prefix rid s = Some (Inr (comps, loc, c, s'))" and "ok s"
  shows "ok s' \<and> sp_qm s' = sp_qm s \<and> sp_budget s' = sp_budget s"
  using assms(1) by (cases rule: computed_prefix_cases) (use assms(2) stats_ok in auto)

lemma visit_waiting_ok:
  assumes v: "visit_waiting cfg ts rid s = Some (Inr f)" and ok: "ok s"
    and rid: "rid \<in> set comb" and w: "rid \<in> waiting_req_ids (sp_qm s)"
  shows "ok (flow_step f)"
  using v
proof (cases rule: visit_waiting_cases)
  case ignored
  then show ?thesis using ignore_request_ok ok rid w by blast
next
  case (stopped comps loc c s1 em)
  have "ok s1" using computed_prefix_ok[OF stopped(1) ok] by blast
  then show ?thesis using stopped(2) frame[of s1 "s1\<lparr>sp_enc := em\<rparr>"] by (auto simp: shared_eq_def)
next
  case (unfit comps loc c s1)
  then show ?thesis using computed_prefix_ok[OF unfit(1) ok] ignore_request_ok[OF unfit(2) _ rid _ unfit(3)] w by simp
next
  case (visited comps loc c s1 n plan em alloc res)
  let ?r = "sp_store s1 rid"
  let ?k = "split_tokens cfg ?r plan loc"
  have s1: "ok s1" "rid \<in> set comb"
    using computed_prefix_ok[OF visited(1) ok] rid by simp_all
  have "fits rid ?k s1"
    by (rule waiting_fits[OF s1(1) visited(3) _ s1(2) visited(4)]) (use visited in auto)
  then have s2: "ok (s1\<lparr>sp_enc := em\<rparr>)" "fits rid ?k (s1\<lparr>sp_enc := em\<rparr>)"
    using frame[OF s1(1)] fits_frame by (auto simp: shared_eq_def)
  obtain new s3 where res: "res = (new, s3)" by (cases res)
  note al = alloc_ok[OF visited(7)[unfolded res] s2]
  show ?thesis
  proof (cases new)
    case None
    with visited(8) res consider "f = Break s3" | em' where "f = Break (s3\<lparr>sp_enc := em'\<rparr>)"
      by (auto simp: finish_waiting_def elim!: bindE_InrE split: if_splits)
    then show ?thesis using al frame[of s3] by cases (auto simp: shared_eq_def)
  next
    case (Some b)
    then obtain s4 where ad: "admit cfg ts rid ?k c plan s3 = Inr s4" "f = Next s4"
      using visited(8) res by (auto simp: finish_waiting_def elim: bindE_InrE)
    have "c < num_tokens (sp_store s3 rid)"
      using al waiting_tokens_pos[of cfg ?r c] visited(2,3) by simp
    then show ?thesis using admit_request_ok[OF ad(1)] al ad(2) by simp
  qed
qed

end


section \<open>The whole step\<close>

context step_invariant
begin

lemma visit_ok:
  assumes v: "visit cfg ts rid s = Some (Inr f)" and ok: "ok s"
    and b: "0 < sp_budget s" and rid: "rid \<in> set comb"
  shows "ok (flow_step f)"
proof (cases "rid \<in> set (sp_preempted s)")
  case True
  then show ?thesis using v ok by (auto simp: visit_def)
next
  case np: False
  show ?thesis
  proof (cases "will_finish (sp_store s rid)")
    case True
    then have "f = Next (s\<lparr>sp_index := sp_index s + 1\<rparr>)" using v np by (simp add: visit_def)
    then show ?thesis using frame[OF ok] by (simp add: shared_eq_def)
  next
    case False
    then obtain g where g: "(if rid \<in> running_req_ids (sp_qm s) then visit_running cfg ts rid s
        else Some (Inr (Fall s))) = Some (Inr g)"
      and fg: "(case g of Next s1 \<Rightarrow> Some (Inr (Next s1)) | Break s1 \<Rightarrow> Some (Inr (Break s1))
          | Fall s1 \<Rightarrow> if rid \<in> waiting_req_ids (sp_qm s1) then visit_waiting cfg ts rid s1
             else Some (Inr (Next s1))) = Some (Inr f)"
      using v np False by (auto simp only: visit_def bind_result_eq if_False)
    have okg: "ok (flow_step g)"
      using g ok visit_running_ok[OF _ ok b rid] by (auto split: if_splits)
    show ?thesis
      using fg okg rid by (cases g) (auto split: if_splits intro: visit_waiting_ok)
  qed
qed

lemma visit_loop_ok:
  assumes "visit_loop cfg ts s = Some (Inr s')" and "ok s"
  shows "ok s'"
proof -
  have "c = cfg \<longrightarrow> t = ts \<longrightarrow> ok s \<longrightarrow> (\<forall>s'. y = Inr s' \<longrightarrow> ok s')"
    if "visit_loop c t s = Some y" for c t s y
  proof (induction rule: visit_loop.raw_induct[OF _ that])
    case (1 self c t s y)
    show ?case
    proof (intro impI allI)
      fix s' assume ct: "c = cfg" "t = ts" and ok: "ok s" and y: "y = Inr s'"
      show "ok s'"
      proof (cases "sp_index s < length (combined (sp_qm s)) \<and> sp_budget s > 0")
        case True
        then have rid: "combined (sp_qm s) ! sp_index s \<in> set comb" using ok_combined[OF ok] by auto
        from 1(2) True y ct obtain f where f: "visit cfg ts (combined (sp_qm s) ! sp_index s) s = Some (Inr f)"
          and r: "(case f of Next s1 \<Rightarrow> self c t s1 | Fall s1 \<Rightarrow> self c t s1 | Break s1 \<Rightarrow> Some (Inr s1)) = Some y"
          by (cases "visit cfg ts (combined (sp_qm s) ! sp_index s) s")
            (simp_all split: sum.splits)
        have okf: "ok (flow_step f)" by (rule visit_ok[OF f ok _ rid]) (use True in simp)
        show ?thesis
        proof (cases f)
          case (Next s1)
          then show ?thesis using 1(1)[of c t s1 y] r okf y ct by simp
        next
          case (Break s1)
          then show ?thesis using r okf y by simp
        next
          case (Fall s1)
          then show ?thesis using 1(1)[of c t s1 y] r okf y ct by simp
        qed
      next
        case False
        then show ?thesis using 1(2) y ok by auto
      qed
    qed
  qed
  with assms show ?thesis by blast
qed

lemma preempt_remaining_ok:
  assumes "preempt_remaining cfg ts s = Inr s'" and "ok s"
  shows "ok s'"
proof (cases "sp_budget s = 0 \<and> sp_index s < length (combined (sp_qm s))")
  case True
  with assms(1) have "foldE (preempt_rest cfg ts) [sp_index s..<length (combined (sp_qm s))] s = Inr s'"
    by (simp add: preempt_remaining_def)
  from foldE_invariant[of _ _ _ _ ok, OF this assms(2)] rest_ok show ?thesis by blast
qed (use assms in \<open>auto simp: preempt_remaining_def\<close>)

text \<open>From the first iteration to the split of the queues.\<close>

lemma step_ok:
  assumes "visit_loop cfg ts s = Some (Inr s1)" and "preempt_remaining cfg ts s1 = Inr s2" and "ok s"
  shows "ok s2"
  using assms visit_loop_ok preempt_remaining_ok by blast

end

end
