(* ===== verification/Schedule_Correct.thy ===== *)
theory Schedule_Correct
  imports Schedule_Steps
begin

text \<open>
  What a scheduling step guarantees: the token budget, the partition of the requests into the
  two queues, termination of the preemption loop, and what a paused step does.
\<close>

section \<open>Only requests of the two queues are touched\<close>

lemma qm_step_combined:
  assumes "qm_step qm qm'"
  shows "combined qm' = combined qm"
  using assms
proof (cases rule: qm_step.cases)
  case ignore
  then show ?thesis using ignored_kept(1) by (cases "first_waiting_idx qm") (auto simp: update_idxs_after_ignored_def)
next
  case skip
  then show ?thesis using skipped_kept(1) by (cases "first_waiting_idx qm") (auto simp: update_idxs_after_skipped_def)
qed (auto dest: preemption_kept scheduling_kept)

definition kept :: "queue_manager \<Rightarrow> step \<Rightarrow> bool" where
  "kept qm0 s \<longleftrightarrow> qm_steps qm0 (sp_qm s) \<and> combined (sp_qm s) = combined qm0
     \<and> fst ` set (sp_tokens s) \<subseteq> set (combined qm0)"

lemma kept_step: "qm_step (sp_qm s) qm \<Longrightarrow> kept qm0 s \<Longrightarrow>
    qm_steps qm0 qm \<and> combined qm = combined qm0"
  using qm_steps.more qm_step_combined unfolding kept_def by metis

lemma preempt_rest_cases:
  assumes "preempt_rest cfg ts i s = Inr s'"
  obtains (skip) "s' = s"
  | (preempt) v km em qm where "v = combined (sp_qm s) ! i" "status (sp_store s v) = RUNNING"
      "update_idxs_after_preemption (sp_qm s) = Inr qm"
      "s' = s\<lparr>sp_km := km, sp_enc := em, sp_qm := qm, sp_preempted := sp_preempted s @ [v],
              sp_store := upd_req v (\<lambda>r. log_event cfg EV_PREEMPTED ts
                      (r\<lparr>status := PREEMPTED, num_computed_tokens := 0\<rparr>)) (sp_store s)\<rparr>"
  using assms unfolding preempt_rest_def Let_def
  by (cases "status (sp_store s (combined (sp_qm s) ! i)) = RUNNING") (auto elim!: bindE_InrE)

lemma delete_subset: "set (AList.delete v xs) \<subseteq> set xs"
  by (auto simp: AList.delete_eq)

lemma update_keys: "fst ` set (AList.update k n xs) = insert k (fst ` set xs)"
  by (induction xs) auto

lemma preempt_step_tokens:
  assumes "preempt_step cfg ts v s = Inr s'"
  shows "set (sp_tokens s') \<subseteq> set (sp_tokens s)"
  using assms by (auto elim!: preempt_step_cases unschedule_cases dest: subsetD[OF delete_subset])

interpretation kept: step_invariant cfg ts "combined qm0" "kept qm0"
    "\<lambda>rid n s. rid \<in> set (combined qm0)"
proof
  fix s s' v assume s: "kept qm0 s" and p: "preempt_step cfg ts v s = Inr s'"
  show "kept qm0 s'"
    using kept_step[OF qm_step.preempt[OF preempt_step_qm[OF p]] s] preempt_step_tokens[OF p] s
    by (auto simp: kept_def)
next
  fix s rid n assume "kept qm0 s" "rid \<in> set (combined qm0)"
  then show "kept qm0 (note_spec rid n (s\<lparr>sp_tokens := AList.update rid n (sp_tokens s), sp_budget := sp_budget s - n\<rparr>))"
    by (simp add: kept_def note_spec_def Let_def update_keys)
next
  fix s :: step and i s' assume s: "kept qm0 s" and r: "preempt_rest cfg ts i s = Inr s'"
  from r show "kept qm0 s'"
  proof (cases rule: preempt_rest_cases)
    case (preempt v km em qm)
    then show ?thesis using kept_step[OF qm_step.preempt[OF preempt(3)] s] s by (simp add: kept_def)
  qed (use s in simp)
next
  fix s rid n c qm assume s: "kept qm0 s" and "rid \<in> set (combined qm0)"
    and q: "update_idxs_after_new_scheduling (sp_qm s) = Inr qm"
  then show "kept qm0 (s\<lparr>sp_qm := qm, sp_tokens := AList.update rid n (sp_tokens s), sp_budget := sp_budget s - n,
     sp_store := upd_req rid (\<lambda>r. (log_event cfg SCHEDULED ts r)\<lparr>status := RUNNING, num_computed_tokens := c\<rparr>) (sp_store s)\<rparr>)"
    using kept_step[OF qm_step.admit[OF q] s] by (simp add: kept_def update_keys)
next
  fix s qm rid assume s: "kept qm0 s" and q: "update_idxs_after_ignored (sp_qm s) = Inr qm"
  then show "kept qm0 (s\<lparr>sp_store := upd_req rid (\<lambda>r. r\<lparr>status := FINISHED_IGNORED\<rparr>) (sp_store s), sp_qm := qm\<rparr>)"
    using kept_step[OF qm_step.ignore[OF q] s] by (simp add: kept_def)
qed (auto simp: kept_def shared_eq_def)


section \<open>A step taken apart\<close>

lemma queue_iter_mset: "mset (queue_iter lt q) = mset (queue_iter lt' q)"
  by (cases q) (simp_all add: mset_heap_drain)

lemma queue_iter_distinct: "distinct (queue_iter lt q) = distinct (queue_iter lt' q)"
  using queue_iter_mset mset_eq_imp_distinct_iff by blast

lemma queue_iter_set: "set (queue_iter lt q) = set (queue_iter lt' q)"
  using queue_iter_mset by (metis set_mset_mset)

text \<open>The statistics and the priorities of a step change nothing else of the requests.\<close>

definition reordered :: "store \<Rightarrow> store \<Rightarrow> bool" where
  "reordered st st' \<longleftrightarrow> (\<forall>r. \<exists>a p. st' r = (st r)\<lparr>age := a, priority := p\<rparr>)"

lemma reordered_refl [simp]: "reordered st st"
proof -
  have "st r = (st r)\<lparr>age := age (st r), priority := priority (st r)\<rparr>" for r by simp
  then show ?thesis unfolding reordered_def by blast
qed

lemma reordered_trans:
  assumes "reordered st st'" and "reordered st' st''"
  shows "reordered st st''"
  unfolding reordered_def
proof
  fix r
  obtain a p where "st' r = (st r)\<lparr>age := a, priority := p\<rparr>" using assms(1) unfolding reordered_def by blast
  moreover obtain b q where "st'' r = (st' r)\<lparr>age := b, priority := q\<rparr>"
    using assms(2) unfolding reordered_def by blast
  ultimately have "st'' r = (st r)\<lparr>age := b, priority := q\<rparr>" by simp
  then show "\<exists>a p. st'' r = (st r)\<lparr>age := a, priority := p\<rparr>" by blast
qed

lemma reordered_upd: "reordered st st' \<Longrightarrow> reordered st (st'(r := (st' r)\<lparr>age := a, priority := p\<rparr>))"
proof (rule reordered_trans)
  have "st' x = (st' x)\<lparr>age := age (st' x), priority := priority (st' x)\<rparr>" for x by simp
  then show "reordered st' (st'(r := (st' r)\<lparr>age := a, priority := p\<rparr>))"
    unfolding reordered_def by (metis fun_upd_apply)
qed

lemma reordered_priority: "reordered st st' \<Longrightarrow> reordered st (set_priority x r st')"
proof -
  assume "reordered st st'"
  moreover have "(st' r)\<lparr>priority := x\<rparr> = (st' r)\<lparr>age := age (st' r), priority := x\<rparr>" by simp
  ultimately show ?thesis unfolding set_priority_def by (metis reordered_upd)
qed

lemma reordered_age: "reordered st st' \<Longrightarrow> reordered st (st'(r := (st' r)\<lparr>age := x\<rparr>))"
proof -
  assume "reordered st st'"
  moreover have "(st' r)\<lparr>age := x\<rparr> = (st' r)\<lparr>age := x, priority := priority (st' r)\<rparr>" by simp
  ultimately show ?thesis by (metis reordered_upd)
qed

lemma assign_ranks_reordered: "reordered st st' \<Longrightarrow> reordered st (assign_ranks i rs st')"
  by (induction rs arbitrary: i st') (auto intro: reordered_priority)

lemma rank_reordered: "rank_requests rids st' = (st'', out) \<Longrightarrow> reordered st st' \<Longrightarrow> reordered st st''"
  unfolding rank_requests_def Let_def using assign_ranks_reordered by blast

lemma fold_reordered:
  assumes "\<And>x st'. reordered st st' \<Longrightarrow> reordered st (f x st')" and "reordered st st'"
  shows "reordered st (fold f xs st')"
  using assms(2) by (induction xs arbitrary: st') (auto intro: assms(1))

lemma edf_reordered: "edf_priority now r st' = Inr st'' \<Longrightarrow> reordered st st' \<Longrightarrow> reordered st st''"
  by (auto simp: edf_priority_def intro: reordered_priority split: option.splits)

lemma score_reordered: "score_priority pol q r st' = Inr st'' \<Longrightarrow> reordered st st' \<Longrightarrow> reordered st st''"
  unfolding score_priority_def Let_def
  by (auto intro: reordered_priority elim!: bindE_InrE split: option.splits if_splits)

lemma update_priorities_reordered:
  assumes "update_priorities pol qm now rids st = Inr (st', out)"
  shows "reordered st st'"
proof -
  have fcfs: "reordered st u \<Longrightarrow> reordered st (fcfs_priority r u)"
    "reordered st u \<Longrightarrow> reordered st (catfcfs_priority r u)" for r u
    by (auto simp: fcfs_priority_def catfcfs_priority_def intro: reordered_priority split: option.split)
  have folds: "foldE (edf_priority now) rids st = Inr u \<Longrightarrow> reordered st u"
    "foldE (score_priority pol q) rids st = Inr u \<Longrightarrow> reordered st u" for u q
    by (erule foldE_invariant[where P = "reordered st"], simp, erule (1) edf_reordered)
      (erule foldE_invariant[where P = "reordered st"], simp, erule (1) score_reordered)
  show ?thesis
    using assms fold_reordered[of st fcfs_priority st rids] fold_reordered[of st catfcfs_priority st rids] fcfs
    unfolding update_priorities_def
    by (auto elim!: bindE_InrE dest!: folds rank_reordered split: if_splits option.splits)
qed

lemma collect_age_reordered:
  "collect_age now r (st', n, p, k) = Inr (st'', acc) \<Longrightarrow> reordered st st' \<Longrightarrow> reordered st st''"
  by (cases n; cases p; cases k) (auto simp: Let_def intro: reordered_age split: option.splits if_splits)

text \<open>The statistics only set ages.\<close>

definition aged :: "store \<Rightarrow> store \<Rightarrow> bool" where
  "aged st st' \<longleftrightarrow> (\<forall>r. \<exists>a. st' r = (st r)\<lparr>age := a\<rparr>)"

lemma aged_refl: "aged st st"
  unfolding aged_def
proof
  fix r
  have "st r = (st r)\<lparr>age := age (st r)\<rparr>" by simp
  then show "\<exists>a. st r = (st r)\<lparr>age := a\<rparr>" by (rule exI)
qed

lemma aged_upd: "aged st st' \<Longrightarrow> aged st (st'(r := (st' r)\<lparr>age := x\<rparr>))"
  unfolding aged_def
proof
  fix z assume a: "\<forall>r. \<exists>a. st' r = (st r)\<lparr>age := a\<rparr>"
  obtain a where "st' z = (st z)\<lparr>age := a\<rparr>" using a by blast
  then show "\<exists>a. (st'(r := (st' r)\<lparr>age := x\<rparr>)) z = (st z)\<lparr>age := a\<rparr>"
    by (cases "z = r") (auto intro: exI[of _ x])
qed

lemma collect_age_aged:
  "collect_age now r (st', n, p, k) = Inr (st'', acc) \<Longrightarrow> aged st st' \<Longrightarrow> aged st st''"
  by (cases n; cases p; cases k) (auto simp: Let_def intro: aged_upd split: option.splits if_splits)

lemma update_queue_stats_aged:
  assumes "update_queue_stats now reqs st qm = Inr (st', qm')"
  shows "aged st st'"
proof (cases "track_stats qm")
  case True
  then obtain acc where f: "foldE (collect_age now) reqs (st, (0, []), (0, []), (0, [])) = Inr (st', acc)"
    using assms unfolding update_queue_stats_def by (auto elim!: bindE_InrE split: option.splits)
  have "aged st (fst (st', acc))"
    by (rule foldE_invariant[OF f, of "\<lambda>s. aged st (fst s)"])
      (auto simp del: collect_age.simps simp: aged_refl dest: collect_age_aged)
  then show ?thesis by simp
next
  case False
  then show ?thesis using assms by (simp add: update_queue_stats_def aged_refl)
qed

lemma update_queue_stats_reordered:
  assumes "update_queue_stats now reqs st qm = Inr (st', qm')"
  shows "reordered st st' \<and> (\<exists>x. qm' = qm\<lparr>stats := x\<rparr>)"
proof (cases "track_stats qm")
  case True
  then obtain acc x where f: "foldE (collect_age now) reqs (st, (0, []), (0, []), (0, [])) = Inr (st', acc)"
    and q: "qm' = qm\<lparr>stats := x\<rparr>"
    using assms unfolding update_queue_stats_def
    by (auto elim!: bindE_InrE split: option.splits)
  have "reordered st (fst (st', acc))"
    by (rule foldE_invariant[OF f, of "\<lambda>s. reordered st (fst s)"])
      (auto simp del: collect_age.simps dest: collect_age_reordered)
  with q show ?thesis by auto
next
  case False
  then have "st' = st" "qm' = qm" using assms by (simp_all add: update_queue_stats_def)
  moreover have "qm = qm\<lparr>stats := stats qm\<rparr>" by simp
  ultimately show ?thesis by (metis reordered_refl)
qed

lemma schedule_cases:
  assumes "schedule cfg ts now now' s = Some (Inr (out, s'))"
  obtains st qm rids s1 s2 running waiting
  where "reordered (sd_store s) st" and "\<exists>x. qm = (sd_qm s)\<lparr>stats := x\<rparr>"
    and "visit_loop cfg ts (start_step cfg s st qm) = Some (Inr s1)"
    and "preempt_remaining cfg ts s1 = Inr s2"
    and "update_queues (sched_lt cfg (sp_store s2)) (sp_qm s2) = Inr (running, waiting)"
    and "finish_step cfg (s\<lparr>sd_requests := rids\<rparr>) running waiting s2 = Inr (out, s')"
    and "\<exists>st1. aged (sd_store s) st1 \<and> update_priorities (sc_slo_policy cfg) qm now' (sd_requests s) st1 = Inr (st, rids)"
proof -
  obtain st rids qm where p: "bindE (update_queue_stats now (sd_requests s) (sd_store s) (sd_qm s)) (\<lambda>(st1, qm).
           bindE (update_priorities (sc_slo_policy cfg) qm now' (sd_requests s) st1) (\<lambda>(st2, rids).
             Inr (st2, rids, qm))) = Inr (st, rids, qm)"
    using assms by (cases "bindE (update_queue_stats now (sd_requests s) (sd_store s) (sd_qm s)) (\<lambda>(st1, qm).
           bindE (update_priorities (sc_slo_policy cfg) qm now' (sd_requests s) st1) (\<lambda>(st2, rids).
             Inr (st2, rids, qm)))") (auto simp: schedule_def)
  from p obtain st1 where st1: "update_queue_stats now (sd_requests s) (sd_store s) (sd_qm s) = Inr (st1, qm)"
    "update_priorities (sc_slo_policy cfg) qm now' (sd_requests s) st1 = Inr (st, rids)"
    by (auto elim!: bindE_InrE)
  have re: "reordered (sd_store s) st" and qm: "\<exists>x. qm = (sd_qm s)\<lparr>stats := x\<rparr>"
    using update_queue_stats_reordered[OF st1(1)] update_priorities_reordered[OF st1(2)] reordered_trans by blast+
  obtain res where v: "visit_loop cfg ts (start_step cfg s st qm) = Some res"
    and rest: "bindE res (\<lambda>s1.
            bindE (preempt_remaining cfg ts s1) (\<lambda>s2.
            bindE (update_queues (sched_lt cfg (sp_store s2)) (sp_qm s2)) (\<lambda>(running, waiting).
              finish_step cfg (s\<lparr>sd_requests := rids\<rparr>) running waiting s2))) = Inr (out, s')"
    using assms by (auto simp: schedule_def schedule_queues_def p bind_eq_Some_conv)
  have ranks: "\<exists>st1. aged (sd_store s) st1 \<and> update_priorities (sc_slo_policy cfg) qm now' (sd_requests s) st1 = Inr (st, rids)"
    using update_queue_stats_aged[OF st1(1)] st1(2) by blast
  show thesis
    using rest v by (auto elim!: bindE_InrE intro: that[OF re qm _ _ _ _ ranks])
qed

lemma update_after_schedule_kept:
  assumes "update_after_schedule cfg out st = (st', out')"
  shows "so_tokens out' = so_tokens out" "so_total out' = so_total out"
    "so_preempted out' = so_preempted out" "so_new out' = so_new out" "so_cached out' = so_cached out"
  using assms by (auto simp: update_after_schedule_def Let_def split: prod.splits)

text \<open>The fields of the scheduler and of the output after a step.\<close>

lemma finish_step_split:
  assumes "finish_step cfg s running waiting s1 = Inr (out, s')"
  obtains st o' km em where "update_after_schedule cfg o' (sp_store s1) = (st, out)"
    and "so_tokens o' = sp_tokens s1" "so_finished o' = sd_finished s" "so_preempted o' = set (sp_preempted s1)"
    and "so_total o' = sum_list (map snd (sp_tokens s1))"
    and "s' = s\<lparr>sd_store := st, sd_waiting := waiting, sd_running := running, sd_finished := {},
                      sd_qm := sp_qm s1, sd_km := km, sd_enc := em, sd_prev := fst ` set (sp_tokens s1)\<rparr>"
    and "length running \<le> sc_max_running cfg"
proof -
  obtain common co where c: "(if running = [] then (replicate (length (co_managers (km_co (sp_km s1)))) 0, km_co (sp_km s1))
                            else co_common_prefix (hd running) (km_co (sp_km s1))) = (common, co)"
    by (cases "if running = [] then (replicate (length (co_managers (km_co (sp_km s1)))) 0, km_co (sp_km s1))
                            else co_common_prefix (hd running) (km_co (sp_km s1))") 
  obtain zero km2 where z: "(if sc_zeroing cfg
                 then (case km_take_new_block_ids ((sp_km s1)\<lparr>km_co := co\<rparr>) of (ids, k) \<Rightarrow> (if ids = [] then None else Some ids, k))
                 else (None, (sp_km s1)\<lparr>km_co := co\<rparr>)) = (zero, km2)"
    by (cases "if sc_zeroing cfg
                 then (case km_take_new_block_ids ((sp_km s1)\<lparr>km_co := co\<rparr>) of (ids, k) \<Rightarrow> (if ids = [] then None else Some ids, k))
                 else (None, (sp_km s1)\<lparr>km_co := co\<rparr>)")
  obtain fh em where f: "em_freed (sp_enc s1) = (fh, em)" by (cases "em_freed (sp_enc s1)")
  note eq = assms[unfolded finish_step_def Let_def c prod.case z f]
  obtain nrs crs where len: "length running \<le> sc_max_running cfg"
    and e: "(case update_after_schedule cfg
                \<lparr>so_new = nrs, so_cached = crs, so_tokens = sp_tokens s1, so_total = sum_list (map snd (sp_tokens s1)), so_spec = sp_spec s1,
                 so_enc_inputs = sp_enc_inputs s1, so_common_prefix = common, so_finished = sd_finished s,
                 so_free_hashes = fh, so_preempted = set (sp_preempted s1), so_structured = False,
                 so_pending_structured = False, so_to_zero = zero\<rparr> (sp_store s1) of (st, out) \<Rightarrow>
          Inr (out, s\<lparr>sd_store := st, sd_waiting := waiting, sd_running := running, sd_finished := {},
                      sd_qm := sp_qm s1, sd_km := km2, sd_enc := em, sd_prev := fst ` set (sp_tokens s1)\<rparr>)) = (Inr (out, s') :: (sched_output \<times> scheduler) result)"
    using eq
    apply (elim bindE_InrE)
    apply (rule that)
     prefer 2 apply assumption
    apply (simp only: assertE_eq_Inr)
    done
  define o' where "o' = \<lparr>so_new = nrs, so_cached = crs, so_tokens = sp_tokens s1, so_total = sum_list (map snd (sp_tokens s1)), so_spec = sp_spec s1,
                 so_enc_inputs = sp_enc_inputs s1, so_common_prefix = common, so_finished = sd_finished s,
                 so_free_hashes = fh, so_preempted = set (sp_preempted s1), so_structured = False,
                 so_pending_structured = False, so_to_zero = zero\<rparr>"
  obtain st out' where u: "update_after_schedule cfg o' (sp_store s1) = (st, out')"
    by (cases "update_after_schedule cfg o' (sp_store s1)")
  from e[folded o'_def] have s': "out = out'" "s' = s\<lparr>sd_store := st, sd_waiting := waiting, sd_running := running, sd_finished := {},
                      sd_qm := sp_qm s1, sd_km := km2, sd_enc := em, sd_prev := fst ` set (sp_tokens s1)\<rparr>"
    by (simp_all add: u)
  show thesis
    by (rule that[where o' = o' and st = st and km = km2 and em = em]) (simp_all add: u s' len, simp_all add: o'_def)
qed

lemma finish_step_cases:
  assumes "finish_step cfg s running waiting s1 = Inr (out, s')"
  shows "so_tokens out = sp_tokens s1" "so_total out = sum_list (map snd (sp_tokens s1))"
    "so_preempted out = set (sp_preempted s1)"
    "sd_running s' = running" "sd_waiting s' = waiting" "sd_skipped s' = sd_skipped s"
    "length running \<le> sc_max_running cfg"
proof -
  obtain st o' km em where f: "update_after_schedule cfg o' (sp_store s1) = (st, out)"
    "so_tokens o' = sp_tokens s1" "so_preempted o' = set (sp_preempted s1)"
    "so_total o' = sum_list (map snd (sp_tokens s1))"
    "s' = s\<lparr>sd_store := st, sd_waiting := waiting, sd_running := running, sd_finished := {},
                      sd_qm := sp_qm s1, sd_km := km, sd_enc := em, sd_prev := fst ` set (sp_tokens s1)\<rparr>"
    "length running \<le> sc_max_running cfg"
    using assms by (rule finish_step_split)
  show "so_tokens out = sp_tokens s1" "so_total out = sum_list (map snd (sp_tokens s1))"
    "so_preempted out = set (sp_preempted s1)"
    "sd_running s' = running" "sd_waiting s' = waiting" "sd_skipped s' = sd_skipped s"
    "length running \<le> sc_max_running cfg"
    using update_after_schedule_kept[OF f(1)] f(2-6) by simp_all
qed

lemma finish_step_store:
  assumes "finish_step cfg s running waiting s1 = Inr (out, s')"
  shows "sp_tokens s1 = [] \<Longrightarrow> sd_store s' = sp_store s1"
  using assms by (rule finish_step_split) (auto simp: update_after_schedule_def split: if_splits)

lemma finish_step_fields:
  assumes "finish_step cfg s running waiting s1 = Inr (out, s')"
  shows "sd_requests s' = sd_requests s" "sd_qm s' = sp_qm s1" "sd_finished s' = {}" "so_finished out = sd_finished s"
    "sd_streaming s' = sd_streaming s" "sd_pause s' = sd_pause s" "sd_finished_dict s' = sd_finished_dict s"
proof -
  obtain st o' km em where f: "update_after_schedule cfg o' (sp_store s1) = (st, out)" "so_finished o' = sd_finished s"
    "s' = s\<lparr>sd_store := st, sd_waiting := waiting, sd_running := running, sd_finished := {},
                      sd_qm := sp_qm s1, sd_km := km, sd_enc := em, sd_prev := fst ` set (sp_tokens s1)\<rparr>"
    using assms by (rule finish_step_split)
  have "so_finished out = so_finished o'"
    using f(1) by (auto simp: update_after_schedule_def Let_def split: prod.splits)
  with f(2,3) show "sd_requests s' = sd_requests s" "sd_qm s' = sp_qm s1" "sd_finished s' = {}"
    "so_finished out = sd_finished s" "sd_streaming s' = sd_streaming s" "sd_pause s' = sd_pause s"
    "sd_finished_dict s' = sd_finished_dict s"
    by simp_all
qed

section \<open>No request is lost, and the skipped queue is never looked at\<close>

lemma schedule_requests:
  assumes "schedule cfg ts now now' s = Some (Inr (out, s'))"
    and "distinct (sd_running s @ queue_iter lt (sd_waiting s))"
  shows "mset (sd_running s') + mset (queue_iter lt (sd_waiting s'))
      = mset (sd_running s) + mset (queue_iter lt (sd_waiting s))
    \<and> fst ` set (so_tokens out) \<subseteq> set (sd_running s) \<union> set (queue_iter lt (sd_waiting s))
    \<and> sd_skipped s' = sd_skipped s"
proof -
  from assms(1) show ?thesis
  proof (cases rule: schedule_cases)
    case (1 st qm rids s1 s2 running waiting)
    define run where "run = reorder_running_queue st (sd_running s)"
    define wait where "wait = reorder_waiting_queue (sched_lt cfg st) st (sd_waiting s)"
    define qm0 where "qm0 = combine_queues st run wait qm"
    have run: "mset run = mset (sd_running s)"
      by (simp add: run_def reorder_running_queue_def)
    have wait: "mset wait = mset (queue_iter lt (sd_waiting s))"
      using queue_iter_mset by (simp add: wait_def reorder_waiting_queue_def)
    have d: "distinct (run @ wait)"
      using assms(2) mset_eq_imp_distinct_iff[of "run @ wait" "sd_running s @ queue_iter lt (sd_waiting s)"]
      by (simp add: run wait)
    have "kept qm0 (start_step cfg s st qm)"
      by (simp add: kept_def start_step_def Let_def qm0_def run_def wait_def qm_steps.stay)
    from kept.step_ok[OF 1(3,4) this] have k: "kept qm0 s2" .
    note q = steps_combined[OF d, of st qm "sp_qm s2", folded qm0_def]
    have q2: "qm_ok (sp_qm s2)" using q(1) k by (simp add: kept_def)
    note part = update_queues_partition[OF q2 1(5)]
    have comb: "mset (combined (sp_qm s2)) = mset run + mset wait"
      using k mset_combined by (simp add: kept_def qm0_def)
    then have "set (combined (sp_qm s2)) = set run \<union> set wait"
      by (metis set_mset_mset set_mset_union)
    then have "fst ` set (so_tokens out) \<subseteq> set (sd_running s) \<union> set (queue_iter lt (sd_waiting s))"
      using k mset_eq_setD[OF run] mset_eq_setD[OF wait] finish_step_cases(1)[OF 1(6)] by (simp add: kept_def)
    moreover have "mset (queue_iter lt waiting)
        = mset (filter (\<lambda>r. r \<notin> running_req_ids (sp_qm s2)) (combined (sp_qm s2)))"
      by (metis part(2) queue_iter_mset mset_queue_from)
    then have "mset running + mset (queue_iter lt waiting) = mset run + mset wait"
      unfolding part(1) comb[symmetric] by simp
    ultimately show ?thesis
      using run wait finish_step_cases(4-6)[OF 1(6)] by simp
  qed
qed

text \<open>
  C7. A step neither loses nor duplicates a request: whatever was preempted, admitted or ignored
  on the way, the running and the waiting queue afterwards hold together exactly the requests
  they held before. Tokens are only handed out to those requests; the queue of skipped
  requests, which holds the ones that wait for a grammar or for streaming input, is returned
  as it was, and nothing of it is scheduled.
\<close>

theorem schedule_keeps_requests:
  assumes "schedule cfg ts now now' s = Some (Inr (out, s'))"
    and "distinct (sd_running s @ queue_iter lt (sd_waiting s))"
  shows "mset (sd_running s') + mset (queue_iter lt (sd_waiting s'))
      = mset (sd_running s) + mset (queue_iter lt (sd_waiting s))
    \<and> fst ` set (so_tokens out) \<subseteq> set (sd_running s) \<union> set (queue_iter lt (sd_waiting s))
    \<and> sd_skipped s' = sd_skipped s"
  using assms by (rule schedule_requests)


section \<open>The token budget\<close>

text \<open>Well-formed for scheduling: the computed tokens stay below the tokens there are, placeholders
  of the async scheduler included, and below the length of the model.\<close>

definition req_fits :: "sched_config \<Rightarrow> request \<Rightarrow> bool" where
  "req_fits cfg r \<longleftrightarrow> 0 \<le> num_output_placeholders r
     \<and> num_computed_tokens r \<le> num_tokens r + num_output_placeholders r
     \<and> num_computed_tokens r < sc_max_len cfg \<and> num_tokens r \<le> sc_max_len cfg \<and> 0 < sc_max_len cfg"

lemma enc_inputs_loop_new:
  assumes "enc_inputs_loop check can has_item ec r nc shift fs p m = Inr (p', m')" and "0 \<le> plan_new p"
  shows "0 \<le> plan_new p' \<and> plan_new p' \<le> plan_new p"
  using assms
proof (induction fs arbitrary: p m)
  case (Cons x fs)
  obtain i f where x: "x = (i, f)" by (cases x)
  from Cons.prems show ?case
    unfolding x enc_inputs_loop.simps Let_def
    by (auto split: if_splits elim!: bindE_InrE dest!: Cons.IH)
qed simp

lemma try_schedule_new:
  assumes "try_schedule_encoder_inputs check can has_item ec r nc n b shift m = Inr (p, m')" and "0 \<le> n"
  shows "0 \<le> plan_new p \<and> plan_new p \<le> n"
  using assms enc_inputs_loop_new[where p' = p and m' = m']
  by (auto simp: try_schedule_encoder_inputs_def Let_def split: if_splits dest!: enc_inputs_loop_new[where p' = p and m' = m'])

lemma plan_encoder_new:
  assumes "plan_encoder cfg r nc n b em = Inr (p, em')" and "0 \<le> n"
  shows "0 \<le> plan_new p \<and> plan_new p \<le> n"
    and "\<not> has_encoder_inputs r \<Longrightarrow> plan_new p = n"
  using assms try_schedule_new[OF _ assms(2), where p = p and m' = em'] by (auto simp: plan_encoder_def split: if_splits)

lemma split_tokens_le:
  assumes "0 < sc_cache_block_size cfg" and "0 \<le> plan_new p"
  shows "0 \<le> split_tokens cfg r p loc \<and> split_tokens cfg r p loc \<le> plan_new p"
proof -
  have "plan_new p div sc_cache_block_size cfg * sc_cache_block_size cfg \<le> plan_new p"
    using assms(1) by (simp add: minus_mod_eq_div_mult[symmetric])
  moreover have "0 \<le> plan_new p div sc_cache_block_size cfg * sc_cache_block_size cfg"
    using assms by (simp add: pos_imp_zdiv_nonneg_iff)
  ultimately show ?thesis
    using assms(2) by (auto simp: split_tokens_def mamba_block_aligned_split_def Let_def)
qed

text \<open>The dict of scheduled tokens.\<close>

definition tokens_sum :: "(rid \<times> int) list \<Rightarrow> int" where
  "tokens_sum ts = sum_list (map snd ts)"

lemma tokens_sum_delete:
  "distinct (map fst ts) \<Longrightarrow> map_of ts v = Some n \<Longrightarrow> tokens_sum (AList.delete v ts) = tokens_sum ts - n"
proof (induction ts)
  case (Cons x ts)
  then show ?case
    by (cases x) (auto simp: tokens_sum_def AList.delete_simps dest!: AList.delete_id split: if_splits)
qed simp

lemma tokens_sum_update:
  "\<forall>x \<in> set ts. 0 < snd x \<Longrightarrow> tokens_sum (AList.update v n ts) \<le> tokens_sum ts + n"
  by (induction ts) (auto simp: tokens_sum_def)

lemma update_positive: "\<forall>x \<in> set ts. 0 < snd x \<Longrightarrow> 0 < n \<Longrightarrow> \<forall>x \<in> set (AList.update v n ts). 0 < snd x"
  by (induction ts) auto

definition budgeted :: "sched_config \<Rightarrow> rid list \<Rightarrow> step \<Rightarrow> bool" where
  "budgeted cfg comb s \<longleftrightarrow> combined (sp_qm s) = comb \<and> (\<forall>r. req_fits cfg (sp_store s r))
     \<and> distinct (map fst (sp_tokens s)) \<and> (\<forall>x \<in> set (sp_tokens s). 0 < snd x)
     \<and> 0 \<le> sp_budget s \<and> tokens_sum (sp_tokens s) + sp_budget s \<le> sc_max_tokens cfg"


lemma num_tokens_kept [simp]:
  "num_tokens (r\<lparr>status := a\<rparr>) = num_tokens r" "num_tokens (r\<lparr>num_computed_tokens := b\<rparr>) = num_tokens r"
  "num_tokens (r\<lparr>spec_token_ids := c\<rparr>) = num_tokens r" "num_tokens (r\<lparr>num_preemptions := d\<rparr>) = num_tokens r"
  "num_tokens (r\<lparr>prefill_stats := e\<rparr>) = num_tokens r"
  by (simp_all add: num_tokens_def)

lemma req_fits_log [simp]: "req_fits cfg (log_event cfg' ty t r) = req_fits cfg r"
  by (simp add: req_fits_def)

lemma req_fits_upd:
  assumes "\<forall>r. req_fits cfg (st r)" and "\<And>r. req_fits cfg r \<Longrightarrow> req_fits cfg (f r)"
  shows "\<forall>r. req_fits cfg (upd_req v f st r)"
  using assms by (simp add: upd_req_def)

lemma req_fits_status [simp]: "req_fits cfg (r\<lparr>status := a\<rparr>) = req_fits cfg r"
  and req_fits_stats [simp]: "req_fits cfg (r\<lparr>prefill_stats := p\<rparr>) = req_fits cfg r"
  and req_fits_spec [simp]: "req_fits cfg (r\<lparr>spec_token_ids := t\<rparr>) = req_fits cfg r"
  by (simp_all add: req_fits_def)

lemma num_tokens_nonneg [simp]: "0 \<le> num_tokens r"
  by (simp add: num_tokens_def)

lemma req_fits_computed:
  "req_fits cfg r \<Longrightarrow> c < num_tokens r \<or> c = 0 \<Longrightarrow> req_fits cfg (r\<lparr>num_computed_tokens := c\<rparr>)"
  using num_tokens_nonneg[of r] unfolding req_fits_def by auto

lemma preempt_step_budgeted:
  assumes "budgeted cfg comb s" and "preempt_step cfg ts v s = Inr s'"
  shows "budgeted cfg comb s' \<and> sp_budget s \<le> sp_budget s'"
proof -
  obtain s1 st km em qm where 1: "unschedule v s = Inr s1"
    "preempt_request cfg ts v (sp_store s1) (sp_km s1) (sp_enc s1) = Inr (st, km, em)"
    "update_idxs_after_preemption (sp_qm s1) = Inr qm"
    "s' = s1\<lparr>sp_store := st, sp_km := km, sp_enc := em, sp_qm := qm, sp_preempted := sp_preempted s1 @ [v]\<rparr>"
    using assms(2) by (rule preempt_step_cases)
  have "budgeted cfg comb s1 \<and> sp_budget s \<le> sp_budget s1"
    using 1(1)
  proof (cases rule: unschedule_cases)
    case (scheduled n e)
    have n: "0 < n" using scheduled(2) assms(1) by (auto simp: budgeted_def dest!: map_of_SomeD)
    have d: "distinct (map fst (AList.delete v (sp_tokens s)))"
      using assms(1) by (simp add: budgeted_def AList.distinct_delete)
    have "\<forall>x \<in> set (AList.delete v (sp_tokens s)). 0 < snd x"
      using assms(1) delete_subset[of v "sp_tokens s"] by (auto simp: budgeted_def)
    then show ?thesis
      using assms(1) n d tokens_sum_delete[OF _ scheduled(2)] unfolding scheduled(3) by (simp add: budgeted_def)
  qed (use assms(1) in simp)
  moreover from this have "\<forall>r. req_fits cfg (st r)"
    unfolding preempt_request_store(1)[OF 1(2)]
    by (intro req_fits_upd) (auto simp: budgeted_def req_fits_def intro: add_nonneg_nonneg)
  ultimately show ?thesis using preemption_kept[OF 1(3)] by (simp add: 1(4) budgeted_def)
qed

interpretation budget: step_invariant cfg ts comb "\<lambda>s. 0 < sc_cache_block_size cfg \<and> budgeted cfg comb s"
    "\<lambda>rid n s. 0 < n \<and> n \<le> sp_budget s"
proof
  fix s :: step and rid c b em plan em'
  assume s: "0 < sc_cache_block_size cfg \<and> budgeted cfg comb s" and b: "0 < sp_budget s"
    and pl: "plan_encoder cfg (sp_store s rid) c (running_tokens cfg (sp_store s rid) (sp_budget s)) b em = Inr (plan, em')"
    and n: "split_tokens cfg (sp_store s rid) plan 0 \<noteq> 0"
  let ?r = "sp_store s rid"
  have "req_fits cfg ?r" using s by (simp add: budgeted_def)
  then have "0 \<le> running_tokens cfg ?r (sp_budget s) \<and> running_tokens cfg ?r (sp_budget s) \<le> sp_budget s"
    using b by (auto simp: running_tokens_def req_fits_def Let_def num_tokens_def num_tokens_with_spec_def)
  then show "0 < split_tokens cfg ?r plan 0 \<and> split_tokens cfg ?r plan 0 \<le> sp_budget s"
    using plan_encoder_new(1)[OF pl] split_tokens_le[of cfg plan ?r 0] s n by auto
next
  fix s :: step and rid c n b em plan em' loc
  assume s: "0 < sc_cache_block_size cfg \<and> budgeted cfg comb s" and n: "0 < n" "n \<le> sp_budget s"
    and pl: "plan_encoder cfg (sp_store s rid) c n b em = Inr (plan, em')"
    and nz: "has_encoder_inputs (sp_store s rid) \<Longrightarrow> plan_new plan \<noteq> 0"
    and nm: "sc_mamba_split cfg \<Longrightarrow> split_tokens cfg (sp_store s rid) plan loc \<noteq> 0"
  let ?r = "sp_store s rid"
  have p: "0 < plan_new plan \<and> plan_new plan \<le> n"
    using plan_encoder_new[OF pl] n nz by (cases "has_encoder_inputs ?r") fastforce+
  then have "split_tokens cfg ?r plan loc \<noteq> 0" using nm by (cases "sc_mamba_split cfg") (auto simp: split_tokens_def)
  then show "0 < split_tokens cfg ?r plan loc \<and> split_tokens cfg ?r plan loc \<le> sp_budget s"
    using split_tokens_le[of cfg plan ?r loc] s p n(2) by auto
next
  fix s rid n
  assume s: "0 < sc_cache_block_size cfg \<and> budgeted cfg comb s" and n: "0 < n \<and> n \<le> sp_budget s"
  let ?s = "s\<lparr>sp_tokens := AList.update rid n (sp_tokens s), sp_budget := sp_budget s - n\<rparr>"
  have "budgeted cfg comb ?s"
    using s n tokens_sum_update[of "sp_tokens s" rid n] update_positive[of "sp_tokens s" n rid]
    by (auto simp: budgeted_def AList.distinct_update)
  moreover have "\<forall>r. req_fits cfg (upd_req rid (\<lambda>r. r\<lparr>spec_token_ids := []\<rparr>) (sp_store s) r)"
    using s by (intro req_fits_upd) (simp_all add: budgeted_def)
  ultimately show "0 < sc_cache_block_size cfg \<and> budgeted cfg comb (note_spec rid n ?s)"
    using s by (simp add: note_spec_def Let_def budgeted_def)
next
  fix s :: step and rid n c qm
  assume s: "0 < sc_cache_block_size cfg \<and> budgeted cfg comb s" and n: "0 < n \<and> n \<le> sp_budget s"
    and c: "c < num_tokens (sp_store s rid)" and q: "update_idxs_after_new_scheduling (sp_qm s) = Inr qm"
  let ?st = "upd_req rid (\<lambda>r. (log_event cfg SCHEDULED ts r)\<lparr>status := RUNNING, num_computed_tokens := c\<rparr>) (sp_store s)"
  have "req_fits cfg (?st r)" for r
    using s c by (cases "r = rid") (auto simp: budgeted_def intro: req_fits_computed)
  then show "0 < sc_cache_block_size cfg \<and> budgeted cfg comb (s\<lparr>sp_qm := qm,
      sp_tokens := AList.update rid n (sp_tokens s), sp_budget := sp_budget s - n, sp_store := ?st\<rparr>)"
    using s n tokens_sum_update[of "sp_tokens s" rid n] update_positive[of "sp_tokens s" n rid] scheduling_kept(1)[OF q]
    by (auto simp: budgeted_def AList.distinct_update)
next
  fix s :: step and i s'
  assume s: "0 < sc_cache_block_size cfg \<and> budgeted cfg comb s" and r: "preempt_rest cfg ts i s = Inr s'"
  from r show "0 < sc_cache_block_size cfg \<and> budgeted cfg comb s'"
  proof (cases rule: preempt_rest_cases)
    case (preempt v km em qm)
    have "\<forall>r. req_fits cfg (upd_req v (\<lambda>r. log_event cfg EV_PREEMPTED ts
                      (r\<lparr>status := PREEMPTED, num_computed_tokens := 0\<rparr>)) (sp_store s) r)"
      using s by (intro req_fits_upd) (auto simp: budgeted_def req_fits_def intro: add_nonneg_nonneg)
    then show ?thesis using s preemption_kept[OF preempt(3)] by (simp add: preempt(4) budgeted_def)
  qed (use s in simp)
next
  fix s rid qm
  assume "0 < sc_cache_block_size cfg \<and> budgeted cfg comb s" and q: "update_idxs_after_ignored (sp_qm s) = Inr qm"
  then show "0 < sc_cache_block_size cfg \<and> budgeted cfg comb
      (s\<lparr>sp_store := upd_req rid (\<lambda>r. r\<lparr>status := FINISHED_IGNORED\<rparr>) (sp_store s), sp_qm := qm\<rparr>)"
    using qm_step_combined[OF qm_step.ignore[OF q]] by (auto simp: budgeted_def upd_req_def)
next
  fix s rid p assume "0 < sc_cache_block_size cfg \<and> budgeted cfg comb s"
  then show "0 < sc_cache_block_size cfg \<and> budgeted cfg comb
      (s\<lparr>sp_store := upd_req rid (\<lambda>r. r\<lparr>prefill_stats := p\<rparr>) (sp_store s)\<rparr>)"
    by (auto simp: budgeted_def upd_req_def)
next
  fix s v s' assume "0 < sc_cache_block_size cfg \<and> budgeted cfg comb s" "preempt_step cfg ts v s = Inr s'"
  then show "0 < sc_cache_block_size cfg \<and> budgeted cfg comb s'" using preempt_step_budgeted by blast
next
  fix s rid n v s'
  assume "0 < sc_cache_block_size cfg \<and> budgeted cfg comb s" "0 < n \<and> n \<le> sp_budget s"
    "preempt_step cfg ts v s = Inr s'"
  then show "0 < n \<and> n \<le> sp_budget s'" using preempt_step_budgeted[of cfg comb s ts v s'] by auto
qed (auto simp: budgeted_def shared_eq_def)

text \<open>
  C9. The token budget is kept: when every request has fewer computed tokens than tokens and fits
  the model, then at the end of the loop, after all preemptions gave tokens back, the
  budget is not negative, the scheduled tokens and what is left of the budget do not exceed
  \<open>max_num_scheduled_tokens\<close>, and every scheduled request has an entry of its own
  with at least one token. So the two assertions on the budget never fail.
\<close>

theorem token_budget_kept:
  assumes "visit_loop cfg ts (start_step cfg s st qm) = Some (Inr s1)"
    and "preempt_remaining cfg ts s1 = Inr s2"
    and "\<forall>r. req_fits cfg (st r)" and "0 \<le> sc_max_tokens cfg" and "0 < sc_cache_block_size cfg"
  shows "0 \<le> sp_budget s2 \<and> sum_list (map snd (sp_tokens s2)) + sp_budget s2 \<le> sc_max_tokens cfg
    \<and> distinct (map fst (sp_tokens s2)) \<and> (\<forall>(r, n) \<in> set (sp_tokens s2). 0 < n)"
proof -
  define comb where "comb = combined (sp_qm (start_step cfg s st qm))"
  have "budgeted cfg comb (start_step cfg s st qm)"
    using assms(3,4) by (simp add: budgeted_def start_step_def Let_def comb_def tokens_sum_def)
  with budget.step_ok[OF assms(1,2), of comb] assms(5) show ?thesis
    by (auto simp: budgeted_def tokens_sum_def)
qed


section \<open>The preemption loop ends\<close>

lemma preemption_removes:
  assumes "update_idxs_after_preemption qm = Inr qm'" and "last_running_idx qm = Some l"
  shows "l < length (combined qm) \<and> combined qm ! l \<in> running_req_ids qm
    \<and> running_req_ids qm' = running_req_ids qm - {combined qm ! l}"
  using assms by (auto simp: update_idxs_after_preemption_def Let_def assertE_bind split: if_splits option.splits)

text \<open>
  C12. Preempting until the blocks are there always comes to an end, whatever the allocation
  answers: every round takes one request off the running ids, so there are at most as many
  rounds as running requests.
\<close>

theorem preemption_loop_ends:
  assumes "finite (running_req_ids (sp_qm s))"
  shows "\<exists>res. alloc_loop cfg ts alloc rid s = Some res"
  using assms
proof (induction "card (running_req_ids (sp_qm s))" arbitrary: s rule: less_induct)
  case less
  note unfold = alloc_loop.simps[of cfg ts alloc rid s]
  show ?case
  proof (cases "alloc (sp_store s rid) (sp_km s)")
    case (Inr p)
    obtain new km where p: "p = (new, km)" by (cases p)
    let ?s1 = "s\<lparr>sp_km := km\<rparr>"
    show ?thesis
    proof (cases "new = None \<and> last_running_idx (sp_qm s) \<noteq> None")
      case True
      then obtain l where l: "last_running_idx (sp_qm s) = Some l" by blast
      let ?v = "combined (sp_qm s) ! l"
      show ?thesis
      proof (cases "preempt_step cfg ts ?v ?s1")
        case (Inr s2)
        have "update_idxs_after_preemption (sp_qm s) = Inr (sp_qm s2)" using preempt_step_qm[OF Inr] by simp
        from preemption_removes[OF this l]
        have "running_req_ids (sp_qm s2) = running_req_ids (sp_qm s) - {?v}" "?v \<in> running_req_ids (sp_qm s)"
          by blast+
        then have "card (running_req_ids (sp_qm s2)) < card (running_req_ids (sp_qm s))"
          "finite (running_req_ids (sp_qm s2))" using less.prems by (auto simp only: intro!: card_Diff1_less)
        then obtain res where "alloc_loop cfg ts alloc rid s2 = Some res" using less.hyps by blast
        then show ?thesis using \<open>alloc (sp_store s rid) (sp_km s) = Inr p\<close> p l True Inr
          unfolding unfold by (simp add: Let_def)
      qed (use \<open>alloc (sp_store s rid) (sp_km s) = Inr p\<close> p l True in \<open>simp add: unfold Let_def\<close>)
    next
      case False
      then show ?thesis using Inr p by (auto simp: unfold Let_def split: option.split)
    qed
  qed (simp add: unfold)
qed

end
