(* ===== verification/Schedule_Pause.thy ===== *)
theory Schedule_Pause
  imports Schedule_Correct
begin

text \<open>
  A step of a scheduler that is paused completely. Its token budget is zero from the start, so
  the code after the loop, which preempts what the budget did not reach, preempts every
  running request.
\<close>

section \<open>Preempting all running requests\<close>

lemma head_preemption_fails:
  assumes inv: "qm_inv qm" and l: "last_running_idx qm = Some 0"
  shows "update_idxs_after_preemption qm = Inl AssertionError"
proof -
  have "combined qm ! 0 \<in> running_req_ids qm"
    using last_running_Some[of qm 0] l qm_invD(7)[OF inv] by simp
  then have "first_waiting_idx qm \<noteq> Some 0"
    using first_waiting_Some[of qm 0] qm_invD(5,8)[OF inv] by auto
  then show ?thesis unfolding preemption_unfold[OF inv l] by simp
qed

lemma preemption_counts:
  assumes inv: "qm_inv qm" and upd: "update_idxs_after_preemption qm = Inr qm'"
  shows "card (running_req_ids qm') = card (running_req_ids qm) - 1"
    and "combined qm ! 0 \<in> running_req_ids qm \<Longrightarrow> combined qm ! 0 \<in> running_req_ids qm'"
proof -
  have fin: "finite (running_req_ids qm)" using qm_invD(2)[OF inv] finite_subset by blast
  have "card (running_req_ids qm') = card (running_req_ids qm) - 1
    \<and> (combined qm ! 0 \<in> running_req_ids qm \<longrightarrow> combined qm ! 0 \<in> running_req_ids qm')"
  proof (cases "last_running_idx qm")
    case None
    then have "running_req_ids qm = {}"
      using last_running_None[of qm] qm_invD(2,7)[OF inv] by (fastforce simp: in_set_conv_nth)
    then show ?thesis using upd None by (simp add: update_idxs_after_preemption_def)
  next
    case (Some l)
    note rem = preemption_removes[OF upd Some]
    have "l \<noteq> 0" using head_preemption_fails[OF inv] upd Some by auto
    then have "combined qm ! 0 \<noteq> combined qm ! l"
      using nth_eq_iff_index_eq[OF qm_invD(1)[OF inv], of 0 l] rem by (cases "combined qm") auto
    then show ?thesis using rem fin by simp
  qed
  then show "card (running_req_ids qm') = card (running_req_ids qm) - 1"
    and "combined qm ! 0 \<in> running_req_ids qm \<Longrightarrow> combined qm ! 0 \<in> running_req_ids qm'" by blast+
qed

lemma rest_fold:
  assumes "foldE (preempt_rest cfg ts) js s = Inr s'" and "combined (sp_qm s) = comb"
    and "distinct (map ((!) comb) js)" and "qm_inv (sp_qm s)" and "no_gaps (sp_qm s)"
  shows "sp_preempted s' = sp_preempted s @ filter (\<lambda>v. status (sp_store s v) = RUNNING) (map ((!) comb) js)
    \<and> sp_tokens s' = sp_tokens s \<and> (\<forall>r. priority (sp_store s' r) = priority (sp_store s r))
    \<and> qm_inv (sp_qm s') \<and> no_gaps (sp_qm s') \<and> combined (sp_qm s') = comb
    \<and> card (running_req_ids (sp_qm s')) = card (running_req_ids (sp_qm s))
        - length (filter (\<lambda>v. status (sp_store s v) = RUNNING) (map ((!) comb) js))
    \<and> (comb ! 0 \<in> running_req_ids (sp_qm s) \<longrightarrow> comb ! 0 \<in> running_req_ids (sp_qm s'))"
  using assms
proof (induction js arbitrary: s)
  case (Cons j js)
  then obtain s1 where s1: "preempt_rest cfg ts j s = Inr s1" "foldE (preempt_rest cfg ts) js s1 = Inr s'"
    by (auto elim: bindE_InrE)
  show ?case
  proof (cases "status (sp_store s (comb ! j)) = RUNNING")
    case False
    then have "s1 = s" using s1(1) Cons.prems(2) by (simp add: preempt_rest_def Let_def)
    with Cons.IH[OF s1(2)] Cons.prems False show ?thesis by simp
  next
    case True
    then obtain qm km em where qm: "update_idxs_after_preemption (sp_qm s) = Inr qm"
      and eq: "s1 = s\<lparr>sp_km := km, sp_enc := em, sp_qm := qm, sp_preempted := sp_preempted s @ [comb ! j],
              sp_store := upd_req (comb ! j) (\<lambda>r. log_event cfg EV_PREEMPTED ts
                      (r\<lparr>status := PREEMPTED, num_computed_tokens := 0\<rparr>)) (sp_store s)\<rparr>"
      using s1(1) Cons.prems(2) unfolding preempt_rest_def Let_def by (auto elim!: bindE_InrE)
    have same: "sp_store s1 (comb ! i) = sp_store s (comb ! i)" if "i \<in> set js" for i
    proof -
      have "comb ! i \<in> (!) comb ` set js" using that by (rule imageI)
      then have "comb ! i \<noteq> comb ! j" using Cons.prems(3) by auto
      then show ?thesis by (simp add: eq)
    qed
    then have filt: "filter (\<lambda>v. status (sp_store s1 v) = RUNNING) (map ((!) comb) js)
        = filter (\<lambda>v. status (sp_store s v) = RUNNING) (map ((!) comb) js)"
      by (intro filter_cong) auto
    have prio: "priority (sp_store s1 r) = priority (sp_store s r)" for r
      by (simp add: eq upd_req_def log_event_def record_event_def)
    have inv1: "qm_inv (sp_qm s1)" "no_gaps (sp_qm s1)" "combined (sp_qm s1) = comb" "sp_tokens s1 = sp_tokens s"
      using preemption_inv[OF Cons.prems(4,5) qm] preemption_kept(1)[OF qm] Cons.prems(2) by (simp_all add: eq)
    note cnt = preemption_counts[OF Cons.prems(4) qm]
    from Cons.IH[OF s1(2) inv1(3) _ inv1(1,2)] Cons.prems(3)
    have IH: "sp_preempted s' = sp_preempted s1 @ filter (\<lambda>v. status (sp_store s v) = RUNNING) (map ((!) comb) js)
      \<and> sp_tokens s' = sp_tokens s1 \<and> (\<forall>r. priority (sp_store s' r) = priority (sp_store s1 r))
      \<and> qm_inv (sp_qm s') \<and> no_gaps (sp_qm s') \<and> combined (sp_qm s') = comb
      \<and> card (running_req_ids (sp_qm s')) = card (running_req_ids (sp_qm s1))
          - length (filter (\<lambda>v. status (sp_store s v) = RUNNING) (map ((!) comb) js))
      \<and> (comb ! 0 \<in> running_req_ids (sp_qm s1) \<longrightarrow> comb ! 0 \<in> running_req_ids (sp_qm s'))"
      unfolding filt by simp
    show ?thesis
      using IH True cnt Cons.prems(2) prio inv1(4) by (simp add: eq)
  qed
qed simp


section \<open>A paused step\<close>

lemma combine_start:
  assumes "\<forall>r \<in> set run. status (st r) \<noteq> PREEMPTED"
  shows "running_req_ids (combine_queues st run wait qm) = set run"
    and "waiting_req_ids (combine_queues st run wait qm) = set wait"
    and "preempted_req_ids (combine_queues st run wait qm) = {}"
  using assms by (auto simp: combine_queues_def Let_def)

lemma paused_loop:
  assumes "sp_budget s = 0"
  shows "visit_loop cfg ts s = Some (Inr s)"
  using assms by (simp add: visit_loop.simps[of cfg ts s])

text \<open>
  C14. Pausing everything does not freeze the running requests: if a step of a completely paused
  scheduler succeeds, it schedules nothing, preempts every running request (their blocks are
  gone) and leaves the running queue empty. And it succeeds only if some waiting request is
  at least as urgent as all running ones: when the most urgent request is a running one, the
  step raises.
\<close>

theorem paused_step_preempts_all:
  assumes "schedule cfg ts now now' s = Some (Inr (out, s'))" and "sd_pause s = PAUSED_ALL"
    and "distinct (sd_running s @ queue_iter lt (sd_waiting s))"
    and "\<forall>r \<in> set (sd_running s). status (sd_store s r) = RUNNING"
    and "\<forall>r \<in> set (queue_iter lt (sd_waiting s)). status (sd_store s r) \<noteq> RUNNING"
  shows "so_tokens out = [] \<and> so_preempted out = set (sd_running s) \<and> sd_running s' = []
    \<and> (sd_running s \<noteq> [] \<longrightarrow> (\<exists>w \<in> set (queue_iter lt (sd_waiting s)). \<forall>r \<in> set (sd_running s).
         priority (sd_store s' w) \<le> priority (sd_store s' r)))"
proof -
  from assms(1) show ?thesis
  proof (cases rule: schedule_cases)
    case (1 st qm rids s1 s2 running waiting)
    define run where "run = reorder_running_queue st (sd_running s)"
    define wait where "wait = reorder_waiting_queue (sched_lt cfg st) st (sd_waiting s)"
    define qm0 where "qm0 = combine_queues st run wait qm"
    define s0 where "s0 = start_step cfg s st qm"
    have st: "status (st r) = status (sd_store s r)" for r
    proof -
      obtain a p where "st r = (sd_store s r)\<lparr>age := a, priority := p\<rparr>" using 1(1) unfolding reordered_def by blast
      then show ?thesis by simp
    qed
    have run: "set run = set (sd_running s)" by (simp add: run_def reorder_running_queue_def)
    have wait: "set wait = set (queue_iter lt (sd_waiting s))"
      using queue_iter_set by (simp add: wait_def reorder_waiting_queue_def)
    have d: "distinct (run @ wait)"
      using assms(3) queue_iter_distinct[of lt "sd_waiting s" "sched_lt cfg st"] run wait
      by (simp add: run_def wait_def reorder_running_queue_def reorder_waiting_queue_def)
    have s0: "sp_budget s0 = 0" "sp_index s0 = 0" "sp_qm s0 = qm0" "sp_store s0 = st" "sp_preempted s0 = []"
      "sp_tokens s0 = []"
      by (simp_all add: s0_def start_step_def Let_def assms(2) qm0_def run_def wait_def)
    have s1: "s1 = s0" using 1(3) paused_loop[of s0 cfg ts] s0(1) by (simp add: s0_def)
    have inv: "qm_inv qm0" "no_gaps qm0" using combine_queues_inv[OF d, of st qm] by (simp_all add: qm0_def)
    have sets: "running_req_ids qm0 = set run" "waiting_req_ids qm0 = set wait" "preempted_req_ids qm0 = {}"
      using combine_start[of run st wait qm] assms(4) run st by (auto simp: qm0_def)
    have comb: "set (combined qm0) = set run \<union> set wait" by (simp add: qm0_def set_combined)
    have dc: "distinct (combined qm0)" by (rule qm_invD(1)[OF inv(1)])
    define n where "n = length (combined qm0)"
    have idx: "map ((!) (combined qm0)) [0..<n] = combined qm0" by (simp add: n_def map_nth)
    have fold: "foldE (preempt_rest cfg ts) [0..<n] s0 = Inr s2"
    proof (cases "combined qm0 = []")
      case True
      then show ?thesis using 1(4) s1 s0 by (simp add: preempt_remaining_def n_def)
    next
      case False
      then show ?thesis using 1(4) s1 s0 by (simp add: preempt_remaining_def n_def)
    qed
    have filt: "filter (\<lambda>v. status (st v) = RUNNING) (combined qm0) = filter (\<lambda>v. v \<in> set run) (combined qm0)"
      using assms(4,5) st run wait comb by (intro filter_cong) auto
    have len: "length (filter (\<lambda>v. v \<in> set run) (combined qm0)) = card (set run)"
      using dc comb by (subst distinct_card[symmetric]) (auto intro!: arg_cong[where f = card])
    from rest_fold[OF fold, of "combined qm0", unfolded idx] s0 dc inv filt
    have r: "sp_preempted s2 = filter (\<lambda>v. v \<in> set run) (combined qm0)" "sp_tokens s2 = []"
      "\<And>r. priority (sp_store s2 r) = priority (st r)" "qm_inv (sp_qm s2)" "no_gaps (sp_qm s2)"
      "combined (sp_qm s2) = combined qm0"
      "card (running_req_ids (sp_qm s2)) = card (set run) - card (set run)"
      "combined qm0 ! 0 \<in> set run \<Longrightarrow> combined qm0 ! 0 \<in> running_req_ids (sp_qm s2)"
      by (simp_all add: sets len)
    have none: "running_req_ids (sp_qm s2) = {}"
      using r(7) finite_subset[OF qm_invD(2)[OF r(4)]] by simp
    have "qm_ok (sp_qm s2)" using r(4,5) by (simp add: qm_ok_def)
    from update_queues_partition(1)[OF this 1(5)] none have empty: "running = []" by simp
    note fin = finish_step_cases[OF 1(6)]
    have so: "so_tokens out = []" "so_preempted out = set (sd_running s)" "sd_running s' = []"
      using fin(1,3,4) r(1,2) empty comb run by auto
    have store: "sd_store s' = sp_store s2"
      using finish_step_store[OF 1(6)] r(2) by simp
    have "\<exists>w \<in> set wait. \<forall>r \<in> set run. priority (st w) \<le> priority (st r)" if "sd_running s \<noteq> []"
    proof (intro bexI ballI)
      let ?w = "combined qm0 ! 0"
      have ne: "combined qm0 \<noteq> []" using that run comb by auto
      then have "?w \<in> set (combined qm0)" by (intro nth_mem) simp
      then show "?w \<in> set wait" using r(8) none comb by auto
      fix x assume "x \<in> set run"
      then have "x \<in> set (combined qm0)" using comb by simp
      then obtain i where i: "i < length (combined qm0)" "x = combined qm0 ! i" by (auto simp: in_set_conv_nth)
      then show "priority (st ?w) \<le> priority (st x)"
        using sorted_nth_mono[OF combined_sorted[of st run wait qm], of 0 i] ne
        by (simp add: qm0_def nth_map[of 0])
    qed
    then show ?thesis using so wait run by (simp add: store r(3))
  qed
qed

end
