(* ===== verification/Schedule_Examples.thy ===== *)
theory Schedule_Examples
  imports Schedule_Pause
begin

text \<open>
  Concrete steps, evaluated: one cache group of 8 blocks of two tokens without prefix caching,
  a budget of 8 tokens, requests of three tokens. They instantiate the theorems about a step
  and show three outcomes that the comments in the code do not announce.
\<close>

definition ex_config :: sched_config where
  "ex_config = \<lparr>sc_max_running = 2, sc_max_tokens = 8, sc_max_len = 100, sc_max_enc_tokens = 0, sc_long_prefill = 0,
     sc_chunked_prefill = True, sc_reserve_full = False, sc_lookahead = 0, sc_eagle = False, sc_mamba_split = False,
     sc_cache_block_size = 2, sc_num_blocks = 8, sc_block_size = 2,
     sc_enc = \<lparr>is_encoder_decoder = False, disable_chunked_mm_input = False\<rparr>, sc_log_stats = False,
     sc_zeroing = False, sc_pp = False, sc_async = False, sc_v2_runner = False, sc_num_spec = 0, sc_policy = FCFS,
     sc_slo_policy = ''fcfs'', sc_digest = (\<lambda>_. []), sc_hasher = None, sc_oid = (\<lambda>_. 0)\<rparr>"

definition ex_kv :: kv_cache_manager where
  "ex_kv = \<lparr>km_max_len = 100, km_caching = False, km_co =
     \<lparr>co_pool = (case new_block_pool 8 False 2 False False of Inr p \<Rightarrow> p),
      co_managers = [new_manager (FullSpec False) 2 False 0 1 1 8 100],
      co_eagle = {}, co_kind = NoPrefixCache, co_hash_block_size = 2\<rparr>\<rparr>"

text \<open>Request \<open>a\<close> is more urgent than the others; those in \<open>run\<close> are running.\<close>

definition ex_queue_store :: "rid list \<Rightarrow> store" where
  "ex_queue_store run = (\<lambda>r. (text_request r (if r = ''a'' then 1 else 2) 0 [1, 2, 3])
     \<lparr>status := (if r \<in> set run then RUNNING else WAITING)\<rparr>)"

definition ex_scheduler :: "pause_state \<Rightarrow> rid list \<Rightarrow> rid list \<Rightarrow> scheduler" where
  "ex_scheduler p run wait = \<lparr>sd_store = ex_queue_store run, sd_requests = run @ wait,
     sd_waiting = FCFSRequestQueue wait, sd_skipped = FCFSRequestQueue [], sd_running = run, sd_finished = {},
     sd_finished_dict = None, sd_streaming = 0, sd_qm = new_queue_manager ''m'' FCFS False, sd_km = ex_kv,
     sd_enc = MM (new_encoder_cache 8), sd_prev = {}, sd_pause = p\<rparr>"

section \<open>Evaluation\<close>

lemma ex_priorities: "0 < priority (ex_queue_store run r)"
  by (simp add: ex_queue_store_def text_request_def)

lemma ex_fcfs: "fold fcfs_priority rids (ex_queue_store run) = ex_queue_store run"
  by (induction rids) (simp_all add: fcfs_priority_def ex_priorities)

text \<open>Under FCFS, without statistics, a step starts from the priorities there are.\<close>

lemma ex_schedule:
  assumes "sc_slo_policy cfg = ''fcfs''"
  shows "schedule cfg 0 0 0 (ex_scheduler p run wait)
    = schedule_queues cfg 0 (ex_queue_store run) (run @ wait) (new_queue_manager ''m'' FCFS False) (ex_scheduler p run wait)"
proof -
  have "\<not> track_stats (new_queue_manager ''m'' FCFS False)" by (simp add: new_queue_manager_def Let_def)
  then show ?thesis
    using assms by (simp add: schedule_def update_queue_stats_def update_priorities_def ex_scheduler_def ex_fcfs)
qed

definition ok_step :: "(sched_output \<times> scheduler) result option \<Rightarrow> (rid \<times> int) list \<Rightarrow> rid list \<Rightarrow> bool" where
  "ok_step res toks run = (case res of Some (Inr (out, s)) \<Rightarrow> so_tokens out = toks \<and> sd_running s = run | _ \<Rightarrow> False)"

lemma ok_stepE:
  assumes "ok_step res toks run"
  obtains out s where "res = Some (Inr (out, s))" "so_tokens out = toks" "sd_running s = run"
  using assms by (auto simp: ok_step_def split: option.splits sum.splits)

definition ex_step :: "sched_config \<Rightarrow> pause_state \<Rightarrow> rid list \<Rightarrow> rid list \<Rightarrow> (sched_output \<times> scheduler) result option" where
  "ex_step cfg p run wait = schedule_queues cfg 0 (ex_queue_store run) (run @ wait)
     (new_queue_manager ''m'' FCFS False) (ex_scheduler p run wait)"

lemma ex_admits: "ok_step (ex_step ex_config UNPAUSED [] [''a'', ''b'']) [(''a'', 3), (''b'', 3)] [''a'', ''b'']"
  by code_simp

lemma ex_paused: "ok_step (ex_step ex_config PAUSED_ALL [''b''] [''a'']) [] []"
  by code_simp

text \<open>
  The limit on running requests is not looked at when requests are admitted: with a limit of
  one, two waiting requests that fit the budget are both admitted and the final assertion
  fails.
\<close>

theorem running_limit_not_enforced:
  "schedule_queues (ex_config\<lparr>sc_max_running := 1\<rparr>) 0 (ex_queue_store []) [''a'', ''b'']
     (new_queue_manager ''m'' FCFS False) (ex_scheduler UNPAUSED [] [''a'', ''b'']) = Some (Inl AssertionError)"
proof -
  have "(case ex_step (ex_config\<lparr>sc_max_running := 1\<rparr>) UNPAUSED [] [''a'', ''b''] of
      Some (Inl e) \<Rightarrow> e = AssertionError | _ \<Rightarrow> False)"
    by code_simp
  then show ?thesis by (auto simp: ex_step_def split: option.splits sum.splits)
qed

text \<open>\<open>PAUSED_NEW\<close> does not keep waiting requests from being scheduled.\<close>

theorem paused_new_still_admits:
  "ok_step (ex_step ex_config PAUSED_NEW [] [''a'', ''b'']) [(''a'', 3), (''b'', 3)] [''a'', ''b'']"
  by code_simp

section \<open>The theorems at these steps\<close>

definition ex_start :: "pause_state \<Rightarrow> rid list \<Rightarrow> rid list \<Rightarrow> step" where
  "ex_start p run wait = start_step ex_config (ex_scheduler p run wait) (ex_queue_store run) (new_queue_manager ''m'' FCFS False)"

lemma ex_fits: "req_fits ex_config (ex_queue_store run r)"
  by (simp add: req_fits_def ex_queue_store_def text_request_def ex_config_def num_tokens_def)

theorem token_budget_kept_witness:
  "\<exists>s1 s2. visit_loop ex_config 0 (ex_start UNPAUSED [] [''a'', ''b'']) = Some (Inr s1)
    \<and> preempt_remaining ex_config 0 s1 = Inr s2 \<and> sp_tokens s2 = [(''a'', 3), (''b'', 3)]
    \<and> 0 \<le> sp_budget s2 \<and> 6 + sp_budget s2 \<le> 8"
proof -
  obtain out s' where run: "ex_step ex_config UNPAUSED [] [''a'', ''b''] = Some (Inr (out, s'))"
    and toks: "so_tokens out = [(''a'', 3), (''b'', 3)]" using ex_admits by (rule ok_stepE)
  obtain res where v: "visit_loop ex_config 0 (ex_start UNPAUSED [] [''a'', ''b'']) = Some res"
    and rest: "bindE res (\<lambda>s1. bindE (preempt_remaining ex_config 0 s1) (\<lambda>s2.
       bindE (update_queues (sched_lt ex_config (sp_store s2)) (sp_qm s2)) (\<lambda>(running, waiting).
         finish_step ex_config ((ex_scheduler UNPAUSED [] [''a'', ''b''])\<lparr>sd_requests := [] @ [''a'', ''b'']\<rparr>)
           running waiting s2))) = Inr (out, s')"
    using run by (auto simp: ex_step_def ex_start_def schedule_queues_def bind_eq_Some_conv)
  then obtain s1 s2 where s: "res = Inr s1" "preempt_remaining ex_config 0 s1 = Inr s2" "so_tokens out = sp_tokens s2"
    by (auto elim!: bindE_InrE dest: finish_step_cases(1))
  have "0 \<le> sc_max_tokens ex_config" "0 < sc_cache_block_size ex_config" "sc_max_tokens ex_config = 8"
    by (simp_all add: ex_config_def)
  moreover have "sp_tokens s2 = [(''a'', 3), (''b'', 3)]" using s(3) toks by simp
  ultimately show ?thesis
    using token_budget_kept[OF v[unfolded s(1) ex_start_def] s(2)] ex_fits s(1,2) v by simp
qed

theorem schedule_keeps_requests_witness:
  "\<exists>out s'. schedule ex_config 0 0 0 (ex_scheduler UNPAUSED [] [''a'', ''b'']) = Some (Inr (out, s'))
    \<and> mset (sd_running s') + mset (queue_iter (<) (sd_waiting s')) = {#''a'', ''b''#}
    \<and> sd_skipped s' = FCFSRequestQueue []"
proof -
  obtain out s' where "ex_step ex_config UNPAUSED [] [''a'', ''b''] = Some (Inr (out, s'))"
    using ex_admits by (rule ok_stepE)
  then have s: "schedule ex_config 0 0 0 (ex_scheduler UNPAUSED [] [''a'', ''b'']) = Some (Inr (out, s'))"
    using ex_schedule[of ex_config UNPAUSED "[]" "[''a'', ''b'']"] by (simp add: ex_step_def ex_config_def)
  have "distinct (sd_running (ex_scheduler UNPAUSED [] [''a'', ''b''])
      @ queue_iter (<) (sd_waiting (ex_scheduler UNPAUSED [] [''a'', ''b''])))"
    by (simp add: ex_scheduler_def)
  from schedule_keeps_requests[OF s this] s show ?thesis by (simp add: ex_scheduler_def)
qed

theorem paused_step_preempts_all_witness:
  "\<exists>out s'. schedule ex_config 0 0 0 (ex_scheduler PAUSED_ALL [''b''] [''a'']) = Some (Inr (out, s'))
    \<and> so_tokens out = [] \<and> so_preempted out = {''b''} \<and> sd_running s' = []"
proof -
  let ?s = "ex_scheduler PAUSED_ALL [''b''] [''a'']"
  obtain out s' where "ex_step ex_config PAUSED_ALL [''b''] [''a''] = Some (Inr (out, s'))"
    using ex_paused by (rule ok_stepE)
  then have s: "schedule ex_config 0 0 0 ?s = Some (Inr (out, s'))"
    using ex_schedule[of ex_config PAUSED_ALL "[''b'']" "[''a'']"] by (simp add: ex_step_def ex_config_def)
  have "sd_pause ?s = PAUSED_ALL" "distinct (sd_running ?s @ queue_iter (<) (sd_waiting ?s))"
    "\<forall>r \<in> set (sd_running ?s). status (sd_store ?s r) = RUNNING"
    "\<forall>r \<in> set (queue_iter (<) (sd_waiting ?s)). status (sd_store ?s r) \<noteq> RUNNING"
    by (simp_all add: ex_scheduler_def ex_queue_store_def)
  from paused_step_preempts_all[OF s this] s show ?thesis by (simp add: ex_scheduler_def)
qed

theorem preemption_loop_ends_witness:
  "\<exists>res. alloc_loop ex_config 0
     (\<lambda>r. allocate_slots (sc_digest ex_config) r 3 0 None 0 0 False 0 False) ''b''
     (ex_start UNPAUSED [''a'', ''b''] []) = Some res"
  by (rule preemption_loop_ends) (simp add: ex_start_def start_step_def Let_def combine_queues_def)

end
