(* ===== verification/Sched_Utils.thy ===== *)
theory Sched_Utils
  imports Request_Model
begin

text \<open>
  \<open>vllm/v1/core/sched/utils.py\<close>: the repetition detector, \<open>remove_all\<close> and
  \<open>check_stop\<close>. The loops of the detector run over the lists of the Python ranges
  and index the token list from its end; every index goes through \<open>py_index\<close>, so an
  index out of range is the exception it is in the code. The detector is compared with
  the specification "the tail is \<open>c\<close> copies of one block".
\<close>

section \<open>Repetition detection\<close>

fun rep_inner :: "int list \<Rightarrow> int \<Rightarrow> int \<Rightarrow> int \<Rightarrow> int list \<Rightarrow> bool result" where
  "rep_inner xs L n target [] = Inr True"
| "rep_inner xs L n target (m # ms) =
     bindE (py_index xs (- (L * m + n))) (\<lambda>t.
       if t \<noteq> target then Inr False else rep_inner xs L n target ms)"

fun rep_outer :: "int list \<Rightarrow> int \<Rightarrow> int \<Rightarrow> int list \<Rightarrow> bool result" where
  "rep_outer xs L c [] = Inr True"
| "rep_outer xs L c (n # ns) =
     bindE (py_index xs (- n)) (\<lambda>t.
     bindE (rep_inner xs L n t [1..c - 1]) (\<lambda>b.
       if b then rep_outer xs L c ns else Inr False))"

definition has_repeating_pattern :: "int list \<Rightarrow> int \<Rightarrow> int \<Rightarrow> bool result" where
  "has_repeating_pattern token_ids pattern_len repetition_min_count =
     rep_outer token_ids pattern_len repetition_min_count [1..pattern_len]"

fun check_rep_loop :: "int list \<Rightarrow> int \<Rightarrow> int list \<Rightarrow> bool result" where
  "check_rep_loop xs c [] = Inr False"
| "check_rep_loop xs c (L # Ls) =
     (if L * c > int (length xs) then Inr False
      else bindE (has_repeating_pattern xs L c) (\<lambda>b.
        if b then Inr True else check_rep_loop xs c Ls))"

definition check_sequence_repetition ::
  "int list \<Rightarrow> repetition_detection_params \<Rightarrow> bool result" where
  "check_sequence_repetition token_ids params =
     (let hi = max_pattern_size params;
          lo = (if min_pattern_size params \<le> 0 then 1 else min_pattern_size params);
          c = min_count params
      in if hi \<le> 0 \<or> c < 2 \<or> lo > hi then Inr False
         else check_rep_loop token_ids c [lo..hi])"

section \<open>Removal and the stop check\<close>

text \<open>\<open>items_to_remove\<close> is a Python set; for a single item the code calls
  \<open>list.remove\<close>, which drops the first occurrence only.\<close>

definition remove_all :: "'a list \<Rightarrow> 'a set \<Rightarrow> 'a list" where
  "remove_all lst items =
     (if items = {} then lst
      else if card items = 1 then remove1 (the_elem items) lst
      else filter (\<lambda>x. x \<notin> items) lst)"

definition check_stop :: "request \<Rightarrow> int \<Rightarrow> (bool \<times> request) result" where
  "check_stop r max_model_len =
     bindE (assertE (pooling_params r = None)) (\<lambda>_.
     case sampling_params r of
       None \<Rightarrow> Inl AssertionError
     | Some sp \<Rightarrow>
        if num_output_tokens r < min_tokens sp then Inr (False, r)
        else bindE (py_index (output_token_ids r) (- 1)) (\<lambda>last_token_id.
          if Some last_token_id = eos_token_id sp
          then Inr (True, r\<lparr>status := FINISHED_STOPPED\<rparr>)
          else if last_token_id \<in> set (case stop_token_ids sp of Some ts \<Rightarrow> ts | None \<Rightarrow> [])
          then Inr (True, r\<lparr>status := FINISHED_STOPPED,
                            stop_reason := Some (StopToken last_token_id)\<rparr>)
          else if num_tokens r \<ge> max_model_len \<or> num_output_tokens r \<ge> max_tokens r
          then Inr (True, r\<lparr>status := FINISHED_LENGTH_CAPPED\<rparr>)
          else (case repetition_detection sp of
              None \<Rightarrow> Inr (False, r)
            | Some params \<Rightarrow>
                bindE (check_sequence_repetition (output_token_ids r) params) (\<lambda>b.
                  if b then Inr (True, r\<lparr>status := FINISHED_REPETITION,
                         stop_reason := Some (StopText ''repetition_detected'')\<rparr>)
                  else Inr (False, r)))))"

section \<open>The detector against its specification\<close>

text \<open>\<open>tail_repeats xs L c\<close>: the last \<open>L * c\<close> tokens are \<open>c\<close> copies of
  the last \<open>L\<close>.\<close>

definition tail_repeats :: "int list \<Rightarrow> nat \<Rightarrow> nat \<Rightarrow> bool" where
  "tail_repeats xs L c \<longleftrightarrow> L * c \<le> length xs
     \<and> drop (length xs - L * c) xs = concat (replicate c (drop (length xs - L) xs))"

lemma py_index_neg:
  "0 < k \<Longrightarrow> k \<le> int (length xs) \<Longrightarrow> py_index xs (- k) = Inr (xs ! (length xs - nat k))"
  by (auto simp: py_index_def Let_def nat_diff_distrib)

lemma rep_inner_ok:
  assumes "\<forall>m\<in>set ms. 0 < L * m + n \<and> L * m + n \<le> int (length xs)"
  shows "rep_inner xs L n t ms = Inr (\<forall>m\<in>set ms. xs ! (length xs - nat (L * m + n)) = t)"
  using assms
proof (induction ms)
  case (Cons m ms)
  have "py_index xs (- (L * m + n)) = Inr (xs ! (length xs - nat (L * m + n)))"
    by (rule py_index_neg) (use Cons.prems in auto)
  with Cons show ?case by (simp only: rep_inner.simps bindE_Inr) auto
qed simp

lemma rep_outer_ok:
  assumes "\<forall>n\<in>set ns. 1 \<le> n \<and> n \<le> L" and "L * c \<le> int (length xs)" and "1 \<le> L" and "2 \<le> c"
  shows "rep_outer xs L c ns = Inr (\<forall>n\<in>set ns. \<forall>m. 1 \<le> m \<and> m < c \<longrightarrow>
     xs ! (length xs - nat (L * m + n)) = xs ! (length xs - nat n))"
  using assms(1)
proof (induction ns)
  case (Cons n ns)
  then have n: "1 \<le> n" "n \<le> L" by auto
  have bound: "0 < L * m + n \<and> L * m + n \<le> int (length xs)" if "m \<in> set [1..c - 1]" for m
  proof -
    from that have "1 \<le> m" "m + 1 \<le> c" by auto
    then have "L * (m + 1) \<le> L * c" using assms(3) by (intro mult_left_mono) auto
    with n assms(2) have "L * m + n \<le> int (length xs)" by (simp add: algebra_simps)
    moreover have "0 \<le> L * m" using assms(3) \<open>1 \<le> m\<close> by simp
    ultimately show ?thesis using n by simp
  qed
  have "L \<le> L * c" using assms(3,4) mult_left_mono[of 1 c L] by simp
  then have "py_index xs (- n) = Inr (xs ! (length xs - nat n))"
    using n assms(2) by (intro py_index_neg) linarith+
  moreover have "rep_inner xs L n t [1..c - 1]
      = Inr (\<forall>m\<in>set [1..c - 1]. xs ! (length xs - nat (L * m + n)) = t)" for t
    by (rule rep_inner_ok) (use bound in blast)
  ultimately show ?case using Cons by auto
qed simp

lemma concat_replicate_nth:
  "length ys = L \<Longrightarrow> i < L * c \<Longrightarrow> concat (replicate c ys) ! i = ys ! (i mod L)"
proof (induction c arbitrary: i)
  case (Suc c)
  show ?case
  proof (cases "i < L")
    case True
    with Suc.prems show ?thesis by (simp add: nth_append)
  next
    case False
    with Suc.prems have "i - L < L * c" by auto
    with False Suc.prems have "concat (replicate (Suc c) ys) ! i = ys ! ((i - L) mod L)"
      by (simp add: nth_append Suc.IH)
    with False show ?thesis by (simp add: le_mod_geq)
  qed
qed simp

lemma length_concat_replicate: "length (concat (replicate c ys)) = length ys * c"
  by (induction c) auto

text \<open>The specification read pointwise, with indices from the end.\<close>

lemma tail_repeats_nth:
  assumes "1 \<le> L" and "1 \<le> c" and le: "L * c \<le> length xs"
  shows "tail_repeats xs L c \<longleftrightarrow> (\<forall>n. 1 \<le> n \<and> n \<le> L \<longrightarrow> (\<forall>m. 1 \<le> m \<and> m < c \<longrightarrow>
     xs ! (length xs - (L * m + n)) = xs ! (length xs - n)))"  (is "_ \<longleftrightarrow> ?pt")
proof -
  let ?N = "length xs"
  let ?b = "drop (?N - L) xs"
  have "L \<le> L * c" using assms(2) by (cases c) auto
  from this le have LN: "L \<le> ?N" by (rule order_trans)
  have b: "length ?b = L" using LN by simp
  have "tail_repeats xs L c \<longleftrightarrow>
      (\<forall>i < L * c. xs ! (?N - L * c + i) = xs ! (?N - L + i mod L))"
    using le b LN assms(1)
    by (auto simp: tail_repeats_def list_eq_iff_nth_eq length_concat_replicate
        concat_replicate_nth)
  also have "\<dots> \<longleftrightarrow> ?pt"
  proof
    assume *: "\<forall>i < L * c. xs ! (?N - L * c + i) = xs ! (?N - L + i mod L)"
    show ?pt
    proof (intro allI impI)
      fix n m assume n: "1 \<le> n \<and> n \<le> L" and m: "1 \<le> m \<and> m < c"
      define i where "i = L * (c - 1 - m) + (L - n)"
      have "L * c = L * (m + 1 + (c - 1 - m))" using m by simp
      also have "\<dots> = L * m + L + L * (c - 1 - m)"
        by (simp only: distrib_left mult_1_right)
      finally have c: "L * c = L * m + L + L * (c - 1 - m)" .
      then have i: "i < L * c" "?N - L * c + i = ?N - (L * m + n)"
        using n le m by (auto simp: i_def)
      have "i mod L = (L - n) mod L" unfolding i_def by (rule mod_mult_self4)
      then have "i mod L = L - n" using n by simp
      then have "?N - L + i mod L = ?N - n" using n LN by simp
      with * i show "xs ! (?N - (L * m + n)) = xs ! (?N - n)" by metis
    qed
  next
    assume *: ?pt
    show "\<forall>i < L * c. xs ! (?N - L * c + i) = xs ! (?N - L + i mod L)"
    proof (intro allI impI)
      fix i assume i: "i < L * c"
      define q where "q = i div L"
      define n where "n = L - i mod L"
      have q: "q < c" using i by (simp add: q_def less_mult_imp_div_less mult.commute)
      have n: "1 \<le> n" "n \<le> L" using assms(1) by (auto simp: n_def Suc_le_eq)
      have "i = L * q + (L - n)" using assms(1) by (simp add: q_def n_def)
      moreover have "L * c = L * (c - 1 - q + 1 + q)" using q by simp
      then have c: "L * c = L * (c - 1 - q) + L + L * q"
        by (simp only: distrib_left mult_1_right)
      ultimately have "?N - L * c + i = ?N - (L * (c - 1 - q) + n)" using n le by simp
      moreover have "?N - L + i mod L = ?N - n"
        using n LN assms(1) by (simp add: n_def)
      ultimately show "xs ! (?N - L * c + i) = xs ! (?N - L + i mod L)"
        using *[rule_format, of n "c - 1 - q"] n q by (cases "c - 1 - q = 0") auto
    qed
  qed
  finally show ?thesis .
qed

lemma has_repeating_pattern_spec:
  assumes "1 \<le> L" and "2 \<le> c" and le: "L * c \<le> length xs"
  shows "has_repeating_pattern xs (int L) (int c) = Inr (tail_repeats xs L c)"
proof -
  have le': "int L * int c \<le> int (length xs)" using le by (metis of_nat_le_iff of_nat_mult)
  have "has_repeating_pattern xs (int L) (int c) = Inr (\<forall>n\<in>set [1..int L]. \<forall>m. 1 \<le> m \<and> m < int c \<longrightarrow>
     xs ! (length xs - nat (int L * m + n)) = xs ! (length xs - nat n))"
    unfolding has_repeating_pattern_def
    by (rule rep_outer_ok) (use assms le' in auto)
  also have "(\<forall>n\<in>set [1..int L]. \<forall>m. 1 \<le> m \<and> m < int c \<longrightarrow>
        xs ! (length xs - nat (int L * m + n)) = xs ! (length xs - nat n))
      \<longleftrightarrow> (\<forall>n. 1 \<le> n \<and> n \<le> L \<longrightarrow> (\<forall>m. 1 \<le> m \<and> m < c \<longrightarrow>
        xs ! (length xs - (L * m + n)) = xs ! (length xs - n)))" (is "?I \<longleftrightarrow> ?N")
  proof
    assume I: ?I
    show ?N
    proof (intro allI impI)
      fix n m assume "1 \<le> n \<and> n \<le> L" "1 \<le> m \<and> m < c"
      with I[rule_format, of "int n" "int m"]
      show "xs ! (length xs - (L * m + n)) = xs ! (length xs - n)"
        by (simp flip: of_nat_mult of_nat_add)
    qed
  next
    assume N: ?N
    show ?I
    proof (intro ballI allI impI)
      fix n m assume n: "n \<in> set [1..int L]" and m: "1 \<le> m \<and> m < int c"
      have "nat (int L * m + n) = L * nat m + nat n"
        using n m by (simp add: nat_add_distrib nat_mult_distrib)
      moreover have "1 \<le> nat n \<and> nat n \<le> L" "1 \<le> nat m \<and> nat m < c"
        using n m by (auto simp: nat_le_iff nat_less_iff Suc_le_eq)
      ultimately show "xs ! (length xs - nat (int L * m + n)) = xs ! (length xs - nat n)"
        using N[rule_format, of "nat n" "nat m"] by simp
    qed
  qed
  also have "\<dots> \<longleftrightarrow> tail_repeats xs L c"
    by (rule tail_repeats_nth [symmetric]) (use assms in auto)
  finally show ?thesis .
qed

lemma tail_repeats_bound: "tail_repeats xs L c \<Longrightarrow> L * c \<le> length xs"
  by (simp add: tail_repeats_def)

lemma check_rep_loop_spec:
  assumes "2 \<le> c" and "1 \<le> lo"
  shows "check_rep_loop xs (int c) [int lo..int hi]
    = Inr (\<exists>L. lo \<le> L \<and> L \<le> hi \<and> tail_repeats xs L c)"
  using assms(2)
proof (induction "Suc hi - lo" arbitrary: lo)
  case 0
  then show ?case by auto
next
  case (Suc d)
  then have le: "lo \<le> hi" by simp
  then have upt: "[int lo..int hi] = int lo # [int (Suc lo)..int hi]"
    by (simp add: upto_rec1 add.commute)
  have IH: "check_rep_loop xs (int c) [int (Suc lo)..int hi]
      = Inr (\<exists>L. Suc lo \<le> L \<and> L \<le> hi \<and> tail_repeats xs L c)"
    by (rule Suc.hyps(1)) (use Suc in auto)
  show ?case
  proof (cases "lo * c \<le> length xs")
    case False
    then have "\<not> int lo * int c \<le> int (length xs)" by (metis of_nat_le_iff of_nat_mult)
    moreover have "\<not> tail_repeats xs L c" if "lo \<le> L" for L
      using False that tail_repeats_bound[of xs L c] mult_le_mono1[of lo L c] by linarith
    ultimately show ?thesis by (auto simp: upt)
  next
    case True
    then have "\<not> int lo * int c > int (length xs)" by (metis not_less of_nat_le_iff of_nat_mult)
    moreover have "has_repeating_pattern xs (int lo) (int c) = Inr (tail_repeats xs lo c)"
      by (rule has_repeating_pattern_spec) (use Suc.prems assms True in auto)
    ultimately have "check_rep_loop xs (int c) [int lo..int hi]
        = Inr (tail_repeats xs lo c \<or> (\<exists>L. Suc lo \<le> L \<and> L \<le> hi \<and> tail_repeats xs L c))"
      using upt IH by auto
    moreover have "(tail_repeats xs lo c \<or> (\<exists>L. Suc lo \<le> L \<and> L \<le> hi \<and> tail_repeats xs L c))
        \<longleftrightarrow> (\<exists>L. lo \<le> L \<and> L \<le> hi \<and> tail_repeats xs L c)"
    proof -
      have iff: "lo \<le> L \<longleftrightarrow> L = lo \<or> Suc lo \<le> L" for L by auto
      show ?thesis using le by (auto simp: iff)
    qed
    ultimately show ?thesis by simp
  qed
qed

lemma check_sequence_repetition_eq:
  "check_sequence_repetition xs params = Inr
     (2 \<le> min_count params \<and>
      (\<exists>L \<ge> 1. min_pattern_size params \<le> int L \<and> int L \<le> max_pattern_size params
         \<and> tail_repeats xs L (nat (min_count params))))"
proof -
  define lo where "lo = (if min_pattern_size params \<le> 0 then 1 else min_pattern_size params)"
  let ?hi = "max_pattern_size params" and ?c = "min_count params"
  have lo1: "1 \<le> lo" by (simp add: lo_def)
  have lo_iff: "(1 \<le> L \<and> min_pattern_size params \<le> int L) \<longleftrightarrow> nat lo \<le> L" for L
    by (auto simp: lo_def)
  show ?thesis
  proof (cases "?hi \<le> 0 \<or> ?c < 2 \<or> lo > ?hi")
    case True
    then have "check_sequence_repetition xs params = Inr False"
      by (simp add: check_sequence_repetition_def lo_def Let_def)
    moreover have "\<not> (2 \<le> ?c \<and> (\<exists>L \<ge> 1. min_pattern_size params \<le> int L \<and> int L \<le> ?hi
         \<and> tail_repeats xs L (nat ?c)))"
      using True by (auto simp: lo_def split: if_splits)
    ultimately show ?thesis by simp
  next
    case False
    then have "check_sequence_repetition xs params
        = check_rep_loop xs (int (nat ?c)) [int (nat lo)..int (nat ?hi)]"
      using lo1 by (simp add: check_sequence_repetition_def lo_def Let_def)
    also have "\<dots> = Inr (\<exists>L. nat lo \<le> L \<and> L \<le> nat ?hi \<and> tail_repeats xs L (nat ?c))"
      by (rule check_rep_loop_spec) (use False lo1 in auto)
    also have "(\<exists>L. nat lo \<le> L \<and> L \<le> nat ?hi \<and> tail_repeats xs L (nat ?c))
        \<longleftrightarrow> (\<exists>L \<ge> 1. min_pattern_size params \<le> int L \<and> int L \<le> ?hi
             \<and> tail_repeats xs L (nat ?c))"
    proof -
      have "nat lo \<le> L \<and> L \<le> nat ?hi \<longleftrightarrow>
          1 \<le> L \<and> min_pattern_size params \<le> int L \<and> int L \<le> ?hi" for L
        using False lo_iff[of L] by auto
      then have eqv: "nat lo \<le> L \<and> L \<le> nat ?hi \<and> T \<longleftrightarrow>
          1 \<le> L \<and> min_pattern_size params \<le> int L \<and> int L \<le> ?hi \<and> T" for L T
        by (simp only: conj_assoc [symmetric])
      show ?thesis by (rule ex_cong1) (rule eqv)
    qed
    finally show ?thesis using False by simp
  qed
qed

text \<open>
  C23. The repetition detector never raises and answers exactly whether the tail of the
  output is \<open>min_count\<close> copies of one block whose length lies between the two pattern
  sizes (a minimum of 0 or less counting as 1); with a maximum of 0 or a count below 2 the
  detection is off.
\<close>

theorem check_sequence_repetition_spec:
  "check_sequence_repetition xs params = Inr
     (2 \<le> min_count params \<and>
      (\<exists>L \<ge> 1. min_pattern_size params \<le> int L \<and> int L \<le> max_pattern_size params
         \<and> tail_repeats xs L (nat (min_count params))))"
  by (rule check_sequence_repetition_eq)

section \<open>The stop check\<close>

lemma check_stop_False_unchanged: "check_stop r n = Inr (False, r') \<Longrightarrow> r' = r"
  by (auto simp: check_stop_def bindE_def split: option.splits if_splits sum.splits)

lemma check_stop_True_finished: "check_stop r n = Inr (True, r') \<Longrightarrow> is_finished r'"
  by (auto simp: check_stop_def bindE_def is_finished_def status_is_finished_def
      split: option.splits if_splits sum.splits)

text \<open>The last tokens of the output repeat a block as configured.\<close>

definition repeats :: "request \<Rightarrow> sampling_params \<Rightarrow> bool" where
  "repeats r sp \<longleftrightarrow> (\<exists>p. repetition_detection sp = Some p \<and> 2 \<le> min_count p
     \<and> (\<exists>L \<ge> 1. min_pattern_size p \<le> int L \<and> int L \<le> max_pattern_size p
          \<and> tail_repeats (output_token_ids r) L (nat (min_count p))))"

definition last_stops :: "request \<Rightarrow> sampling_params \<Rightarrow> bool" where
  "last_stops r sp \<longleftrightarrow> (let t = last (output_token_ids r) in
     eos_token_id sp = Some t \<or> (\<exists>ts. stop_token_ids sp = Some ts \<and> t \<in> set ts))"

definition at_limit :: "request \<Rightarrow> int \<Rightarrow> bool" where
  "at_limit r n \<longleftrightarrow> num_tokens r \<ge> n \<or> num_output_tokens r \<ge> max_tokens r"

text \<open>
  C24. The stop check of a generation request with an output token never raises and is exact.
  Once the request has its minimum number of tokens, it answers "stop" if and only if the last
  token is the end of sequence or one of the stop tokens, or a length limit is reached, or the
  tail of the output repeats as configured; before that it answers "continue" whatever the last
  token is. The status says which of the three it was, in this order, the stop reason is the
  token for a stop token other than the end of sequence, and nothing else of the request
  changes.
\<close>

theorem check_stop_correct:
  assumes "pooling_params r = None" and "sampling_params r = Some sp"
    and "output_token_ids r \<noteq> []"
  shows "\<exists>b r'. check_stop r n = Inr (b, r')
    \<and> b = (min_tokens sp \<le> num_output_tokens r \<and> (last_stops r sp \<or> at_limit r n \<or> repeats r sp))
    \<and> r'\<lparr>status := status r, stop_reason := stop_reason r\<rparr> = r \<and> (\<not> b \<longrightarrow> r' = r)
    \<and> (b \<longrightarrow> get_finished_reason r' \<noteq> None \<and> status r' =
         (if last_stops r sp then FINISHED_STOPPED else if at_limit r n then FINISHED_LENGTH_CAPPED else FINISHED_REPETITION)
       \<and> (last_stops r sp \<longrightarrow> stop_reason r' = (if eos_token_id sp = Some (last (output_token_ids r)) then stop_reason r
            else Some (StopToken (last (output_token_ids r))))))"
proof -
  let ?t = "last (output_token_ids r)"
  have idx: "py_index (output_token_ids r) (- 1) = Inr ?t"
    using assms(3) by (cases "output_token_ids r" rule: rev_cases) (auto simp: py_index_def)
  have rep: "repetition_detection sp = Some p \<Longrightarrow> check_sequence_repetition (output_token_ids r) p = Inr (repeats r sp)" for p
    by (simp add: check_sequence_repetition_eq repeats_def)
  have norep: "repetition_detection sp = None \<Longrightarrow> \<not> repeats r sp" by (simp add: repeats_def)
  have stops: "last_stops r sp \<longleftrightarrow> eos_token_id sp = Some ?t \<or> ?t \<in> set (case stop_token_ids sp of Some ts \<Rightarrow> ts | None \<Rightarrow> [])"
    by (cases "stop_token_ids sp") (auto simp: last_stops_def Let_def)
  let ?b = "min_tokens sp \<le> num_output_tokens r \<and> (last_stops r sp \<or> at_limit r n \<or> repeats r sp)"
  let ?r = "if \<not> ?b then r else if eos_token_id sp = Some ?t then r\<lparr>status := FINISHED_STOPPED\<rparr>
     else if last_stops r sp then r\<lparr>status := FINISHED_STOPPED, stop_reason := Some (StopToken ?t)\<rparr>
     else if at_limit r n then r\<lparr>status := FINISHED_LENGTH_CAPPED\<rparr>
     else r\<lparr>status := FINISHED_REPETITION, stop_reason := Some (StopText ''repetition_detected'')\<rparr>"
  have "check_stop r n = Inr (
     if num_output_tokens r < min_tokens sp then (False, r)
     else if eos_token_id sp = Some ?t then (True, r\<lparr>status := FINISHED_STOPPED\<rparr>)
     else if last_stops r sp then (True, r\<lparr>status := FINISHED_STOPPED, stop_reason := Some (StopToken ?t)\<rparr>)
     else if at_limit r n then (True, r\<lparr>status := FINISHED_LENGTH_CAPPED\<rparr>)
     else if repeats r sp then (True, r\<lparr>status := FINISHED_REPETITION, stop_reason := Some (StopText ''repetition_detected'')\<rparr>)
     else (False, r))"
    using assms(1,2) rep norep
    by (cases "repetition_detection sp") (auto simp: check_stop_def idx stops at_limit_def)
  moreover have eos: "eos_token_id sp = Some ?t \<Longrightarrow> last_stops r sp" by (simp add: stops)
  ultimately have eq: "check_stop r n = Inr (?b, ?r)"
    by (simp add: if_distrib[of "\<lambda>x. Inr x"] cong: if_cong)
  have frame: "?r\<lparr>status := status r, stop_reason := stop_reason r\<rparr> = r" by simp
  show ?thesis
  proof (intro exI conjI)
    show "check_stop r n = Inr (?b, ?r)" by (rule eq)
  qed (use frame eos in \<open>auto simp: get_finished_reason_def status_finished_reason_def\<close>)
qed

lemma remove_all_eq_filter:
  assumes "distinct lst"
  shows "remove_all lst items = filter (\<lambda>x. x \<notin> items) lst"
proof (cases "card items = 1")
  case True
  then obtain x where "items = {x}" by (auto simp: card_1_singleton_iff)
  then show ?thesis using assms by (auto simp: remove_all_def distinct_remove1_removeAll removeAll_filter_not_eq
        intro: filter_cong)
qed (simp add: remove_all_def)

text \<open>A generation request that has produced one token, a stop token.\<close>

definition ex_generation :: request where
  "ex_generation = (text_request ''a'' 1 0 [5])\<lparr>output_token_ids := [7], all_token_ids := [5, 7],
     sampling_params := Some \<lparr>sp_max_tokens = Some 16, min_tokens = 0, eos_token_id = Some 2,
       stop_token_ids = Some [7, 8], repetition_detection = None, sp_skip_reading_prefix_cache = None,
       structured_outputs = False, extra_kv_transfer_params = None\<rparr>\<rparr>"

theorem check_stop_correct_witness:
  "\<exists>r'. check_stop ex_generation 100 = Inr (True, r') \<and> status r' = FINISHED_STOPPED \<and> stop_reason r' = Some (StopToken 7)"
proof -
  let ?sp = "the (sampling_params ex_generation)"
  have sp: "pooling_params ex_generation = None" "sampling_params ex_generation = Some ?sp" "output_token_ids ex_generation \<noteq> []"
    by (simp_all add: ex_generation_def text_request_def)
  have "last_stops ex_generation ?sp" "min_tokens ?sp \<le> num_output_tokens ex_generation"
    "eos_token_id ?sp \<noteq> Some (last (output_token_ids ex_generation))" "last (output_token_ids ex_generation) = 7"
    by (simp_all add: last_stops_def ex_generation_def num_output_tokens_def)
  with check_stop_correct[OF sp, of 100] show ?thesis by auto
qed

end
