(* ===== verification/Scheduler_Update.thy ===== *)
theory Scheduler_Update
  imports Scheduler_State Sched_Utils
begin

text \<open>
  The scheduler between two steps: requests are added, sessions continued and requests
  finished from outside; the sampled tokens of a step are appended, requests that stop are
  freed; caches are reset. \<open>ts\<close> is the clock. The structured output manager is a
  parameter: \<open>advance\<close> is \<open>should_advance\<close>, \<open>accepts\<close> is the grammar's
  \<open>accept_tokens\<close>, \<open>validates\<close> its \<open>validate_tokens\<close>.
\<close>

section \<open>Queues\<close>

definition is_blocked_waiting_status :: "request_status \<Rightarrow> bool" where
  "is_blocked_waiting_status s \<longleftrightarrow>
     s \<in> {WAITING_FOR_STRUCTURED_OUTPUT_GRAMMAR, WAITING_FOR_REMOTE_KVS, WAITING_FOR_STREAMING_REQ}"

definition enqueue_waiting_request :: "sched_config \<Rightarrow> rid \<Rightarrow> scheduler \<Rightarrow> scheduler" where
  "enqueue_waiting_request cfg rid s =
     (if is_blocked_waiting_status (status (sd_store s rid))
      then s\<lparr>sd_skipped := Request_Queue.add_request (sched_lt cfg (sd_store s)) rid (sd_skipped s)\<rparr>
      else s\<lparr>sd_waiting := Request_Queue.add_request (sched_lt cfg (sd_store s)) rid (sd_waiting s)\<rparr>)"

definition get_request_counts :: "scheduler \<Rightarrow> nat \<times> nat" where
  "get_request_counts s = (length (sd_running s), queue_len (sd_waiting s) + queue_len (sd_skipped s))"

definition get_num_unfinished_requests :: "scheduler \<Rightarrow> int" where
  "get_num_unfinished_requests s =
     (if sd_pause s = PAUSED_ALL then 0
      else if sd_pause s = PAUSED_NEW then int (length (sd_running s))
      else int (queue_len (sd_waiting s)) + int (queue_len (sd_skipped s)) - sd_streaming s + int (length (sd_running s)))"

definition has_finished_requests :: "scheduler \<Rightarrow> bool" where
  "has_finished_requests s \<longleftrightarrow> sd_finished s \<noteq> {}"

definition set_pause_state :: "pause_state \<Rightarrow> scheduler \<Rightarrow> scheduler" where
  "set_pause_state p s = s\<lparr>sd_pause := p\<rparr>"

section \<open>Freeing\<close>

definition free_blocks_of :: "rid \<Rightarrow> scheduler \<Rightarrow> scheduler result" where
  "free_blocks_of rid s =
     bindE (assertE (is_finished (sd_store s rid))) (\<lambda>_.
     bindE (km_free (sd_store s rid) (sd_km s)) (\<lambda>km.
       if rid \<in> set (sd_requests s)
       then Inr (s\<lparr>sd_km := km, sd_requests := remove1 rid (sd_requests s)\<rparr>)
       else Inl KeyError))"

definition free_request :: "bool \<Rightarrow> rid \<Rightarrow> scheduler \<Rightarrow> scheduler result" where
  "free_request delay rid s =
     bindE (assertE (is_finished (sd_store s rid))) (\<lambda>_.
     bindE (em_free (sd_store s rid) (sd_enc s)) (\<lambda>em.
       let c = client_index (sd_store s rid);
           s1 = s\<lparr>sd_enc := em, sd_finished := insert rid (sd_finished s),
                  sd_finished_dict := (case sd_finished_dict s of None \<Rightarrow> None
                    | Some d \<Rightarrow> Some (d(c \<mapsto> insert rid (case d c of None \<Rightarrow> {} | Some S \<Rightarrow> S))))\<rparr> in
       if delay then Inr s1 else free_blocks_of rid s1))"

section \<open>Finishing from outside\<close>

text \<open>\<open>ids\<close> are the ids in the order in which the code visits them.\<close>

definition finish_one :: "request_status \<Rightarrow> rid \<Rightarrow> scheduler \<Rightarrow> scheduler result" where
  "finish_one st rid s =
     free_request (status (sd_store s rid) = WAITING_FOR_REMOTE_KVS) rid
       (s\<lparr>sd_store := upd_req rid (\<lambda>r. r\<lparr>status := st\<rparr>) (sd_store s)\<rparr>)"

definition finish_requests ::
  "sched_config \<Rightarrow> rid list \<Rightarrow> request_status \<Rightarrow> scheduler \<Rightarrow> ((rid \<times> int) list \<times> scheduler) result" where
  "finish_requests cfg ids st s =
     bindE (assertE (status_is_finished st)) (\<lambda>_.
       let valid = filter (\<lambda>r. r \<in> set (sd_requests s) \<and> \<not> is_finished (sd_store s r)) ids;
           run = filter (\<lambda>r. status (sd_store s r) = RUNNING) valid;
           wait = filter (\<lambda>r. status (sd_store s r) \<noteq> RUNNING) valid;
           streaming = length (filter (\<lambda>r. status (sd_store s r) = WAITING_FOR_STREAMING_REQ) wait);
           lt = sched_lt cfg (sd_store s);
           s1 = s\<lparr>sd_streaming := sd_streaming s - int streaming,
                  sd_running := (if run = [] then sd_running s else remove_all (sd_running s) (set run)),
                  sd_waiting := (if wait = [] then sd_waiting s else remove_requests lt wait (sd_waiting s)),
                  sd_skipped := (if wait = [] then sd_skipped s else remove_requests lt wait (sd_skipped s))\<rparr> in
       bindE (foldE (finish_one st) valid s1) (\<lambda>s2.
         Inr (map (\<lambda>r. (r, client_index (sd_store s r))) valid, s2)))"

section \<open>Streaming sessions\<close>

definition shift_feature :: "int \<Rightarrow> mm_feature \<Rightarrow> mm_feature" where
  "shift_feature base f = f\<lparr>mm_position := (mm_position f)\<lparr>offset := offset (mm_position f) + base\<rparr>\<rparr>"

definition session_request :: "sched_config \<Rightarrow> streaming_update \<Rightarrow> request \<Rightarrow> request result" where
  "session_request cfg u r = (case prompt_token_ids r of
      None \<Rightarrow> Inl AssertionError
    | Some prompt \<Rightarrow>
        let n = nat (num_computed_tokens r);
            kept = take (n - nat (num_prompt_tokens r)) (drop (nat (num_prompt_tokens r)) (all_token_ids r));
            r1 = r\<lparr>all_token_ids := take n (all_token_ids r), output_token_ids := [],
                   prompt_token_ids := Some (prompt @ kept)\<rparr>;
            r2 = (case su_mm_features u of
                Some fs \<Rightarrow> r1\<lparr>mm_features := mm_features r1 @ map (shift_feature (num_tokens r1)) fs\<rparr>
              | None \<Rightarrow> r1);
            new = (case su_prompt_token_ids u of None \<Rightarrow> [] | Some t \<Rightarrow> t);
            r3 = update_block_hashes (sc_hasher cfg)
                   (r2\<lparr>all_token_ids := all_token_ids r2 @ new, prompt_token_ids := Some (prompt @ kept @ new)\<rparr>) in
        Inr (r3\<lparr>num_prompt_tokens := int (length (prompt @ kept @ new)), arrival_time := su_arrival_time u,
                sampling_params := su_sampling_params u\<rparr>))"

definition update_request_as_session ::
  "sched_config \<Rightarrow> real \<Rightarrow> rid \<Rightarrow> streaming_update \<Rightarrow> scheduler \<Rightarrow> scheduler result" where
  "update_request_as_session cfg ts rid u s =
     bindE (session_request cfg u (sd_store s rid)) (\<lambda>r.
       Inr (s\<lparr>sd_store := (sd_store s)(rid := log_event cfg QUEUED ts (r\<lparr>status := WAITING\<rparr>)),
              sd_streaming := (if status r = WAITING_FOR_STREAMING_REQ then sd_streaming s - 1 else sd_streaming s)\<rparr>))"

definition handle_stopped_request :: "sched_config \<Rightarrow> real \<Rightarrow> rid \<Rightarrow> scheduler \<Rightarrow> (bool \<times> scheduler) result" where
  "handle_stopped_request cfg ts rid s =
     (let r = sd_store s rid in
      if \<not> resumable r then Inr (True, s)
      else (case streaming_queue r of
          Some (u # us) \<Rightarrow>
            let s1 = s\<lparr>sd_store := upd_req rid (\<lambda>r. r\<lparr>streaming_queue := Some us\<rparr>) (sd_store s)\<rparr> in
            (case u of None \<Rightarrow> Inr (True, s1)
             | Some up \<Rightarrow> bindE (update_request_as_session cfg ts rid up s1) (\<lambda>s2.
                 Inr (False, enqueue_waiting_request cfg rid s2)))
        | _ \<Rightarrow> Inr (False, enqueue_waiting_request cfg rid
                 (s\<lparr>sd_store := upd_req rid (\<lambda>r. r\<lparr>status := WAITING_FOR_STREAMING_REQ\<rparr>) (sd_store s),
                    sd_streaming := sd_streaming s + 1\<rparr>))))"

section \<open>Adding\<close>

text \<open>\<open>Scheduler.add_request\<close>.\<close>

definition sched_add_request :: "sched_config \<Rightarrow> real \<Rightarrow> request \<Rightarrow> scheduler \<Rightarrow> scheduler result" where
  "sched_add_request cfg ts r s =
     (let rid = request_id r in
      if rid \<in> set (sd_requests s)
      then let old = sd_store s rid; u = streaming_update_from_request r in
        if status old \<noteq> WAITING_FOR_STREAMING_REQ
        then (case streaming_queue old of
            None \<Rightarrow> Inl AssertionError
          | Some q \<Rightarrow> Inr (s\<lparr>sd_store := upd_req rid (\<lambda>o'. o'\<lparr>streaming_queue := Some (q @ [u])\<rparr>) (sd_store s)\<rparr>))
        else (case u of
            Some up \<Rightarrow> update_request_as_session cfg ts rid up s
          | None \<Rightarrow> bindE (finish_requests cfg [rid] FINISHED_ABORTED s) (\<lambda>(_, s'). Inr s'))
      else let r1 = (if resumable r then r\<lparr>streaming_queue := Some []\<rparr> else r);
               s1 = enqueue_waiting_request cfg rid (s\<lparr>sd_store := (sd_store s)(rid := r1)\<rparr>) in
        Inr (s1\<lparr>sd_requests := sd_requests s1 @ [rid],
                sd_store := upd_req rid (log_event cfg QUEUED ts) (sd_store s1)\<rparr>))"

section \<open>The output of a step\<close>

text \<open>What the model runner returns: the row of a request, the sampled tokens per row, the
  pooling outputs per row (no row at all without pooling) and the counts of NaNs.\<close>

record runner_output =
  ro_index :: "rid \<rightharpoonup> nat"
  ro_sampled :: "int list list"
  ro_pooled :: "string option list"
  ro_nans :: "rid \<rightharpoonup> int"

record engine_core_output =
  eo_request_id :: rid
  eo_new_token_ids :: "int list"
  eo_finish_reason :: "finish_reason option"
  eo_pooling :: "string option"
  eo_stop_reason :: "stop_reason option"
  eo_events :: "engine_event list option"
  eo_prefill_stats :: "prefill_stats option"
  eo_num_nans :: int
  eo_request_md :: "request_metadata option"

fun append_until_stop :: "sched_config \<Rightarrow> int list \<Rightarrow> int list \<Rightarrow> request \<Rightarrow> (int list \<times> bool \<times> request) result" where
  "append_until_stop cfg acc [] r = Inr (acc, False, r)"
| "append_until_stop cfg acc (t # ts) r =
     bindE (check_stop (append_output_token_ids (sc_hasher cfg) [t] r) (sc_max_len cfg)) (\<lambda>(stop, r').
       if stop then Inr (acc @ [t], True, r') else append_until_stop cfg (acc @ [t]) ts r')"

text \<open>\<open>_update_request_with_output\<close> of the scheduler and of the async scheduler.\<close>

definition update_request_with_output ::
  "sched_config \<Rightarrow> rid \<Rightarrow> int list \<Rightarrow> scheduler \<Rightarrow> (int list \<times> bool \<times> scheduler) result" where
  "update_request_with_output cfg rid toks s =
     (let r = sd_store s rid in
      if \<not> sc_async cfg
      then bindE (append_until_stop cfg [] toks r) (\<lambda>(new, stop, r').
        Inr (new, stop, s\<lparr>sd_store := (sd_store s)(rid := r')\<rparr>))
      else if async_tokens_to_discard r > 0
      then Inr ([], False, s\<lparr>sd_store := upd_req rid (\<lambda>r. r\<lparr>async_tokens_to_discard := async_tokens_to_discard r - 1\<rparr>) (sd_store s)\<rparr>)
      else bindE (append_until_stop cfg [] toks r) (\<lambda>(new, stop, r').
        let r1 = r'\<lparr>num_output_placeholders := num_output_placeholders r' - int (length new)\<rparr> in
        bindE (assertE (num_output_placeholders r1 \<ge> 0)) (\<lambda>_.
        bindE (if status r = RUNNING
               then km_cache_blocks (sc_digest cfg) r1 (num_computed_tokens r1 - num_output_placeholders r1) (sd_km s)
               else Inr (sd_km s)) (\<lambda>km.
          Inr (new, stop, s\<lparr>sd_store := (sd_store s)(rid := r1), sd_km := km\<rparr>)))))"

text \<open>Rejected draft tokens are taken back.\<close>

definition reject_drafts :: "int list option \<Rightarrow> int list \<Rightarrow> request \<Rightarrow> request" where
  "reject_drafts drafts gen r = (case drafts of
      None \<Rightarrow> r
    | Some d \<Rightarrow>
        if d = [] \<or> gen = [] then r
        else let rej = int (length d) - (int (length gen) - 1) in
          r\<lparr>num_computed_tokens := (if num_computed_tokens r > 0 then num_computed_tokens r - rej else num_computed_tokens r),
            num_output_placeholders := (if num_output_placeholders r > 0 then num_output_placeholders r - rej
                                        else num_output_placeholders r)\<rparr>)"

section \<open>Updating from the output of a step\<close>

text \<open>\<open>stopped_running\<close> and \<open>stopped_preempted\<close> collect the requests to
  take off the queues, \<open>outs\<close> the outputs per client.\<close>

record update_state =
  us_sched :: scheduler
  us_running :: "rid set"
  us_preempted :: "rid list"
  us_outs :: "int \<rightharpoonup> engine_core_output list"

definition emit :: "rid \<Rightarrow> int list \<Rightarrow> finish_reason option \<Rightarrow> string option \<Rightarrow> update_state \<Rightarrow> update_state" where
  "emit rid toks reason pooled u =
     (let s = us_sched u; r = sd_store s rid;
          (ev, r1) = take_events r; (ps, r2) = take_prefill_stats r1;
          out = \<lparr>eo_request_id = rid, eo_new_token_ids = toks, eo_finish_reason = reason, eo_pooling = pooled,
                 eo_stop_reason = stop_reason r, eo_events = ev, eo_prefill_stats = ps,
                 eo_num_nans = num_nans_in_logits r, eo_request_md = request_md r\<rparr>;
          c = client_index r in
      u\<lparr>us_sched := s\<lparr>sd_store := (sd_store s)(rid := r2)\<rparr>,
        us_outs := (us_outs u)(c \<mapsto> (case us_outs u c of None \<Rightarrow> [] | Some os \<Rightarrow> os) @ [out])\<rparr>)"

text \<open>The tokens, or the pooling output, of one request: the new tokens and whether it stops.\<close>

definition take_output ::
  "sched_config \<Rightarrow> rid \<Rightarrow> int list \<Rightarrow> string option \<Rightarrow> scheduler \<Rightarrow> (int list \<times> bool \<times> scheduler) result" where
  "take_output cfg rid gen pooled s =
     (if gen \<noteq> [] then update_request_with_output cfg rid gen s
      else if pooling_params (sd_store s rid) \<noteq> None \<and> pooled \<noteq> None
      then Inr (gen, True, s\<lparr>sd_store := upd_req rid (\<lambda>r. r\<lparr>status := FINISHED_STOPPED\<rparr>) (sd_store s)\<rparr>)
      else Inr (gen, False, s))"

definition check_grammar ::
  "(request \<Rightarrow> bool) \<Rightarrow> (rid \<Rightarrow> int list \<Rightarrow> bool) \<Rightarrow> rid \<Rightarrow> int list \<Rightarrow> bool \<Rightarrow> scheduler \<Rightarrow> (bool \<times> scheduler) result" where
  "check_grammar advance accepts rid toks stop s =
     (if toks = [] \<or> \<not> advance (sd_store s rid) then Inr (stop, s)
      else bindE (assertE (structured_output_request (sd_store s rid))) (\<lambda>_.
        if accepts rid toks then Inr (stop, s)
        else Inr (True, s\<lparr>sd_store := upd_req rid (\<lambda>r. r\<lparr>status := FINISHED_ERROR, resumable := False\<rparr>) (sd_store s)\<rparr>)))"

text \<open>A request that stopped is freed, or continued by its session; the output is emitted.\<close>

definition settle_output ::
  "sched_config \<Rightarrow> real \<Rightarrow> (rid \<rightharpoonup> int) \<Rightarrow> rid \<Rightarrow> request_status \<Rightarrow> int list \<Rightarrow> bool \<Rightarrow> string option \<Rightarrow>
   scheduler \<Rightarrow> update_state \<Rightarrow> update_state result" where
  "settle_output cfg ts nans rid before' toks stop pooled s u =
     (let reason = (if stop then get_finished_reason (sd_store s rid) else None) in
      bindE (if stop
             then bindE (handle_stopped_request cfg ts rid s) (\<lambda>(fin, s').
                    if fin then free_request False rid s' else Inr s')
             else Inr s) (\<lambda>s1.
      let s2 = (case nans rid of None \<Rightarrow> s1
            | Some k \<Rightarrow> s1\<lparr>sd_store := upd_req rid (\<lambda>r. r\<lparr>num_nans_in_logits := k\<rparr>) (sd_store s1)\<rparr>);
          u1 = u\<lparr>us_sched := s2,
                 us_running := (if stop \<and> before' = RUNNING then insert rid (us_running u) else us_running u),
                 us_preempted := (if stop \<and> before' \<noteq> RUNNING then us_preempted u @ [rid] else us_preempted u)\<rparr> in
      if toks \<noteq> [] \<or> pooled \<noteq> None \<or> stop then Inr (emit rid toks reason pooled u1) else Inr u1))"

definition update_one ::
  "sched_config \<Rightarrow> real \<Rightarrow> (request \<Rightarrow> bool) \<Rightarrow> (rid \<Rightarrow> int list \<Rightarrow> bool) \<Rightarrow> (rid \<rightharpoonup> int list) \<Rightarrow> runner_output \<Rightarrow>
   rid \<times> int \<Rightarrow> update_state \<Rightarrow> update_state result" where
  "update_one cfg ts advance accepts drafts ro rn u =
     (case rn of (rid, n) \<Rightarrow>
      let s = us_sched u in
      bindE (assertE (n > 0)) (\<lambda>_.
      if rid \<notin> set (sd_requests s) \<or> is_finished (sd_store s rid) then Inr u
      else case ro_index ro rid of
        None \<Rightarrow> Inl KeyError
      | Some i \<Rightarrow>
          bindE (if ro_sampled ro = [] then Inr [] else nth_or_raise (ro_sampled ro) i) (\<lambda>gen.
          let s1 = s\<lparr>sd_store := upd_req rid (reject_drafts (drafts rid) gen) (sd_store s)\<rparr> in
          bindE (if has_encoder_inputs (sd_store s1 rid)
                 then free_encoder_inputs em_cached_ids em_free_input (sc_enc cfg) (sd_store s1 rid) (sd_enc s1)
                 else Inr (sd_enc s1)) (\<lambda>em.
          let s2 = s1\<lparr>sd_enc := em\<rparr> in
          bindE (if ro_pooled ro = [] then Inr None else nth_or_raise (ro_pooled ro) i) (\<lambda>pooled.
          bindE (take_output cfg rid gen pooled s2) (\<lambda>(toks, stop0, s3).
          bindE (check_grammar advance accepts rid toks stop0 s3) (\<lambda>(stop, s4).
            settle_output cfg ts (ro_nans ro) rid (status (sd_store s2 rid)) toks stop pooled s4 u))))))) "

text \<open>KV events are drained; publishing them and statistics are left out.\<close>

definition update_from_output ::
  "sched_config \<Rightarrow> real \<Rightarrow> (request \<Rightarrow> bool) \<Rightarrow> (rid \<Rightarrow> int list \<Rightarrow> bool) \<Rightarrow> (rid \<times> int) list \<Rightarrow> (rid \<rightharpoonup> int list) \<Rightarrow>
   runner_output \<Rightarrow> scheduler \<Rightarrow> ((int \<rightharpoonup> engine_core_output list \<times> rid set) \<times> scheduler) result" where
  "update_from_output cfg ts advance accepts tokens drafts ro s =
     bindE (foldE (update_one cfg ts advance accepts drafts ro) tokens
              \<lparr>us_sched = s, us_running = {}, us_preempted = [], us_outs = Map.empty\<rparr>) (\<lambda>u.
       let s1 = us_sched u;
           s2 = s1\<lparr>sd_running := (if us_running u = {} then sd_running s1 else remove_all (sd_running s1) (us_running u)),
                   sd_waiting := (if us_preempted u = [] then sd_waiting s1
                     else remove_requests (sched_lt cfg (sd_store s1)) (us_preempted u) (sd_waiting s1))\<rparr>;
           pool = co_pool (km_co (sd_km s2));
           (evs, pool') = pool_take_events pool;
           km = (sd_km s2)\<lparr>km_co := (km_co (sd_km s2))\<lparr>co_pool := pool'\<rparr>\<rparr>;
           fin = (case sd_finished_dict s2 of None \<Rightarrow> Map.empty | Some d \<Rightarrow> d) in
       Inr ((\<lambda>c. case (us_outs u c, fin c) of
               (None, None) \<Rightarrow> None
             | (os, f) \<Rightarrow> Some (case os of None \<Rightarrow> [] | Some l \<Rightarrow> l, case f of None \<Rightarrow> {} | Some F \<Rightarrow> F)),
            s2\<lparr>sd_km := km, sd_finished_dict := (case sd_finished_dict s2 of None \<Rightarrow> None | Some d \<Rightarrow> Some Map.empty)\<rparr>))"

section \<open>Draft tokens\<close>

definition draft_one :: "(request \<Rightarrow> bool) \<Rightarrow> (rid \<Rightarrow> int list \<Rightarrow> int list) \<Rightarrow> rid \<times> int list \<Rightarrow> scheduler \<Rightarrow> scheduler" where
  "draft_one advance validates d s = (case d of (rid, toks) \<Rightarrow>
     let r = sd_store s rid in
     if rid \<notin> set (sd_requests s) \<or> is_finished r then s
     else s\<lparr>sd_store := upd_req rid (\<lambda>r. r\<lparr>spec_token_ids :=
            (if is_prefill_chunk r then [] else if advance r then validates rid toks else toks)\<rparr>) (sd_store s)\<rparr>)"

definition update_draft_token_ids ::
  "(request \<Rightarrow> bool) \<Rightarrow> (rid \<Rightarrow> int list \<Rightarrow> int list) \<Rightarrow> (rid \<times> int list) list \<Rightarrow> scheduler \<Rightarrow> scheduler" where
  "update_draft_token_ids advance validates ds s = fold (draft_one advance validates) ds s"

definition draft_in_output_one :: "(request \<Rightarrow> bool) \<Rightarrow> (rid \<Rightarrow> int list \<Rightarrow> int list) \<Rightarrow> scheduler \<Rightarrow> rid \<times> int list \<Rightarrow>
    (rid \<rightharpoonup> int list) \<times> (rid \<rightharpoonup> int) \<Rightarrow> (rid \<rightharpoonup> int list) \<times> (rid \<rightharpoonup> int)" where
  "draft_in_output_one advance validates s d acc = (case d of (rid, toks) \<Rightarrow> case acc of (spec, invalid) \<Rightarrow>
     if rid \<notin> set (sd_requests s) \<or> is_finished (sd_store s rid) then acc
     else case spec rid of
       None \<Rightarrow> acc
     | Some old \<Rightarrow>
         if old = [] then acc
         else let t1 = take (length old) toks;
                  t2 = (if advance (sd_store s rid) then validates rid t1 else t1);
                  missing' = int (length old) - int (length t2) in
           (spec(rid \<mapsto> (if missing' \<noteq> 0 then t2 @ replicate (nat missing') (- 1) else t2)),
            if missing' \<noteq> 0 then invalid(rid \<mapsto> missing') else invalid))"

definition update_draft_token_ids_in_output ::
  "(request \<Rightarrow> bool) \<Rightarrow> (rid \<Rightarrow> int list \<Rightarrow> int list) \<Rightarrow> (rid \<times> int list) list \<Rightarrow> scheduler \<Rightarrow> (rid \<rightharpoonup> int list) \<Rightarrow>
   (rid \<rightharpoonup> int list) \<times> (rid \<rightharpoonup> int)" where
  "update_draft_token_ids_in_output advance validates ds s spec =
     fold (draft_in_output_one advance validates s) ds (spec, Map.empty)"

section \<open>Resetting caches\<close>

text \<open>\<open>reset_prefix_cache\<close> without a connector: running requests are preempted from the
  last to the first.\<close>

definition force_preempt :: "sched_config \<Rightarrow> real \<Rightarrow> rid \<Rightarrow> scheduler \<Rightarrow> scheduler result" where
  "force_preempt cfg ts rid s =
     bindE (preempt_request cfg ts rid (sd_store s) (sd_km s) (sd_enc s)) (\<lambda>(st, km, em).
       Inr (s\<lparr>sd_store := upd_req rid (\<lambda>r. r\<lparr>async_tokens_to_discard := num_output_placeholders r,
                 num_output_placeholders := 0\<rparr>) st,
              sd_km := km, sd_enc := em, sd_running := butlast (sd_running s)\<rparr>))"

text \<open>The answer, or the error of a cache that is in use although nothing runs, and the state
  that is left. An error while a request is preempted is the outer one.\<close>

definition try_reset_prefix_cache ::
  "sched_config \<Rightarrow> real \<Rightarrow> bool \<Rightarrow> bool \<Rightarrow> scheduler \<Rightarrow> (bool result \<times> scheduler) result" where
  "try_reset_prefix_cache cfg ts reset_running reset_connector s =
     bindE (if reset_running
            then bindE (foldE (force_preempt cfg ts) (rev (sd_running s)) s) (\<lambda>s1. Inr (s1\<lparr>sd_prev := {}\<rparr>))
            else Inr s) (\<lambda>s1.
       case km_reset_prefix_cache (sd_km s1) of (ok, km) \<Rightarrow>
         Inr (if reset_running \<and> \<not> ok then Inl RuntimeError else Inr (if reset_connector then False else ok),
              s1\<lparr>sd_km := km\<rparr>))"

definition sched_reset_prefix_cache ::
  "sched_config \<Rightarrow> real \<Rightarrow> bool \<Rightarrow> bool \<Rightarrow> scheduler \<Rightarrow> (bool \<times> scheduler) result" where
  "sched_reset_prefix_cache cfg ts reset_running reset_connector s =
     bindE (try_reset_prefix_cache cfg ts reset_running reset_connector s) (\<lambda>(res, s1).
       bindE res (\<lambda>ok. Inr (ok, s1)))"

definition reset_encoder_cache :: "scheduler \<Rightarrow> scheduler" where
  "reset_encoder_cache s = s\<lparr>sd_enc := em_reset (sd_enc s)\<rparr>"

end
