(* ===== verification/Update_Correct.thy ===== *)
theory Update_Correct
  imports Schedule_Correct Scheduler_Update
begin

text \<open>
  The scheduler between steps. Its requests are in three queues; \<open>tracked\<close> says that
  every known request is in exactly one of them and nothing else is, \<open>linked\<close> that the
  running queue holds the requests with status \<open>RUNNING\<close> and the other two hold none.
  Requests that are in no queue are never scheduled again.
\<close>

section \<open>The queues of the scheduler\<close>

definition queued :: "request_queue \<Rightarrow> rid multiset" where
  "queued q = mset (queue_iter (\<lambda>_ _. False) q)"

lemma queued_iter: "mset (queue_iter lt q) = queued q"
  unfolding queued_def by (rule queue_iter_mset)

lemma queued_add [simp]: "queued (Request_Queue.add_request lt r q) = add_mset r (queued q)"
  by (metis queued_iter rq.mset_add)

lemma queued_remove [simp]: "queued (remove_requests lt rs q) = filter_mset (\<lambda>r. r \<notin> set rs) (queued q)"
  by (metis queued_iter rq.mset_remove_many)

definition all_queued :: "scheduler \<Rightarrow> rid multiset" where
  "all_queued s = mset (sd_running s) + queued (sd_waiting s) + queued (sd_skipped s)"

definition tracked :: "scheduler \<Rightarrow> bool" where
  "tracked s \<longleftrightarrow> distinct (sd_requests s) \<and> all_queued s = mset (sd_requests s)"

definition linked :: "scheduler \<Rightarrow> bool" where
  "linked s \<longleftrightarrow> (\<forall>r \<in> set (sd_running s). status (sd_store s r) = RUNNING)
     \<and> (\<forall>r. r \<in># queued (sd_waiting s) + queued (sd_skipped s) \<longrightarrow> status (sd_store s r) \<noteq> RUNNING)"

lemma tracked_set: "tracked s \<Longrightarrow> set_mset (all_queued s) = set (sd_requests s)"
  by (simp add: tracked_def)

lemma tracked_distinct:
  assumes "tracked s"
  shows "distinct (sd_running s @ queue_iter lt (sd_waiting s) @ queue_iter lt' (sd_skipped s))"
proof -
  have "mset (sd_running s @ queue_iter lt (sd_waiting s) @ queue_iter lt' (sd_skipped s)) = mset (sd_requests s)"
    using assms by (simp add: tracked_def all_queued_def queued_iter add.assoc)
  then show ?thesis using assms mset_eq_imp_distinct_iff unfolding tracked_def by blast
qed

lemma queued_set: "set_mset (queued q) = set (queue_iter lt q)"
  by (metis queued_iter set_mset_mset)

section \<open>Adding a request\<close>

lemma all_queued_kept [simp]:
  "all_queued (s\<lparr>sd_store := x\<rparr>) = all_queued s" "all_queued (s\<lparr>sd_requests := y\<rparr>) = all_queued s"
  "all_queued (s\<lparr>sd_streaming := n\<rparr>) = all_queued s"
  by (simp_all add: all_queued_def)

lemma enqueue_queued:
  "all_queued (enqueue_waiting_request cfg r s) = add_mset r (all_queued s)"
  by (simp add: enqueue_waiting_request_def all_queued_def)

lemma enqueue_kept [simp]:
  "sd_requests (enqueue_waiting_request cfg r s) = sd_requests s"
  "sd_running (enqueue_waiting_request cfg r s) = sd_running s"
  "sd_store (enqueue_waiting_request cfg r s) = sd_store s"
  by (simp_all add: enqueue_waiting_request_def)

lemma add_new_tracked:
  assumes "sched_add_request cfg ts r s = Inr s'" and "tracked s" and "request_id r \<notin> set (sd_requests s)"
  shows "tracked s' \<and> sd_requests s' = sd_requests s @ [request_id r]"
  using assms by (auto simp: sched_add_request_def Let_def tracked_def enqueue_queued)

section \<open>Resetting the prefix cache\<close>

lemma force_preempt_all:
  assumes "foldE (force_preempt cfg ts) rs s = Inr s'" and "rs = rev xs" and "sd_running s = ys @ xs"
  shows "sd_running s' = ys \<and> sd_waiting s' = sd_waiting s \<and> sd_skipped s' = sd_skipped s
    \<and> sd_requests s' = sd_requests s"
  using assms
proof (induction rs arbitrary: s xs)
  case Nil
  then show ?case by simp
next
  case (Cons r rs)
  then have xs: "xs = rev rs @ [r]" by (metis rev.simps(2) rev_rev_ident)
  obtain s1 where s1: "force_preempt cfg ts r s = Inr s1" "foldE (force_preempt cfg ts) rs s1 = Inr s'"
    using Cons.prems(1) by (auto elim: bindE_InrE)
  from s1(1) have "sd_running s1 = butlast (sd_running s)" "sd_waiting s1 = sd_waiting s"
    "sd_skipped s1 = sd_skipped s" "sd_requests s1 = sd_requests s"
    by (auto simp: force_preempt_def elim!: bindE_InrE)
  with Cons.IH[OF s1(2), of "rev rs"] Cons.prems(3) xs show ?case by (simp add: butlast_append)
qed

text \<open>
  C15. \<open>reset_prefix_cache\<close> with \<open>reset_running_requests\<close> loses the running
  requests: they are preempted and taken off the running queue, but \<open>_preempt_request\<close>
  does not put them back into the waiting queue, so afterwards they are still known to the
  scheduler and are in none of its queues, and no later step schedules them.
\<close>

theorem reset_running_requests_lost:
  assumes "sched_reset_prefix_cache cfg ts True reset_connector s = Inr (ok, s')" and "tracked s"
    and "r \<in> set (sd_running s)"
  shows "r \<in> set (sd_requests s') \<and> r \<notin># all_queued s'"
proof -
  obtain s1 where f: "foldE (force_preempt cfg ts) (rev (sd_running s)) s = Inr s1"
    and s': "sd_running s' = sd_running s1" "sd_waiting s' = sd_waiting s1" "sd_skipped s' = sd_skipped s1"
      "sd_requests s' = sd_requests s1"
    using assms(1) by (auto simp: sched_reset_prefix_cache_def try_reset_prefix_cache_def elim!: bindE_InrE split: prod.splits if_splits)
  have q: "sd_running s1 = [] \<and> sd_waiting s1 = sd_waiting s \<and> sd_skipped s1 = sd_skipped s
      \<and> sd_requests s1 = sd_requests s"
    by (rule force_preempt_all[OF f]) simp_all
  have "r \<notin># queued (sd_waiting s) \<and> r \<notin># queued (sd_skipped s)"
    using tracked_distinct[OF assms(2), of "\<lambda>_ _. False" "\<lambda>_ _. False"] assms(3)
    by (auto simp: queued_set[where lt = "\<lambda>_ _. False"])
  moreover have "r \<in> set (sd_requests s)"
    using assms(3) tracked_set[OF assms(2)] by (auto simp: all_queued_def)
  ultimately show ?thesis using q s' by (simp add: all_queued_def)
qed

section \<open>Appending the sampled tokens\<close>

text \<open>The request after each of the tokens was appended on its own.\<close>

definition grown :: "sched_config \<Rightarrow> int list \<Rightarrow> request \<Rightarrow> request" where
  "grown cfg toks r = fold (\<lambda>t. append_output_token_ids (sc_hasher cfg) [t]) toks r"

lemma append_fields [simp]:
  "output_token_ids (append_output_token_ids h ts r) = output_token_ids r @ ts"
  "all_token_ids (append_output_token_ids h ts r) = all_token_ids r @ ts"
  "max_tokens (append_output_token_ids h ts r) = max_tokens r"
  "sampling_params (append_output_token_ids h ts r) = sampling_params r"
  "pooling_params (append_output_token_ids h ts r) = pooling_params r"
  "status (append_output_token_ids h ts r) = status r"
  "resumable (append_output_token_ids h ts r) = resumable r"
  by (auto simp: append_output_token_ids_def update_block_hashes_def split: option.split)

lemma grown_Cons: "grown cfg (t # ts) r = grown cfg ts (append_output_token_ids (sc_hasher cfg) [t] r)"
  by (simp add: grown_def)

lemma grown_fields [simp]:
  "output_token_ids (grown cfg toks r) = output_token_ids r @ toks"
  "all_token_ids (grown cfg toks r) = all_token_ids r @ toks"
  "max_tokens (grown cfg toks r) = max_tokens r"
  "sampling_params (grown cfg toks r) = sampling_params r"
  "pooling_params (grown cfg toks r) = pooling_params r"
  "status (grown cfg toks r) = status r" "resumable (grown cfg toks r) = resumable r"
  by (induction toks arbitrary: r) (simp_all add: grown_Cons, simp_all add: grown_def)

lemma append_until_stop_cases:
  assumes "append_until_stop cfg acc toks r = Inr (new, stop, r')"
  shows "\<exists>k \<le> length toks. new = acc @ take k toks
    \<and> (\<forall>j. 0 < j \<and> j < k \<longrightarrow> check_stop (grown cfg (take j toks) r) (sc_max_len cfg) = Inr (False, grown cfg (take j toks) r))
    \<and> (if stop then 0 < k \<and> check_stop (grown cfg (take k toks) r) (sc_max_len cfg) = Inr (True, r')
       else k = length toks \<and> r' = grown cfg toks r
         \<and> (0 < k \<longrightarrow> check_stop (grown cfg toks r) (sc_max_len cfg) = Inr (False, r')))"
  using assms
proof (induction toks arbitrary: acc r)
  case Nil
  then show ?case by (simp add: grown_def)
next
  case (Cons t ts)
  let ?r1 = "append_output_token_ids (sc_hasher cfg) [t] r"
  obtain b r1 where c: "check_stop ?r1 (sc_max_len cfg) = Inr (b, r1)"
    using Cons.prems by (auto elim: bindE_InrE)
  have g1: "grown cfg [t] r = ?r1" by (simp add: grown_def)
  show ?case
  proof (cases b)
    case True
    then have "new = acc @ [t]" "stop" "r' = r1" using Cons.prems c by auto
    then show ?thesis using c True g1 by (intro exI[of _ 1]) auto
  next
    case False
    then have r1: "r1 = ?r1" using c False check_stop_False_unchanged[of ?r1 "sc_max_len cfg" r1] by simp
    have "append_until_stop cfg (acc @ [t]) ts ?r1 = Inr (new, stop, r')"
      using Cons.prems c False r1 by simp
    from Cons.IH[OF this] obtain k where k: "k \<le> length ts" "new = (acc @ [t]) @ take k ts"
      and go: "\<And>j. 0 < j \<Longrightarrow> j < k \<Longrightarrow>
         check_stop (grown cfg (take j ts) ?r1) (sc_max_len cfg) = Inr (False, grown cfg (take j ts) ?r1)"
      and fin: "if stop then 0 < k \<and> check_stop (grown cfg (take k ts) ?r1) (sc_max_len cfg) = Inr (True, r')
       else k = length ts \<and> r' = grown cfg ts ?r1
         \<and> (0 < k \<longrightarrow> check_stop (grown cfg ts ?r1) (sc_max_len cfg) = Inr (False, r'))"
      by blast
    have step: "check_stop (grown cfg (take j (t # ts)) r) (sc_max_len cfg) = Inr (False, grown cfg (take j (t # ts)) r)"
      if "0 < j" "j < Suc k" for j
    proof (cases "j = 1")
      case True
      then show ?thesis using c False r1 g1 by simp
    next
      case False
      then obtain i where "j = Suc i" "0 < i" using \<open>0 < j\<close> by (cases j) auto
      then show ?thesis using go[of i] that by (simp add: grown_Cons)
    qed
    show ?thesis
    proof (intro exI[of _ "Suc k"] conjI allI impI)
      show "if stop then 0 < Suc k \<and> check_stop (grown cfg (take (Suc k) (t # ts)) r) (sc_max_len cfg) = Inr (True, r')
       else Suc k = length (t # ts) \<and> r' = grown cfg (t # ts) r
         \<and> (0 < Suc k \<longrightarrow> check_stop (grown cfg (t # ts) r) (sc_max_len cfg) = Inr (False, r'))"
      proof (cases stop)
        case True
        then show ?thesis using fin by (simp add: grown_Cons)
      next
        case ns: False
        have "check_stop (grown cfg ts ?r1) (sc_max_len cfg) = Inr (False, r')"
        proof (cases "ts = []")
          case True
          then show ?thesis using fin ns c False r1 by (simp add: grown_def)
        qed (use fin ns in simp)
        then show ?thesis using fin ns by (simp add: grown_Cons)
      qed
    qed (use k step in auto)
  qed
qed

lemma check_stop_output: "check_stop r n = Inr (b, r') \<Longrightarrow> output_token_ids r' = output_token_ids r"
  by (auto simp: check_stop_def bindE_def split: option.splits if_splits sum.splits)

lemma append_within_limit:
  assumes "append_until_stop cfg [] toks r = Inr (new, stop, r')"
    and "sampling_params r = Some sp" and "min_tokens sp \<le> max_tokens r" and "num_output_tokens r < max_tokens r"
    and "\<not> is_finished r"
  shows "\<exists>k \<le> length toks. new = take k toks \<and> output_token_ids r' = output_token_ids r @ new
    \<and> num_output_tokens r' \<le> max_tokens r
    \<and> (\<forall>j. 0 < j \<and> j < k \<longrightarrow> check_stop (grown cfg (take j toks) r) (sc_max_len cfg) = Inr (False, grown cfg (take j toks) r))
    \<and> (if stop then is_finished r' else k = length toks \<and> \<not> is_finished r')"
proof -
  obtain k where k: "k \<le> length toks" "new = take k toks"
    and go: "\<And>j. 0 < j \<Longrightarrow> j < k \<Longrightarrow>
      check_stop (grown cfg (take j toks) r) (sc_max_len cfg) = Inr (False, grown cfg (take j toks) r)"
    and fin: "if stop then 0 < k \<and> check_stop (grown cfg (take k toks) r) (sc_max_len cfg) = Inr (True, r')
       else k = length toks \<and> r' = grown cfg toks r
         \<and> (0 < k \<longrightarrow> check_stop (grown cfg toks r) (sc_max_len cfg) = Inr (False, r'))"
    using append_until_stop_cases[OF assms(1)] by auto
  have out: "output_token_ids r' = output_token_ids r @ take k toks"
  proof (cases stop)
    case True
    then have "check_stop (grown cfg (take k toks) r) (sc_max_len cfg) = Inr (True, r')" using fin by simp
    from check_stop_output[OF this] show ?thesis by simp
  qed (use fin in simp)
  have below: "num_output_tokens x < max_tokens r"
    if "check_stop x n = Inr (False, y)" "sampling_params x = Some sp" "max_tokens x = max_tokens r" for x y n
    using that assms(3) by (auto simp: check_stop_def bindE_def split: if_splits option.splits sum.splits)
  have "num_output_tokens (grown cfg (take (k - 1) toks) r) < max_tokens r"
  proof (cases "k \<le> 1")
    case True
    then show ?thesis using assms(4) by (simp add: num_output_tokens_def)
  next
    case False
    then show ?thesis using below[OF go[of "k - 1"]] assms(2) by simp
  qed
  then have "num_output_tokens r' \<le> max_tokens r"
    using out k(1) by (simp add: num_output_tokens_def)
  moreover have "if stop then is_finished r' else k = length toks \<and> \<not> is_finished r'"
    using fin check_stop_True_finished assms(5) by (auto simp: is_finished_def split: if_splits)
  ultimately show ?thesis using k out go by blast
qed

text \<open>
  C13. The tokens of a step are taken one at a time up to the first at which the stop check says
  stop; the rest is dropped. So a generation request that was below its limit never gets
  more than \<open>max_tokens\<close> output tokens, however many tokens the step sampled, and it is
  finished exactly when the check stopped it.
\<close>

theorem output_stays_within_limit:
  assumes "append_until_stop cfg [] toks r = Inr (new, stop, r')"
    and "sampling_params r = Some sp" and "min_tokens sp \<le> max_tokens r" and "num_output_tokens r < max_tokens r"
    and "\<not> is_finished r"
  shows "\<exists>k \<le> length toks. new = take k toks \<and> output_token_ids r' = output_token_ids r @ new
    \<and> num_output_tokens r' \<le> max_tokens r
    \<and> (\<forall>j. 0 < j \<and> j < k \<longrightarrow> check_stop (grown cfg (take j toks) r) (sc_max_len cfg) = Inr (False, grown cfg (take j toks) r))
    \<and> (if stop then is_finished r' else k = length toks \<and> \<not> is_finished r')"
  using assms by (rule append_within_limit)

section \<open>Finishing requests from outside\<close>

lemma free_blocks_kept:
  assumes "free_blocks_of r s = Inr s'"
  shows "sd_running s' = sd_running s" "sd_waiting s' = sd_waiting s" "sd_skipped s' = sd_skipped s"
    "sd_store s' = sd_store s" "sd_requests s' = remove1 r (sd_requests s)" "r \<in> set (sd_requests s)"
    "sd_finished s' = sd_finished s"
  using assms by (auto simp: free_blocks_of_def elim!: bindE_InrE split: if_splits)

lemma free_request_kept:
  assumes "free_request delay r s = Inr s'"
  shows "sd_running s' = sd_running s" "sd_waiting s' = sd_waiting s" "sd_skipped s' = sd_skipped s"
    "sd_store s' = sd_store s" "sd_requests s' = (if delay then sd_requests s else remove1 r (sd_requests s))"
    "\<not> delay \<Longrightarrow> r \<in> set (sd_requests s)" "sd_finished s' = insert r (sd_finished s)"
    "is_finished (sd_store s r)"
proof -
  obtain em d where em: "is_finished (sd_store s r)"
    and rest: "(if delay then Inr (s\<lparr>sd_enc := em, sd_finished := insert r (sd_finished s), sd_finished_dict := d\<rparr>)
      else free_blocks_of r (s\<lparr>sd_enc := em, sd_finished := insert r (sd_finished s), sd_finished_dict := d\<rparr>)) = Inr s'"
    using assms unfolding free_request_def Let_def by (auto elim!: bindE_InrE)
  show "sd_running s' = sd_running s" "sd_waiting s' = sd_waiting s" "sd_skipped s' = sd_skipped s"
    "sd_store s' = sd_store s" "sd_requests s' = (if delay then sd_requests s else remove1 r (sd_requests s))"
    "\<not> delay \<Longrightarrow> r \<in> set (sd_requests s)" "sd_finished s' = insert r (sd_finished s)"
    using rest free_blocks_kept[of r _ s'] by (cases delay; force)+
  show "is_finished (sd_store s r)" by (rule em)
qed

lemma finish_all:
  assumes "foldE (finish_one st) rs s = Inr s'" and "distinct (sd_requests s)"
    and "\<forall>r. status (sd_store s r) \<noteq> WAITING_FOR_REMOTE_KVS" and "st \<noteq> WAITING_FOR_REMOTE_KVS"
  shows "sd_running s' = sd_running s \<and> sd_waiting s' = sd_waiting s \<and> sd_skipped s' = sd_skipped s
    \<and> sd_requests s' = filter (\<lambda>r. r \<notin> set rs) (sd_requests s) \<and> set rs \<subseteq> set (sd_requests s)
    \<and> (\<forall>r. sd_store s' r = (if r \<in> set rs then (sd_store s r)\<lparr>status := st\<rparr> else sd_store s r))
    \<and> sd_finished s' = sd_finished s \<union> set rs \<and> distinct rs"
  using assms
proof (induction rs arbitrary: s)
  case (Cons r rs)
  obtain s1 where s1: "finish_one st r s = Inr s1" "foldE (finish_one st) rs s1 = Inr s'"
    using Cons.prems(1) by (auto elim: bindE_InrE)
  have "status (sd_store s r) \<noteq> WAITING_FOR_REMOTE_KVS" using Cons.prems(3) by blast
  then have "free_request False r (s\<lparr>sd_store := upd_req r (\<lambda>r. r\<lparr>status := st\<rparr>) (sd_store s)\<rparr>) = Inr s1"
    using s1(1) by (simp add: finish_one_def)
  note k = free_request_kept[OF this]
  have req: "sd_requests s1 = filter (\<lambda>x. x \<noteq> r) (sd_requests s)" "r \<in> set (sd_requests s)"
    using k(5,6) Cons.prems(2)
    by (auto simp: distinct_remove1_removeAll removeAll_filter_not_eq intro!: filter_cong)
  have st1: "\<forall>x. status (sd_store s1 x) \<noteq> WAITING_FOR_REMOTE_KVS"
    using k(4) Cons.prems(3,4) by (simp add: upd_req_def)
  have d1: "distinct (sd_requests s1)" using Cons.prems(2) by (simp add: req(1))
  from Cons.IH[OF s1(2) d1 st1 Cons.prems(4)] show ?case
    using k(1-4,7) req by (auto simp: upd_req_def)
qed simp

definition requested :: "rid list \<Rightarrow> scheduler \<Rightarrow> rid list" where
  "requested ids s = filter (\<lambda>r. r \<in> set (sd_requests s) \<and> \<not> is_finished (sd_store s r)) ids"

lemma finish_requests_effect:
  assumes "finish_requests cfg ids st s = Inr (outs, s')" and "tracked s" and "linked s"
    and "\<forall>r. status (sd_store s r) \<noteq> WAITING_FOR_REMOTE_KVS"
  shows "tracked s' \<and> linked s' \<and> map fst outs = requested ids s
    \<and> sd_requests s' = filter (\<lambda>r. r \<notin> set (requested ids s)) (sd_requests s)
    \<and> sd_running s' = filter (\<lambda>r. r \<notin> set (requested ids s)) (sd_running s)
    \<and> (\<forall>r. sd_store s' r = (if r \<in> set (requested ids s) then (sd_store s r)\<lparr>status := st\<rparr> else sd_store s r))
    \<and> sd_finished s' = sd_finished s \<union> set (requested ids s)"
proof -
  define valid where "valid = requested ids s"
  define run where "run = filter (\<lambda>r. status (sd_store s r) = RUNNING) valid"
  define wait where "wait = filter (\<lambda>r. status (sd_store s r) \<noteq> RUNNING) valid"
  define s1 where "s1 = s\<lparr>sd_streaming := sd_streaming s
        - int (length (filter (\<lambda>r. status (sd_store s r) = WAITING_FOR_STREAMING_REQ) wait)),
      sd_running := (if run = [] then sd_running s else remove_all (sd_running s) (set run)),
      sd_waiting := (if wait = [] then sd_waiting s else remove_requests (sched_lt cfg (sd_store s)) wait (sd_waiting s)),
      sd_skipped := (if wait = [] then sd_skipped s else remove_requests (sched_lt cfg (sd_store s)) wait (sd_skipped s))\<rparr>"
  have fin: "status_is_finished st" and f: "foldE (finish_one st) valid s1 = Inr s'"
    and outs: "outs = map (\<lambda>r. (r, client_index (sd_store s r))) valid"
    using assms(1) unfolding finish_requests_def requested_def[symmetric] Let_def
    by (auto elim!: bindE_InrE simp: s1_def run_def wait_def valid_def)
  have stn: "st \<noteq> WAITING_FOR_REMOTE_KVS" "st \<noteq> RUNNING" using fin by (auto simp: status_is_finished_def)
  have d: "distinct (sd_running s)" using tracked_distinct[OF assms(2)] by simp
  have run1: "sd_running s1 = filter (\<lambda>r. r \<notin> set valid) (sd_running s)"
  proof -
    have "sd_running s1 = filter (\<lambda>r. r \<notin> set run) (sd_running s)"
      using remove_all_eq_filter[OF d, of "set run"] by (simp add: s1_def)
    also have "\<dots> = filter (\<lambda>r. r \<notin> set valid) (sd_running s)"
      using assms(3) by (intro filter_cong) (auto simp: run_def linked_def)
    finally show ?thesis .
  qed
  have wait1: "queued (sd_waiting s1) = filter_mset (\<lambda>r. r \<notin> set valid) (queued (sd_waiting s))"
    "queued (sd_skipped s1) = filter_mset (\<lambda>r. r \<notin> set valid) (queued (sd_skipped s))"
  proof -
    have "queued (sd_waiting s1) = filter_mset (\<lambda>r. r \<notin> set wait) (queued (sd_waiting s))"
      "queued (sd_skipped s1) = filter_mset (\<lambda>r. r \<notin> set wait) (queued (sd_skipped s))"
      by (simp_all add: s1_def)
    moreover have "r \<in># queued (sd_waiting s) + queued (sd_skipped s) \<Longrightarrow> (r \<notin> set wait) = (r \<notin> set valid)" for r
      using assms(3) by (auto simp: wait_def linked_def)
    ultimately show "queued (sd_waiting s1) = filter_mset (\<lambda>r. r \<notin> set valid) (queued (sd_waiting s))"
      "queued (sd_skipped s1) = filter_mset (\<lambda>r. r \<notin> set valid) (queued (sd_skipped s))"
      by (simp_all cong: filter_mset_cong)
  qed
  have s1: "sd_requests s1 = sd_requests s" "sd_store s1 = sd_store s" "sd_finished s1 = sd_finished s"
    by (simp_all add: s1_def)
  have ds1: "distinct (sd_requests s1)" using assms(2) by (simp add: s1 tracked_def)
  have r1: "\<forall>r. status (sd_store s1 r) \<noteq> WAITING_FOR_REMOTE_KVS" using assms(4) by (simp add: s1)
  note all = finish_all[OF f ds1 r1 stn(1)]
  have req: "sd_requests s' = filter (\<lambda>r. r \<notin> set valid) (sd_requests s)"
    and store: "\<And>r. sd_store s' r = (if r \<in> set valid then (sd_store s r)\<lparr>status := st\<rparr> else sd_store s r)"
    and fins: "sd_finished s' = sd_finished s \<union> set valid"
    and q: "sd_running s' = filter (\<lambda>r. r \<notin> set valid) (sd_running s)"
      "queued (sd_waiting s') = filter_mset (\<lambda>r. r \<notin> set valid) (queued (sd_waiting s))"
      "queued (sd_skipped s') = filter_mset (\<lambda>r. r \<notin> set valid) (queued (sd_skipped s))"
    using all s1 run1 wait1 by simp_all
  have "all_queued s' = filter_mset (\<lambda>r. r \<notin> set valid) (all_queued s)"
    unfolding all_queued_def q by simp
  then have "tracked s'" using assms(2) by (simp add: tracked_def req)
  moreover have "linked s'" using assms(3) stn(2) by (auto simp: linked_def q store)
  moreover have "map fst outs = valid" by (simp add: outs map_idI)
  ultimately show ?thesis using req store fins q(1) by (simp add: valid_def)
qed

text \<open>
  C11. Finishing requests from outside (an abort, or the end of a streaming session) takes exactly
  the named requests that are known and not yet finished: each gets the given status, leaves
  the one queue it was in and the table of requests, and is reported as finished; every
  other request stays where it was, so the queues still hold each known request once.
\<close>

theorem finish_requests_exact:
  assumes "finish_requests cfg ids st s = Inr (outs, s')" and "tracked s" and "linked s"
    and "\<forall>r. status (sd_store s r) \<noteq> WAITING_FOR_REMOTE_KVS"
  shows "tracked s' \<and> linked s' \<and> map fst outs = requested ids s
    \<and> sd_requests s' = filter (\<lambda>r. r \<notin> set (requested ids s)) (sd_requests s)
    \<and> sd_running s' = filter (\<lambda>r. r \<notin> set (requested ids s)) (sd_running s)
    \<and> (\<forall>r. sd_store s' r = (if r \<in> set (requested ids s) then (sd_store s r)\<lparr>status := st\<rparr> else sd_store s r))
    \<and> sd_finished s' = sd_finished s \<union> set (requested ids s)"
  using assms by (rule finish_requests_effect)

section \<open>Updating from the output of a step\<close>

text \<open>\<open>only_req r s s'\<close>: besides the caches and counters, only the object of request
  \<open>r\<close> may differ.\<close>

definition only_req :: "rid \<Rightarrow> scheduler \<Rightarrow> scheduler \<Rightarrow> bool" where
  "only_req r s s' \<longleftrightarrow> sd_running s' = sd_running s \<and> sd_waiting s' = sd_waiting s \<and> sd_skipped s' = sd_skipped s
     \<and> sd_requests s' = sd_requests s \<and> (\<forall>x. x \<noteq> r \<longrightarrow> sd_store s' x = sd_store s x)"

lemma only_req_trans: "only_req r s s1 \<Longrightarrow> only_req r s1 s2 \<Longrightarrow> only_req r s s2"
  by (simp add: only_req_def)

lemma only_req_refl [simp]: "only_req r s s"
  by (simp add: only_req_def)

lemma only_req_upd [simp]: "only_req r s (s\<lparr>sd_store := upd_req r f (sd_store s)\<rparr>)"
  "only_req r s (s\<lparr>sd_store := (sd_store s)(r := x)\<rparr>)" "only_req r s (s\<lparr>sd_enc := em\<rparr>)"
  by (simp_all add: only_req_def)

lemma append_until_stop_kept:
  assumes "append_until_stop cfg acc toks r = Inr (new, stop, r')"
  shows "resumable r' = resumable r \<and> (\<not> stop \<longrightarrow> status r' = status r)"
proof -
  have res: "check_stop x n = Inr (b, y) \<Longrightarrow> resumable y = resumable x" for x n b y
    by (auto simp: check_stop_def bindE_def split: option.splits if_splits sum.splits)
  from append_until_stop_cases[OF assms] obtain k where
    "if stop then check_stop (grown cfg (take k toks) r) (sc_max_len cfg) = Inr (True, r') else r' = grown cfg toks r"
    by (auto split: if_splits)
  then show ?thesis using res by (cases stop) fastforce+
qed

lemma update_request_effect:
  assumes "update_request_with_output cfg r toks s = Inr (new, stop, s')"
  shows "only_req r s s' \<and> resumable (sd_store s' r) = resumable (sd_store s r)
    \<and> (\<not> stop \<longrightarrow> status (sd_store s' r) = status (sd_store s r))"
proof (cases "sc_async cfg \<and> async_tokens_to_discard (sd_store s r) > 0")
  case True
  then show ?thesis using assms by (auto simp: update_request_with_output_def Let_def)
next
  case False
  then obtain r' where a: "append_until_stop cfg [] toks (sd_store s r) = Inr (new, stop, r')"
    and s': "\<exists>k km. s' = s\<lparr>sd_store := (sd_store s)(r := r'\<lparr>num_output_placeholders := k\<rparr>), sd_km := km\<rparr>"
  proof (cases "sc_async cfg")
    case True
    with assms False that show thesis
      unfolding update_request_with_output_def Let_def by (auto elim!: bindE_InrE)
  next
    case False
    with assms obtain r' where "append_until_stop cfg [] toks (sd_store s r) = Inr (new, stop, r')"
      "s' = s\<lparr>sd_store := (sd_store s)(r := r')\<rparr>"
      by (auto simp: update_request_with_output_def Let_def elim!: bindE_InrE)
    moreover from this(2) have "s' = s\<lparr>sd_store := (sd_store s)(r := r'\<lparr>num_output_placeholders := num_output_placeholders r'\<rparr>),
       sd_km := sd_km s\<rparr>" by simp
    ultimately show thesis using that by blast
  qed
  then show ?thesis using append_until_stop_kept[OF a] by (auto simp: only_req_def)
qed

lemma take_output_effect:
  assumes "take_output cfg r gen pooled s = Inr (toks, stop, s')"
  shows "only_req r s s' \<and> resumable (sd_store s' r) = resumable (sd_store s r)
    \<and> (\<not> stop \<longrightarrow> status (sd_store s' r) = status (sd_store s r))"
  using assms update_request_effect[of cfg r gen s toks stop s']
  by (auto simp: take_output_def split: if_splits)

lemma check_grammar_effect:
  assumes "check_grammar advance accepts r toks stop s = Inr (stop', s')"
  shows "only_req r s s' \<and> (resumable (sd_store s' r) \<longrightarrow> resumable (sd_store s r))
    \<and> (\<not> stop' \<longrightarrow> \<not> stop \<and> s' = s)"
  using assms by (auto simp: check_grammar_def elim!: bindE_InrE split: if_splits)

lemma reject_drafts_kept [simp]:
  "status (reject_drafts d gen r) = status r" "resumable (reject_drafts d gen r) = resumable r"
  by (auto simp: reject_drafts_def Let_def split: option.split)

text \<open>What one request's output does to the state of the loop.\<close>

definition processed :: "rid \<Rightarrow> update_state \<Rightarrow> update_state \<Rightarrow> bool" where
  "processed r u u' \<longleftrightarrow> (let s = us_sched u; s' = us_sched u'; stop = (is_finished (sd_store s' r) \<and> \<not> is_finished (sd_store s r)) in
     sd_running s' = sd_running s \<and> sd_waiting s' = sd_waiting s \<and> sd_skipped s' = sd_skipped s
     \<and> (\<forall>x. x \<noteq> r \<longrightarrow> sd_store s' x = sd_store s x)
     \<and> (if stop
        then sd_requests s' = remove1 r (sd_requests s) \<and> r \<in> set (sd_requests s)
          \<and> us_running u' = (if status (sd_store s r) = RUNNING then insert r (us_running u) else us_running u)
          \<and> us_preempted u' = (if status (sd_store s r) = RUNNING then us_preempted u else us_preempted u @ [r])
        else sd_requests s' = sd_requests s \<and> status (sd_store s' r) = status (sd_store s r)
          \<and> us_running u' = us_running u \<and> us_preempted u' = us_preempted u))"

lemma emit_kept [simp]:
  "sd_running (us_sched (emit r toks reason pooled u)) = sd_running (us_sched u)"
  "sd_waiting (us_sched (emit r toks reason pooled u)) = sd_waiting (us_sched u)"
  "sd_skipped (us_sched (emit r toks reason pooled u)) = sd_skipped (us_sched u)"
  "sd_requests (us_sched (emit r toks reason pooled u)) = sd_requests (us_sched u)"
  "us_running (emit r toks reason pooled u) = us_running u"
  "us_preempted (emit r toks reason pooled u) = us_preempted u"
  "x \<noteq> r \<Longrightarrow> sd_store (us_sched (emit r toks reason pooled u)) x = sd_store (us_sched u) x"
  "status (sd_store (us_sched (emit r toks reason pooled u)) x) = status (sd_store (us_sched u) x)"
  by (auto simp: emit_def Let_def take_events_def take_prefill_stats_def split: prod.split option.split)

definition with_nans :: "(rid \<rightharpoonup> int) \<Rightarrow> rid \<Rightarrow> scheduler \<Rightarrow> scheduler" where
  "with_nans nans r s = (case nans r of None \<Rightarrow> s
     | Some k \<Rightarrow> s\<lparr>sd_store := upd_req r (\<lambda>r. r\<lparr>num_nans_in_logits := k\<rparr>) (sd_store s)\<rparr>)"

lemma settle_split:
  assumes "settle_output cfg ts nans r bef toks stop pooled s u = Inr u'"
  obtains s1 v where "(if stop
             then bindE (handle_stopped_request cfg ts r s) (\<lambda>(fin, s').
                    if fin then free_request False r s' else Inr s')
             else Inr s) = Inr s1"
    and "v = u\<lparr>us_sched := with_nans nans r s1,
           us_running := (if stop \<and> bef = RUNNING then insert r (us_running u) else us_running u),
           us_preempted := (if stop \<and> bef \<noteq> RUNNING then us_preempted u @ [r] else us_preempted u)\<rparr>"
    and "u' = emit r toks (if stop then get_finished_reason (sd_store s r) else None) pooled v \<or> u' = v"
proof -
  from assms obtain s1 where "(if stop
             then bindE (handle_stopped_request cfg ts r s) (\<lambda>(fin, s').
                    if fin then free_request False r s' else Inr s')
             else Inr s) = Inr s1"
    and "u' = emit r toks (if stop then get_finished_reason (sd_store s r) else None) pooled
        (u\<lparr>us_sched := with_nans nans r s1,
           us_running := (if stop \<and> bef = RUNNING then insert r (us_running u) else us_running u),
           us_preempted := (if stop \<and> bef \<noteq> RUNNING then us_preempted u @ [r] else us_preempted u)\<rparr>)
      \<or> u' = u\<lparr>us_sched := with_nans nans r s1,
           us_running := (if stop \<and> bef = RUNNING then insert r (us_running u) else us_running u),
           us_preempted := (if stop \<and> bef \<noteq> RUNNING then us_preempted u @ [r] else us_preempted u)\<rparr>"
    unfolding settle_output_def Let_def with_nans_def
    by (elim bindE_InrE) (auto split: if_splits)
  then show thesis by (rule that[OF _ refl])
qed

text \<open>The same for a request that is no streaming session.\<close>

lemma settle_cases:
  assumes "settle_output cfg ts nans r bef toks stop pooled s u = Inr u'" and "\<not> resumable (sd_store s r)"
  obtains s1 v where "if stop then free_request False r s = Inr s1 else s1 = s"
    and "v = u\<lparr>us_sched := with_nans nans r s1,
           us_running := (if stop \<and> bef = RUNNING then insert r (us_running u) else us_running u),
           us_preempted := (if stop \<and> bef \<noteq> RUNNING then us_preempted u @ [r] else us_preempted u)\<rparr>"
    and "u' = emit r toks (if stop then get_finished_reason (sd_store s r) else None) pooled v \<or> u' = v"
  using assms(1)
proof (cases rule: settle_split)
  case (1 s1 v)
  then show thesis
    using that[OF _ 1(2,3)] assms(2) by (simp add: handle_stopped_request_def Let_def split: if_splits)
qed

lemma settle_processed:
  assumes "settle_output cfg ts nans r bef toks stop pooled s u = Inr u'"
    and "only_req r (us_sched u) s" and "bef = status (sd_store (us_sched u) r)"
    and "\<not> resumable (sd_store s r)" and "\<not> is_finished (sd_store (us_sched u) r)"
    and "\<not> stop \<Longrightarrow> status (sd_store s r) = bef"
  shows "processed r u u'"
  using assms(1,4)
proof (cases rule: settle_cases)
  case (1 s1 v)
  have n1: "only_req r s1 (us_sched v)" "is_finished (sd_store (us_sched v) r) = is_finished (sd_store s1 r)"
    "status (sd_store (us_sched v) r) = status (sd_store s1 r)"
    by (auto simp: 1(2) with_nans_def is_finished_def split: option.split)
  have v: "us_running v = (if stop \<and> bef = RUNNING then insert r (us_running u) else us_running u)"
    "us_preempted v = (if stop \<and> bef \<noteq> RUNNING then us_preempted u @ [r] else us_preempted u)"
    by (simp_all add: 1(2))
  show ?thesis
  proof (cases stop)
    case True
    then have "free_request False r s = Inr s1" using 1(1) by simp
    note k = free_request_kept[OF this]
    have "is_finished (sd_store (us_sched u') r)"
      using 1(3) k(4,8) n1(3) by (auto simp: is_finished_def)
    then show ?thesis
      using 1(3) k(1-6) n1(1) assms(2,3,5) True v by (auto simp: processed_def Let_def only_req_def)
  next
    case False
    then have "s1 = s" using 1(1) by simp
    moreover from this have "\<not> is_finished (sd_store (us_sched u') r)"
      using 1(3) n1(3) assms(3,5) assms(6)[OF False] by (auto simp: is_finished_def)
    ultimately show ?thesis
      using 1(3) n1(1,3) assms(2,3,6) False v by (auto simp: processed_def Let_def only_req_def)
  qed
qed

lemma update_one_cases:
  assumes "update_one cfg ts advance accepts drafts ro (r, n) u = Inr u'"
  obtains (skipped) "r \<notin> set (sd_requests (us_sched u)) \<or> is_finished (sd_store (us_sched u) r)" "u' = u"
  | (taken) s2 gen em toks stop0 s3 stop s4 pooled where
      "r \<in> set (sd_requests (us_sched u))" "\<not> is_finished (sd_store (us_sched u) r)"
      "s2 = (us_sched u)\<lparr>sd_store := upd_req r (reject_drafts (drafts r) gen) (sd_store (us_sched u)), sd_enc := em\<rparr>"
      "take_output cfg r gen pooled s2 = Inr (toks, stop0, s3)"
      "check_grammar advance accepts r toks stop0 s3 = Inr (stop, s4)"
      "settle_output cfg ts (ro_nans ro) r (status (sd_store s2 r)) toks stop pooled s4 u = Inr u'"
proof (cases "r \<notin> set (sd_requests (us_sched u)) \<or> is_finished (sd_store (us_sched u) r)")
  case True
  then show thesis using skipped assms by (auto simp: update_one_def Let_def elim!: bindE_InrE)
next
  case False
  from assms False obtain i where "ro_index ro r = Some i"
    unfolding update_one_def Let_def by (auto elim!: bindE_InrE split: option.splits)
  with assms False show thesis
    unfolding update_one_def Let_def by (auto elim!: bindE_InrE intro!: taken)
qed

lemma update_one_processed:
  assumes "update_one cfg ts advance accepts drafts ro (r, n) u = Inr u'"
    and "\<not> resumable (sd_store (us_sched u) r)"
  shows "processed r u u'"
  using assms(1)
proof (cases rule: update_one_cases)
  case skipped
  then show ?thesis by (simp add: processed_def Let_def)
next
  case (taken s2 gen em toks stop0 s3 stop s4 pooled)
  have o2: "only_req r (us_sched u) s2" "status (sd_store s2 r) = status (sd_store (us_sched u) r)"
    "resumable (sd_store s2 r) = resumable (sd_store (us_sched u) r)"
    by (simp_all add: taken(3) only_req_def)
  note o3 = take_output_effect[OF taken(4)] and o4 = check_grammar_effect[OF taken(5)]
  have "only_req r (us_sched u) s4" using o2(1) o3 o4 only_req_trans by blast
  then show ?thesis
    by (rule settle_processed[OF taken(6)]) (use o2 o3 o4 assms(2) taken(2) in auto)
qed

definition stopped_by :: "update_state \<Rightarrow> update_state \<Rightarrow> rid set" where
  "stopped_by u u' = {r. is_finished (sd_store (us_sched u') r) \<and> \<not> is_finished (sd_store (us_sched u) r)}"

lemma stopped_step:
  assumes "processed r u u1"
  shows "stopped_by u u1 \<subseteq> {r}" and "x \<noteq> r \<Longrightarrow> sd_store (us_sched u1) x = sd_store (us_sched u) x"
    and "x \<notin> stopped_by u u1 \<Longrightarrow> status (sd_store (us_sched u1) x) = status (sd_store (us_sched u) x)"
  using assms by (auto simp: processed_def stopped_by_def Let_def split: if_splits)

lemma update_fold:
  assumes "foldE (update_one cfg ts advance accepts drafts ro) tokens u = Inr u'" and "distinct (map fst tokens)"
    and "\<forall>r \<in> fst ` set tokens. \<not> resumable (sd_store (us_sched u) r)" and "distinct (sd_requests (us_sched u))"
  shows "sd_running (us_sched u') = sd_running (us_sched u) \<and> sd_waiting (us_sched u') = sd_waiting (us_sched u)
    \<and> sd_skipped (us_sched u') = sd_skipped (us_sched u)
    \<and> sd_requests (us_sched u') = filter (\<lambda>r. r \<notin> stopped_by u u') (sd_requests (us_sched u))
    \<and> stopped_by u u' \<subseteq> fst ` set tokens \<inter> set (sd_requests (us_sched u))
    \<and> us_running u' = us_running u \<union> {r \<in> stopped_by u u'. status (sd_store (us_sched u) r) = RUNNING}
    \<and> set (us_preempted u') = set (us_preempted u) \<union> {r \<in> stopped_by u u'. status (sd_store (us_sched u) r) \<noteq> RUNNING}
    \<and> (\<forall>x. x \<notin> stopped_by u u' \<longrightarrow> status (sd_store (us_sched u') x) = status (sd_store (us_sched u) x))
    \<and> (\<forall>x. x \<notin> fst ` set tokens \<longrightarrow> sd_store (us_sched u') x = sd_store (us_sched u) x)"
  using assms
proof (induction tokens arbitrary: u)
  case Nil
  then show ?case by (auto simp: stopped_by_def)
next
  case (Cons t toks)
  obtain r n where t: "t = (r, n)" by (cases t)
  obtain u1 where u1: "update_one cfg ts advance accepts drafts ro (r, n) u = Inr u1"
    "foldE (update_one cfg ts advance accepts drafts ro) toks u1 = Inr u'"
    using Cons.prems(1) t by (auto elim: bindE_InrE)
  have p: "processed r u u1" by (rule update_one_processed[OF u1(1)]) (use Cons.prems(3) t in simp)
  note st = stopped_step[OF p]
  have r: "r \<notin> fst ` set toks" using Cons.prems(2) t by (auto simp del: in_set_conv_decomp)
  have ids: "\<forall>x \<in> fst ` set toks. \<not> resumable (sd_store (us_sched u1) x)"
  proof
    fix x assume x: "x \<in> fst ` set toks"
    then have "x \<noteq> r" using r by blast
    then show "\<not> resumable (sd_store (us_sched u1) x)" using st(2)[of x] Cons.prems(3) x t by auto
  qed
  define S1 where "S1 = stopped_by u u1"
  define S2 where "S2 = stopped_by u1 u'"
  have req1: "sd_requests (us_sched u1) = filter (\<lambda>x. x \<notin> S1) (sd_requests (us_sched u))"
    "S1 \<subseteq> {r} \<inter> set (sd_requests (us_sched u))"
    "us_running u1 = us_running u \<union> {x \<in> S1. status (sd_store (us_sched u) x) = RUNNING}"
    "set (us_preempted u1) = set (us_preempted u) \<union> {x \<in> S1. status (sd_store (us_sched u) x) \<noteq> RUNNING}"
    "sd_running (us_sched u1) = sd_running (us_sched u)" "sd_waiting (us_sched u1) = sd_waiting (us_sched u)"
    "sd_skipped (us_sched u1) = sd_skipped (us_sched u)"
  proof -
    have stop: "(is_finished (sd_store (us_sched u1) r) \<and> \<not> is_finished (sd_store (us_sched u) r)) = (r \<in> S1)"
      by (simp add: S1_def stopped_by_def)
    note p' = p[unfolded processed_def Let_def stop]
    have S1: "S1 = (if r \<in> S1 then {r} else {})" using st(1) by (auto simp: S1_def)
    have rem: "remove1 r (sd_requests (us_sched u)) = filter (\<lambda>x. x \<noteq> r) (sd_requests (us_sched u))"
      using Cons.prems(4) by (auto simp: distinct_remove1_removeAll removeAll_filter_not_eq intro!: filter_cong)
    show "sd_requests (us_sched u1) = filter (\<lambda>x. x \<notin> S1) (sd_requests (us_sched u))"
      "S1 \<subseteq> {r} \<inter> set (sd_requests (us_sched u))"
      "us_running u1 = us_running u \<union> {x \<in> S1. status (sd_store (us_sched u) x) = RUNNING}"
      "set (us_preempted u1) = set (us_preempted u) \<union> {x \<in> S1. status (sd_store (us_sched u) x) \<noteq> RUNNING}"
      using p' rem by (subst S1; auto split: if_splits)+
    show "sd_running (us_sched u1) = sd_running (us_sched u)" "sd_waiting (us_sched u1) = sd_waiting (us_sched u)"
      "sd_skipped (us_sched u1) = sd_skipped (us_sched u)"
      using p' by blast+
  qed
  have "distinct (sd_requests (us_sched u1))" using Cons.prems(4) by (simp add: req1(1))
  from Cons.IH[OF u1(2) _ ids this] Cons.prems(2)
  have IH: "sd_running (us_sched u') = sd_running (us_sched u1)" "sd_waiting (us_sched u') = sd_waiting (us_sched u1)"
    "sd_skipped (us_sched u') = sd_skipped (us_sched u1)"
    "sd_requests (us_sched u') = filter (\<lambda>r. r \<notin> S2) (sd_requests (us_sched u1))"
    "S2 \<subseteq> fst ` set toks \<inter> set (sd_requests (us_sched u1))"
    "us_running u' = us_running u1 \<union> {r \<in> S2. status (sd_store (us_sched u1) r) = RUNNING}"
    "set (us_preempted u') = set (us_preempted u1) \<union> {r \<in> S2. status (sd_store (us_sched u1) r) \<noteq> RUNNING}"
    "\<And>x. x \<notin> S2 \<Longrightarrow> status (sd_store (us_sched u') x) = status (sd_store (us_sched u1) x)"
    "\<And>x. x \<notin> fst ` set toks \<Longrightarrow> sd_store (us_sched u') x = sd_store (us_sched u1) x"
    by (simp_all add: S2_def)
  have same: "sd_store (us_sched u1) x = sd_store (us_sched u) x" if "x \<in> S2" for x
    using st(2)[of x] IH(5) r that by auto
  have S: "stopped_by u u' = S1 \<union> S2"
  proof (rule set_eqI)
    fix x
    show "x \<in> stopped_by u u' \<longleftrightarrow> x \<in> S1 \<union> S2"
      using same[of x] st(2)[of x] IH(9)[of x] r
      by (cases "x = r") (auto simp: S1_def S2_def stopped_by_def)
  qed
  have status': "status (sd_store (us_sched u') x) = status (sd_store (us_sched u) x)" if "x \<notin> S1 \<union> S2" for x
    using st(3)[of x] IH(8)[of x] that by (simp add: S1_def)
  have run2: "{x \<in> S2. status (sd_store (us_sched u1) x) = RUNNING} = {x \<in> S2. status (sd_store (us_sched u) x) = RUNNING}"
    "{x \<in> S2. status (sd_store (us_sched u1) x) \<noteq> RUNNING} = {x \<in> S2. status (sd_store (us_sched u) x) \<noteq> RUNNING}"
    using same by auto
  have "sd_requests (us_sched u') = filter (\<lambda>x. x \<notin> S1 \<union> S2) (sd_requests (us_sched u))"
    unfolding IH(4) req1(1) filter_filter by (intro filter_cong) auto
  moreover have "S1 \<union> S2 \<subseteq> fst ` set (t # toks) \<inter> set (sd_requests (us_sched u))"
    using IH(5) req1(1,2) t by auto
  moreover have "us_running u' = us_running u \<union> {x \<in> S1 \<union> S2. status (sd_store (us_sched u) x) = RUNNING}"
    unfolding IH(6) req1(3) run2 by blast
  moreover have "set (us_preempted u') = set (us_preempted u) \<union> {x \<in> S1 \<union> S2. status (sd_store (us_sched u) x) \<noteq> RUNNING}"
    unfolding IH(7) req1(4) run2 by blast
  moreover have "sd_store (us_sched u') x = sd_store (us_sched u) x" if "x \<notin> fst ` set (t # toks)" for x
    using IH(9)[of x] st(2)[of x] that t by auto
  ultimately show ?case
    unfolding S using IH(1-3) req1(5-7) status' by metis
qed

lemma update_from_output_effect:
  assumes "update_from_output cfg ts advance accepts tokens drafts ro s = Inr (outs, s')"
    and "tracked s" and "linked s" and "distinct (map fst tokens)"
    and "\<forall>r \<in> fst ` set tokens. \<not> resumable (sd_store s r) \<and> r \<notin># queued (sd_skipped s)"
  shows "\<exists>stopped. tracked s' \<and> linked s'
    \<and> stopped = {r. is_finished (sd_store s' r) \<and> \<not> is_finished (sd_store s r)}
    \<and> stopped \<subseteq> fst ` set tokens \<inter> set (sd_requests s)
    \<and> sd_requests s' = filter (\<lambda>r. r \<notin> stopped) (sd_requests s)
    \<and> sd_running s' = filter (\<lambda>r. r \<notin> stopped) (sd_running s)
    \<and> (\<forall>r. r \<notin> stopped \<longrightarrow> status (sd_store s' r) = status (sd_store s r))"
proof -
  define u0 where "u0 = \<lparr>us_sched = s, us_running = {}, us_preempted = [], us_outs = Map.empty\<rparr>"
  obtain u where f: "foldE (update_one cfg ts advance accepts drafts ro) tokens u0 = Inr u"
    and s': "sd_running s' = (if us_running u = {} then sd_running (us_sched u)
        else remove_all (sd_running (us_sched u)) (us_running u))"
      "queued (sd_waiting s') = (if us_preempted u = [] then queued (sd_waiting (us_sched u))
        else filter_mset (\<lambda>r. r \<notin> set (us_preempted u)) (queued (sd_waiting (us_sched u))))"
      "sd_skipped s' = sd_skipped (us_sched u)" "sd_requests s' = sd_requests (us_sched u)"
      "sd_store s' = sd_store (us_sched u)"
    using assms(1) unfolding update_from_output_def Let_def u0_def
    by (auto elim!: bindE_InrE split: prod.splits)
  define S where "S = stopped_by u0 u"
  have "\<forall>r \<in> fst ` set tokens. \<not> resumable (sd_store (us_sched u0) r)" "distinct (sd_requests (us_sched u0))"
    using assms(2,5) by (simp_all add: u0_def tracked_def)
  note all = update_fold[OF f assms(4) this, folded S_def]
  have u: "sd_running (us_sched u) = sd_running s" "sd_waiting (us_sched u) = sd_waiting s"
    "sd_skipped (us_sched u) = sd_skipped s" "sd_requests (us_sched u) = filter (\<lambda>r. r \<notin> S) (sd_requests s)"
    "S \<subseteq> fst ` set tokens \<inter> set (sd_requests s)"
    "us_running u = {r \<in> S. status (sd_store s r) = RUNNING}"
    "set (us_preempted u) = {r \<in> S. status (sd_store s r) \<noteq> RUNNING}"
    "\<And>x. x \<notin> S \<Longrightarrow> status (sd_store (us_sched u) x) = status (sd_store s x)"
    using all by (simp_all add: u0_def)
  have d: "distinct (sd_running s)" using tracked_distinct[OF assms(2)] by simp
  have run: "sd_running s' = filter (\<lambda>r. r \<notin> S) (sd_running s)"
  proof -
    have "sd_running s' = filter (\<lambda>r. r \<notin> us_running u) (sd_running s)"
      using remove_all_eq_filter[OF d, of "us_running u"] by (simp add: s'(1) u(1))
    also have "\<dots> = filter (\<lambda>r. r \<notin> S) (sd_running s)"
      using assms(3) by (intro filter_cong) (auto simp: u(6) linked_def)
    finally show ?thesis .
  qed
  have wait: "queued (sd_waiting s') = filter_mset (\<lambda>r. r \<notin> S) (queued (sd_waiting s))"
  proof -
    have "queued (sd_waiting s') = filter_mset (\<lambda>r. r \<notin> set (us_preempted u)) (queued (sd_waiting s))"
      by (simp add: s'(2) u(2))
    also have "\<dots> = filter_mset (\<lambda>r. r \<notin> S) (queued (sd_waiting s))"
      using assms(3) by (intro filter_mset_cong) (auto simp: u(7) linked_def)
    finally show ?thesis .
  qed
  have "r \<notin> S" if "r \<in># queued (sd_skipped s)" for r
    using assms(5) u(5) that by blast
  then have skip: "queued (sd_skipped s') = filter_mset (\<lambda>r. r \<notin> S) (queued (sd_skipped s))"
    using filter_mset_cong[of "queued (sd_skipped s)" "queued (sd_skipped s)" "\<lambda>r. r \<notin> S" "\<lambda>_. True"]
    by (simp add: s'(3) u(3))
  have "all_queued s' = filter_mset (\<lambda>r. r \<notin> S) (all_queued s)"
    by (simp add: all_queued_def run wait skip)
  then have tr: "tracked s'" using assms(2) by (simp add: tracked_def s'(4) u(4))
  have "linked s'"
    using assms(3) by (auto simp: linked_def run wait skip s'(5) u(8))
  moreover have "S = {r. is_finished (sd_store s' r) \<and> \<not> is_finished (sd_store s r)}"
    by (simp add: S_def stopped_by_def s'(5) u0_def)
  ultimately show ?thesis
    using tr run u(4,5,8) s'(4,5) by (intro exI[of _ S]) auto
qed

text \<open>
  C10. After the output of a step was processed, every known request is again in exactly one
  queue, with the running ones in the running queue. Of the scheduled requests, those that
  finished in this step are exactly the ones taken off the queues and out of the table of
  requests; the others keep their status. (Streaming sessions, which go on after a stop, are
  excluded; no skipped request was scheduled.)
\<close>

theorem update_from_output_settles:
  assumes "update_from_output cfg ts advance accepts tokens drafts ro s = Inr (outs, s')"
    and "tracked s" and "linked s" and "distinct (map fst tokens)"
    and "\<forall>r \<in> fst ` set tokens. \<not> resumable (sd_store s r) \<and> r \<notin># queued (sd_skipped s)"
  shows "\<exists>stopped. tracked s' \<and> linked s'
    \<and> stopped = {r. is_finished (sd_store s' r) \<and> \<not> is_finished (sd_store s r)}
    \<and> stopped \<subseteq> fst ` set tokens \<inter> set (sd_requests s)
    \<and> sd_requests s' = filter (\<lambda>r. r \<notin> stopped) (sd_requests s)
    \<and> sd_running s' = filter (\<lambda>r. r \<notin> stopped) (sd_running s)
    \<and> (\<forall>r. r \<notin> stopped \<longrightarrow> status (sd_store s' r) = status (sd_store s r))"
  using assms by (rule update_from_output_effect)

end
