(* ===== verification/Schedule_Linked.thy ===== *)
theory Schedule_Linked
  imports Update_Correct Schedule_Pause
begin

text \<open>
  The loop over the combined list keeps queue bookkeeping and request objects in agreement:
  the running ids are exactly the requests whose status is \<open>RUNNING\<close>. The argument is
  about the order in which the loop visits the list: below the index all requests are running,
  so the first waiting request is the visited one, and a victim is never in front of the
  visited one because the priorities are different.
\<close>

section \<open>The preemption loop with its victims\<close>

definition victim :: "rid \<Rightarrow> step \<Rightarrow> nat \<Rightarrow> rid \<Rightarrow> bool" where
  "victim rid s l v \<longleftrightarrow> last_running_idx (sp_qm s) = Some l \<and> l < length (combined (sp_qm s))
     \<and> v = combined (sp_qm s) ! l
     \<and> \<not> (priority (sp_store s v) \<noteq> 0 \<and> priority (sp_store s rid) \<noteq> 0 \<and> priority (sp_store s v) < priority (sp_store s rid))"

lemma alloc_loop_victims:
  assumes "alloc_loop cfg ts alloc rid s = Some (Inr (res, s'))" and "P s"
    and km: "\<And>s km. P s \<Longrightarrow> P (s\<lparr>sp_km := km\<rparr>)"
    and pre: "\<And>l v s s'. P s \<Longrightarrow> victim rid s l v \<Longrightarrow> preempt_step cfg ts v s = Inr s' \<Longrightarrow>
       if v = rid then Q s' else P s'"
  shows "P s' \<or> (res = None \<and> Q s')"
proof -
  have "P s \<longrightarrow> (\<forall>res s'. y = Inr (res, s') \<longrightarrow> P s' \<or> (res = None \<and> Q s'))"
    if "alloc_loop cfg ts alloc rid s = Some y" for y
    using km pre
  proof (induction rule: alloc_loop.raw_induct[OF _ that])
    case (1 self cfg ts alloc rid s y)
    show ?case
    proof (intro impI allI)
      fix res s' assume ok: "P s" and y: "y = Inr (res, s')"
      show "P s' \<or> (res = None \<and> Q s')"
      proof (cases "alloc (sp_store s rid) (sp_km s)")
        case (Inr p)
        obtain r km where p: "p = (r, km)" by (cases p)
        let ?s1 = "s\<lparr>sp_km := km\<rparr>"
        have ok1: "P ?s1" by (rule 1(3)[OF ok])
        show ?thesis
        proof (cases "?s1 = s' \<or> y = Inl IndexError")
          case True
          then show ?thesis using ok1 y by auto
        next
          case False
          with 1(2) y Inr p obtain l where l: "last_running_idx (sp_qm ?s1) = Some l" "l < length (combined (sp_qm ?s1))"
            by (auto simp: Let_def split: if_splits option.splits)
          define v where "v = combined (sp_qm s) ! l"
          have pr: "\<not> (priority (sp_store s v) \<noteq> 0 \<and> priority (sp_store s rid) \<noteq> 0 \<and> priority (sp_store s v) < priority (sp_store s rid))"
            using 1(2) y Inr p l False by (auto simp: Let_def v_def split: if_splits)
          have v: "(case preempt_step cfg ts v ?s1 of
                  Inl e \<Rightarrow> Some (Inl e)
                | Inr s2 \<Rightarrow> if v = rid then Some (Inr (None, s2)) else self cfg ts alloc rid s2) = Some y"
            using 1(2) y Inr p l False pr unfolding v_def by (auto simp: Let_def split: if_splits)
          have vic: "victim rid ?s1 l v" using l v_def pr by (simp add: victim_def)
          obtain s2 where s2: "preempt_step cfg ts v ?s1 = Inr s2" using v y by (auto split: sum.splits)
          note ok2 = 1(4)[OF ok1 vic s2]
          show ?thesis
          proof (cases "v = rid")
            case True
            then show ?thesis using v s2 y ok2 by simp
          next
            case False
            then show ?thesis using v s2 y ok2 1(1)[of cfg ts alloc rid s2 y, OF _ 1(3,4)] by simp
          qed
        qed
      qed (use 1(2) y in simp)
    qed
  qed
  with assms(1,2) show ?thesis by blast
qed

section \<open>The invariant of the loop\<close>

text \<open>\<open>status_linked\<close>: the queue manager and the objects agree on who is running.\<close>

definition status_linked :: "rid list \<Rightarrow> step \<Rightarrow> bool" where
  "status_linked comb s \<longleftrightarrow>
     (\<forall>r \<in> set comb. status (sp_store s r) = RUNNING \<longleftrightarrow> r \<in> running_req_ids (sp_qm s))"

definition ordered :: "rid list \<Rightarrow> step \<Rightarrow> bool" where
  "ordered comb s \<longleftrightarrow> (\<forall>i j. i < j \<longrightarrow> j < length comb \<longrightarrow> priority (sp_store s (comb ! i)) < priority (sp_store s (comb ! j)))
     \<and> (\<forall>r \<in> set comb. priority (sp_store s r) \<noteq> 0)"

definition in_step :: "rid list \<Rightarrow> step \<Rightarrow> bool" where
  "in_step comb s \<longleftrightarrow> qm_inv (sp_qm s) \<and> no_gaps (sp_qm s) \<and> combined (sp_qm s) = comb
     \<and> status_linked comb s \<and> ordered comb s \<and> preempted_req_ids (sp_qm s) \<subseteq> set (sp_preempted s)
     \<and> (\<forall>r \<in> waiting_req_ids (sp_qm s). \<not> will_finish (sp_store s r))"

definition running_below :: "rid list \<Rightarrow> nat \<Rightarrow> step \<Rightarrow> bool" where
  "running_below comb i s \<longleftrightarrow> (\<forall>j < i. j < length comb \<longrightarrow> comb ! j \<in> running_req_ids (sp_qm s))"

lemma in_stepD:
  assumes "in_step comb s"
  shows "qm_inv (sp_qm s)" "no_gaps (sp_qm s)" "combined (sp_qm s) = comb" "status_linked comb s" "ordered comb s"
    "preempted_req_ids (sp_qm s) \<subseteq> set (sp_preempted s)" "distinct comb"
    "r \<in> waiting_req_ids (sp_qm s) \<Longrightarrow> \<not> will_finish (sp_store s r)"
  using assms qm_invD(1)[of "sp_qm s"] by (auto simp: in_step_def)

text \<open>The fields the invariant reads.\<close>

definition linked_eq :: "step \<Rightarrow> step \<Rightarrow> bool" where
  "linked_eq s s' \<longleftrightarrow> sp_qm s' = sp_qm s \<and> sp_preempted s' = sp_preempted s
     \<and> (\<forall>r. status (sp_store s' r) = status (sp_store s r) \<and> priority (sp_store s' r) = priority (sp_store s r)
          \<and> will_finish (sp_store s' r) = will_finish (sp_store s r))"

lemma linked_eqD:
  assumes "linked_eq s s'"
  shows "in_step comb s' = in_step comb s" "running_below comb i s' = running_below comb i s"
  using assms by (auto simp: linked_eq_def in_step_def status_linked_def ordered_def running_below_def)

lemma linked_eq_refl [simp]: "linked_eq s s"
  by (simp add: linked_eq_def)

lemma linked_eq_trans: "linked_eq s s' \<Longrightarrow> linked_eq s' s'' \<Longrightarrow> linked_eq s s''"
  by (simp add: linked_eq_def)

lemma log_event_keeps [simp]:
  "priority (log_event cfg ty t r) = priority r" "num_prompt_tokens (log_event cfg ty t r) = num_prompt_tokens r"
  "max_tokens (log_event cfg ty t r) = max_tokens r"
  by (simp_all add: log_event_def record_event_def)

lemma will_finish_log [simp]: "will_finish (log_event cfg ty t r) = will_finish r"
  by (simp add: will_finish_def)

section \<open>Preempting a victim\<close>

lemma preempt_step_fields:
  assumes "preempt_step cfg ts v s = Inr s'"
  shows "status (sp_store s v) = RUNNING"
    and "update_idxs_after_preemption (sp_qm s) = Inr (sp_qm s')"
    and "sp_preempted s' = sp_preempted s @ [v]" and "sp_index s' \<le> sp_index s"
    and "status (sp_store s' v) = PREEMPTED" and "priority (sp_store s' v) = priority (sp_store s v)"
    and "r \<noteq> v \<Longrightarrow> sp_store s' r = sp_store s r"
proof -
  obtain s1 st km em qm where p: "unschedule v s = Inr s1"
    "preempt_request cfg ts v (sp_store s1) (sp_km s1) (sp_enc s1) = Inr (st, km, em)"
    "update_idxs_after_preemption (sp_qm s1) = Inr qm"
    "s' = s1\<lparr>sp_store := st, sp_km := km, sp_enc := em, sp_qm := qm, sp_preempted := sp_preempted s1 @ [v]\<rparr>"
    using assms by (rule preempt_step_cases)
  have u: "sp_store s1 = sp_store s" "sp_qm s1 = sp_qm s" "sp_preempted s1 = sp_preempted s" "sp_index s1 \<le> sp_index s"
    using p(1) by (auto elim!: unschedule_cases)
  note st = preempt_request_store[OF p(2)]
  show "status (sp_store s v) = RUNNING" "update_idxs_after_preemption (sp_qm s) = Inr (sp_qm s')"
    "sp_preempted s' = sp_preempted s @ [v]" "sp_index s' \<le> sp_index s" "status (sp_store s' v) = PREEMPTED"
    "priority (sp_store s' v) = priority (sp_store s v)" "r \<noteq> v \<Longrightarrow> sp_store s' r = sp_store s r"
    using p(3,4) u st by simp_all
qed

lemma victim_behind:
  assumes "in_step comb s" and "victim (comb ! i) s l v" and "i < length comb"
  shows "i \<le> l" and "l < length comb" and "v = comb ! l"
proof -
  have v: "l < length comb" "v = comb ! l" using assms(2) in_stepD(3)[OF assms(1)] by (auto simp: victim_def)
  then show "l < length comb" "v = comb ! l" .
  show "i \<le> l"
  proof (rule ccontr)
    assume "\<not> i \<le> l"
    then have "priority (sp_store s v) < priority (sp_store s (comb ! i))"
      using in_stepD(5)[OF assms(1)] assms(3) v by (auto simp: ordered_def)
    then show False
      using assms(2) in_stepD(5)[OF assms(1)] v assms(3) by (auto simp: victim_def ordered_def)
  qed
qed

lemma preempt_in_step:
  assumes inv: "in_step comb s" and vic: "victim rid s l v" and p: "preempt_step cfg ts v s = Inr s'"
  shows "in_step comb s'" and "running_req_ids (sp_qm s') = running_req_ids (sp_qm s) - {v}"
    and "waiting_req_ids (sp_qm s') = waiting_req_ids (sp_qm s)" and "v \<in> running_req_ids (sp_qm s)"
proof -
  note f = preempt_step_fields[OF p]
  note i = in_stepD[OF inv]
  have v: "last_running_idx (sp_qm s) = Some l" "v = combined (sp_qm s) ! l" "v \<in> set comb"
    using vic i(3) by (auto simp: victim_def)
  note mv = preemption_moves[OF i(1) v(1) f(2), folded v(2)]
  note kp = preemption_kept[OF f(2)]
  show run: "running_req_ids (sp_qm s') = running_req_ids (sp_qm s) - {v}" by (rule mv(1))
  show wait: "waiting_req_ids (sp_qm s') = waiting_req_ids (sp_qm s)" by (rule kp(5))
  show vr: "v \<in> running_req_ids (sp_qm s)" using i(4) f(1) v(3) by (simp add: status_linked_def)
  have nw: "r \<noteq> v" if "r \<in> waiting_req_ids (sp_qm s)" for r
    using qm_invD(5)[OF i(1) vr] that by blast
  have "status_linked comb s'"
    using i(4) f(5,7) run unfolding status_linked_def by (metis Diff_iff request_status.distinct singleton_iff)
  moreover have "ordered comb s'"
  proof -
    have "priority (sp_store s' r) = priority (sp_store s r)" for r using f(6,7) by (cases "r = v") simp_all
    then show ?thesis using i(5) by (simp add: ordered_def)
  qed
  moreover have "\<not> will_finish (sp_store s' r)" if "r \<in> waiting_req_ids (sp_qm s')" for r
    using that wait nw f(7) i(8) by simp
  ultimately show "in_step comb s'"
    using preemption_inv[OF i(1,2) f(2)] kp(1) i(3,6) mv(2) f(3) by (auto simp: in_step_def)
qed

section \<open>A running request\<close>

text \<open>During the allocation for the request at position \<open>i\<close>.\<close>

definition allocating :: "rid list \<Rightarrow> nat \<Rightarrow> step \<Rightarrow> bool" where
  "allocating comb i s \<longleftrightarrow> in_step comb s \<and> running_below comb i s \<and> sp_index s \<le> i
     \<and> comb ! i \<notin> preempted_req_ids (sp_qm s)"

lemma allocating_victim:
  assumes inv: "allocating comb i s" and i: "i < length comb"
    and vic: "victim (comb ! i) s l v" and p: "preempt_step cfg ts v s = Inr s'"
  shows "if v = comb ! i then in_step comb s' else allocating comb i s'"
proof -
  have s: "in_step comb s" using inv by (simp add: allocating_def)
  note pre = preempt_in_step[OF s vic p] and pos = victim_behind[OF s vic i]
  note d = in_stepD(7)[OF s]
  have "running_below comb i s'" if "v \<noteq> comb ! i"
    unfolding running_below_def
  proof (intro allI impI)
    fix j assume j: "j < i" "j < length comb"
    then have "comb ! j \<noteq> v" using pos d by (simp add: nth_eq_iff_index_eq)
    then show "comb ! j \<in> running_req_ids (sp_qm s')"
      using inv j by (simp add: allocating_def running_below_def pre(2))
  qed
  moreover have "comb ! i \<notin> preempted_req_ids (sp_qm s')" if "v \<noteq> comb ! i"
  proof -
    have "comb ! i \<in> running_req_ids (sp_qm s') \<union> waiting_req_ids (sp_qm s')"
      using inv in_stepD(2,3)[OF s] nth_mem[OF i] that by (auto simp: allocating_def no_gaps_def pre(2,3))
    then show ?thesis using qm_invD(5)[OF in_stepD(1)[OF pre(1)], of "comb ! i"] qm_invD(6)[OF in_stepD(1)[OF pre(1)], of "comb ! i"] by blast
  qed
  moreover have "sp_index s' \<le> i" using inv preempt_step_fields(4)[OF p] by (simp add: allocating_def)
  ultimately show ?thesis using pre(1) by (simp add: allocating_def)
qed

lemma allocating_loop:
  assumes "alloc_loop cfg ts alloc (comb ! i) s = Some (Inr (res, s'))" and "allocating comb i s" and "i < length comb"
  shows "in_step comb s'" and "res \<noteq> None \<Longrightarrow> allocating comb i s'"
proof -
  have km: "allocating comb i (s\<lparr>sp_km := km\<rparr>)" if "allocating comb i s" for s km
    using that linked_eqD[of s "s\<lparr>sp_km := km\<rparr>"] by (simp add: allocating_def linked_eq_def)
  have "allocating comb i s' \<or> (res = None \<and> in_step comb s')"
    using assms(1,2) km allocating_victim[OF _ assms(3)] by (rule alloc_loop_victims)
  then show "in_step comb s'" "res \<noteq> None \<Longrightarrow> allocating comb i s'" by (auto simp: allocating_def)
qed

lemma note_spec_linked: "linked_eq s (note_spec rid n s)"
  by (auto simp: linked_eq_def note_spec_def Let_def upd_req_def will_finish_def)

lemma note_encoder_linked: "note_encoder rid plan s = Inr s' \<Longrightarrow> linked_eq s s' \<and> sp_index s' = sp_index s"
  by (auto simp: note_encoder_def Let_def linked_eq_def elim!: bindE_InrE split: if_splits)

lemma note_spec_index [simp]: "sp_index (note_spec rid n s) = sp_index s"
  by (simp add: note_spec_def Let_def)

text \<open>How the iteration of a request ends: the invariant holds, and below the index all run.\<close>

definition ends_well :: "rid list \<Rightarrow> flow \<Rightarrow> bool" where
  "ends_well comb f \<longleftrightarrow> in_step comb (flow_step f)
     \<and> ((\<forall>s. f \<noteq> Break s) \<longrightarrow> running_below comb (sp_index (flow_step f)) (flow_step f))"

lemma running_below_Suc:
  assumes "running_below comb i s" and "comb ! i \<in> running_req_ids (sp_qm s)" and "k \<le> Suc i"
  shows "running_below comb k s"
  unfolding running_below_def
proof (intro allI impI)
  fix j assume "j < k" "j < length comb"
  then have "j < i \<or> j = i" using assms(3) by linarith
  then show "comb ! j \<in> running_req_ids (sp_qm s)"
    using assms(1,2) \<open>j < length comb\<close> by (auto simp: running_below_def)
qed

lemma visit_running_linked:
  assumes v: "visit_running cfg ts (comb ! i) s = Some (Inr f)" and inv: "allocating comb i s"
    and i: "i < length comb" and run: "comb ! i \<in> running_req_ids (sp_qm s)"
  shows "ends_well comb f" and "f = Fall s' \<Longrightarrow> comb ! i \<in> running_req_ids (sp_qm s')"
proof -
  let ?rid = "comb ! i"
  let ?r = "sp_store s ?rid"
  obtain plan em where pl: "plan_encoder cfg ?r (num_computed_tokens ?r)
      (running_tokens cfg ?r (sp_budget s)) (sp_enc_budget s) (sp_enc s) = Inr (plan, em)"
    using v by (auto simp: visit_running_def Let_def split: sum.splits)
  define n where "n = split_tokens cfg ?r plan 0"
  let ?s1 = "s\<lparr>sp_enc := em\<rparr>"
  have eq1: "linked_eq s ?s1" by (simp add: linked_eq_def)
  have inv1: "allocating comb i ?s1" using inv linked_eqD[OF eq1] by (simp add: allocating_def)
  have "ends_well comb f \<and> (\<forall>s'. f = Fall s' \<longrightarrow> ?rid \<in> running_req_ids (sp_qm s'))"
  proof (cases "n = 0")
    case True
    then have f: "f = Next (?s1\<lparr>sp_index := sp_index ?s1 + 1\<rparr>)"
      using v pl by (simp add: visit_running_def Let_def n_def split_tokens_def cong: if_cong)
    let ?s2 = "?s1\<lparr>sp_index := sp_index ?s1 + 1\<rparr>"
    have "linked_eq ?s1 ?s2" by (simp add: linked_eq_def)
    from linked_eqD[OF this] have "in_step comb ?s2" "running_below comb i ?s2"
      using inv1 by (simp_all add: allocating_def)
    then show ?thesis using run inv1 running_below_Suc[of comb i ?s2 "sp_index ?s2"]
      by (simp add: f ends_well_def allocating_def)
  next
    case False
    obtain new s2 where al: "alloc_loop cfg ts
        (\<lambda>r. allocate_slots (sc_digest cfg) r n 0 None (sc_lookahead cfg) 0 False 0 False) ?rid ?s1 = Some (Inr (new, s2))"
      and f: "(case new of None \<Rightarrow> Inr (Break s2)
              | Some bs \<Rightarrow> bindE (note_encoder ?rid plan (note_spec ?rid n
                  (s2\<lparr>sp_running := sp_running s2 @ [?rid], sp_blocks := (sp_blocks s2)(?rid \<mapsto> bs),
                      sp_tokens := AList.update ?rid n (sp_tokens s2), sp_budget := sp_budget s2 - n,
                      sp_index := sp_index s2 + 1\<rparr>))) (\<lambda>s4. Inr (Fall s4))) = Inr f"
      using v pl False unfolding visit_running_def Let_def n_def split_tokens_def
      by (auto simp: bindE_eq_Inr bind_eq_Some_conv cong: if_cong)
    note al' = allocating_loop[OF al inv1 i]
    show ?thesis
    proof (cases new)
      case None
      then have "f = Break s2" using f by simp
      then show ?thesis using al'(1) by (simp add: ends_well_def)
    next
      case (Some bs)
      let ?s3 = "s2\<lparr>sp_running := sp_running s2 @ [?rid], sp_blocks := (sp_blocks s2)(?rid \<mapsto> bs),
                      sp_tokens := AList.update ?rid n (sp_tokens s2), sp_budget := sp_budget s2 - n,
                      sp_index := sp_index s2 + 1\<rparr>"
      obtain s4 where s4: "note_encoder ?rid plan (note_spec ?rid n ?s3) = Inr s4" "f = Fall s4"
        using f Some by (auto elim: bindE_InrE)
      have "linked_eq s2 ?s3" by (simp add: linked_eq_def)
      then have "linked_eq s2 (note_spec ?rid n ?s3)" by (rule linked_eq_trans) (rule note_spec_linked)
      then have eq: "linked_eq s2 s4" "sp_index s4 = sp_index s2 + 1"
        using note_encoder_linked[OF s4(1)] linked_eq_trans[of s2 "note_spec ?rid n ?s3" s4] by simp_all
      have inv2: "allocating comb i s2" using al'(2) Some by simp
      have "?rid \<in> set comb" using i by simp
      then have "?rid \<in> running_req_ids (sp_qm s2) \<union> waiting_req_ids (sp_qm s2)"
        using inv2 in_stepD(2,3)[of comb s2] by (auto simp: allocating_def no_gaps_def)
      moreover have "waiting_req_ids (sp_qm s2) = waiting_req_ids (sp_qm s)"
        by (rule alloc_loop_induct[OF al]) (simp_all add: preemption_kept(5)[OF preempt_step_fields(2)])
      moreover have "?rid \<notin> waiting_req_ids (sp_qm s)"
        using qm_invD(5)[OF in_stepD(1) run, of comb] inv unfolding allocating_def by blast
      ultimately have r2: "?rid \<in> running_req_ids (sp_qm s2)" by blast
      then have "?rid \<in> running_req_ids (sp_qm s4)" using eq(1) by (simp add: linked_eq_def)
      moreover have "in_step comb s4" "running_below comb i s4"
        using inv2 linked_eqD[OF eq(1)] by (simp_all add: allocating_def)
      moreover have "sp_index s4 \<le> Suc i" using inv2 eq(2) by (simp add: allocating_def)
      ultimately show ?thesis using s4(2) running_below_Suc by (simp add: ends_well_def)
    qed
  qed
  then show "ends_well comb f" and "f = Fall s' \<Longrightarrow> comb ! i \<in> running_req_ids (sp_qm s')" by blast+
qed

section \<open>A waiting request\<close>

lemma computed_prefix_linked:
  assumes "computed_prefix rid s = Some (Inr (comps, loc, c, s'))"
  shows "linked_eq s s'" and "sp_index s' = sp_index s"
  using assms
  by (cases rule: computed_prefix_cases; auto simp: linked_eq_def upd_req_def will_finish_def)+

lemma first_is_visited:
  assumes "allocating comb i s" and "i < length comb" and "comb ! i \<in> waiting_req_ids (sp_qm s)"
  shows "first_waiting_idx (sp_qm s) = Some i"
proof -
  have s: "in_step comb s" and b: "running_below comb i s" using assms(1) by (simp_all add: allocating_def)
  note d = in_stepD[OF s]
  have "comb ! j \<notin> waiting_req_ids (sp_qm s) \<and> comb ! j \<notin> preempted_req_ids (sp_qm s)" if "j < i" for j
    using qm_invD(5)[OF d(1), of "comb ! j"] b that assms(2) by (auto simp: running_below_def)
  then have "first_waiting (sp_qm s) = Some i"
    unfolding first_waiting_def using assms(2,3) d(3) by (simp add: find_upt_Some)
  then show ?thesis using qm_invD(8)[OF d(1)] by simp
qed

lemma admit_linked:
  assumes a: "admit cfg ts (comb ! i) n c plan s = Inr s'" and inv: "allocating comb i s"
    and i: "i < length comb" and w: "comb ! i \<in> waiting_req_ids (sp_qm s)"
  shows "in_step comb s' \<and> running_below comb (sp_index s') s'"
proof -
  let ?rid = "comb ! i"
  obtain s2 qm where s2: "sp_qm s2 = sp_qm s" "sp_preempted s2 = sp_preempted s" "sp_index s2 = sp_index s + 1"
      "sp_store s2 = upd_req ?rid (log_event cfg SCHEDULED ts) (sp_store s)"
    and qm: "update_idxs_after_new_scheduling (sp_qm s2) = Inr qm"
    and n: "note_encoder ?rid plan
          (s2\<lparr>sp_qm := qm, sp_blocks := (sp_blocks s2)(?rid \<mapsto> km_get_blocks ?rid (sp_km s2)),
              sp_tokens := AList.update ?rid n (sp_tokens s2), sp_budget := sp_budget s2 - n,
              sp_store := upd_req ?rid (\<lambda>r. r\<lparr>status := RUNNING, num_computed_tokens := c\<rparr>) (sp_store s2)\<rparr>) = Inr s'"
    using a unfolding admit_def Let_def
    apply (elim bindE_InrE)
    apply (rule that)
         prefer 5 apply assumption
        prefer 5 apply assumption
       apply (auto split: if_splits)
    done
  have s: "in_step comb s" and b: "running_below comb i s" using inv by (simp_all add: allocating_def)
  note d = in_stepD[OF s]
  note fst = first_is_visited[OF inv i w]
  have q: "update_idxs_after_new_scheduling (sp_qm s) = Inr qm" using qm s2(1) by simp
  obtain qm' where qm': "update_idxs_after_new_scheduling (sp_qm s) = Inr qm'"
    "running_req_ids qm' = insert ?rid (running_req_ids (sp_qm s))"
    "waiting_req_ids qm' = waiting_req_ids (sp_qm s) - {?rid}"
    "preempted_req_ids qm' = preempted_req_ids (sp_qm s) - {?rid}" "combined qm' = comb"
    by (rule scheduling_moves[OF d(1) fst]) (use d(3) that in auto)
  have eqq: "qm' = qm" using qm'(1) q by simp
  note mv = qm'(2-5)[unfolded eqq]
  let ?s3 = "s2\<lparr>sp_qm := qm, sp_blocks := (sp_blocks s2)(?rid \<mapsto> km_get_blocks ?rid (sp_km s2)),
              sp_tokens := AList.update ?rid n (sp_tokens s2), sp_budget := sp_budget s2 - n,
              sp_store := upd_req ?rid (\<lambda>r. r\<lparr>status := RUNNING, num_computed_tokens := c\<rparr>) (sp_store s2)\<rparr>"
  have st: "sp_store ?s3 r = (if r = ?rid then (log_event cfg SCHEDULED ts (sp_store s r))\<lparr>status := RUNNING, num_computed_tokens := c\<rparr>
      else sp_store s r)" for r
    by (simp add: s2(4) upd_req_def)
  have "status_linked comb ?s3"
    using d(4) unfolding status_linked_def st by (simp add: mv)
  moreover have "priority (sp_store ?s3 r) = priority (sp_store s r)" for r unfolding st by simp
  then have "ordered comb ?s3" using d(5) unfolding ordered_def by presburger
  moreover have "\<not> will_finish (sp_store ?s3 r)" if "r \<in> waiting_req_ids qm" for r
    using that d(8) unfolding st by (simp add: mv)
  ultimately have ok: "in_step comb ?s3"
    using scheduling_inv[OF d(1,2) q] d(6) mv s2(2) by (auto simp: in_step_def)
  have "running_below comb i ?s3" using b by (simp add: running_below_def mv)
  then have "running_below comb (sp_index ?s3) ?s3"
    by (rule running_below_Suc) (use mv inv s2(3) in \<open>simp_all add: allocating_def\<close>)
  with ok show ?thesis using note_encoder_linked[OF n] linked_eqD[of ?s3 s'] by simp
qed

text \<open>Once a request is ignored the indices may have gaps; the claim is about the steps without.\<close>

definition unless_ignored :: "step \<Rightarrow> bool \<Rightarrow> bool" where
  "unless_ignored s P \<longleftrightarrow> ignored_req_ids (sp_qm s) \<noteq> {} \<or> P"

lemma ignore_request_ignores:
  assumes "ignore_request rid s = Inr f" and "first_waiting_idx (sp_qm s) \<noteq> None"
  shows "ignored_req_ids (sp_qm (flow_step f)) \<noteq> {}"
  using assms ignored_kept(3) by (auto simp: ignore_request_def elim!: bindE_InrE)

lemma visit_waiting_linked:
  assumes v: "visit_waiting cfg ts (comb ! i) s = Some (Inr f)" and inv: "allocating comb i s"
    and i: "i < length comb" and w: "comb ! i \<in> waiting_req_ids (sp_qm s)"
  shows "unless_ignored (flow_step f) (ends_well comb f)"
  using v
proof (cases rule: visit_waiting_cases)
  case ignored
  then show ?thesis using ignore_request_ignores first_is_visited[OF inv i w] by (simp add: unless_ignored_def)
next
  case (stopped comps loc c s1 em)
  have "linked_eq s1 (flow_step f)" using stopped(2) by (elim disjE) (simp_all add: linked_eq_def)
  then have "linked_eq s (flow_step f)" by (rule linked_eq_trans[OF computed_prefix_linked(1)[OF stopped(1)]])
  from linked_eqD(1)[OF this] have "in_step comb (flow_step f)" using inv by (simp add: allocating_def)
  moreover have "\<not> (\<forall>s. f \<noteq> Break s)" using stopped(2) by blast
  ultimately show ?thesis unfolding unless_ignored_def ends_well_def by blast
next
  case (unfit comps loc c s1)
  have "first_waiting_idx (sp_qm s1) \<noteq> None"
    using computed_prefix_linked(1)[OF unfit(1)] first_is_visited[OF inv i w] by (simp add: linked_eq_def)
  then show ?thesis using ignore_request_ignores[OF unfit(2)] by (simp add: unless_ignored_def)
next
  case (visited comps loc c s1 n plan em alloc res)
  let ?s2 = "s1\<lparr>sp_enc := em\<rparr>"
  have eq: "linked_eq s ?s2" "sp_index ?s2 = sp_index s"
    using computed_prefix_linked[OF visited(1)] by (auto simp: linked_eq_def)
  have inv2: "allocating comb i ?s2" using inv linked_eqD[OF eq(1)] eq by (simp add: allocating_def linked_eq_def)
  obtain new s3 where res: "res = (new, s3)" by (cases res)
  note al = allocating_loop[OF visited(7)[unfolded res] inv2 i]
  show ?thesis
  proof (cases new)
    case None
    with visited(8) res obtain em' where "f = Break s3 \<or> f = Break (s3\<lparr>sp_enc := em'\<rparr>)"
      by (auto simp: finish_waiting_def elim!: bindE_InrE split: if_splits)
    then have "linked_eq s3 (flow_step f)" and "\<not> (\<forall>s. f \<noteq> Break s)"
      by (elim disjE, simp_all add: linked_eq_def, blast+)
    then show ?thesis using al(1) linked_eqD(1)[of s3 "flow_step f"]
      unfolding unless_ignored_def ends_well_def by blast
  next
    case (Some b)
    then obtain s4 where ad: "admit cfg ts (comb ! i) (split_tokens cfg (sp_store s1 (comb ! i)) plan loc) c plan s3 = Inr s4"
      "f = Next s4"
      using visited(8) res by (auto simp: finish_waiting_def elim: bindE_InrE)
    have "waiting_req_ids (sp_qm s3) = waiting_req_ids (sp_qm ?s2)"
      by (rule alloc_loop_induct[OF visited(7)[unfolded res]]) (simp_all add: preemption_kept(5)[OF preempt_step_fields(2)])
    then have "comb ! i \<in> waiting_req_ids (sp_qm s3)" using w eq(1) by (simp add: linked_eq_def)
    from admit_linked[OF ad(1) al(2) i this] Some ad(2) show ?thesis
      by (simp add: unless_ignored_def ends_well_def)
  qed
qed

section \<open>The loop\<close>

lemma qm_step_ignored:
  assumes "qm_step qm qm'"
  shows "combined qm' = combined qm \<and> ignored_req_ids qm \<subseteq> ignored_req_ids qm'"
proof
  show "combined qm' = combined qm" using qm_step_combined[OF assms] .
  from assms show "ignored_req_ids qm \<subseteq> ignored_req_ids qm'"
  proof (cases rule: qm_step.cases)
    case ignore
    then show ?thesis by (auto simp: update_idxs_after_ignored_def Let_def split: option.splits if_splits)
  next
    case skip
    then show ?thesis by (auto simp: update_idxs_after_skipped_def Let_def split: option.splits if_splits)
  qed (auto dest: preemption_kept(2) scheduling_kept(2))
qed

lemmas step_ignored = qm_step_ignored[OF qm_step.preempt] qm_step_ignored[OF qm_step.admit]
  qm_step_ignored[OF qm_step.ignore]

interpretation ignoring: step_invariant cfg ts comb
    "\<lambda>s. combined (sp_qm s) = comb \<and> X \<subseteq> ignored_req_ids (sp_qm s)" "\<lambda>_ _ _. True"
proof
  fix s s' v
  assume "combined (sp_qm s) = comb \<and> X \<subseteq> ignored_req_ids (sp_qm s)" "preempt_step cfg ts v s = Inr s'"
  then show "combined (sp_qm s') = comb \<and> X \<subseteq> ignored_req_ids (sp_qm s')"
    using step_ignored(1)[OF preempt_step_qm] by blast
next
  fix s i s'
  assume s: "combined (sp_qm s) = comb \<and> X \<subseteq> ignored_req_ids (sp_qm s)" and "preempt_rest cfg ts i s = Inr s'"
  from this(2) show "combined (sp_qm s') = comb \<and> X \<subseteq> ignored_req_ids (sp_qm s')"
  proof (cases rule: preempt_rest_cases)
    case (preempt v km em qm)
    then show ?thesis using step_ignored(1)[OF preempt(3)] s by auto
  qed (use s in simp)
qed (auto simp: shared_eq_def note_spec_def Let_def dest: step_ignored(2,3))

definition at_head :: "rid list \<Rightarrow> step \<Rightarrow> bool" where
  "at_head comb s \<longleftrightarrow> in_step comb s \<and> running_below comb (sp_index s) s"

lemma visit_linked:
  assumes v: "visit cfg ts (comb ! sp_index s) s = Some (Inr f)" and inv: "at_head comb s" and i: "sp_index s < length comb"
  shows "unless_ignored (flow_step f) (ends_well comb f)"
proof -
  let ?i = "sp_index s"
  let ?rid = "comb ! ?i"
  have s: "in_step comb s" and b: "running_below comb ?i s" using inv by (simp_all add: at_head_def)
  note d = in_stepD[OF s]
  have next': "ends_well comb (Next (s\<lparr>sp_index := k\<rparr>))" if "running_below comb k s" for k
    using that s linked_eqD[of s "s\<lparr>sp_index := k\<rparr>"] by (simp add: ends_well_def linked_eq_def)
  show ?thesis
  proof (cases "?rid \<in> set (sp_preempted s)")
    case True
    then have "f = Break s" using v by (auto simp: visit_def)
    then show ?thesis using s by (simp add: unless_ignored_def ends_well_def)
  next
    case np: False
    then have "?rid \<notin> preempted_req_ids (sp_qm s)" using d(6) by blast
    then have al: "allocating comb ?i s" using s b by (simp add: allocating_def)
    show ?thesis
    proof (cases "will_finish (sp_store s ?rid)")
      case True
      then have f: "f = Next (s\<lparr>sp_index := ?i + 1\<rparr>)" using v np by (simp add: visit_def)
      have "?rid \<notin> waiting_req_ids (sp_qm s)" using d(8) True by blast
      then have "?rid \<in> running_req_ids (sp_qm s)"
        using d(2,3) nth_mem[OF i] \<open>?rid \<notin> preempted_req_ids (sp_qm s)\<close> by (auto simp: no_gaps_def)
      then have "running_below comb (?i + 1) s" using running_below_Suc[OF b] by simp
      from next'[OF this] show ?thesis by (simp add: f unless_ignored_def)
    next
      case False
      then obtain g where g: "(if ?rid \<in> running_req_ids (sp_qm s) then visit_running cfg ts ?rid s
          else Some (Inr (Fall s))) = Some (Inr g)"
        and fg: "(case g of Next s1 \<Rightarrow> Some (Inr (Next s1)) | Break s1 \<Rightarrow> Some (Inr (Break s1))
            | Fall s1 \<Rightarrow> if ?rid \<in> waiting_req_ids (sp_qm s1) then visit_waiting cfg ts ?rid s1
               else Some (Inr (Next s1))) = Some (Inr f)"
        using v np by (auto simp only: visit_def bind_result_eq if_False)
      show ?thesis
      proof (cases "?rid \<in> running_req_ids (sp_qm s)")
        case True
        then have vr: "visit_running cfg ts ?rid s = Some (Inr g)" using g by simp
        note w = visit_running_linked[OF vr al i True]
        show ?thesis
        proof (cases g)
          case (Fall s1)
          then have "?rid \<notin> waiting_req_ids (sp_qm s1)"
            using w qm_invD(5)[OF in_stepD(1)] by (fastforce simp: ends_well_def)
          then have "f = Next s1" using fg Fall by simp
          then show ?thesis using Fall w(1) by (simp add: unless_ignored_def ends_well_def)
        qed (use fg w(1) in \<open>simp_all add: unless_ignored_def\<close>)
      next
        case False
        then have gs: "g = Fall s" using g by simp
        show ?thesis
        proof (cases "?rid \<in> waiting_req_ids (sp_qm s)")
          case True
          then show ?thesis using fg gs visit_waiting_linked[OF _ al i] by simp
        next
          case nw: False
          then have "f = Next s" using fg gs by simp
          then show ?thesis using next'[OF b] by (simp add: unless_ignored_def)
        qed
      qed
    qed
  qed
qed

lemma visit_loop_linked:
  assumes "visit_loop cfg ts s = Some (Inr s')" and "combined (sp_qm s) = comb" and "unless_ignored s (at_head comb s)"
  shows "unless_ignored s' (in_step comb s')"
proof -
  have "c = cfg \<longrightarrow> t = ts \<longrightarrow> combined (sp_qm s) = comb \<longrightarrow> unless_ignored s (at_head comb s) \<longrightarrow>
      (\<forall>s'. y = Inr s' \<longrightarrow> unless_ignored s' (in_step comb s'))"
    if "visit_loop c t s = Some y" for c t s y
  proof (induction rule: visit_loop.raw_induct[OF _ that])
    case (1 self c t s y)
    show ?case
    proof (intro impI allI)
      fix s' assume ct: "c = cfg" "t = ts" and comb: "combined (sp_qm s) = comb"
        and inv: "unless_ignored s (at_head comb s)" and y: "y = Inr s'"
      show "unless_ignored s' (in_step comb s')"
      proof (cases "sp_index s < length comb \<and> sp_budget s > 0")
        case True
        from 1(2) True y ct comb obtain f where f: "visit cfg ts (comb ! sp_index s) s = Some (Inr f)"
          and r: "(case f of Next s1 \<Rightarrow> self c t s1 | Fall s1 \<Rightarrow> self c t s1 | Break s1 \<Rightarrow> Some (Inr s1)) = Some y"
          by (cases "visit cfg ts (comb ! sp_index s) s") (simp_all split: sum.splits)
        have mono: "combined (sp_qm (flow_step f)) = comb \<and> X \<subseteq> ignored_req_ids (sp_qm (flow_step f))"
          if "X \<subseteq> ignored_req_ids (sp_qm s)" for X
          by (rule ignoring.visit_ok[OF f]) (use True comb that in simp_all)
        have fcomb: "combined (sp_qm (flow_step f)) = comb" using mono[of "{}"] by simp
        have fw: "unless_ignored (flow_step f) (ends_well comb f)"
        proof (cases "ignored_req_ids (sp_qm s) = {}")
          case True
          then show ?thesis using inv visit_linked[OF f] \<open>sp_index s < length comb \<and> sp_budget s > 0\<close>
            by (auto simp: unless_ignored_def)
        next
          case False
          then show ?thesis using mono[OF subset_refl] unfolding unless_ignored_def by blast
        qed
        show ?thesis
        proof (cases f)
          case (Next s1)
          then show ?thesis using 1(1)[of c t s1 y] r fw fcomb y ct
            by (auto simp: unless_ignored_def ends_well_def at_head_def)
        next
          case (Break s1)
          then show ?thesis using r fw y by (auto simp: unless_ignored_def ends_well_def)
        next
          case (Fall s1)
          then show ?thesis using 1(1)[of c t s1 y] r fw fcomb y ct
            by (auto simp: unless_ignored_def ends_well_def at_head_def)
        qed
      next
        case False
        then show ?thesis using 1(2) y inv comb by (auto simp: unless_ignored_def at_head_def)
      qed
    qed
  qed
  with assms show ?thesis by blast
qed

section \<open>The running requests that were not reached\<close>

lemma preemption_drops_last:
  assumes inv: "qm_inv qm" and upd: "update_idxs_after_preemption qm = Inr qm'"
  shows "filter (\<lambda>r. r \<in> running_req_ids qm') (combined qm)
    = butlast (filter (\<lambda>r. r \<in> running_req_ids qm) (combined qm))"
proof (cases "last_running_idx qm")
  case None
  then have "qm' = qm" "filter (\<lambda>r. r \<in> running_req_ids qm) (combined qm) = []"
    using upd last_running_None[of qm] qm_invD(7)[OF inv]
    by (auto simp: update_idxs_after_preemption_def filter_empty_conv in_set_conv_nth)
  then show ?thesis by simp
next
  case (Some l)
  note mv = preemption_moves[OF inv Some upd]
  have l: "l < length (combined qm)" "combined qm ! l \<in> running_req_ids qm"
    "\<And>j. l < j \<Longrightarrow> j < length (combined qm) \<Longrightarrow> combined qm ! j \<notin> running_req_ids qm"
    using last_running_Some[of qm l] qm_invD(7)[OF inv] Some by auto
  define xs ys where "xs = take l (combined qm)" and "ys = drop (Suc l) (combined qm)"
  have comb: "combined qm = xs @ combined qm ! l # ys"
    using l(1) by (simp add: xs_def ys_def id_take_nth_drop)
  have ys: "\<forall>r \<in> set ys. r \<notin> running_req_ids qm"
    using l(1,3) by (auto simp: ys_def in_set_conv_nth)
  have d: "combined qm ! l \<notin> set xs"
    using qm_invD(1)[OF inv] comb by (metis distinct.simps(2) distinct_append not_distinct_conv_prefix)
  have "filter (\<lambda>r. r \<in> running_req_ids qm') (combined qm) = filter (\<lambda>r. r \<in> running_req_ids qm) xs"
    using ys d by (subst comb) (auto simp: mv(1) filter_empty_conv intro!: filter_cong)
  moreover have "filter (\<lambda>r. r \<in> running_req_ids qm) (combined qm)
      = filter (\<lambda>r. r \<in> running_req_ids qm) xs @ [combined qm ! l]"
    using ys l(2) by (subst comb) (auto simp: filter_empty_conv)
  ultimately show ?thesis by simp
qed

text \<open>The objects that are preempted here are as many as the ids that leave the running ids.\<close>

lemma rest_drops:
  assumes "foldE (preempt_rest cfg ts) js s = Inr s'" and "combined (sp_qm s) = comb"
    and "distinct (map ((!) comb) js)" and "qm_inv (sp_qm s)" and "no_gaps (sp_qm s)"
  shows "qm_inv (sp_qm s') \<and> no_gaps (sp_qm s') \<and> combined (sp_qm s') = comb
    \<and> filter (\<lambda>r. r \<in> running_req_ids (sp_qm s')) comb
      = take (length (filter (\<lambda>r. r \<in> running_req_ids (sp_qm s)) comb)
           - length (filter (\<lambda>v. status (sp_store s v) = RUNNING) (map ((!) comb) js)))
         (filter (\<lambda>r. r \<in> running_req_ids (sp_qm s)) comb)
    \<and> (\<forall>r. status (sp_store s' r) = (if r \<in> set (map ((!) comb) js) \<and> status (sp_store s r) = RUNNING
         then PREEMPTED else status (sp_store s r)))"
  using assms
proof (induction js arbitrary: s)
  case (Cons j js)
  then obtain s1 where s1: "preempt_rest cfg ts j s = Inr s1" "foldE (preempt_rest cfg ts) js s1 = Inr s'"
    by (auto elim: bindE_InrE)
  show ?case
  proof (cases "status (sp_store s (comb ! j)) = RUNNING")
    case False
    then have "s1 = s" using s1(1) Cons.prems(2) by (simp add: preempt_rest_def Let_def)
    with Cons.IH[OF s1(2)] Cons.prems False show ?thesis by auto
  next
    case True
    then obtain qm km em where qm: "update_idxs_after_preemption (sp_qm s) = Inr qm"
      and eq: "s1 = s\<lparr>sp_km := km, sp_enc := em, sp_qm := qm, sp_preempted := sp_preempted s @ [comb ! j],
              sp_store := upd_req (comb ! j) (\<lambda>r. log_event cfg EV_PREEMPTED ts
                      (r\<lparr>status := PREEMPTED, num_computed_tokens := 0\<rparr>)) (sp_store s)\<rparr>"
      using s1(1) Cons.prems(2) unfolding preempt_rest_def Let_def by (auto elim!: bindE_InrE)
    have st1: "status (sp_store s1 r) = (if r = comb ! j then PREEMPTED else status (sp_store s r))" for r
      by (simp add: eq upd_req_def)
    have "comb ! x \<noteq> comb ! j" if "x \<in> set js" for x
    proof -
      have "comb ! x \<in> (!) comb ` set js" using that by (rule imageI)
      then show ?thesis using Cons.prems(3) by auto
    qed
    then have filt: "filter (\<lambda>v. status (sp_store s1 v) = RUNNING) (map ((!) comb) js)
        = filter (\<lambda>v. status (sp_store s v) = RUNNING) (map ((!) comb) js)"
      by (intro filter_cong) (auto simp: st1)
    have inv1: "qm_inv (sp_qm s1)" "no_gaps (sp_qm s1)" "combined (sp_qm s1) = comb"
      using preemption_inv[OF Cons.prems(4,5) qm] preemption_kept(1)[OF qm] Cons.prems(2) by (simp_all add: eq)
    have last: "filter (\<lambda>r. r \<in> running_req_ids (sp_qm s1)) comb
        = butlast (filter (\<lambda>r. r \<in> running_req_ids (sp_qm s)) comb)"
      using preemption_drops_last[OF Cons.prems(4) qm] Cons.prems(2) by (simp add: eq)
    from Cons.IH[OF s1(2) inv1(3) _ inv1(1,2)] Cons.prems(3)
    have IH: "qm_inv (sp_qm s') \<and> no_gaps (sp_qm s') \<and> combined (sp_qm s') = comb"
      "filter (\<lambda>r. r \<in> running_req_ids (sp_qm s')) comb
      = take (length (butlast (filter (\<lambda>r. r \<in> running_req_ids (sp_qm s)) comb))
           - length (filter (\<lambda>v. status (sp_store s v) = RUNNING) (map ((!) comb) js)))
         (butlast (filter (\<lambda>r. r \<in> running_req_ids (sp_qm s)) comb))"
      "\<And>r. status (sp_store s' r) = (if r \<in> set (map ((!) comb) js) \<and> status (sp_store s1 r) = RUNNING
         then PREEMPTED else status (sp_store s1 r))"
      unfolding filt last by simp_all
    show ?thesis
      using IH(1) True by (simp add: IH(2,3) st1 butlast_conv_take min_def)
  qed
qed simp

lemma preempt_remaining_linked:
  assumes "preempt_remaining cfg ts s = Inr s'" and inv: "in_step comb s"
  shows "status_linked comb s' \<and> qm_ok (sp_qm s') \<and> combined (sp_qm s') = comb"
proof (cases "sp_budget s = 0 \<and> sp_index s < length comb")
  case False
  then show ?thesis using assms in_stepD[OF inv] by (auto simp: preempt_remaining_def qm_ok_def)
next
  case True
  let ?i = "sp_index s" and ?run = "\<lambda>s r. r \<in> running_req_ids (sp_qm s)"
  note d = in_stepD[OF inv]
  have f: "foldE (preempt_rest cfg ts) [?i..<length comb] s = Inr s'"
    using assms(1) True d(3) by (simp add: preempt_remaining_def)
  have idx: "map ((!) comb) [?i..<length comb] = drop ?i comb"
    using True by (intro nth_equalityI) auto
  have "distinct (map ((!) comb) [?i..<length comb])" unfolding idx using d(7) by simp
  note r = rest_drops[OF f d(3) this d(1,2), unfolded idx]
  have st: "filter (\<lambda>v. status (sp_store s v) = RUNNING) (drop ?i comb) = filter (?run s) (drop ?i comb)"
    using d(4) by (intro filter_cong) (auto simp: status_linked_def dest: in_set_dropD)
  have split: "filter (?run s) comb = filter (?run s) (take ?i comb) @ filter (?run s) (drop ?i comb)"
    by (metis append_take_drop_id filter_append)
  have "filter (?run s') comb = filter (?run s) (take ?i comb)"
    using r unfolding st by (simp add: split)
  then have run: "r \<in> running_req_ids (sp_qm s') \<longleftrightarrow> r \<in> set (take ?i comb) \<and> r \<in> running_req_ids (sp_qm s)"
    if "r \<in> set comb" for r
    using that by (metis (mono_tags, lifting) mem_Collect_eq set_filter)
  have disj: "set (take ?i comb) \<inter> set (drop ?i comb) = {}" "set comb = set (take ?i comb) \<union> set (drop ?i comb)"
    using d(7) by (simp add: set_take_disj_set_drop_if_distinct) (metis append_take_drop_id set_append)
  have "status_linked comb s'"
    unfolding status_linked_def
  proof
    fix x assume x: "x \<in> set comb"
    have "status (sp_store s' x) = (if x \<in> set (drop ?i comb) \<and> status (sp_store s x) = RUNNING
         then PREEMPTED else status (sp_store s x))" using r by blast
    then show "(status (sp_store s' x) = RUNNING) = (x \<in> running_req_ids (sp_qm s'))"
      using run[OF x] d(4) x disj by (auto simp: status_linked_def)
  qed
  then show ?thesis using r by (simp add: qm_ok_def)
qed

end
