(* ===== verification/Schedule_Agreement.thy ===== *)
theory Schedule_Agreement
  imports Schedule_Linked
begin

text \<open>
  From the loop to the whole step: a ranked scheduler whose queues and request objects agree
  starts the loop in the invariant of \<open>Schedule_Linked\<close>, and the code after the loop
  turns the id sets it ends with into the two new queues.
\<close>

section \<open>What a step leaves alone\<close>

text \<open>
  The fields of a request that a step may change, erased. What is left is its \<open>core\<close>:
  prompt, tokens, parameters, placeholders, hashes and the rest.
\<close>

definition core :: "request \<Rightarrow> request" where
  "core r = r\<lparr>priority := 0, age := 0, status := WAITING, events := [], prefill_stats := None, spec_token_ids := [],
     num_computed_tokens := 0, num_preemptions := 0, is_prefill_chunk := False\<rparr>"

lemma core_keeps [simp]:
  "core (r\<lparr>status := st, num_computed_tokens := c\<rparr>) = core r" "core (r\<lparr>status := st\<rparr>) = core r"
  "core (r\<lparr>prefill_stats := p\<rparr>) = core r" "core (r\<lparr>spec_token_ids := ts\<rparr>) = core r"
  "core (r\<lparr>age := a, priority := x\<rparr>) = core r" "core (r\<lparr>num_computed_tokens := c, is_prefill_chunk := b\<rparr>) = core r"
  "core (r\<lparr>status := st, num_computed_tokens := c, spec_token_ids := ts, num_preemptions := k\<rparr>) = core r"
  "core (log_event cfg ty t r) = core r"
  by (simp_all add: core_def log_event_def record_event_def)

lemma core_fields:
  assumes "core r = core r'"
  shows "resumable r = resumable r'" "num_output_placeholders r = num_output_placeholders r'"
    "num_prompt_tokens r = num_prompt_tokens r'" "mm_features r = mm_features r'"
    "prompt_token_ids r = prompt_token_ids r'" "output_token_ids r = output_token_ids r'"
    "all_token_ids r = all_token_ids r'" "max_tokens r = max_tokens r'" "sampling_params r = sampling_params r'"
    "streaming_queue r = streaming_queue r'" "request_id r = request_id r'" "pooling_params r = pooling_params r'"
  using assms[THEN arg_cong[where f = resumable]] assms[THEN arg_cong[where f = num_output_placeholders]]
    assms[THEN arg_cong[where f = num_prompt_tokens]] assms[THEN arg_cong[where f = mm_features]]
    assms[THEN arg_cong[where f = prompt_token_ids]] assms[THEN arg_cong[where f = output_token_ids]]
    assms[THEN arg_cong[where f = all_token_ids]] assms[THEN arg_cong[where f = max_tokens]]
    assms[THEN arg_cong[where f = sampling_params]] assms[THEN arg_cong[where f = streaming_queue]]
    assms[THEN arg_cong[where f = request_id]] assms[THEN arg_cong[where f = pooling_params]]
  by (simp_all add: core_def)

text \<open>
  \<open>calm\<close>: the loop keeps the cores, and it sets a status only of requests of the
  combined list or of running ones, to one of three values.
\<close>

definition calm :: "store \<Rightarrow> rid list \<Rightarrow> step \<Rightarrow> bool" where
  "calm st comb s \<longleftrightarrow> combined (sp_qm s) = comb
     \<and> (\<forall>r. core (sp_store s r) = core (st r)
          \<and> (status (sp_store s r) = status (st r)
             \<or> (r \<in> set comb \<or> status (st r) = RUNNING) \<and> status (sp_store s r) \<in> {RUNNING, PREEMPTED, FINISHED_IGNORED}))"

lemma calm_upd:
  assumes "calm st comb s" and "combined qm = comb"
    and "core (f (sp_store s rid)) = core (sp_store s rid)"
    and "status (f (sp_store s rid)) = status (sp_store s rid)
       \<or> (rid \<in> set comb \<or> status (sp_store s rid) = RUNNING) \<and> status (f (sp_store s rid)) \<in> {RUNNING, PREEMPTED, FINISHED_IGNORED}"
  shows "calm st comb (s\<lparr>sp_store := upd_req rid f (sp_store s), sp_qm := qm\<rparr>)"
proof -
  show ?thesis
    unfolding calm_def
  proof (intro conjI allI)
    fix r
    have "status (sp_store s r) = status (st r)
     \<or> (r \<in> set comb \<or> status (st r) = RUNNING) \<and> status (sp_store s r) \<in> {RUNNING, PREEMPTED, FINISHED_IGNORED}"
      "core (sp_store s r) = core (st r)"
      using assms(1) unfolding calm_def by blast+
    then show "core (sp_store (s\<lparr>sp_store := upd_req rid f (sp_store s), sp_qm := qm\<rparr>) r) = core (st r)"
      "status (sp_store (s\<lparr>sp_store := upd_req rid f (sp_store s), sp_qm := qm\<rparr>) r) = status (st r)
       \<or> (r \<in> set comb \<or> status (st r) = RUNNING)
         \<and> status (sp_store (s\<lparr>sp_store := upd_req rid f (sp_store s), sp_qm := qm\<rparr>) r) \<in> {RUNNING, PREEMPTED, FINISHED_IGNORED}"
      using assms(3,4) by (cases "r = rid"; simp; metis)+
  qed (use assms(2) in simp)
qed

lemma calm_eq:
  "calm st comb s \<Longrightarrow> sp_store s' = sp_store s \<Longrightarrow> sp_qm s' = sp_qm s \<Longrightarrow> calm st comb s'"
  by (simp add: calm_def)

interpretation calm: step_invariant cfg ts comb "calm st comb" "\<lambda>rid _ _. rid \<in> set comb"
proof
  fix s v s' assume c: "calm st comb s" and p: "preempt_step cfg ts v s = Inr s'"
  obtain s1 st1 km em qm where u: "unschedule v s = Inr s1"
    "preempt_request cfg ts v (sp_store s1) (sp_km s1) (sp_enc s1) = Inr (st1, km, em)"
    "update_idxs_after_preemption (sp_qm s1) = Inr qm"
    "s' = s1\<lparr>sp_store := st1, sp_km := km, sp_enc := em, sp_qm := qm, sp_preempted := sp_preempted s1 @ [v]\<rparr>"
    using p by (rule preempt_step_cases)
  have s1: "calm st comb s1" using unschedule_kept[OF u(1)] calm_eq[OF c] by simp
  have "combined qm = comb" using preemption_kept(1)[OF u(3)] s1 by (simp add: calm_def)
  have "calm st comb (s1\<lparr>sp_store := st1, sp_qm := qm\<rparr>)"
    unfolding preempt_request_store(1)[OF u(2)]
    by (rule calm_upd[OF s1 \<open>combined qm = comb\<close>]) (simp_all add: preempt_request_store(2)[OF u(2)])
  then show "calm st comb s'" by (rule calm_eq) (simp_all add: u(4))
next
  fix s i s' assume c: "calm st comb s" and "preempt_rest cfg ts i s = Inr s'"
  from this(2) show "calm st comb s'"
  proof (cases rule: preempt_rest_cases)
    case (preempt v km em qm)
    have "combined qm = comb" using preemption_kept(1)[OF preempt(3)] c by (simp add: calm_def)
    from calm_eq[OF calm_upd[OF c this, of "\<lambda>r. log_event cfg EV_PREEMPTED ts (r\<lparr>status := PREEMPTED, num_computed_tokens := 0\<rparr>)" v]]
    show ?thesis by (simp add: preempt(2,4))
  qed (use c in simp)
next
  fix s rid n c qm assume ok: "calm st comb s" "rid \<in> set comb" and q: "update_idxs_after_new_scheduling (sp_qm s) = Inr qm"
  have "combined qm = comb" using scheduling_kept(1)[OF q] ok by (simp add: calm_def)
  from calm_upd[OF ok(1) this, of "\<lambda>r. (log_event cfg SCHEDULED ts r)\<lparr>status := RUNNING, num_computed_tokens := c\<rparr>" rid] ok(2)
  have "calm st comb (s\<lparr>sp_store := upd_req rid (\<lambda>r. (log_event cfg SCHEDULED ts r)\<lparr>status := RUNNING, num_computed_tokens := c\<rparr>) (sp_store s), sp_qm := qm\<rparr>)"
    by simp
  then show "calm st comb (s\<lparr>sp_qm := qm, sp_tokens := AList.update rid n (sp_tokens s), sp_budget := sp_budget s - n,
     sp_store := upd_req rid (\<lambda>r. (log_event cfg SCHEDULED ts r)\<lparr>status := RUNNING, num_computed_tokens := c\<rparr>) (sp_store s)\<rparr>)"
    by (rule calm_eq) simp_all
next
  fix s qm rid assume ok: "calm st comb s" "rid \<in> set comb" and q: "update_idxs_after_ignored (sp_qm s) = Inr qm"
  have "combined qm = comb" using step_ignored(3)[OF q] ok by (simp add: calm_def)
  then show "calm st comb (s\<lparr>sp_store := upd_req rid (\<lambda>r. r\<lparr>status := FINISHED_IGNORED\<rparr>) (sp_store s), sp_qm := qm\<rparr>)"
    by (intro calm_upd[OF ok(1)]) (simp_all add: ok(2))
next
  fix s rid p assume ok: "calm st comb s"
  then have "combined (sp_qm s) = comb" by (simp add: calm_def)
  from calm_eq[OF calm_upd[OF ok this, of "\<lambda>r. r\<lparr>prefill_stats := p\<rparr>" rid]]
  show "calm st comb (s\<lparr>sp_store := upd_req rid (\<lambda>r. r\<lparr>prefill_stats := p\<rparr>) (sp_store s)\<rparr>)"
    by simp
next
  fix s rid n assume ok: "calm st comb s"
  then have "combined (sp_qm s) = comb" by (simp add: calm_def)
  from calm_upd[OF ok this, of "\<lambda>r. r\<lparr>spec_token_ids := []\<rparr>" rid]
  have "calm st comb (s\<lparr>sp_store := upd_req rid (\<lambda>r. r\<lparr>spec_token_ids := []\<rparr>) (sp_store s), sp_qm := sp_qm s\<rparr>)"
    by simp
  with ok show "calm st comb (note_spec rid n (s\<lparr>sp_tokens := AList.update rid n (sp_tokens s), sp_budget := sp_budget s - n\<rparr>))"
    unfolding note_spec_def Let_def by (cases "spec_token_ids (sp_store s rid) = []") (simp_all add: calm_def)
qed (auto simp: calm_def shared_eq_def)

text \<open>What is done after the loop changes no status and, without async scheduling, no placeholder.\<close>

lemma advance_fold_keeps:
  assumes "\<And>r c b. f (r\<lparr>num_computed_tokens := c, is_prefill_chunk := b\<rparr>) = f r"
  shows "f (fst (fold advance_one xs sb) r) = f (fst sb r)"
  using assms
  by (induction xs arbitrary: sb) (simp_all add: advance_one_def Let_def upd_req_def split: prod.splits)

lemma placeholders_fold_keeps:
  assumes "\<And>r n t. f (r\<lparr>num_output_placeholders := n, spec_token_ids := t\<rparr>) = f r"
  shows "f (fst (fold (placeholders_one cfg spec) xs sb) r) = f (fst sb r)"
  using assms
  by (induction xs arbitrary: sb) (simp_all add: placeholders_one_def Let_def upd_req_def split: prod.splits)

lemma update_after_schedule_keeps:
  assumes "\<And>r c b. f (r\<lparr>num_computed_tokens := c, is_prefill_chunk := b\<rparr>) = f r"
    and "\<not> sc_async cfg \<or> (\<forall>r n t. f (r\<lparr>num_output_placeholders := n, spec_token_ids := t\<rparr>) = f r)"
  shows "f (fst (update_after_schedule cfg out st) r) = f (st r)"
  using assms(2) advance_fold_keeps[of f "so_tokens out" "(st, so_structured out)", OF assms(1)]
    placeholders_fold_keeps[of f cfg "so_spec out" "map fst (so_tokens out)"]
  by (auto simp: update_after_schedule_def Let_def split: prod.splits) (metis fst_conv)+

lemma finish_step_keeps:
  assumes "finish_step cfg s running waiting s1 = Inr (out, s')"
    and "\<And>r c b. f (r\<lparr>num_computed_tokens := c, is_prefill_chunk := b\<rparr>) = f r"
    and "\<not> sc_async cfg \<or> (\<forall>r n t. f (r\<lparr>num_output_placeholders := n, spec_token_ids := t\<rparr>) = f r)"
  shows "f (sd_store s' r) = f (sp_store s1 r)"
  using assms(1)
proof (rule finish_step_split)
  fix st o' km em
  assume u: "update_after_schedule cfg o' (sp_store s1) = (st, out)"
    and s': "s' = s\<lparr>sd_store := st, sd_waiting := waiting, sd_running := running, sd_finished := {},
                      sd_qm := sp_qm s1, sd_km := km, sd_enc := em, sd_prev := fst ` set (sp_tokens s1)\<rparr>"
  show ?thesis using update_after_schedule_keeps[OF assms(2,3), of o' "sp_store s1" r] by (simp add: u s')
qed

lemma start_calm:
  assumes "reordered (sd_store s) st"
  shows "calm (sd_store s) (combined (sp_qm (start_step cfg s st qm))) (start_step cfg s st qm)"
proof -
  have "core (st r) = core (sd_store s r)" "status (st r) = status (sd_store s r)" for r
  proof -
    obtain a p where "st r = (sd_store s r)\<lparr>age := a, priority := p\<rparr>" using assms unfolding reordered_def by blast
    then show "core (st r) = core (sd_store s r)" "status (st r) = status (sd_store s r)" by simp_all
  qed
  then show ?thesis by (simp add: calm_def start_step_def Let_def)
qed

text \<open>Nothing is ignored as long as no request of the combined list can be.\<close>

definition unignoring :: "sched_config \<Rightarrow> store \<Rightarrow> rid list \<Rightarrow> rid set \<Rightarrow> step \<Rightarrow> bool" where
  "unignoring cfg st comb ign s \<longleftrightarrow> calm st comb s \<and> ignored_req_ids (sp_qm s) = ign
     \<and> (\<forall>r \<in> set comb. \<not> ignorable cfg (st r))"

interpretation unignoring: step_invariant cfg ts comb "unignoring cfg st comb ign" "\<lambda>rid _ _. rid \<in> set comb"
proof
  fix s v s' assume ok: "unignoring cfg st comb ign s" and p: "preempt_step cfg ts v s = Inr s'"
  then show "unignoring cfg st comb ign s'"
    using calm.preempt_ok[of st comb s cfg ts v s'] preemption_kept(2)[OF preempt_step_fields(2)[OF p]]
    by (simp add: unignoring_def)
next
  fix s i s' assume ok: "unignoring cfg st comb ign s" and p: "preempt_rest cfg ts i s = Inr s'"
  have "ignored_req_ids (sp_qm s') = ignored_req_ids (sp_qm s)"
    using p by (cases rule: preempt_rest_cases) (simp_all add: preemption_kept(2))
  then show "unignoring cfg st comb ign s'"
    using ok calm.rest_ok[OF _ p] by (simp add: unignoring_def)
next
  fix s rid n c qm assume ok: "unignoring cfg st comb ign s" "rid \<in> set comb" "c < num_tokens (sp_store s rid)"
    and q: "update_idxs_after_new_scheduling (sp_qm s) = Inr qm"
  then show "unignoring cfg st comb ign (s\<lparr>sp_qm := qm, sp_tokens := AList.update rid n (sp_tokens s), sp_budget := sp_budget s - n,
     sp_store := upd_req rid (\<lambda>r. (log_event cfg SCHEDULED ts r)\<lparr>status := RUNNING, num_computed_tokens := c\<rparr>) (sp_store s)\<rparr>)"
    using calm.admit_ok[OF _ ok(2,3) q] by (simp add: unignoring_def scheduling_kept(2)[OF q])
next
  fix s rid qm assume ok: "unignoring cfg st comb ign s" "rid \<in> set comb" "ignorable cfg (sp_store s rid)"
  then have "core (sp_store s rid) = core (st rid)" by (simp add: unignoring_def calm_def)
  from core_fields(3,4)[OF this] ok have "ignorable cfg (st rid)"
    by (simp add: ignorable_def has_encoder_inputs_def num_encoder_inputs_def)
  then show "unignoring cfg st comb ign (s\<lparr>sp_store := upd_req rid (\<lambda>r. r\<lparr>status := FINISHED_IGNORED\<rparr>) (sp_store s), sp_qm := qm\<rparr>)"
    using ok by (simp add: unignoring_def)
next
  fix s s' assume "unignoring cfg st comb ign s" "shared_eq s s'"
  then show "unignoring cfg st comb ign s'" by (auto simp: unignoring_def shared_eq_def calm_def)
next
  fix s rid p assume "unignoring cfg st comb ign s"
  then show "unignoring cfg st comb ign (s\<lparr>sp_store := upd_req rid (\<lambda>r. r\<lparr>prefill_stats := p\<rparr>) (sp_store s)\<rparr>)"
    using calm.stats_ok by (simp add: unignoring_def)
next
  fix s rid n assume ok: "unignoring cfg st comb ign s" "rid \<in> set comb"
  then show "unignoring cfg st comb ign (note_spec rid n (s\<lparr>sp_tokens := AList.update rid n (sp_tokens s), sp_budget := sp_budget s - n\<rparr>))"
    using calm.run_ok[of st comb s rid n] by (auto simp: unignoring_def note_spec_def Let_def)
qed (auto simp: unignoring_def calm_def)

text \<open>A request that is marked as ignored is also noted by the queue manager.\<close>

definition noticed :: "store \<Rightarrow> step \<Rightarrow> bool" where
  "noticed st s \<longleftrightarrow> fast_path (sp_qm s) \<longrightarrow>
     (\<forall>r. status (sp_store s r) = FINISHED_IGNORED \<longrightarrow> status (st r) = FINISHED_IGNORED)"

lemma noticed_upd:
  assumes "noticed st s" and "fast_path qm \<longrightarrow> fast_path (sp_qm s)"
    and "status (f (sp_store s rid)) = FINISHED_IGNORED \<Longrightarrow> status (sp_store s rid) = FINISHED_IGNORED"
  shows "noticed st (s\<lparr>sp_store := upd_req rid f (sp_store s), sp_qm := qm\<rparr>)"
  using assms by (auto simp: noticed_def upd_req_def)

lemma noticed_eq: "noticed st s \<Longrightarrow> sp_store s' = sp_store s \<Longrightarrow> sp_qm s' = sp_qm s \<Longrightarrow> noticed st s'"
  by (simp add: noticed_def)

lemma fast_path_kept:
  "update_idxs_after_preemption qm = Inr qm' \<Longrightarrow> fast_path qm' \<longrightarrow> fast_path qm"
  "update_idxs_after_new_scheduling qm = Inr qm' \<Longrightarrow> fast_path qm' \<longrightarrow> fast_path qm"
  using preemption_kept(2,3)[of qm qm'] scheduling_kept(2,3)[of qm qm'] by (simp_all add: fast_path_def)

lemma ignoring_leaves_fast_path:
  assumes "qm_ok qm" and "update_idxs_after_ignored qm = Inr qm'" and "r \<in> waiting_req_ids qm"
  shows "\<not> fast_path qm'"
proof (cases "first_waiting_idx qm")
  case None
  then have "qm' = qm" using assms(2) by (simp add: update_idxs_after_ignored_def)
  moreover have "\<not> fast_path qm"
  proof
    assume "fast_path qm"
    then have inv: "qm_inv qm" using assms(1) by (simp add: qm_ok_def)
    from qm_invD(3)[OF inv] assms(3) have "r \<in> set (combined qm)" by blast
    moreover have "first_waiting qm = None" using qm_invD(8)[OF inv] None by simp
    ultimately show False using assms(3) by (auto simp: first_waiting_def find_None_iff in_set_conv_nth)
  qed
  ultimately show ?thesis by simp
next
  case (Some f)
  then show ?thesis using ignored_kept(3)[OF assms(2)] by (simp add: fast_path_def)
qed

definition noticing :: "rid list \<Rightarrow> rid set \<Rightarrow> store \<Rightarrow> step \<Rightarrow> bool" where
  "noticing comb sk st s \<longleftrightarrow> combined (sp_qm s) = comb \<and> qm_ok (sp_qm s) \<and> noticed st s
     \<and> skipped_req_ids (sp_qm s) = sk \<and> distinct (map fst (sp_tokens s))"

lemma ignored_keeps_skipped:
  "update_idxs_after_ignored qm = Inr qm' \<Longrightarrow> skipped_req_ids qm' = skipped_req_ids qm"
  by (auto simp: update_idxs_after_ignored_def Let_def split: option.splits if_splits)

lemma preempt_step_distinct:
  "preempt_step cfg ts v s = Inr s' \<Longrightarrow> distinct (map fst (sp_tokens s)) \<Longrightarrow> distinct (map fst (sp_tokens s'))"
  by (auto elim!: preempt_step_cases unschedule_cases simp: distinct_delete)

interpretation noticing: step_invariant cfg ts comb "noticing comb sk st" "\<lambda>_ _ _. True"
proof
  fix s v s' assume ok: "noticing comb sk st s" and p: "preempt_step cfg ts v s = Inr s'"
  note f = preempt_step_fields[OF p]
  have "status (sp_store s' r) = FINISHED_IGNORED \<Longrightarrow> status (sp_store s r) = FINISHED_IGNORED" for r
    using f(5) f(7)[of r] by (cases "r = v") simp_all
  then show "noticing comb sk st s'"
    using ok preempt_ok[OF f(2)] fast_path_kept(1)[OF f(2)] preemption_kept(3)[OF f(2)] preempt_step_distinct[OF p]
    by (auto simp: noticing_def noticed_def)
next
  fix s i s' assume ok: "noticing comb sk st s" and "preempt_rest cfg ts i s = Inr s'"
  from this(2) show "noticing comb sk st s'"
  proof (cases rule: preempt_rest_cases)
    case (preempt v km em qm)
    from noticed_upd[of st s qm "\<lambda>r. log_event cfg EV_PREEMPTED ts (r\<lparr>status := PREEMPTED, num_computed_tokens := 0\<rparr>)" v]
    have "noticed st (s\<lparr>sp_store := upd_req v (\<lambda>r. log_event cfg EV_PREEMPTED ts
        (r\<lparr>status := PREEMPTED, num_computed_tokens := 0\<rparr>)) (sp_store s), sp_qm := qm\<rparr>)"
      using ok fast_path_kept(1)[OF preempt(3)] by (simp add: noticing_def)
    from noticed_eq[OF this, of s'] show ?thesis
      using ok preempt_ok[OF preempt(3)] preemption_kept(3)[OF preempt(3)] by (simp add: noticing_def preempt(4))
  qed (use ok in simp)
next
  fix s rid n c qm assume ok: "noticing comb sk st s" and q: "update_idxs_after_new_scheduling (sp_qm s) = Inr qm"
  let ?f = "\<lambda>r. (log_event cfg SCHEDULED ts r)\<lparr>status := RUNNING, num_computed_tokens := c\<rparr>"
  have "noticed st (s\<lparr>sp_store := upd_req rid ?f (sp_store s), sp_qm := qm\<rparr>)"
    using ok fast_path_kept(2)[OF q] by (intro noticed_upd) (simp_all add: noticing_def)
  from noticed_eq[OF this] show "noticing comb sk st (s\<lparr>sp_qm := qm, sp_tokens := AList.update rid n (sp_tokens s),
     sp_budget := sp_budget s - n, sp_store := upd_req rid ?f (sp_store s)\<rparr>)"
    using ok admit_ok[OF q] scheduling_kept(3)[OF q] by (simp add: noticing_def distinct_update)
next
  fix s rid qm assume ok: "noticing comb sk st s" "rid \<in> waiting_req_ids (sp_qm s)"
    and q: "update_idxs_after_ignored (sp_qm s) = Inr qm"
  have "\<not> fast_path qm" using ignoring_leaves_fast_path[OF _ q ok(2)] ok(1) by (simp add: noticing_def)
  then show "noticing comb sk st (s\<lparr>sp_store := upd_req rid (\<lambda>r. r\<lparr>status := FINISHED_IGNORED\<rparr>) (sp_store s), sp_qm := qm\<rparr>)"
    using ok(1) ignore_ok[OF q] ignored_keeps_skipped[OF q] by (simp add: noticing_def noticed_def)
next
  fix s rid p assume ok: "noticing comb sk st s"
  have "noticed st (s\<lparr>sp_store := upd_req rid (\<lambda>r. r\<lparr>prefill_stats := p\<rparr>) (sp_store s), sp_qm := sp_qm s\<rparr>)"
    using ok by (intro noticed_upd) (simp_all add: noticing_def)
  then show "noticing comb sk st (s\<lparr>sp_store := upd_req rid (\<lambda>r. r\<lparr>prefill_stats := p\<rparr>) (sp_store s)\<rparr>)"
    using ok by (simp add: noticing_def)
next
  fix s rid n assume ok: "noticing comb sk st s"
  have "noticed st (s\<lparr>sp_store := upd_req rid (\<lambda>r. r\<lparr>spec_token_ids := []\<rparr>) (sp_store s), sp_qm := sp_qm s\<rparr>)"
    using ok by (intro noticed_upd) (simp_all add: noticing_def)
  with ok show "noticing comb sk st (note_spec rid n (s\<lparr>sp_tokens := AList.update rid n (sp_tokens s), sp_budget := sp_budget s - n\<rparr>))"
    by (auto simp: noticing_def note_spec_def Let_def noticed_def distinct_update)
qed (auto simp: noticing_def noticed_def shared_eq_def)

text \<open>So a whole step keeps the cores, if the scheduler is not asynchronous, and the ids that
  were ignored before.\<close>

lemma start_fields:
  "set (combined (sp_qm (start_step cfg s st qm))) = set (sd_running s) \<union> set_mset (queued (sd_waiting s))"
  "ignored_req_ids (sp_qm (start_step cfg s st qm)) = ignored_req_ids qm"
  unfolding queued_set[where lt = "sched_lt cfg st"]
  by (simp_all add: start_step_def Let_def set_combined combine_queues_fields reorder_running_queue_def
      reorder_waiting_queue_def)

lemma schedule_core:
  assumes run: "schedule cfg ts now now' s = Some (Inr (out, s'))" and "\<not> sc_async cfg"
  shows "core (sd_store s' r) = core (sd_store s r)"
    and "status (sd_store s' r) = status (sd_store s r)
      \<or> (r \<in> set (sd_running s) \<union> set_mset (queued (sd_waiting s)) \<or> status (sd_store s r) = RUNNING)
        \<and> status (sd_store s' r) \<in> {RUNNING, PREEMPTED, FINISHED_IGNORED}"
proof -
  from run have "core (sd_store s' r) = core (sd_store s r) \<and>
    (status (sd_store s' r) = status (sd_store s r)
      \<or> (r \<in> set (sd_running s) \<union> set_mset (queued (sd_waiting s)) \<or> status (sd_store s r) = RUNNING)
        \<and> status (sd_store s' r) \<in> {RUNNING, PREEMPTED, FINISHED_IGNORED})"
  proof (cases rule: schedule_cases)
    case (1 st qm rids s1 s2 running waiting)
    from calm.step_ok[OF 1(3,4) start_calm[OF 1(1)]]
    have "core (sp_store s2 r) = core (sd_store s r)"
      "status (sp_store s2 r) = status (sd_store s r)
       \<or> (r \<in> set (sd_running s) \<union> set_mset (queued (sd_waiting s)) \<or> status (sd_store s r) = RUNNING)
        \<and> status (sp_store s2 r) \<in> {RUNNING, PREEMPTED, FINISHED_IGNORED}"
      by (simp_all add: calm_def start_fields(1))
    moreover have "status (sd_store s' r) = status (sp_store s2 r)" by (rule finish_step_keeps[OF 1(6)]) simp_all
    moreover have "core (sd_store s' r) = core (sp_store s2 r)"
      by (rule finish_step_keeps[OF 1(6)]) (simp_all add: assms(2))
    ultimately show ?thesis by metis
  qed
  then show "core (sd_store s' r) = core (sd_store s r)"
    and "status (sd_store s' r) = status (sd_store s r)
      \<or> (r \<in> set (sd_running s) \<union> set_mset (queued (sd_waiting s)) \<or> status (sd_store s r) = RUNNING)
        \<and> status (sd_store s' r) \<in> {RUNNING, PREEMPTED, FINISHED_IGNORED}"
    by blast+
qed

lemma schedule_ignored:
  assumes run: "schedule cfg ts now now' s = Some (Inr (out, s'))"
  shows "ignored_req_ids (sd_qm s) \<subseteq> ignored_req_ids (sd_qm s')"
    and "\<forall>r \<in> set (sd_running s) \<union> set_mset (queued (sd_waiting s)). \<not> ignorable cfg (sd_store s r) \<Longrightarrow>
      ignored_req_ids (sd_qm s') = ignored_req_ids (sd_qm s)"
proof -
  have "ignored_req_ids (sd_qm s) \<subseteq> ignored_req_ids (sd_qm s')
    \<and> ((\<forall>r \<in> set (sd_running s) \<union> set_mset (queued (sd_waiting s)). \<not> ignorable cfg (sd_store s r)) \<longrightarrow>
      ignored_req_ids (sd_qm s') = ignored_req_ids (sd_qm s))"
    using run
  proof (cases rule: schedule_cases)
    case (1 st qm rids s1 s2 running waiting)
    let ?s0 = "start_step cfg s st qm"
    have qm: "ignored_req_ids qm = ignored_req_ids (sd_qm s)" using 1(2) by auto
    have s': "sd_qm s' = sp_qm s2" by (rule finish_step_fields(2)[OF 1(6)])
    have "ignored_req_ids (sd_qm s) \<subseteq> ignored_req_ids (sd_qm s')"
      using ignoring.step_ok[OF 1(3,4), of "combined (sp_qm ?s0)" "ignored_req_ids (sd_qm s)"]
      by (simp add: s' start_fields(2) qm)
    moreover have "ignored_req_ids (sd_qm s') = ignored_req_ids (sd_qm s)"
      if "\<forall>r \<in> set (sd_running s) \<union> set_mset (queued (sd_waiting s)). \<not> ignorable cfg (sd_store s r)"
    proof -
      have "unignoring cfg (sd_store s) (combined (sp_qm ?s0)) (ignored_req_ids (sd_qm s)) ?s0"
        using start_calm[OF 1(1)] that by (simp add: unignoring_def start_fields qm)
      from unignoring.step_ok[OF 1(3,4) this] show ?thesis by (simp add: s' unignoring_def)
    qed
    ultimately show ?thesis by blast
  qed
  then show "ignored_req_ids (sd_qm s) \<subseteq> ignored_req_ids (sd_qm s')"
    and "\<forall>r \<in> set (sd_running s) \<union> set_mset (queued (sd_waiting s)). \<not> ignorable cfg (sd_store s r) \<Longrightarrow>
      ignored_req_ids (sd_qm s') = ignored_req_ids (sd_qm s)"
    by blast+
qed

text \<open>While the queue manager has noted no ignored request, none becomes marked; no id is
  skipped, and every request is scheduled at most once.\<close>

lemma schedule_noticed:
  assumes run: "schedule cfg ts now now' s = Some (Inr (out, s'))"
    and "distinct (sd_running s @ queue_iter lt (sd_waiting s))"
  shows "fast_path (sd_qm s') \<Longrightarrow> status (sd_store s' r) = FINISHED_IGNORED \<Longrightarrow> status (sd_store s r) = FINISHED_IGNORED"
    and "skipped_req_ids (sd_qm s') = skipped_req_ids (sd_qm s)" and "distinct (map fst (so_tokens out))"
proof -
  have "(fast_path (sd_qm s') \<longrightarrow> status (sd_store s' r) = FINISHED_IGNORED \<longrightarrow> status (sd_store s r) = FINISHED_IGNORED)
    \<and> skipped_req_ids (sd_qm s') = skipped_req_ids (sd_qm s) \<and> distinct (map fst (so_tokens out))"
    using run
  proof (cases rule: schedule_cases)
    case (1 st qm rids s1 s2 running waiting)
    let ?s0 = "start_step cfg s st qm"
    have "distinct (reorder_running_queue st (sd_running s) @ reorder_waiting_queue (sched_lt cfg st) st (sd_waiting s))"
      using assms(2) queue_iter_distinct[of lt _ "sched_lt cfg st"] queue_iter_set[of lt _ "sched_lt cfg st"]
      by (simp add: reorder_running_queue_def reorder_waiting_queue_def)
    then have "qm_ok (sp_qm ?s0)" using combine_ok by (simp add: start_step_def Let_def)
    moreover have "status (sp_store ?s0 x) = status (sd_store s x)" for x
    proof -
      obtain a p where "st x = (sd_store s x)\<lparr>age := a, priority := p\<rparr>" using 1(1) unfolding reordered_def by blast
      then show ?thesis by (simp add: start_step_def Let_def)
    qed
    moreover have "skipped_req_ids (sp_qm ?s0) = skipped_req_ids (sd_qm s)" "sp_tokens ?s0 = []"
      using 1(2) by (auto simp: start_step_def Let_def combine_queues_fields)
    ultimately have "noticing (combined (sp_qm ?s0)) (skipped_req_ids (sd_qm s)) (sd_store s) ?s0"
      by (simp add: noticing_def noticed_def)
    from noticing.step_ok[OF 1(3,4) this] have "noticed (sd_store s) s2"
      "skipped_req_ids (sp_qm s2) = skipped_req_ids (sd_qm s)" "distinct (map fst (sp_tokens s2))"
      by (simp_all add: noticing_def)
    moreover have "status (sd_store s' r) = status (sp_store s2 r)" by (rule finish_step_keeps[OF 1(6)]) simp_all
    ultimately show ?thesis by (simp add: noticed_def finish_step_fields(2)[OF 1(6)] finish_step_cases(1)[OF 1(6)])
  qed
  then show "fast_path (sd_qm s') \<Longrightarrow> status (sd_store s' r) = FINISHED_IGNORED \<Longrightarrow> status (sd_store s r) = FINISHED_IGNORED"
    and "skipped_req_ids (sd_qm s') = skipped_req_ids (sd_qm s)" and "distinct (map fst (so_tokens out))"
    by blast+
qed

section \<open>After a step exactly the running requests run\<close>

lemma ranking_distinct:
  assumes rk: "ranking st0 st rids out" and "distinct rids" and "r \<in> set rids" "x \<in> set rids" "priority (st r) = priority (st x)"
  shows "r = x"
proof -
  have out: "set out = set rids" using rk unfolding ranking_def by (metis set_mset_mset)
  obtain i j where ij: "i < length out" "out ! i = r" "j < length out" "out ! j = x"
    using assms(3,4) unfolding out[symmetric] by (auto simp: in_set_conv_nth)
  have at: "priority (st (out ! i)) = real i + 1" if "i < length out" for i
    using rk that by (simp add: ranking_def)
  have "i = j" using at[of i] at[of j] ij assms(5) by simp
  then show ?thesis using ij by simp
qed

text \<open>
  All policies but the two arrival orders rank the requests: different positive priorities. The
  arrival orders give a request the priority of its arrival object, once; \<open>told_apart\<close> says
  that no two known requests share it and that none is 0.
\<close>

definition arrival_priority :: "string \<Rightarrow> request \<Rightarrow> real" where
  "arrival_priority pol q = priority (if pol = ''fcfs'' then fcfs_object q else catfcfs_object q)"

definition told_apart :: "sched_config \<Rightarrow> scheduler \<Rightarrow> bool" where
  "told_apart cfg s \<longleftrightarrow> sc_slo_policy cfg \<notin> {''fcfs'', ''catfcfs''}
     \<or> inj_on (\<lambda>r. arrival_priority (sc_slo_policy cfg) (sd_store s r)) (set (sd_requests s))
       \<and> (\<forall>r \<in> set (sd_requests s). arrival_priority (sc_slo_policy cfg) (sd_store s r) \<noteq> 0)"

lemma arrival_priority_age: "arrival_priority pol (q\<lparr>age := a\<rparr>) = arrival_priority pol q"
  by (simp add: arrival_priority_def fcfs_object_def catfcfs_object_def catfcfs_priority_def set_priority_def
      ticks_def split: option.split)

lemma told_apart_arrivals:
  assumes "sc_slo_policy cfg = ''fcfs''" and "inj_on (\<lambda>r. ticks (sd_store s r)) (set (sd_requests s))"
    and "\<forall>r \<in> set (sd_requests s). 0 < ticks (sd_store s r)
      \<and> (priority (sd_store s r) \<le> 0 \<or> priority (sd_store s r) = of_int (ticks (sd_store s r)))"
  shows "told_apart cfg s"
proof -
  have "arrival_priority ''fcfs'' (sd_store s r) = of_int (ticks (sd_store s r))" if "r \<in> set (sd_requests s)" for r
    using assms(3) that by (auto simp: arrival_priority_def fcfs_object_def)
  then show ?thesis using assms by (auto simp: told_apart_def inj_on_def)
qed

lemma arrival_priorities:
  assumes "update_priorities pol qm now rids st = Inr (st', out)" and "distinct rids" and "pol \<in> {''fcfs'', ''catfcfs''}"
  shows "out = rids" and "r \<in> set rids \<Longrightarrow> priority (st' r) = arrival_priority pol (st r)"
  using assms(1,3) fold_objects[OF catfcfs_priority_object assms(2)] fold_objects[OF fcfs_priority_object assms(2)]
  by (auto simp: update_priorities_def arrival_priority_def)

lemma ranked_priorities:
  assumes "update_priorities pol qm now rids st = Inr (st', out)" and "distinct rids" and "pol \<notin> {''fcfs'', ''catfcfs''}"
  shows "mset out = mset rids \<and> (\<forall>r \<in> set rids. priority (st' r) \<noteq> 0) \<and> inj_on (\<lambda>r. priority (st' r)) (set rids)"
proof -
  obtain st0 where "rank_requests rids st0 = (st', out)"
    using assms(1,3) by (auto simp: update_priorities_def bindE_eq_Inr split: if_splits option.splits)
  note rk = rank_requests_ranking[OF assms(2) this]
  have "mset out = mset rids" using rk by (simp add: ranking_def)
  moreover have "\<forall>r \<in> set rids. priority (st' r) \<noteq> 0" using ranking_positive[OF rk] by fastforce
  moreover have "inj_on (\<lambda>r. priority (st' r)) (set rids)"
    using ranking_distinct[OF rk assms(2)] by (intro inj_onI) blast
  ultimately show ?thesis by blast
qed

lemma told_apart_priorities:
  assumes "update_priorities (sc_slo_policy cfg) qm now (sd_requests s) st = Inr (st', out)" and "aged (sd_store s) st"
    and "distinct (sd_requests s)" and "told_apart cfg s"
  shows "mset out = mset (sd_requests s) \<and> (\<forall>r \<in> set (sd_requests s). priority (st' r) \<noteq> 0)
    \<and> inj_on (\<lambda>r. priority (st' r)) (set (sd_requests s))"
proof (cases "sc_slo_policy cfg \<in> {''fcfs'', ''catfcfs''}")
  case True
  have "arrival_priority pol (st r) = arrival_priority pol (sd_store s r)" for pol r
    using assms(2) arrival_priority_age unfolding aged_def by metis
  note at = arrival_priorities(2)[OF assms(1,3) True, unfolded this]
  have "inj_on (\<lambda>r. priority (st' r)) (set (sd_requests s))
      = inj_on (\<lambda>r. arrival_priority (sc_slo_policy cfg) (sd_store s r)) (set (sd_requests s))"
    using at by (intro inj_on_cong)
  then show ?thesis using at arrival_priorities(1)[OF assms(1,3) True] assms(4) True by (auto simp: told_apart_def)
next
  case False
  then show ?thesis using ranked_priorities[OF assms(1,3)] by simp
qed

lemma start_in_step:
  fixes cfg st qm s
  defines "s0 \<equiv> start_step cfg s st qm"
  defines "comb \<equiv> combined (sp_qm s0)"
  assumes d: "distinct (sd_running s @ queue_iter lt (sd_waiting s))"
    and run: "\<forall>r \<in> set (sd_running s). status (st r) = RUNNING"
    and wait: "\<forall>r \<in> set (queue_iter lt (sd_waiting s)). status (st r) \<noteq> RUNNING \<and> \<not> will_finish (st r)"
    and prio: "inj_on (\<lambda>r. priority (st r)) (set (sd_running s @ queue_iter lt (sd_waiting s)))"
      "\<forall>r \<in> set (sd_running s @ queue_iter lt (sd_waiting s)). priority (st r) \<noteq> 0"
  shows "at_head comb s0" and "set comb = set (sd_running s @ queue_iter lt (sd_waiting s))"
proof -
  define run' where "run' = reorder_running_queue st (sd_running s)"
  define wait' where "wait' = reorder_waiting_queue (sched_lt cfg st) st (sd_waiting s)"
  have sets: "set run' = set (sd_running s)" "set wait' = set (queue_iter lt (sd_waiting s))"
    using queue_iter_set by (auto simp: run'_def wait'_def reorder_running_queue_def reorder_waiting_queue_def)
  have d': "distinct (run' @ wait')"
    using d queue_iter_distinct[of lt "sd_waiting s" "sched_lt cfg st"] sets
    by (simp add: run'_def wait'_def reorder_running_queue_def reorder_waiting_queue_def)
  have s0: "sp_qm s0 = combine_queues st run' wait' qm" "sp_store s0 = st" "sp_preempted s0 = []" "sp_index s0 = 0"
    by (simp_all add: s0_def start_step_def Let_def run'_def wait'_def)
  show comb: "set comb = set (sd_running s @ queue_iter lt (sd_waiting s))"
    by (simp add: comb_def s0(1) set_combined sets)
  note inv = combine_queues_inv[OF d', of st qm, folded s0(1)]
  have ids: "running_req_ids (sp_qm s0) = set run'" "waiting_req_ids (sp_qm s0) = set wait'"
    "preempted_req_ids (sp_qm s0) = {}"
    using combine_start[of run' st wait' qm] run sets by (auto simp: s0(1))
  have "status_linked comb s0"
    unfolding status_linked_def comb s0(2) ids(1) using run wait sets by auto
  moreover have "ordered comb s0"
    unfolding ordered_def
  proof (intro conjI allI impI)
    fix i j assume ij: "i < j" "j < length comb"
    have le: "priority (st (comb ! i)) \<le> priority (st (comb ! j))"
      using sorted_nth_mono[OF combined_sorted[of st run' wait' qm], of i j] ij by (simp add: comb_def s0(1))
    have "comb ! i \<noteq> comb ! j"
      using qm_invD(1)[OF inv(1)] ij by (simp add: comb_def nth_eq_iff_index_eq)
    then have "priority (st (comb ! i)) \<noteq> priority (st (comb ! j))"
      using prio(1) ij comb nth_mem[of i comb] nth_mem[of j comb] by (auto dest: inj_onD)
    with le show "priority (sp_store s0 (comb ! i)) < priority (sp_store s0 (comb ! j))" by (simp add: s0(2))
  qed (use prio(2) comb s0(2) in simp)
  ultimately have "in_step comb s0"
    using inv wait sets unfolding in_step_def ids s0(2,3) comb_def by auto
  then show "at_head comb s0" by (simp add: at_head_def running_below_def s0(4))
qed

lemma schedule_linked:
  assumes run: "schedule cfg ts now now' s = Some (Inr (out, s'))" and "tracked s" and "linked s"
    and "told_apart cfg s"
    and "\<forall>r. r \<in># queued (sd_waiting s) \<longrightarrow> \<not> will_finish (sd_store s r)"
    and "ignored_req_ids (sd_qm s') = {}"
  shows "tracked s' \<and> linked s'"
proof -
  define lt where "lt = (\<lambda>(_ :: rid) (_ :: rid). False)"
  define both where "both = sd_running s @ queue_iter lt (sd_waiting s)"
  have d: "distinct both" and ds: "set both \<inter> set_mset (queued (sd_skipped s)) = {}"
    using tracked_distinct[OF assms(2), of lt lt] by (auto simp: both_def queued_set[where lt = lt])
  note keep = schedule_requests[OF run d[unfolded both_def]]
  from run show ?thesis
  proof (cases rule: schedule_cases)
    case (1 st qm rids s1 s2 running waiting)
    have st: "status (st r) = status (sd_store s r)" "will_finish (st r) = will_finish (sd_store s r)" for r
    proof -
      obtain a p where "st r = (sd_store s r)\<lparr>age := a, priority := p\<rparr>" using 1(1) unfolding reordered_def by blast
      then show "status (st r) = status (sd_store s r)" "will_finish (st r) = will_finish (sd_store s r)"
        by (simp_all add: will_finish_def)
    qed
    have dr: "distinct (sd_requests s)" using assms(2) by (simp add: tracked_def)
    have sub: "set both \<subseteq> set (sd_requests s)"
      unfolding tracked_set[OF assms(2), symmetric] by (auto simp: all_queued_def both_def queued_set[where lt = lt])
    obtain st1 where rk: "aged (sd_store s) st1" "update_priorities (sc_slo_policy cfg) qm now' (sd_requests s) st1 = Inr (st, rids)"
      using 1(7) by blast
    note prio = told_apart_priorities[OF rk(2,1) dr assms(4)]
    define s0 where "s0 = start_step cfg s st qm"
    define comb where "comb = combined (sp_qm s0)"
    have waiting: "r \<in># queued (sd_waiting s)" if "r \<in> set (queue_iter lt (sd_waiting s))" for r
      using that by (simp add: queued_set[where lt = lt])
    have "at_head comb s0" and comb: "set comb = set both"
      unfolding comb_def s0_def both_def
      by (rule start_in_step[OF d[unfolded both_def]];
          use assms(3,5) prio inj_on_subset[OF _ sub] sub waiting in \<open>auto simp: st linked_def both_def\<close>)+
    then have "unless_ignored s1 (in_step comb s1)"
      by (intro visit_loop_linked[OF 1(3)[folded s0_def]]) (simp_all add: comb_def unless_ignored_def)
    have mono: "combined (sp_qm s2) = combined (sp_qm s1)" "ignored_req_ids (sp_qm s1) \<subseteq> ignored_req_ids (sp_qm s2)"
      using ignoring.preempt_remaining_ok[OF 1(4), of "combined (sp_qm s1)" "ignored_req_ids (sp_qm s1)"] by simp_all
    note fin = finish_step_cases[OF 1(6)] and flds = finish_step_fields[OF 1(6)]
    have "in_step comb s1"
      using \<open>unless_ignored s1 (in_step comb s1)\<close> mono(2) assms(6) flds(2) by (auto simp: unless_ignored_def)
    note s2 = preempt_remaining_linked[OF 1(4) this]
    have c0: "calm (sd_store s) comb s0" unfolding comb_def s0_def by (rule start_calm[OF 1(1)])
    have calm: "calm (sd_store s) comb s2" by (rule calm.step_ok[OF 1(3,4)[folded s0_def] c0])
    have status': "status (sd_store s' r) = status (sp_store s2 r)" for r
      by (rule finish_step_keeps[OF 1(6)]) simp_all
    have qok: "qm_ok (sp_qm s2)" and c2: "combined (sp_qm s2) = comb" using s2 by simp_all
    note part = update_queues_partition[OF qok 1(5), unfolded c2]
    have w: "set_mset (queued waiting) = {r \<in> set comb. r \<notin> running_req_ids (sp_qm s2)}"
      unfolding queued_set[where lt = "sched_lt cfg (sp_store s2)"] part(2) set_queue_from by auto
    have "linked s'"
      unfolding linked_def
    proof (intro conjI ballI allI impI)
      fix r assume "r \<in> set (sd_running s')"
      then show "status (sd_store s' r) = RUNNING"
        using s2 unfolding fin(4) part(1) status' by (auto simp: status_linked_def)
    next
      fix r assume "r \<in># queued (sd_waiting s') + queued (sd_skipped s')"
      then consider "r \<in> set comb" "r \<notin> running_req_ids (sp_qm s2)" | "r \<in># queued (sd_skipped s)"
        unfolding fin(5,6) using w by auto
      then show "status (sd_store s' r) \<noteq> RUNNING"
      proof cases
        case 1
        then show ?thesis using s2 by (simp add: status' status_linked_def)
      next
        case 2
        then have "r \<notin> set comb" "status (sd_store s r) \<noteq> RUNNING"
          using ds comb assms(3) by (auto simp: linked_def)
        moreover have "status (sp_store s2 r) = status (sd_store s r) \<or> r \<in> set comb \<or> status (sd_store s r) = RUNNING"
          using calm unfolding calm_def by blast
        ultimately show ?thesis unfolding status' by metis
      qed
    qed
    moreover have "tracked s'"
      using assms(2) keep prio mset_eq_imp_distinct_iff[of rids "sd_requests s"]
      by (simp add: tracked_def all_queued_def flds(1) queued_iter)
    ultimately show ?thesis by blast
  qed
qed

text \<open>
  C8. A step keeps the bookkeeping in agreement: each known request is in exactly one of the three
  queues, the running queue consists of requests whose status is RUNNING, and no request of
  the waiting and the skipped queue has that status, although statuses, id sets, indices and queues
  are changed at different places of the step. Under the two arrival orders, \<open>fcfs\<close> and
  \<open>catfcfs\<close>, the known requests have different arrival priorities; the other policies rank
  them. The step and those before it have ignored no request, and no waiting request is already
  known to reach its limit with the tokens in flight, which only async scheduling can bring about.
\<close>

theorem schedule_keeps_linked:
  assumes run: "schedule cfg ts now now' s = Some (Inr (out, s'))" and "tracked s" and "linked s"
    and "told_apart cfg s"
    and "\<forall>r. r \<in># queued (sd_waiting s) \<longrightarrow> \<not> will_finish (sd_store s r)"
    and "ignored_req_ids (sd_qm s') = {}"
  shows "tracked s' \<and> linked s'"
  using assms by (rule schedule_linked)

end
