(* ===== verification/Update_Examples.thy ===== *)
theory Update_Examples
  imports Schedule_Examples Schedule_Agreement
begin

text \<open>
  The theorems about the scheduler between steps, at a scheduler with one running and one
  waiting request.
\<close>

definition ex_sampling :: sampling_params where
  "ex_sampling = \<lparr>sp_max_tokens = Some 16, min_tokens = 0, eos_token_id = Some 7,
     stop_token_ids = None, repetition_detection = None, sp_skip_reading_prefix_cache = None,
     structured_outputs = False, extra_kv_transfer_params = None\<rparr>"

definition ex_live :: scheduler where
  "ex_live = (ex_scheduler UNPAUSED [''a''] [''b''])
     \<lparr>sd_store := (\<lambda>r. (ex_queue_store [''a''] r)\<lparr>sampling_params := Some ex_sampling\<rparr>)\<rparr>"

lemma ex_live_inv: "tracked ex_live" "linked ex_live"
  by (simp_all add: tracked_def all_queued_def linked_def queued_def ex_live_def ex_scheduler_def ex_queue_store_def)

lemma ex_live_fields:
  "sd_running ex_live = [''a'']" "sd_requests ex_live = [''a'', ''b'']" "queued (sd_skipped ex_live) = {#}"
  "status (sd_store ex_live r) = (if r = ''a'' then RUNNING else WAITING)" "\<not> resumable (sd_store ex_live r)"
  "\<not> is_finished (sd_store ex_live r)"
  by (simp_all add: ex_live_def ex_scheduler_def ex_queue_store_def queued_def text_request_def
      is_finished_def status_is_finished_def)

definition succeeds :: "'a result \<Rightarrow> bool" where
  "succeeds m = (case m of Inl _ \<Rightarrow> False | Inr _ \<Rightarrow> True)"

lemma succeedsE:
  assumes "succeeds m"
  obtains x where "m = Inr x"
  using assms by (cases m) (auto simp: succeeds_def)

theorem reset_running_requests_lost_witness:
  "\<exists>ok s'. sched_reset_prefix_cache ex_config 0 True False ex_live = Inr (ok, s')
    \<and> ''a'' \<in> set (sd_requests s') \<and> ''a'' \<notin># all_queued s'"
proof -
  have "succeeds (sched_reset_prefix_cache ex_config 0 True False ex_live)" by code_simp
  then obtain ok s' where run: "sched_reset_prefix_cache ex_config 0 True False ex_live = Inr (ok, s')"
    by (rule succeedsE) (metis prod.collapse)
  with reset_running_requests_lost[OF run ex_live_inv(1), of "''a''"] show ?thesis by (auto simp: ex_live_fields)
qed

theorem finish_requests_exact_witness:
  "\<exists>outs s'. finish_requests ex_config [''b'', ''x''] FINISHED_ABORTED ex_live = Inr (outs, s')
    \<and> map fst outs = [''b''] \<and> sd_requests s' = [''a''] \<and> sd_running s' = [''a''] \<and> sd_finished s' = {''b''}"
proof -
  have "succeeds (finish_requests ex_config [''b'', ''x''] FINISHED_ABORTED ex_live)" by code_simp
  then obtain outs s' where run: "finish_requests ex_config [''b'', ''x''] FINISHED_ABORTED ex_live = Inr (outs, s')"
    by (rule succeedsE) (metis prod.collapse)
  have "requested [''b'', ''x''] ex_live = [''b'']" by (simp add: requested_def ex_live_fields)
  moreover have "sd_finished ex_live = {}" by (simp add: ex_live_def ex_scheduler_def)
  ultimately show ?thesis
    using finish_requests_exact[OF run ex_live_inv] run by (simp add: ex_live_fields)
qed

text \<open>The step sampled the end of sequence for the running request.\<close>

definition ex_output :: runner_output where
  "ex_output = \<lparr>ro_index = Map.empty(''a'' \<mapsto> 0), ro_sampled = [[7]], ro_pooled = [], ro_nans = Map.empty\<rparr>"

theorem update_from_output_settles_witness:
  "\<exists>outs s'. update_from_output ex_config 0 (\<lambda>_. False) (\<lambda>_ _. True) [(''a'', 3)] Map.empty ex_output ex_live
      = Inr (outs, s') \<and> tracked s' \<and> linked s' \<and> set (sd_requests s') \<subseteq> {''a'', ''b''}"
proof -
  have "succeeds (update_from_output ex_config 0 (\<lambda>_. False) (\<lambda>_ _. True) [(''a'', 3)] Map.empty ex_output ex_live)"
    by code_simp
  then obtain outs s' where run: "update_from_output ex_config 0 (\<lambda>_. False) (\<lambda>_ _. True) [(''a'', 3)] Map.empty
      ex_output ex_live = Inr (outs, s')"
    by (rule succeedsE) (metis prod.collapse)
  have "distinct (map fst [(''a'', 3::int)])"
    "\<forall>r \<in> fst ` set [(''a'', 3::int)]. \<not> resumable (sd_store ex_live r) \<and> r \<notin># queued (sd_skipped ex_live)"
    by (simp_all add: ex_live_fields)
  from update_from_output_settles[OF run ex_live_inv this] run show ?thesis
    by (auto simp: ex_live_fields)
qed

theorem output_stays_within_limit_witness:
  "\<exists>new stop r'. append_until_stop ex_config [] [5, 7, 9] (sd_store ex_live ''a'') = Inr (new, stop, r')
    \<and> num_output_tokens r' \<le> 16"
proof -
  have "succeeds (append_until_stop ex_config [] [5, 7, 9] (sd_store ex_live ''a''))" by code_simp
  then obtain new stop r' where run: "append_until_stop ex_config [] [5, 7, 9] (sd_store ex_live ''a'') = Inr (new, stop, r')"
    by (rule succeedsE) (metis prod.collapse)
  have "sampling_params (sd_store ex_live ''a'') = Some ex_sampling"
    "min_tokens ex_sampling \<le> max_tokens (sd_store ex_live ''a'')"
    "num_output_tokens (sd_store ex_live ''a'') < max_tokens (sd_store ex_live ''a'')"
    "max_tokens (sd_store ex_live ''a'') = 16"
    by (simp_all add: ex_live_def ex_queue_store_def text_request_def ex_sampling_def num_output_tokens_def)
  with output_stays_within_limit[OF run this(1-3) ex_live_fields(6)] run show ?thesis by auto
qed

section \<open>A step under earliest deadline first\<close>

definition ex_deadlines :: store where
  "ex_deadlines = (\<lambda>r. (ex_queue_store [''a''] r)\<lparr>request_md := Some (new_request_metadata 0)\<rparr>)"

definition ex_edf :: scheduler where
  "ex_edf = (ex_scheduler UNPAUSED [''a''] [''b''])\<lparr>sd_store := ex_deadlines\<rparr>"

definition ex_edf_config :: sched_config where
  "ex_edf_config = ex_config\<lparr>sc_slo_policy := ''edf''\<rparr>"

definition ex_ranked :: store where
  "ex_ranked = assign_ranks 0 [''a'', ''b''] (set_priority 0 ''b'' (set_priority 0 ''a'' ex_deadlines))"

definition none_ignored :: "(sched_output \<times> scheduler) result option \<Rightarrow> bool" where
  "none_ignored res = (case res of Some (Inr (out, s)) \<Rightarrow> ignored_req_ids (sd_qm s) = {} | _ \<Rightarrow> False)"

lemma ex_edf_schedule:
  "schedule ex_edf_config 0 0 0 ex_edf
     = schedule_queues ex_edf_config 0 ex_ranked [''a'', ''b''] (new_queue_manager ''m'' FCFS False) ex_edf"
proof -
  have "\<not> track_stats (new_queue_manager ''m'' FCFS False)" by (simp add: new_queue_manager_def Let_def)
  moreover have "update_priorities ''edf'' (new_queue_manager ''m'' FCFS False) 0 [''a'', ''b''] ex_deadlines
      = Inr (ex_ranked, [''a'', ''b''])"
    by (simp add: update_priorities_def edf_priority_def rank_requests_def set_priority_def ex_ranked_def
        less_eq_prod_def Let_def ex_deadlines_def new_request_metadata_def ex_queue_store_def text_request_def)
  ultimately show ?thesis
    by (simp add: schedule_def update_queue_stats_def ex_edf_def ex_scheduler_def ex_edf_config_def)
qed

lemma ex_edf_runs: "none_ignored (schedule_queues ex_edf_config 0 ex_ranked [''a'', ''b''] (new_queue_manager ''m'' FCFS False) ex_edf)"
  by code_simp

theorem schedule_keeps_linked_witness:
  "\<exists>out s'. schedule ex_edf_config 0 0 0 ex_edf = Some (Inr (out, s')) \<and> tracked s' \<and> linked s'"
proof -
  obtain out s' where run: "schedule ex_edf_config 0 0 0 ex_edf = Some (Inr (out, s'))"
    and ign: "ignored_req_ids (sd_qm s') = {}"
    using ex_edf_runs unfolding ex_edf_schedule[symmetric]
    by (auto simp: none_ignored_def split: option.splits sum.splits)
  have "tracked ex_edf" "linked ex_edf"
    by (simp_all add: tracked_def all_queued_def linked_def queued_def ex_edf_def ex_scheduler_def
        ex_deadlines_def ex_queue_store_def)
  moreover have "\<not> will_finish (sd_store ex_edf r)" for r
    by (simp add: ex_edf_def ex_deadlines_def ex_queue_store_def text_request_def will_finish_def)
  ultimately show ?thesis
    using schedule_keeps_linked[OF run _ _ _ _ ign] run by (simp add: told_apart_def ex_edf_config_def)
qed

end
