(* ===== verification/Engine_Core.thy ===== *)
theory Engine_Core
  imports Schedule Scheduler_Update
begin

text \<open>
  The engine around the scheduler: \<open>EngineCore\<close>, which steps it, and
  \<open>EngineCoreProc\<close>, the process with its input and output queues. The model executor
  is a parameter: \<open>ev_run\<close> maps what a step scheduled, and the grammar bitmask, to the
  output of the model runner or an error. So is the structured output manager
  (\<open>ev_mask\<close>, \<open>ev_advance\<close>, \<open>ev_accepts\<close>, \<open>ev_validates\<close>).
\<close>

section \<open>Asking the scheduler\<close>

definition has_unfinished_requests :: "scheduler \<Rightarrow> bool" where
  "has_unfinished_requests s \<longleftrightarrow> get_num_unfinished_requests s > 0"

definition has_requests :: "scheduler \<Rightarrow> bool" where
  "has_requests s \<longleftrightarrow> has_unfinished_requests s \<or> has_finished_requests s"

definition get_grammar_bitmask ::
  "(store \<Rightarrow> rid list \<Rightarrow> (rid \<rightharpoonup> int list) \<Rightarrow> int list list) \<Rightarrow> sched_output \<Rightarrow> scheduler \<Rightarrow> (rid list \<times> int list list) option" where
  "get_grammar_bitmask bm out s =
     (if \<not> so_structured out then None
      else let ids = filter (\<lambda>r. r \<in> set (sd_requests s) \<and> use_structured_output (sd_store s r)
                        \<and> \<not> is_prefill_chunk (sd_store s r)) (map fst (so_tokens out)) in
        if ids = [] then None else Some (ids, bm (sd_store s) ids (so_spec out)))"

section \<open>A new scheduler\<close>

definition slo_policy_of :: "string \<Rightarrow> string" where
  "slo_policy_of pol = (if pol \<in> {''fcfs'', ''catfcfs'', ''edf'', ''wait-only''} then pol else ''rps'')"

text \<open>\<open>st\<close> gives the (unused) objects of ids that are not known yet, \<open>km\<close> is the
  new cache manager.\<close>

definition new_scheduler ::
  "string \<Rightarrow> string \<Rightarrow> bool \<Rightarrow> int \<Rightarrow> bool \<Rightarrow> int \<Rightarrow> kv_cache_manager \<Rightarrow> store \<Rightarrow> scheduler result" where
  "new_scheduler model pol finished_set num_blocks enc_dec enc_size km st =
     bindE (assertE (num_blocks > 0)) (\<lambda>_.
     bindE (scheduling_policy_of pol) (\<lambda>p. Inr
       \<lparr>sd_store = st, sd_requests = [], sd_waiting = create_request_queue p, sd_skipped = create_request_queue p,
        sd_running = [], sd_finished = {}, sd_finished_dict = (if finished_set then Some Map.empty else None),
        sd_streaming = 0,
        sd_qm = new_queue_manager model p (pol \<notin> {''fcfs'', ''catfcfs'', ''edf''}),
        sd_km = km, sd_enc = (if enc_dec then EncDec (new_encdec_cache enc_size) else MM (new_encoder_cache enc_size)),
        sd_prev = {}, sd_pause = UNPAUSED\<rparr>))"

section \<open>The engine\<close>

text \<open>\<open>eg_task_ok\<close> says that the task of the pooling parameters is supported;
  \<open>eg_batch\<close> is \<open>batch_queue_size\<close>, \<open>eg_clients\<close> the number of output
  sockets.\<close>

record engine_config =
  eg_sched :: sched_config
  eg_spec :: bool
  eg_pooling :: bool
  eg_batch :: nat
  eg_timeout :: int
  eg_clients :: nat
  eg_task_ok :: "pooling_params \<Rightarrow> bool"

text \<open>A batch in the queue: what was scheduled and what its future will return.\<close>

record engine_core =
  en_sched :: scheduler
  en_aborts :: "rid list list"
  en_batches :: "(sched_output \<times> runner_output result) list"

text \<open>What the surroundings do during one step: clocks, model runner, structured output
  manager, aborts that arrive while the model runs, draft tokens, and whether the oldest batch
  is done.\<close>

record step_env =
  ev_ts :: real
  ev_now :: real
  ev_prio :: real
  ev_update :: real
  ev_run :: "sched_output \<Rightarrow> (rid list \<times> int list list) option \<Rightarrow> runner_output result"
  ev_mask :: "store \<Rightarrow> rid list \<Rightarrow> (rid \<rightharpoonup> int list) \<Rightarrow> int list list"
  ev_advance :: "request \<Rightarrow> bool"
  ev_accepts :: "rid \<Rightarrow> int list \<Rightarrow> bool"
  ev_validates :: "rid \<Rightarrow> int list \<Rightarrow> int list"
  ev_late :: "rid list list"
  ev_drafts :: "(rid \<times> int list) list option"
  ev_done :: bool

type_synonym step_outputs = "int \<rightharpoonup> engine_core_output list \<times> rid set"

definition abort_requests :: "engine_config \<Rightarrow> rid list \<Rightarrow> engine_core \<Rightarrow> engine_core result" where
  "abort_requests cfg ids e =
     bindE (finish_requests (eg_sched cfg) (remdups ids) FINISHED_ABORTED (en_sched e)) (\<lambda>(_, s). Inr (e\<lparr>en_sched := s\<rparr>))"

definition engine_add_request :: "engine_config \<Rightarrow> real \<Rightarrow> request \<Rightarrow> engine_core \<Rightarrow> engine_core result" where
  "engine_add_request cfg ts r e =
     bindE (case pooling_params r of None \<Rightarrow> Inr () | Some p \<Rightarrow> if eg_task_ok cfg p then Inr () else Inl ValueError) (\<lambda>_.
     bindE (sched_add_request (eg_sched cfg) ts r (en_sched e)) (\<lambda>s.
       if abort_immediately r then abort_requests cfg [request_id r] (e\<lparr>en_sched := s\<rparr>)
       else Inr (e\<lparr>en_sched := s\<rparr>)))"

text \<open>\<open>features\<close> is the receiver cache of multimodal inputs, when there is one.\<close>

definition preprocess_add_request ::
  "(mm_feature list \<Rightarrow> mm_feature list) option \<Rightarrow> engine_config \<Rightarrow> real \<Rightarrow> engine_core_request \<Rightarrow> request result" where
  "preprocess_add_request features cfg now ec =
     from_engine_core_request
       (case (features, ec_mm_features ec) of
          (Some f, Some fs) \<Rightarrow> if fs = [] then ec else ec\<lparr>ec_mm_features := Some (f fs)\<rparr>
        | _ \<Rightarrow> ec)
       (sc_hasher (eg_sched cfg)) now"

definition process_aborts_queue :: "engine_config \<Rightarrow> engine_core \<Rightarrow> engine_core result" where
  "process_aborts_queue cfg e =
     (if en_aborts e = [] then Inr e else abort_requests cfg (concat (en_aborts e)) (e\<lparr>en_aborts := []\<rparr>))"

text \<open>The end of a step: late aborts come first, then the output of the model.\<close>

definition finish_batch ::
  "engine_config \<Rightarrow> step_env \<Rightarrow> sched_output \<Rightarrow> runner_output \<Rightarrow> engine_core \<Rightarrow> (step_outputs \<times> engine_core) result" where
  "finish_batch cfg ev out mo e =
     bindE (process_aborts_queue cfg (e\<lparr>en_aborts := en_aborts e @ ev_late ev\<rparr>)) (\<lambda>e1.
     bindE (update_from_output (eg_sched cfg) (ev_update ev) (ev_advance ev) (ev_accepts ev) (so_tokens out) (so_spec out)
              mo (en_sched e1)) (\<lambda>(outs, s). Inr (outs, e1\<lparr>en_sched := s\<rparr>)))"

definition engine_step ::
  "engine_config \<Rightarrow> step_env \<Rightarrow> engine_core \<Rightarrow> (step_outputs \<times> bool \<times> engine_core) result option" where
  "engine_step cfg ev e =
     (if \<not> has_requests (en_sched e) then Some (Inr (Map.empty, False, e))
      else Option.bind (schedule (eg_sched cfg) (ev_ts ev) (ev_now ev) (ev_prio ev) (en_sched e)) (\<lambda>res. Some (
        bindE res (\<lambda>(out, s).
        bindE (ev_run ev out (get_grammar_bitmask (ev_mask ev) out s)) (\<lambda>mo.
        bindE (finish_batch cfg ev out mo (e\<lparr>en_sched := s\<rparr>)) (\<lambda>(outs, e1).
          Inr (outs, so_total out > 0, e1)))))))"

definition post_step :: "engine_config \<Rightarrow> step_env \<Rightarrow> bool \<Rightarrow> engine_core \<Rightarrow> engine_core" where
  "post_step cfg ev executed e =
     (if \<not> sc_async (eg_sched cfg) \<and> eg_spec cfg \<and> executed
      then (case ev_drafts ev of None \<Rightarrow> e
            | Some ds \<Rightarrow> e\<lparr>en_sched := update_draft_token_ids (ev_advance ev) (ev_validates ev) ds (en_sched e)\<rparr>)
      else e)"

section \<open>Stepping with a batch queue\<close>

text \<open>The first half: a batch is scheduled if there are requests. \<open>pushed\<close> is the queue
  with the new batch, unless its sampling is deferred. The future of a batch that executes is
  the one of \<open>sample_tokens\<close>.\<close>

record push_result =
  pu_core :: engine_core
  pu_executed :: bool
  pu_deferred :: "sched_output option"

definition schedule_batch ::
  "engine_config \<Rightarrow> step_env \<Rightarrow> engine_core \<Rightarrow> push_result result option" where
  "schedule_batch cfg ev e =
     Option.bind (schedule (eg_sched cfg) (ev_ts ev) (ev_now ev) (ev_prio ev) (en_sched e)) (\<lambda>res. Some (
       bindE res (\<lambda>(out, s).
         let e1 = e\<lparr>en_sched := s\<rparr>; executed = (so_total out > 0) in
         if eg_pooling cfg \<or> \<not> executed
         then Inr \<lparr>pu_core = e1\<lparr>en_batches := (out, ev_run ev out None) # en_batches e1\<rparr>, pu_executed = executed, pu_deferred = None\<rparr>
         else if \<not> so_pending_structured out
         then Inr \<lparr>pu_core = e1\<lparr>en_batches := (out, ev_run ev out (get_grammar_bitmask (ev_mask ev) out s)) # en_batches e1\<rparr>,
                   pu_executed = executed, pu_deferred = None\<rparr>
         else Inr \<lparr>pu_core = e1, pu_executed = executed, pu_deferred = Some out\<rparr>)))"

text \<open>The deferred batch is sampled after the older one has been processed.\<close>

definition sample_deferred ::
  "engine_config \<Rightarrow> step_env \<Rightarrow> sched_output \<Rightarrow> engine_core \<Rightarrow> engine_core result" where
  "sample_deferred cfg ev out e =
     bindE (if eg_spec cfg
            then (case ev_drafts ev of
                None \<Rightarrow> Inl AssertionError
              | Some ds \<Rightarrow> Inr (out\<lparr>so_spec := fst (update_draft_token_ids_in_output (ev_advance ev) (ev_validates ev) ds
                                   (en_sched e) (so_spec out))\<rparr>))
            else Inr out) (\<lambda>out'.
       Inr (e\<lparr>en_batches := (out', ev_run ev out' (get_grammar_bitmask (ev_mask ev) out' (en_sched e))) # en_batches e\<rparr>))"

definition pop_batch ::
  "engine_config \<Rightarrow> step_env \<Rightarrow> push_result \<Rightarrow> (step_outputs option \<times> bool \<times> engine_core) result" where
  "pop_batch cfg ev p =
     (let e = pu_core p in
      if en_batches e = [] then Inl IndexError
      else (case last (en_batches e) of (out, fut) \<Rightarrow>
        bindE fut (\<lambda>mo.
        bindE (finish_batch cfg ev out mo (e\<lparr>en_batches := butlast (en_batches e)\<rparr>)) (\<lambda>(outs, e1).
        bindE (case pu_deferred p of None \<Rightarrow> Inr e1 | Some d \<Rightarrow> sample_deferred cfg ev d e1) (\<lambda>e2.
          Inr (Some outs, pu_executed p, e2))))))"

definition step_with_batch_queue ::
  "engine_config \<Rightarrow> step_env \<Rightarrow> engine_core \<Rightarrow> (step_outputs option \<times> bool \<times> engine_core) result option" where
  "step_with_batch_queue cfg ev e =
     (if \<not> length (en_batches e) < eg_batch cfg then Some (Inl AssertionError)
      else if has_requests (en_sched e)
      then Option.bind (schedule_batch cfg ev e) (\<lambda>res. Some (bindE res (\<lambda>p.
        if pu_deferred p = None \<and> pu_executed p \<and> length (en_batches (pu_core p)) < eg_batch cfg \<and> \<not> ev_done ev
        then Inr (None, True, pu_core p)
        else pop_batch cfg ev p)))
      else if en_batches e = [] then Some (Inr (None, False, e))
      else Some (pop_batch cfg ev \<lparr>pu_core = e, pu_executed = False, pu_deferred = None\<rparr>))"

section \<open>Pausing and resetting\<close>

definition reset_caches :: "engine_config \<Rightarrow> real \<Rightarrow> engine_core \<Rightarrow> engine_core result" where
  "reset_caches cfg ts e =
     bindE (sched_reset_prefix_cache (eg_sched cfg) ts True False (en_sched e)) (\<lambda>(_, s).
       Inr (e\<lparr>en_sched := reset_encoder_cache s\<rparr>))"

text \<open>\<open>finish_requests(None, FINISHED_ABORTED)\<close>: all of them.\<close>

definition abort_all :: "engine_config \<Rightarrow> engine_core \<Rightarrow> ((rid \<times> int) list \<times> engine_core) result" where
  "abort_all cfg e =
     bindE (finish_requests (eg_sched cfg) (sd_requests (en_sched e)) FINISHED_ABORTED (en_sched e)) (\<lambda>(outs, s).
       Inr (outs, e\<lparr>en_sched := s\<rparr>))"

definition set_paused :: "string \<Rightarrow> engine_core \<Rightarrow> engine_core" where
  "set_paused mode e =
     e\<lparr>en_sched := set_pause_state (if mode = ''keep'' then PAUSED_ALL else PAUSED_NEW) (en_sched e)\<rparr>"

definition pause_scheduler :: "engine_config \<Rightarrow> real \<Rightarrow> string \<Rightarrow> bool \<Rightarrow> engine_core \<Rightarrow> engine_core result" where
  "pause_scheduler cfg ts mode clear e =
     (if mode \<notin> {''keep'', ''abort'', ''wait''} then Inl ValueError
      else if mode = ''wait'' then Inl ValueError
      else bindE (if mode = ''abort'' then bindE (abort_all cfg e) (\<lambda>(_, e'). Inr e') else Inr e) (\<lambda>e1.
        if clear then reset_caches cfg ts (set_paused mode e1) else Inr (set_paused mode e1)))"

definition resume_scheduler :: "engine_core \<Rightarrow> engine_core" where
  "resume_scheduler e = e\<lparr>en_sched := set_pause_state UNPAUSED (en_sched e)\<rparr>"

definition is_scheduler_paused :: "engine_core \<Rightarrow> bool" where
  "is_scheduler_paused e \<longleftrightarrow> sd_pause (en_sched e) \<noteq> UNPAUSED"

end
