(* ===== verification/Engine_Proc.thy ===== *)
theory Engine_Proc
  imports Engine_Core
begin

text \<open>
  \<open>EngineCoreProc\<close>: the engine in its own process. Threads that read and write the
  sockets are left out; what they put into the input queue is \<open>pr_inputs\<close>, what is put
  into the output queue is appended to \<open>pr_outputs\<close>, one item per client. The clients
  of a step are visited in ascending order; each has a socket of its own, so that the order
  among them is not seen. \<open>engines_running\<close> is False, as in an engine without data parallelism, and the
  input queue blocks.
\<close>

datatype shutdown_state = S_RUNNING | S_REQUESTED | S_SHUTTING_DOWN

text \<open>The utility methods that concern the scheduler; all others leave it alone. What the
  model executor answers to a method that calls it is an argument.\<close>

datatype utility_call =
    Pause_Scheduler string bool
  | Resume_Scheduler
  | Is_Scheduler_Paused
  | Reset_Prefix_Cache bool bool
  | Reset_Encoder_Cache
  | Sleep int string "unit result"
  | Wake_Up "string list option" "unit result"
  | Is_Sleeping bool
  | Other_Utility "bool option result"

datatype client_request =
    WAKEUP
  | ADD request
  | ABORT_REQS "rid list"
  | UTILITY int int utility_call
  | EXECUTOR_FAILED

record utility_output =
  ut_call_id :: int
  ut_failed :: bool
  ut_result :: "bool option"

record engine_core_outputs =
  ec_outputs :: "engine_core_output list"
  ec_finished :: "rid set option"
  ec_utility :: "utility_output option"

text \<open>An idle callback: whether it clears the caches, what the callback of its future answers
  (the executor, for \<open>sleep\<close>), and the client and call that wait for it.\<close>

record engine_proc =
  pr_core :: engine_core
  pr_state :: shutdown_state
  pr_inputs :: "client_request list"
  pr_outputs :: "(int \<times> engine_core_outputs) list"
  pr_callbacks :: "(bool \<times> unit result \<times> int \<times> int) list"

definition has_work :: "engine_proc \<Rightarrow> bool" where
  "has_work p \<longleftrightarrow> has_requests (en_sched (pr_core p)) \<or> en_batches (pr_core p) \<noteq> []"

definition is_running :: "engine_proc \<Rightarrow> bool" where
  "is_running p \<longleftrightarrow> pr_state p = S_RUNNING"

section \<open>Sending\<close>

definition put_output :: "int \<Rightarrow> engine_core_outputs \<Rightarrow> engine_proc \<Rightarrow> engine_proc" where
  "put_output c out p = p\<lparr>pr_outputs := pr_outputs p @ [(c, out)]\<rparr>"

definition finish_output :: "finish_reason \<Rightarrow> rid \<Rightarrow> engine_core_output" where
  "finish_output reason rid =
     \<lparr>eo_request_id = rid, eo_new_token_ids = [], eo_finish_reason = Some reason, eo_pooling = None,
      eo_stop_reason = None, eo_events = None, eo_prefill_stats = None, eo_num_nans = 0, eo_request_md = None\<rparr>"

definition send_finish_outputs_to_client :: "rid list \<Rightarrow> int \<Rightarrow> finish_reason \<Rightarrow> engine_proc \<Rightarrow> engine_proc" where
  "send_finish_outputs_to_client ids c reason =
     put_output c \<lparr>ec_outputs = map (finish_output reason) ids, ec_finished = Some (set ids), ec_utility = None\<rparr>"

definition send_abort_outputs :: "(rid \<times> int) list \<Rightarrow> engine_proc \<Rightarrow> engine_proc" where
  "send_abort_outputs reqs =
     fold (\<lambda>c. send_finish_outputs_to_client (remdups (map fst (filter (\<lambda>x. snd x = c) reqs))) c ABORT)
       (remdups (map snd reqs))"

definition put_utility :: "int \<Rightarrow> int \<Rightarrow> bool \<Rightarrow> bool option \<Rightarrow> engine_proc \<Rightarrow> engine_proc" where
  "put_utility c call failed res =
     put_output c \<lparr>ec_outputs = [], ec_finished = None,
       ec_utility = Some \<lparr>ut_call_id = call, ut_failed = failed, ut_result = (if failed then None else res)\<rparr>\<rparr>"

section \<open>Pausing\<close>

text \<open>
  The outer error is one in the middle of an operation of the scheduler (freeing or preempting a
  request), whose half-made changes the model does not follow. Otherwise the result is the
  exception of the method, or whether the caller has to wait for an idle callback, with the
  state that is left.
\<close>

definition proc_pause ::
  "engine_config \<Rightarrow> real \<Rightarrow> int \<Rightarrow> int \<Rightarrow> string \<Rightarrow> bool \<Rightarrow> unit result \<Rightarrow> engine_proc \<Rightarrow>
   (bool result \<times> engine_proc) result" where
  "proc_pause cfg ts c call mode clear answer p =
     (if mode \<notin> {''keep'', ''abort'', ''wait''} then Inr (Inl ValueError, p)
      else bindE (if mode = ''abort''
                  then bindE (abort_all cfg (pr_core p)) (\<lambda>(outs, e). Inr (send_abort_outputs outs (p\<lparr>pr_core := e\<rparr>)))
                  else Inr p) (\<lambda>p1.
        let p2 = p1\<lparr>pr_core := set_paused mode (pr_core p1)\<rparr> in
        if has_work p2 then Inr (Inr True, p2\<lparr>pr_callbacks := pr_callbacks p2 @ [(clear, answer, c, call)]\<rparr>)
        else if \<not> clear then Inr (Inr False, p2)
        else bindE (try_reset_prefix_cache (eg_sched cfg) ts True False (en_sched (pr_core p2))) (\<lambda>(res, s).
          Inr (case res of
              Inl e \<Rightarrow> (Inl e, p2\<lparr>pr_core := (pr_core p2)\<lparr>en_sched := s\<rparr>\<rparr>)
            | Inr _ \<Rightarrow> (Inr False, p2\<lparr>pr_core := (pr_core p2)\<lparr>en_sched := reset_encoder_cache s\<rparr>\<rparr>)))))"

text \<open>The callbacks run from the last to the first; an error in one ends the process. The future
  is done then, and so is the call that waits for it, with the answer of its own callback.\<close>

fun run_callbacks :: "engine_config \<Rightarrow> real \<Rightarrow> (bool \<times> unit result \<times> int \<times> int) list \<Rightarrow> engine_proc \<Rightarrow> engine_proc result" where
  "run_callbacks cfg ts [] p = Inr p"
| "run_callbacks cfg ts ((clear, answer, c, call) # cbs) p =
     bindE (if clear then reset_caches cfg ts (pr_core p) else Inr (pr_core p)) (\<lambda>e.
       run_callbacks cfg ts cbs (put_utility c call (answer \<noteq> Inr ()) None (p\<lparr>pr_core := e\<rparr>)))"

definition notify_idle_state_callbacks :: "engine_config \<Rightarrow> real \<Rightarrow> engine_proc \<Rightarrow> engine_proc result" where
  "notify_idle_state_callbacks cfg ts p = run_callbacks cfg ts (rev (pr_callbacks p)) (p\<lparr>pr_callbacks := []\<rparr>)"

section \<open>Requests from clients\<close>

text \<open>The method call of a utility request, with the errors as above: the inner result is the
  exception that the caller catches, or whether a future is returned, whose result is sent
  later, and the value. \<open>sleep\<close> pauses, clears the caches from level 1 on and then calls
  the executor; \<open>wake_up\<close> calls it unless only the scheduling is to be woken.\<close>

definition call_utility ::
  "engine_config \<Rightarrow> real \<Rightarrow> int \<Rightarrow> int \<Rightarrow> utility_call \<Rightarrow> engine_proc \<Rightarrow> ((bool \<times> bool option) result \<times> engine_proc) result" where
  "call_utility cfg ts c call u p = (case u of
       Pause_Scheduler mode clear \<Rightarrow> bindE (proc_pause cfg ts c call mode clear (Inr ()) p) (\<lambda>(res, p').
         Inr (bindE res (\<lambda>wait. Inr (wait, None)), p'))
     | Resume_Scheduler \<Rightarrow> Inr (Inr (False, None), p\<lparr>pr_core := resume_scheduler (pr_core p)\<rparr>)
     | Is_Scheduler_Paused \<Rightarrow> Inr (Inr (False, Some (is_scheduler_paused (pr_core p))), p)
     | Reset_Prefix_Cache run con \<Rightarrow>
         bindE (try_reset_prefix_cache (eg_sched cfg) ts run con (en_sched (pr_core p))) (\<lambda>(res, s).
           Inr (bindE res (\<lambda>ok. Inr (False, Some ok)), p\<lparr>pr_core := (pr_core p)\<lparr>en_sched := s\<rparr>\<rparr>))
     | Reset_Encoder_Cache \<Rightarrow>
         Inr (Inr (False, None), p\<lparr>pr_core := (pr_core p)\<lparr>en_sched := reset_encoder_cache (en_sched (pr_core p))\<rparr>\<rparr>)
     | Sleep level mode executor \<Rightarrow>
         let answer = (if level \<ge> 1 then executor else Inr ()) in
         bindE (proc_pause cfg ts c call mode (level \<ge> 1) answer p) (\<lambda>(res, p').
           Inr (bindE res (\<lambda>wait. if wait then Inr (True, None) else bindE answer (\<lambda>_. Inr (False, None))), p'))
     | Wake_Up tags executor \<Rightarrow>
         Inr (case (if (case tags of None \<Rightarrow> True | Some l \<Rightarrow> list_ex (\<lambda>t. t \<noteq> ''scheduling'') l) then executor else Inr ()) of
             Inl e \<Rightarrow> (Inl e, p)
           | Inr _ \<Rightarrow> (Inr (False, None), p\<lparr>pr_core := resume_scheduler (pr_core p)\<rparr>))
     | Is_Sleeping executor \<Rightarrow> Inr (Inr (False, Some (is_scheduler_paused (pr_core p) \<or> executor)), p)
     | Other_Utility res \<Rightarrow> Inr (bindE res (\<lambda>v. Inr (False, v)), p))"

text \<open>Requests that arrive during a shutdown are rejected. A call that raises is answered with a
  failure, and the engine goes on.\<close>

definition handle_client_request ::
  "engine_config \<Rightarrow> real \<Rightarrow> client_request \<Rightarrow> engine_proc \<Rightarrow> engine_proc result" where
  "handle_client_request cfg ts q p = (case q of
       WAKEUP \<Rightarrow> Inr p
     | ADD r \<Rightarrow>
         if pr_state p \<noteq> S_RUNNING then Inr (send_finish_outputs_to_client [request_id r] (client_index r) ABORT p)
         else bindE (engine_add_request cfg ts r (pr_core p)) (\<lambda>e. Inr (p\<lparr>pr_core := e\<rparr>))
     | ABORT_REQS ids \<Rightarrow> bindE (abort_requests cfg ids (pr_core p)) (\<lambda>e. Inr (p\<lparr>pr_core := e\<rparr>))
     | UTILITY c call u \<Rightarrow>
         if pr_state p \<noteq> S_RUNNING then Inr (put_utility c call True None p)
         else bindE (call_utility cfg ts c call u p) (\<lambda>(res, p'). Inr (case res of
             Inl _ \<Rightarrow> put_utility c call True None p'
           | Inr (wait, v) \<Rightarrow> if wait then p' else put_utility c call False v p'))
     | EXECUTOR_FAILED \<Rightarrow> Inl RuntimeError)"

section \<open>The busy loop\<close>

text \<open>Before a step: the result is False when the loop is over.\<close>

definition handle_shutdown :: "engine_config \<Rightarrow> engine_proc \<Rightarrow> (bool \<times> engine_proc) result" where
  "handle_shutdown cfg p =
     (if pr_state p = S_RUNNING then Inr (True, p)
      else bindE (if pr_state p = S_REQUESTED
                  then bindE (if eg_timeout cfg = 0
                              then bindE (abort_all cfg (pr_core p)) (\<lambda>(outs, e). Inr (send_abort_outputs outs (p\<lparr>pr_core := e\<rparr>)))
                              else Inr p) (\<lambda>p1. Inr (p1\<lparr>pr_state := S_SHUTTING_DOWN\<rparr>))
                  else Inr p) (\<lambda>p2. Inr (has_work p2, p2)))"

text \<open>The requests that are in the queue are handled, first while there is no work, then the
  rest. \<open>Inl p\<close> means that the loop blocks on the empty queue in state \<open>p\<close>.\<close>

fun await_work :: "engine_config \<Rightarrow> real \<Rightarrow> client_request list \<Rightarrow> engine_proc \<Rightarrow> (engine_proc + engine_proc) result" where
  "await_work cfg ts qs p =
     (if has_work p \<or> \<not> is_running p then Inr (Inr (p\<lparr>pr_inputs := qs\<rparr>))
      else bindE (notify_idle_state_callbacks cfg ts p) (\<lambda>p1. case qs of
          [] \<Rightarrow> Inr (Inl (p1\<lparr>pr_inputs := [], pr_core := (pr_core p1)\<lparr>en_aborts := []\<rparr>\<rparr>))
        | q # qs' \<Rightarrow> bindE (handle_client_request cfg ts q p1) (\<lambda>p2. await_work cfg ts qs' p2)))"

definition process_input_queue :: "engine_config \<Rightarrow> real \<Rightarrow> engine_proc \<Rightarrow> (engine_proc + engine_proc) result" where
  "process_input_queue cfg ts p =
     bindE (await_work cfg ts (pr_inputs p) p) (\<lambda>res. case res of
         Inl p1 \<Rightarrow> Inr (Inl p1)
       | Inr p1 \<Rightarrow> bindE (foldE (handle_client_request cfg ts) (pr_inputs p1) (p1\<lparr>pr_inputs := []\<rparr>)) (\<lambda>p2. Inr (Inr p2)))"

definition step_fn ::
  "engine_config \<Rightarrow> step_env \<Rightarrow> engine_core \<Rightarrow> (step_outputs option \<times> bool \<times> engine_core) result option" where
  "step_fn cfg ev e =
     (if eg_batch cfg \<le> 1
      then Option.bind (engine_step cfg ev e) (\<lambda>res. Some (bindE res (\<lambda>(outs, executed, e1). Inr (Some outs, executed, e1))))
      else step_with_batch_queue cfg ev e)"

text \<open>One item for each client that has outputs, none when there are no outputs.\<close>

definition put_step_outputs :: "engine_config \<Rightarrow> step_outputs \<Rightarrow> engine_proc \<Rightarrow> engine_proc" where
  "put_step_outputs cfg os =
     fold (\<lambda>c p. case os c of
         None \<Rightarrow> p
       | Some (l, F) \<Rightarrow> put_output c \<lparr>ec_outputs = l, ec_finished = (if F = {} then None else Some F), ec_utility = None\<rparr> p)
       (map int [0..<eg_clients cfg])"

definition process_engine_step :: "engine_config \<Rightarrow> step_env \<Rightarrow> engine_proc \<Rightarrow> (bool \<times> engine_proc) result option" where
  "process_engine_step cfg ev p =
     Option.bind (step_fn cfg ev (pr_core p)) (\<lambda>res. Some (bindE res (\<lambda>(outs, executed, e).
       let p1 = (case outs of
            None \<Rightarrow> p\<lparr>pr_core := e\<rparr>
          | Some os \<Rightarrow> put_step_outputs cfg os (p\<lparr>pr_core := e\<rparr>)) in
       Inr (executed, p1\<lparr>pr_core := post_step cfg ev executed (pr_core p1)\<rparr>))))"

text \<open>One pass of \<open>run_busy_loop\<close>: the loop is over, it blocks, or it has stepped.\<close>

datatype pass = Exit engine_proc | Blocked engine_proc | Stepped engine_proc

definition busy_pass :: "engine_config \<Rightarrow> step_env \<Rightarrow> engine_proc \<Rightarrow> pass result option" where
  "busy_pass cfg ev p = (case handle_shutdown cfg p of
       Inl e \<Rightarrow> Some (Inl e)
     | Inr (go, p1) \<Rightarrow>
         if \<not> go then Some (Inr (Exit p1))
         else (case process_input_queue cfg (ev_ts ev) p1 of
             Inl e \<Rightarrow> Some (Inl e)
           | Inr (Inl p2) \<Rightarrow> Some (Inr (Blocked p2))
           | Inr (Inr p2) \<Rightarrow> Option.bind (process_engine_step cfg ev p2) (\<lambda>res. Some (bindE res (\<lambda>(_, p3). Inr (Stepped p3))))))"

end
