(* ===== verification/Update_Frame.thy ===== *)
theory Update_Frame
  imports Update_Correct
begin

text \<open>
  What finishing requests and taking in the output of a step leave alone. A predicate on
  requests that is not resumable, survives appending up to the stop, and does not look at the
  few fields these operations set, holds of every request object afterwards if it held before:
  \<open>output_invariant\<close> carries it through once.
\<close>

section \<open>The rest of the scheduler\<close>

definition manager_eq :: "scheduler \<Rightarrow> scheduler \<Rightarrow> bool" where
  "manager_eq s s' \<longleftrightarrow> sd_qm s' = sd_qm s \<and> sd_pause s' = sd_pause s"

lemma manager_eq_refl [simp]: "manager_eq s s"
  by (simp add: manager_eq_def)

lemma manager_eq_trans: "manager_eq s s' \<Longrightarrow> manager_eq s' s'' \<Longrightarrow> manager_eq s s''"
  by (simp add: manager_eq_def)

lemma foldE_manager_eq:
  assumes "foldE f xs s = Inr s'" and "\<And>x s s'. f x s = Inr s' \<Longrightarrow> manager_eq s s'"
  shows "manager_eq s s'"
  using assms(1) by (induction xs arbitrary: s) (auto elim!: bindE_InrE intro: manager_eq_trans dest: assms(2))

lemma free_request_manager: "free_request delay r s = Inr s' \<Longrightarrow> manager_eq s s'"
  unfolding free_request_def free_blocks_of_def Let_def manager_eq_def
  by (auto elim!: bindE_InrE split: if_splits)

lemma free_request_streaming: "free_request delay r s = Inr s' \<Longrightarrow> sd_streaming s' = sd_streaming s"
  unfolding free_request_def free_blocks_of_def Let_def
  by (auto elim!: bindE_InrE split: if_splits)

lemma finish_one_manager: "finish_one st r s = Inr s' \<Longrightarrow> manager_eq s s'"
  unfolding finish_one_def by (drule free_request_manager) (simp add: manager_eq_def)

lemma finish_requests_manager:
  assumes "finish_requests cfg ids st s = Inr (outs, s')"
  shows "manager_eq s s'"
proof -
  obtain xs s1 where "foldE (finish_one st) xs s1 = Inr s'" "manager_eq s s1"
    using assms unfolding finish_requests_def Let_def
    by (elim bindE_InrE) (auto simp: manager_eq_def)
  then show ?thesis using foldE_manager_eq[of "finish_one st"] finish_one_manager manager_eq_trans by blast
qed

lemma manager_eq_upd [simp]:
  "manager_eq s (s\<lparr>sd_store := x\<rparr>)" "manager_eq s (s\<lparr>sd_enc := em\<rparr>)" "manager_eq s (s\<lparr>sd_km := km\<rparr>)"
  by (simp_all add: manager_eq_def)

lemma handle_stopped_manager: "handle_stopped_request cfg ts r s = Inr (fin, s') \<Longrightarrow> manager_eq s s'"
  unfolding handle_stopped_request_def update_request_as_session_def enqueue_waiting_request_def Let_def manager_eq_def
  by (auto elim!: bindE_InrE split: if_splits option.splits list.splits)

lemma take_output_manager: "take_output cfg r gen pooled s = Inr (toks, stop, s') \<Longrightarrow> manager_eq s s'"
  unfolding take_output_def update_request_with_output_def Let_def manager_eq_def
  by (auto elim!: bindE_InrE split: if_splits)

lemma check_grammar_manager: "check_grammar advance accepts r toks stop s = Inr (stop', s') \<Longrightarrow> manager_eq s s'"
  unfolding check_grammar_def manager_eq_def by (auto elim!: bindE_InrE split: if_splits)

lemma emit_manager: "manager_eq (us_sched u) (us_sched (emit r toks reason pooled u))"
  by (simp add: emit_def Let_def split: prod.split)

lemma settle_manager:
  assumes "settle_output cfg ts nans r bef toks stop pooled s u = Inr u'"
  shows "manager_eq s (us_sched u')"
  using assms
proof (cases rule: settle_split)
  case (1 s1 v)
  have "manager_eq s s1"
  proof (cases stop)
    case True
    then obtain fin s2 where "handle_stopped_request cfg ts r s = Inr (fin, s2)"
      "(if fin then free_request False r s2 else Inr s2) = Inr s1"
      using 1(1) by (auto elim!: bindE_InrE)
    then show ?thesis using handle_stopped_manager free_request_manager manager_eq_trans
      by (cases fin) fastforce+
  qed (use 1(1) in simp)
  moreover have "manager_eq s1 (us_sched v)"
    by (simp add: 1(2) with_nans_def split: option.split)
  ultimately show ?thesis using 1(3) emit_manager[of v] manager_eq_trans by blast
qed

lemma update_one_manager:
  assumes "update_one cfg ts advance accepts drafts ro (r, n) u = Inr u'"
  shows "manager_eq (us_sched u) (us_sched u')"
  using assms
proof (cases rule: update_one_cases)
  case (taken s2 gen em toks stop0 s3 stop s4 pooled)
  have "manager_eq (us_sched u) s2" by (simp add: taken(3) manager_eq_def)
  with take_output_manager[OF taken(4)] check_grammar_manager[OF taken(5)] settle_manager[OF taken(6)]
  show ?thesis using manager_eq_trans by blast
qed simp

lemma update_from_output_manager:
  assumes "update_from_output cfg ts advance accepts tokens drafts ro s = Inr (outs, s')"
  shows "manager_eq s s'"
proof -
  define u0 where "u0 = \<lparr>us_sched = s, us_running = {}, us_preempted = [], us_outs = Map.empty\<rparr>"
  obtain u where f: "foldE (update_one cfg ts advance accepts drafts ro) tokens u0 = Inr u"
    and s': "manager_eq (us_sched u) s'"
    using assms unfolding update_from_output_def Let_def u0_def
    by (auto elim!: bindE_InrE simp: manager_eq_def split: prod.splits)
  have "manager_eq s (us_sched u)"
  proof (rule foldE_invariant[OF f, where P = "\<lambda>u. manager_eq s (us_sched u)"])
    fix x u u' assume "update_one cfg ts advance accepts drafts ro x u = Inr u'" "manager_eq s (us_sched u)"
    then show "manager_eq s (us_sched u')"
      using update_one_manager[of cfg ts advance accepts drafts ro "fst x" "snd x" u u'] manager_eq_trans by auto
  qed (simp add: u0_def)
  then show ?thesis using s' manager_eq_trans by blast
qed

section \<open>Requests\<close>

locale output_invariant =
  fixes cfg :: sched_config and P :: "request \<Rightarrow> bool"
  assumes not_resumable: "P r \<Longrightarrow> \<not> resumable r"
    and grown_ok: "P r \<Longrightarrow> \<not> is_finished r \<Longrightarrow> append_until_stop cfg [] toks r = Inr (new, stop, r') \<Longrightarrow> P r'"
    and placeholders_ok: "P r \<Longrightarrow> sc_async cfg \<Longrightarrow> P (r\<lparr>num_output_placeholders := n\<rparr>)"
    and discard_ok: "P r \<Longrightarrow> sc_async cfg \<Longrightarrow> P (r\<lparr>async_tokens_to_discard := n\<rparr>)"
    and drafts_ok: "P r \<Longrightarrow> P (reject_drafts d g r)"
    and finished_ok: "P r \<Longrightarrow> status_is_finished st \<Longrightarrow> P (r\<lparr>status := st\<rparr>)"
    and nans_ok: "P r \<Longrightarrow> P (r\<lparr>num_nans_in_logits := k\<rparr>)"
    and events_ok: "P r \<Longrightarrow> P (r\<lparr>events := []\<rparr>)"
    and stats_ok: "P r \<Longrightarrow> P (r\<lparr>prefill_stats := None\<rparr>)"
begin

definition all_ok :: "scheduler \<Rightarrow> bool" where
  "all_ok s \<longleftrightarrow> (\<forall>r. P (sd_store s r))"

lemma all_ok_upd: "all_ok s \<Longrightarrow> P (f (sd_store s r)) \<Longrightarrow> all_ok (s\<lparr>sd_store := upd_req r f (sd_store s)\<rparr>)"
  by (simp add: all_ok_def upd_req_def)

lemma all_ok_eq: "all_ok s \<Longrightarrow> sd_store s' = sd_store s \<Longrightarrow> all_ok s'"
  by (simp add: all_ok_def)

lemma error_ok: "P r \<Longrightarrow> P (r\<lparr>status := FINISHED_ERROR, resumable := False\<rparr>)"
proof -
  assume r: "P r"
  have "\<not> resumable r" by (rule not_resumable[OF r])
  then have "r\<lparr>status := FINISHED_ERROR, resumable := False\<rparr> = r\<lparr>status := FINISHED_ERROR\<rparr>"
    by (cases r) simp
  then show ?thesis using finished_ok[OF r] by (simp add: status_is_finished_def)
qed

lemma update_request_ok:
  assumes "update_request_with_output cfg r toks s = Inr (new, stop, s')" and "all_ok s" and "\<not> is_finished (sd_store s r)"
  shows "all_ok s' \<and> sd_streaming s' = sd_streaming s"
proof (cases "sc_async cfg")
  case False
  then show ?thesis using assms grown_ok[of "sd_store s r" toks]
    by (auto simp: update_request_with_output_def Let_def all_ok_def elim!: bindE_InrE)
next
  case True
  note q = assms(1)[unfolded update_request_with_output_def Let_def]
  have P: "P (sd_store s r)" using assms(2) by (simp add: all_ok_def)
  show ?thesis
  proof (cases "async_tokens_to_discard (sd_store s r) > 0")
    case dis: True
    have "s' = s\<lparr>sd_store := upd_req r (\<lambda>r. r\<lparr>async_tokens_to_discard := async_tokens_to_discard r - 1\<rparr>) (sd_store s)\<rparr>"
      using q True dis by simp
    then show ?thesis using discard_ok[OF P True] assms(2) by (auto simp: all_ok_def upd_req_def manager_eq_def)
  next
    case nd: False
    then obtain r' k km where "append_until_stop cfg [] toks (sd_store s r) = Inr (new, stop, r')"
      "s' = s\<lparr>sd_store := (sd_store s)(r := r'\<lparr>num_output_placeholders := k\<rparr>), sd_km := km\<rparr>"
      using q True by (auto elim!: bindE_InrE)
    moreover from this have "P (r'\<lparr>num_output_placeholders := k\<rparr>)"
      using placeholders_ok[OF grown_ok[OF P assms(3)] True] by blast
    ultimately show ?thesis using assms(2) by (simp add: all_ok_def manager_eq_def)
  qed
qed

lemma take_output_ok:
  assumes "take_output cfg r gen pooled s = Inr (toks, stop, s')" and "all_ok s" and "\<not> is_finished (sd_store s r)"
  shows "all_ok s' \<and> sd_streaming s' = sd_streaming s"
proof -
  have "P ((sd_store s r)\<lparr>status := FINISHED_STOPPED\<rparr>)"
    using assms(2) by (intro finished_ok) (simp_all add: all_ok_def status_is_finished_def)
  then show ?thesis
    using assms update_request_ok[of r gen s toks stop s'] all_ok_upd[OF assms(2), of "\<lambda>x. x\<lparr>status := FINISHED_STOPPED\<rparr>" r]
    by (auto simp: take_output_def split: if_splits)
qed

lemma check_grammar_ok:
  assumes "check_grammar advance accepts r toks stop s = Inr (stop', s')" and "all_ok s"
  shows "all_ok s' \<and> sd_streaming s' = sd_streaming s"
proof -
  have "P ((sd_store s r)\<lparr>status := FINISHED_ERROR, resumable := False\<rparr>)"
    using assms(2) by (intro error_ok) (simp add: all_ok_def)
  then show ?thesis
    using assms all_ok_upd[OF assms(2), of "\<lambda>x. x\<lparr>status := FINISHED_ERROR, resumable := False\<rparr>" r]
    by (auto simp: check_grammar_def elim!: bindE_InrE split: if_splits)
qed

lemma emit_ok:
  assumes "all_ok (us_sched u)"
  shows "all_ok (us_sched (emit r toks reason pooled u)) \<and> sd_streaming (us_sched (emit r toks reason pooled u)) = sd_streaming (us_sched u)"
proof -
  obtain f where f: "us_sched (emit r toks reason pooled u) = us_sched u\<lparr>sd_store := (sd_store (us_sched u))(r := f)\<rparr>"
    "f = snd (take_prefill_stats (snd (take_events (sd_store (us_sched u) r))))"
    by (simp add: emit_def Let_def split: prod.split)
  have "P (sd_store (us_sched u) r)" using assms by (simp add: all_ok_def)
  then have "P f" unfolding f(2) using events_ok stats_ok
    by (auto simp: take_events_def take_prefill_stats_def split: option.split)
  then show ?thesis using assms by (simp add: f(1) all_ok_def manager_eq_def)
qed

lemma settle_ok:
  assumes "settle_output cfg ts nans r bef toks stop pooled s u = Inr u'" and "all_ok s"
  shows "all_ok (us_sched u') \<and> sd_streaming (us_sched u') = sd_streaming s"
proof -
  have nr: "\<not> resumable (sd_store s r)" using assms(2) not_resumable by (simp add: all_ok_def)
  from assms(1) nr show ?thesis
  proof (cases rule: settle_cases)
    case (1 s1 v)
    have s1: "all_ok s1" "sd_streaming s1 = sd_streaming s"
      using 1(1) free_request_kept(4)[of False r s s1] free_request_streaming[of False r s s1] all_ok_eq[OF assms(2), of s1] assms(2)
      by (cases stop; simp)+
    then have "all_ok (us_sched v)" "sd_streaming (us_sched v) = sd_streaming s"
      using nans_ok by (auto simp: 1(2) with_nans_def all_ok_def upd_req_def split: option.split)
    then show ?thesis using 1(3) emit_ok[of v] by auto
  qed
qed

lemma update_one_ok:
  assumes "update_one cfg ts advance accepts drafts ro (r, n) u = Inr u'" and "all_ok (us_sched u)"
  shows "all_ok (us_sched u') \<and> sd_streaming (us_sched u') = sd_streaming (us_sched u)"
  using assms(1)
proof (cases rule: update_one_cases)
  case (taken s2 gen em toks stop0 s3 stop s4 pooled)
  have "all_ok s2" "\<not> is_finished (sd_store s2 r)" "sd_streaming s2 = sd_streaming (us_sched u)"
    using assms(2) taken(2) drafts_ok by (simp_all add: taken(3) all_ok_def upd_req_def is_finished_def)
  then show ?thesis
    using take_output_ok[OF taken(4)] check_grammar_ok[OF taken(5)] settle_ok[OF taken(6)] by simp
qed (use assms(2) in simp)

lemma update_from_output_ok:
  assumes "update_from_output cfg ts advance accepts tokens drafts ro s = Inr (outs, s')" and "all_ok s"
  shows "all_ok s' \<and> sd_streaming s' = sd_streaming s"
proof -
  define u0 where "u0 = \<lparr>us_sched = s, us_running = {}, us_preempted = [], us_outs = Map.empty\<rparr>"
  obtain u where f: "foldE (update_one cfg ts advance accepts drafts ro) tokens u0 = Inr u"
    and s': "sd_store s' = sd_store (us_sched u)" "sd_streaming s' = sd_streaming (us_sched u)"
    using assms(1) unfolding update_from_output_def Let_def u0_def
    by (auto elim!: bindE_InrE split: prod.splits)
  have "all_ok (us_sched u) \<and> sd_streaming (us_sched u) = sd_streaming s"
  proof (rule foldE_invariant[OF f, where P = "\<lambda>u. all_ok (us_sched u) \<and> sd_streaming (us_sched u) = sd_streaming s"])
    fix x u u' assume "update_one cfg ts advance accepts drafts ro x u = Inr u'"
      "all_ok (us_sched u) \<and> sd_streaming (us_sched u) = sd_streaming s"
    then show "all_ok (us_sched u') \<and> sd_streaming (us_sched u') = sd_streaming s"
      using update_one_ok[of ts advance accepts drafts ro "fst x" "snd x" u u'] by simp
  qed (simp add: u0_def assms(2))
  then show ?thesis using s' all_ok_eq[of "us_sched u" s'] by simp
qed

end

end
