(* ===== verification/Engine_Correct.thy ===== *)
theory Engine_Correct
  imports Engine_Proc Schedule_Agreement Update_Frame
begin

text \<open>
  The engine keeps its scheduler in order. \<open>reached\<close> describes the runs of an engine:
  requests are added and aborted, steps are taken with aborts arriving while the model runs,
  scheduling is paused and resumed. \<open>in_order\<close> is the invariant of these runs, for
  requests that are no streaming sessions and a scheduler that is not asynchronous.
\<close>

section \<open>What every request object satisfies\<close>

text \<open>A generation request stays within its token limit and is below it until it is
  finished.\<close>

definition within_limit :: "request \<Rightarrow> bool" where
  "within_limit r \<longleftrightarrow> (\<forall>sp. sampling_params r = Some sp \<longrightarrow> pooling_params r = None \<longrightarrow>
     min_tokens sp \<le> max_tokens r \<and> num_output_tokens r \<le> max_tokens r
     \<and> (is_finished r \<or> num_output_tokens r < max_tokens r))"

text \<open>With \<open>small\<close>, no request is so large that it could be ignored.\<close>

definition served :: "sched_config \<Rightarrow> bool \<Rightarrow> request \<Rightarrow> bool" where
  "served cfg small r \<longleftrightarrow> \<not> resumable r \<and> (\<not> sc_async cfg \<longrightarrow> num_output_placeholders r = 0) \<and> tokens_wf r \<and> within_limit r
     \<and> status r \<notin> {WAITING_FOR_REMOTE_KVS, WAITING_FOR_STREAMING_REQ} \<and> (small \<longrightarrow> \<not> ignorable cfg r)"

text \<open>Appending tokens and stopping change only the tokens, the hashes, the status and the
  stop reason.\<close>

definition stop_core :: "request \<Rightarrow> request" where
  "stop_core r = r\<lparr>status := WAITING, stop_reason := None\<rparr>"

lemma check_stop_core: "check_stop r n = Inr (b, r') \<Longrightarrow> stop_core r' = stop_core r"
  by (auto simp: check_stop_def bindE_def stop_core_def split: option.splits if_splits sum.splits)

lemma stop_core_fields:
  assumes "stop_core r = stop_core r'"
  shows "resumable r = resumable r'" "num_output_placeholders r = num_output_placeholders r'"
    "num_prompt_tokens r = num_prompt_tokens r'" "mm_features r = mm_features r'"
    "prompt_token_ids r = prompt_token_ids r'" "output_token_ids r = output_token_ids r'"
    "all_token_ids r = all_token_ids r'" "max_tokens r = max_tokens r'" "sampling_params r = sampling_params r'"
    "pooling_params r = pooling_params r'"
  using assms[THEN arg_cong[where f = resumable]] assms[THEN arg_cong[where f = num_output_placeholders]]
    assms[THEN arg_cong[where f = num_prompt_tokens]] assms[THEN arg_cong[where f = mm_features]]
    assms[THEN arg_cong[where f = prompt_token_ids]] assms[THEN arg_cong[where f = output_token_ids]]
    assms[THEN arg_cong[where f = all_token_ids]] assms[THEN arg_cong[where f = max_tokens]]
    assms[THEN arg_cong[where f = sampling_params]] assms[THEN arg_cong[where f = pooling_params]]
  by (simp_all add: stop_core_def)

lemma append_more_fields [simp]:
  "num_output_placeholders (append_output_token_ids h ts r) = num_output_placeholders r"
  "num_prompt_tokens (append_output_token_ids h ts r) = num_prompt_tokens r"
  "mm_features (append_output_token_ids h ts r) = mm_features r"
  by (auto simp: append_output_token_ids_def update_block_hashes_def split: option.split)

lemma grown_more_fields [simp]:
  "num_output_placeholders (grown cfg toks r) = num_output_placeholders r"
  "num_prompt_tokens (grown cfg toks r) = num_prompt_tokens r"
  "mm_features (grown cfg toks r) = mm_features r"
  by (induction toks arbitrary: r) (simp_all add: grown_Cons, simp_all add: grown_def)

lemma tokens_wf_grown: "tokens_wf r \<Longrightarrow> tokens_wf (grown cfg toks r)"
  by (induction toks arbitrary: r) (simp_all add: grown_Cons tokens_wf_append, simp add: grown_def)

lemma tokens_wf_core: "stop_core r = stop_core r' \<Longrightarrow> tokens_wf r = tokens_wf r'"
  using stop_core_fields[of r r'] by (simp add: tokens_wf_def num_tokens_def)

lemma check_stop_below:
  assumes "check_stop r n = Inr (False, r')" and "sampling_params r = Some sp" and "min_tokens sp \<le> max_tokens r"
  shows "num_output_tokens r < max_tokens r"
  using assms by (auto simp: check_stop_def bindE_def split: if_splits option.splits sum.splits)

lemma append_going_on:
  assumes a: "append_until_stop cfg [] toks r = Inr (new, False, r')" and "sampling_params r = Some sp"
    and "min_tokens sp \<le> max_tokens r" and "num_output_tokens r < max_tokens r"
  shows "num_output_tokens r' < max_tokens r"
proof -
  obtain k where k: "k = length toks" "r' = grown cfg toks r"
    and go: "0 < k \<Longrightarrow> check_stop (grown cfg toks r) (sc_max_len cfg) = Inr (False, r')"
    using append_until_stop_cases[OF a] by auto
  show ?thesis
  proof (cases "toks = []")
    case True
    then show ?thesis using k assms(4) by (simp add: grown_def)
  next
    case False
    then show ?thesis using check_stop_below[OF go, of sp] k assms(2,3) by simp
  qed
qed

lemma finished_status:
  "status_is_finished st \<Longrightarrow> st \<notin> {WAITING, RUNNING, PREEMPTED, WAITING_FOR_REMOTE_KVS, WAITING_FOR_STREAMING_REQ,
     WAITING_FOR_STRUCTURED_OUTPUT_GRAMMAR}"
  by (auto simp: status_is_finished_def)

lemma served_grown:
  assumes "served cfg small r" and "\<not> is_finished r" and a: "append_until_stop cfg' [] toks r = Inr (new, stop, r')"
  shows "served cfg small r'"
proof -
  obtain k where k: "k \<le> length toks" "if stop then check_stop (grown cfg' (take k toks) r) (sc_max_len cfg') = Inr (True, r')
       else k = length toks \<and> r' = grown cfg' toks r"
    using append_until_stop_cases[OF a] by (auto split: if_splits)
  have r': "stop_core r' = stop_core (grown cfg' (take k toks) r)"
    using k check_stop_core by (cases stop) simp_all
  have stop: "stop \<longrightarrow> check_stop (grown cfg' (take k toks) r) (sc_max_len cfg') = Inr (True, r')"
    using k(2) by simp
  note f = stop_core_fields[OF r', simplified]
  have "tokens_wf r'" using tokens_wf_core[OF r'] tokens_wf_grown assms(1) by (simp add: served_def)
  moreover have "status r' \<notin> {WAITING_FOR_REMOTE_KVS, WAITING_FOR_STREAMING_REQ}"
  proof (cases stop)
    case True
    then have "is_finished r'" using stop check_stop_True_finished by blast
    then show ?thesis using finished_status[of "status r'"] by (auto simp: is_finished_def)
  next
    case False
    then show ?thesis using append_until_stop_kept[OF a] assms(1) by (simp add: served_def)
  qed
  moreover have "within_limit r'"
    unfolding within_limit_def
  proof (intro allI impI)
    fix sp assume sp: "sampling_params r' = Some sp" "pooling_params r' = None"
    then have r: "min_tokens sp \<le> max_tokens r" "num_output_tokens r < max_tokens r"
      using assms(1,2) f by (auto simp: served_def within_limit_def)
    have sp': "sampling_params r = Some sp" using sp f by simp
    from append_within_limit[OF a this r assms(2)] have lim: "num_output_tokens r' \<le> max_tokens r"
      "stop \<longrightarrow> is_finished r'"
      by auto
    moreover have "is_finished r' \<or> num_output_tokens r' < max_tokens r"
      using lim(2) append_going_on[of cfg' toks r new r', OF _ sp' r] a by (cases stop) simp_all
    ultimately show "min_tokens sp \<le> max_tokens r' \<and> num_output_tokens r' \<le> max_tokens r'
        \<and> (is_finished r' \<or> num_output_tokens r' < max_tokens r')"
      using r f by simp
  qed
  ultimately show ?thesis using assms(1) f by (simp add: served_def ignorable_def has_encoder_inputs_def num_encoder_inputs_def)
qed

interpretation served: output_invariant cfg "served cfg small"
proof
  fix r st assume "served cfg small r" "status_is_finished st"
  then show "served cfg small (r\<lparr>status := st\<rparr>)"
    using finished_status[of st]
    by (auto simp: served_def within_limit_def tokens_wf_def num_tokens_def num_output_tokens_def ignorable_def
        has_encoder_inputs_def num_encoder_inputs_def is_finished_def)
next
  fix r d g assume "served cfg small r"
  then show "served cfg small (reject_drafts d g r)"
    by (auto simp: reject_drafts_def Let_def served_def within_limit_def tokens_wf_def num_tokens_def
        num_output_tokens_def ignorable_def has_encoder_inputs_def num_encoder_inputs_def is_finished_def split: option.split)
qed (auto intro: served_grown, auto simp: served_def within_limit_def tokens_wf_def num_tokens_def num_output_tokens_def
    ignorable_def has_encoder_inputs_def num_encoder_inputs_def is_finished_def)

section \<open>A scheduler in order\<close>

definition in_order :: "sched_config \<Rightarrow> bool \<Rightarrow> scheduler \<Rightarrow> bool" where
  "in_order cfg small s \<longleftrightarrow> tracked s \<and> linked s \<and> (\<forall>r. served cfg small (sd_store s r))
     \<and> (\<forall>r \<in> set (sd_requests s). \<not> is_finished (sd_store s r))
     \<and> skipped_req_ids (sd_qm s) = {} \<and> ignored_req_ids (sd_qm s) = {} \<and> sd_streaming s = 0"

lemma in_orderD:
  assumes "in_order cfg small s"
  shows "tracked s" "linked s" "served cfg small (sd_store s r)" "skipped_req_ids (sd_qm s) = {}"
    "ignored_req_ids (sd_qm s) = {}" "r \<in> set (sd_requests s) \<Longrightarrow> \<not> is_finished (sd_store s r)"
    "\<not> resumable (sd_store s r)" "status (sd_store s r) \<noteq> WAITING_FOR_REMOTE_KVS" "sd_streaming s = 0"
  using assms by (auto simp: in_order_def served_def)

lemma served_core:
  assumes "core r' = core r" and "served cfg small r"
    and "status r' = status r \<or> status r' \<in> {RUNNING, PREEMPTED, FINISHED_IGNORED}"
    and "is_finished r \<longrightarrow> is_finished r'"
  shows "served cfg small r'"
proof -
  note f = core_fields[OF assms(1)]
  have "tokens_wf r' = tokens_wf r" using f by (simp add: tokens_wf_def num_tokens_def)
  moreover have "within_limit r'"
    using assms(2,4) f by (auto simp: served_def within_limit_def num_output_tokens_def)
  ultimately show ?thesis
    using assms(2,3) f by (auto simp: served_def ignorable_def has_encoder_inputs_def num_encoder_inputs_def)
qed

text \<open>The requests in the queues are those of the table.\<close>

lemma tracked_known:
  "tracked s \<Longrightarrow> r \<in> set (sd_running s) \<Longrightarrow> r \<in> set (sd_requests s)"
  "tracked s \<Longrightarrow> r \<in># queued (sd_waiting s) \<Longrightarrow> r \<in> set (sd_requests s)"
  using tracked_set[of s] by (auto simp: all_queued_def)

lemma in_order_schedule:
  assumes run: "schedule cfg ts now now' s = Some (Inr (out, s'))" and ord: "in_order cfg small s"
    and "\<not> sc_async cfg" and "told_apart cfg s"
    and ign: "ignored_req_ids (sd_qm s') = {}"
  shows "in_order cfg small s'" and "distinct (map fst (so_tokens out))"
    and "r \<in> fst ` set (so_tokens out) \<Longrightarrow> r \<in> set (sd_requests s) \<and> r \<notin># queued (sd_skipped s')"
    and "set (sd_requests s') = set (sd_requests s)"
proof -
  define lt where "lt = (\<lambda>(_ :: rid) (_ :: rid). False)"
  note o = in_orderD[OF ord]
  have d: "distinct (sd_running s @ queue_iter lt (sd_waiting s))"
    and ds: "(set (sd_running s) \<union> set (queue_iter lt (sd_waiting s))) \<inter> set_mset (queued (sd_skipped s)) = {}"
    using tracked_distinct[OF o(1), of lt lt] by (auto simp: queued_set[where lt = lt])
  have will: "\<forall>r. r \<in># queued (sd_waiting s) \<longrightarrow> \<not> will_finish (sd_store s r)"
    using o(3) assms(3) by (simp add: served_def will_finish_def)
  note link = schedule_linked[OF run o(1,2) assms(4) will ign]
  note keep = schedule_requests[OF run d]
  note noticed = schedule_noticed[OF run d]
  have req: "set (sd_requests s') = set (sd_requests s)"
  proof -
    have "all_queued s' = all_queued s" using keep by (simp add: all_queued_def queued_iter)
    then show ?thesis using tracked_set link o(1) by metis
  qed
  have known: "r \<in> set (sd_requests s)" if "r \<in> set (sd_running s) \<union> set_mset (queued (sd_waiting s))" for r
    using that tracked_known[OF o(1)] by auto
  have fast: "fast_path (sd_qm s')" using noticed(2) o(4) ign by (simp add: fast_path_def)
  have unfinished: "\<not> is_finished (sd_store s' r)" if "\<not> is_finished (sd_store s r)" for r
  proof -
    have "status (sd_store s r) \<noteq> FINISHED_IGNORED" using that by (auto simp: is_finished_def status_is_finished_def)
    then have "status (sd_store s' r) \<noteq> FINISHED_IGNORED" using noticed(1)[OF fast] by blast
    then show ?thesis using schedule_core(2)[OF run assms(3), of r] that
      by (auto simp: is_finished_def status_is_finished_def)
  qed
  have finished: "is_finished (sd_store s' r)" if "is_finished (sd_store s r)" for r
  proof -
    have "r \<notin> set (sd_requests s)" using o(6) that by blast
    moreover have "status (sd_store s r) \<noteq> RUNNING" using that by (auto simp: is_finished_def status_is_finished_def)
    ultimately have "status (sd_store s' r) = status (sd_store s r)"
      using schedule_core(2)[OF run assms(3), of r] known by blast
    then show ?thesis using that by (simp add: is_finished_def)
  qed
  have "served cfg small (sd_store s' r)" for r
    using served_core[OF schedule_core(1)[OF run assms(3)] o(3), of r] schedule_core(2)[OF run assms(3), of r] finished
    by blast
  moreover have "sd_streaming s' = 0"
    using run o(9) by (cases rule: schedule_cases) (simp add: finish_step_fields(5))
  ultimately show "in_order cfg small s'"
    using link unfinished o(4,6) req noticed(2) ign by (simp add: in_order_def)
  show "distinct (map fst (so_tokens out))" by (rule noticed(3))
  show "r \<in> set (sd_requests s) \<and> r \<notin># queued (sd_skipped s')" if "r \<in> fst ` set (so_tokens out)"
  proof -
    have r: "r \<in> set (sd_running s) \<union> set (queue_iter lt (sd_waiting s))" using keep that by blast
    then have "r \<in> set (sd_running s) \<union> set_mset (queued (sd_waiting s))" by (simp add: queued_set[where lt = lt])
    then show ?thesis using known keep ds r by auto
  qed
  show "set (sd_requests s') = set (sd_requests s)" by (rule req)
qed

lemma finish_requests_skipped:
  assumes "finish_requests cfg ids st s = Inr (outs, s')"
  shows "set_mset (queued (sd_skipped s')) \<subseteq> set_mset (queued (sd_skipped s))"
    and "\<forall>r. status (sd_store s r) \<noteq> WAITING_FOR_STREAMING_REQ \<Longrightarrow> sd_streaming s' = sd_streaming s"
proof -
  define start where "start = (let valid = filter (\<lambda>r. r \<in> set (sd_requests s) \<and> \<not> is_finished (sd_store s r)) ids;
           run = filter (\<lambda>r. status (sd_store s r) = RUNNING) valid;
           wait = filter (\<lambda>r. status (sd_store s r) \<noteq> RUNNING) valid;
           streaming = length (filter (\<lambda>r. status (sd_store s r) = WAITING_FOR_STREAMING_REQ) wait);
           lt = sched_lt cfg (sd_store s) in
      s\<lparr>sd_streaming := sd_streaming s - int streaming,
                  sd_running := (if run = [] then sd_running s else remove_all (sd_running s) (set run)),
                  sd_waiting := (if wait = [] then sd_waiting s else remove_requests lt wait (sd_waiting s)),
                  sd_skipped := (if wait = [] then sd_skipped s else remove_requests lt wait (sd_skipped s))\<rparr>)"
  have s1: "set_mset (queued (sd_skipped start)) \<subseteq> set_mset (queued (sd_skipped s))"
    by (auto simp: start_def Let_def)
  obtain xs where f: "foldE (finish_one st) xs start = Inr s'"
    using assms unfolding finish_requests_def start_def Let_def by (elim bindE_InrE) simp
  have keep: "sd_skipped s' = sd_skipped start \<and> sd_streaming s' = sd_streaming start"
  proof (rule foldE_invariant[OF f, where P = "\<lambda>x. sd_skipped x = sd_skipped start \<and> sd_streaming x = sd_streaming start"])
    fix r x y assume "sd_skipped x = sd_skipped start \<and> sd_streaming x = sd_streaming start" "finish_one st r x = Inr y"
    then show "sd_skipped y = sd_skipped start \<and> sd_streaming y = sd_streaming start"
      unfolding finish_one_def by (simp add: free_request_kept(3) free_request_streaming)
  qed simp
  then show "set_mset (queued (sd_skipped s')) \<subseteq> set_mset (queued (sd_skipped s))" using s1 by simp
  show "sd_streaming s' = sd_streaming s" if "\<forall>r. status (sd_store s r) \<noteq> WAITING_FOR_STREAMING_REQ"
    using keep that by (simp add: start_def Let_def)
qed

lemma in_order_finish:
  assumes run: "finish_requests cfg ids st s = Inr (outs, s')" and ord: "in_order cfg small s"
    and "status_is_finished st"
  shows "in_order cfg small s'" and "set (sd_requests s') = set (sd_requests s) - set ids"
    and "sd_running s' = filter (\<lambda>r. r \<notin> set ids) (sd_running s)" and "sd_qm s' = sd_qm s"
    and "set_mset (queued (sd_skipped s')) \<subseteq> set_mset (queued (sd_skipped s))"
proof -
  note o = in_orderD[OF ord]
  have "\<forall>r. status (sd_store s r) \<noteq> WAITING_FOR_REMOTE_KVS" using o(8) by blast
  note eff = finish_requests_effect[OF run o(1,2) this]
  have req: "r \<in> set (requested ids s) \<longleftrightarrow> r \<in> set ids \<and> r \<in> set (sd_requests s)" for r
    using o(6) by (auto simp: requested_def)
  have "served cfg small (sd_store s' r)" for r
    using eff served.finished_ok[OF o(3) assms(3)] o(3) by simp
  moreover have "\<not> is_finished (sd_store s' r)" if "r \<in> set (sd_requests s')" for r
    using eff that o(6) by auto
  moreover have qm: "sd_qm s' = sd_qm s" using finish_requests_manager[OF run] by (simp add: manager_eq_def)
  moreover have "sd_streaming s' = 0"
    using finish_requests_skipped(2)[OF run] o(3,9) by (simp add: served_def)
  ultimately show "in_order cfg small s'" using eff o(4,5) by (simp add: in_order_def)
  show "set (sd_requests s') = set (sd_requests s) - set ids" using eff req by auto
  have "sd_running s' = filter (\<lambda>r. r \<notin> set (requested ids s)) (sd_running s)" using eff by blast
  also have "\<dots> = filter (\<lambda>r. r \<notin> set ids) (sd_running s)"
    using req tracked_known(1)[OF o(1)] by (intro filter_cong) auto
  finally show "sd_running s' = filter (\<lambda>r. r \<notin> set ids) (sd_running s)" .
  show "sd_qm s' = sd_qm s" by (rule qm)
  show "set_mset (queued (sd_skipped s')) \<subseteq> set_mset (queued (sd_skipped s))"
    by (rule finish_requests_skipped(1)[OF run])
qed

lemma in_order_output:
  assumes run: "update_from_output cfg ts advance accepts tokens drafts ro s = Inr (outs, s')"
    and ord: "in_order cfg small s" and "distinct (map fst tokens)"
    and "\<forall>r \<in> fst ` set tokens. r \<notin># queued (sd_skipped s)"
  shows "in_order cfg small s'"
proof -
  note o = in_orderD[OF ord]
  have "\<forall>r \<in> fst ` set tokens. \<not> resumable (sd_store s r) \<and> r \<notin># queued (sd_skipped s)"
    using o(7) assms(4) by blast
  from update_from_output_effect[OF run o(1,2) assms(3) this] obtain stopped where
    eff: "tracked s' \<and> linked s'" "stopped = {r. is_finished (sd_store s' r) \<and> \<not> is_finished (sd_store s r)}"
      "sd_requests s' = filter (\<lambda>r. r \<notin> stopped) (sd_requests s)"
    by blast
  have "served.all_ok cfg small s" using o(3) by (simp add: served.all_ok_def)
  from served.update_from_output_ok[OF run this]
  have "\<forall>r. served cfg small (sd_store s' r)" "sd_qm s' = sd_qm s" "sd_streaming s' = 0"
    using o(9) update_from_output_manager[OF run] by (simp_all add: served.all_ok_def manager_eq_def)
  moreover have "\<not> is_finished (sd_store s' r)" if "r \<in> set (sd_requests s')" for r
    using that o(6) unfolding eff(2,3) by auto
  ultimately show ?thesis using eff(1) o(4,5) by (simp add: in_order_def)
qed

lemma in_order_upd:
  assumes "in_order cfg small s" and "served cfg small (f (sd_store s r))" and "status (f (sd_store s r)) = status (sd_store s r)"
  shows "in_order cfg small (s\<lparr>sd_store := upd_req r f (sd_store s)\<rparr>)"
proof -
  have "status (upd_req r f (sd_store s) x) = status (sd_store s x)" for x using assms(3) by (cases "x = r") simp_all
  moreover have "served cfg small (upd_req r f (sd_store s) x)" for x
    using assms(1,2) by (cases "x = r") (simp_all add: in_order_def)
  ultimately show ?thesis using assms(1) by (simp add: in_order_def tracked_def linked_def is_finished_def)
qed

lemma served_spec: "served cfg small r \<Longrightarrow> served cfg small (r\<lparr>spec_token_ids := ts\<rparr>)"
  "served cfg small r \<Longrightarrow> served cfg small (r\<lparr>streaming_queue := q\<rparr>)"
  "served cfg small r \<Longrightarrow> served cfg small (log_event cfg' ty t r)"
  by (auto simp: served_def within_limit_def tokens_wf_def num_tokens_def num_output_tokens_def log_event_def
      record_event_def ignorable_def has_encoder_inputs_def num_encoder_inputs_def is_finished_def)

lemma in_order_drafts: "in_order cfg small s \<Longrightarrow> in_order cfg small (update_draft_token_ids advance validates ds s)"
  unfolding update_draft_token_ids_def
proof (induction ds arbitrary: s)
  case (Cons d ds)
  have "in_order cfg small (draft_one advance validates d s)"
    unfolding draft_one_def Let_def
    using Cons.prems in_orderD(3)[OF Cons.prems]
    by (auto split: prod.split intro!: in_order_upd served_spec)
  then show ?case using Cons.IH by simp
qed simp

text \<open>A new request: waiting, without output.\<close>

lemma in_order_add:
  assumes run: "sched_add_request cfg ts r s = Inr s'" and ord: "in_order cfg small s"
    and r: "served cfg small r" "status r \<in> {WAITING, WAITING_FOR_STRUCTURED_OUTPUT_GRAMMAR}"
  shows "in_order cfg small s'" and "set (sd_requests s') = insert (request_id r) (set (sd_requests s))"
    and "sd_qm s' = sd_qm s"
proof -
  let ?id = "request_id r"
  note o = in_orderD[OF ord]
  have "in_order cfg small s' \<and> set (sd_requests s') = insert ?id (set (sd_requests s)) \<and> sd_qm s' = sd_qm s"
  proof (cases "?id \<in> set (sd_requests s)")
    case True
    have "status (sd_store s ?id) \<noteq> WAITING_FOR_STREAMING_REQ" using o(3)[of ?id] by (simp add: served_def)
    then obtain q where "s' = s\<lparr>sd_store := upd_req ?id (\<lambda>o'. o'\<lparr>streaming_queue := Some q\<rparr>) (sd_store s)\<rparr>"
      using run True by (auto simp: sched_add_request_def Let_def split: option.splits)
    then show ?thesis using in_order_upd[OF ord] served_spec(2)[OF o(3)] True by auto
  next
    case False
    have nr: "\<not> resumable r" using r(1) by (simp add: served_def)
    define s1 where "s1 = enqueue_waiting_request cfg ?id (s\<lparr>sd_store := (sd_store s)(?id := r)\<rparr>)"
    have s': "s' = s1\<lparr>sd_requests := sd_requests s1 @ [?id], sd_store := upd_req ?id (log_event cfg QUEUED ts) (sd_store s1)\<rparr>"
      using run False nr by (simp add: sched_add_request_def Let_def s1_def)
    have st: "sd_store s' = (sd_store s)(?id := log_event cfg QUEUED ts r)"
      by (auto simp: s' s1_def upd_req_def)
    have status: "status (log_event cfg QUEUED ts r) = status r" by (simp add: log_event_def record_event_def)
    have qm: "sd_qm s' = sd_qm s" by (simp add: s' s1_def enqueue_waiting_request_def)
    have tr: "tracked s'" "sd_requests s' = sd_requests s @ [?id]" using add_new_tracked[OF run o(1) False] by blast+
    have notin: "?id \<notin> set (sd_running s)" using tracked_known(1)[OF o(1)] False by blast
    have all: "x \<in># queued (sd_waiting s') + queued (sd_skipped s') \<Longrightarrow>
        x = ?id \<or> x \<in># queued (sd_waiting s) + queued (sd_skipped s)" for x
      by (auto simp: s' s1_def enqueue_waiting_request_def split: if_splits)
    have "sd_running s' = sd_running s" by (simp add: s' s1_def)
    then have "linked s'"
      using o(2) notin r(2) all unfolding linked_def st by (auto simp: status)
    moreover have "\<forall>x. served cfg small (sd_store s' x)" using o(3) served_spec(3)[OF r(1)] by (simp add: st)
    moreover have "\<not> is_finished r" using r(2) by (auto simp: is_finished_def status_is_finished_def)
    then have "\<forall>x \<in> set (sd_requests s'). \<not> is_finished (sd_store s' x)"
      using o(6) by (simp add: tr(2) st is_finished_def status)
    moreover have "sd_streaming s' = 0" using o(9) by (simp add: s' s1_def enqueue_waiting_request_def)
    ultimately show ?thesis using tr o(4,5) by (auto simp: in_order_def qm)
  qed
  then show "in_order cfg small s'" and "set (sd_requests s') = insert ?id (set (sd_requests s))"
    and "sd_qm s' = sd_qm s" by blast+
qed

section \<open>The engine\<close>

lemma abort_in_order:
  assumes "abort_requests cfg ids e = Inr e'" and "in_order (eg_sched cfg) small (en_sched e)"
  shows "in_order (eg_sched cfg) small (en_sched e')"
    and "set (sd_requests (en_sched e')) = set (sd_requests (en_sched e)) - set ids"
    and "sd_qm (en_sched e') = sd_qm (en_sched e)"
    and "set_mset (queued (sd_skipped (en_sched e'))) \<subseteq> set_mset (queued (sd_skipped (en_sched e)))"
    and "en_aborts e' = en_aborts e" "en_batches e' = en_batches e"
proof -
  obtain outs s where f: "finish_requests (eg_sched cfg) (remdups ids) FINISHED_ABORTED (en_sched e) = Inr (outs, s)"
    and e': "e' = e\<lparr>en_sched := s\<rparr>"
    using assms(1) by (auto simp: abort_requests_def elim!: bindE_InrE)
  note fin = in_order_finish[OF f assms(2)]
  show "in_order (eg_sched cfg) small (en_sched e')"
    "set (sd_requests (en_sched e')) = set (sd_requests (en_sched e)) - set ids"
    "sd_qm (en_sched e') = sd_qm (en_sched e)"
    "set_mset (queued (sd_skipped (en_sched e'))) \<subseteq> set_mset (queued (sd_skipped (en_sched e)))"
    "en_aborts e' = en_aborts e" "en_batches e' = en_batches e"
    using fin by (simp_all add: e' status_is_finished_def)
qed

lemma process_aborts_in_order:
  assumes "process_aborts_queue cfg e = Inr e'" and "in_order (eg_sched cfg) small (en_sched e)"
  shows "in_order (eg_sched cfg) small (en_sched e')"
    and "set (sd_requests (en_sched e')) = set (sd_requests (en_sched e)) - set (concat (en_aborts e))"
    and "sd_qm (en_sched e') = sd_qm (en_sched e)"
    and "set_mset (queued (sd_skipped (en_sched e'))) \<subseteq> set_mset (queued (sd_skipped (en_sched e)))"
    and "en_aborts e' = []" "en_batches e' = en_batches e"
proof -
  have "in_order (eg_sched cfg) small (en_sched e')
    \<and> set (sd_requests (en_sched e')) = set (sd_requests (en_sched e)) - set (concat (en_aborts e))
    \<and> sd_qm (en_sched e') = sd_qm (en_sched e)
    \<and> set_mset (queued (sd_skipped (en_sched e'))) \<subseteq> set_mset (queued (sd_skipped (en_sched e)))
    \<and> en_aborts e' = [] \<and> en_batches e' = en_batches e"
  proof (cases "en_aborts e = []")
    case True
    then show ?thesis using assms by (simp add: process_aborts_queue_def)
  next
    case False
    then have "abort_requests cfg (concat (en_aborts e)) (e\<lparr>en_aborts := []\<rparr>) = Inr e'"
      using assms(1) by (simp add: process_aborts_queue_def)
    from abort_in_order[OF this] assms(2) show ?thesis by simp
  qed
  then show "in_order (eg_sched cfg) small (en_sched e')"
    and "set (sd_requests (en_sched e')) = set (sd_requests (en_sched e)) - set (concat (en_aborts e))"
    and "sd_qm (en_sched e') = sd_qm (en_sched e)"
    and "set_mset (queued (sd_skipped (en_sched e'))) \<subseteq> set_mset (queued (sd_skipped (en_sched e)))"
    and "en_aborts e' = []" "en_batches e' = en_batches e" by blast+
qed

text \<open>One step, taken apart.\<close>

lemma engine_step_cases:
  assumes "engine_step cfg ev e = Some (Inr (outs, ex, e'))"
  obtains (idle) "\<not> has_requests (en_sched e)" "outs = Map.empty" "e' = e"
  | (busy) out s mo e1 s2 where "has_requests (en_sched e)"
      "schedule (eg_sched cfg) (ev_ts ev) (ev_now ev) (ev_prio ev) (en_sched e) = Some (Inr (out, s))"
      "process_aborts_queue cfg (e\<lparr>en_sched := s, en_aborts := en_aborts e @ ev_late ev\<rparr>) = Inr e1"
      "update_from_output (eg_sched cfg) (ev_update ev) (ev_advance ev) (ev_accepts ev) (so_tokens out) (so_spec out)
         mo (en_sched e1) = Inr (outs, s2)"
      "e' = e1\<lparr>en_sched := s2\<rparr>" "ex = (so_total out > 0)"
proof (cases "has_requests (en_sched e)")
  case False
  then show thesis using idle assms by (simp add: engine_step_def)
next
  case True
  then obtain out s mo where sch: "schedule (eg_sched cfg) (ev_ts ev) (ev_now ev) (ev_prio ev) (en_sched e) = Some (Inr (out, s))"
    and fin: "finish_batch cfg ev out mo (e\<lparr>en_sched := s\<rparr>) = Inr (outs, e')" and ex: "ex = (so_total out > 0)"
    using assms by (auto simp: engine_step_def bind_eq_Some_conv elim!: bindE_InrE)
  from fin obtain e1 s2 where
    "process_aborts_queue cfg (e\<lparr>en_sched := s, en_aborts := en_aborts e @ ev_late ev\<rparr>) = Inr e1"
    "update_from_output (eg_sched cfg) (ev_update ev) (ev_advance ev) (ev_accepts ev) (so_tokens out) (so_spec out)
         mo (en_sched e1) = Inr (outs, s2)" "e' = e1\<lparr>en_sched := s2\<rparr>"
    by (auto simp: finish_batch_def elim!: bindE_InrE)
  then show thesis using busy[OF True sch] ex by blast
qed

lemma schedule_unignored:
  assumes run: "schedule cfg ts now now' s = Some (Inr (out, s'))" and ord: "in_order cfg True s"
  shows "ignored_req_ids (sd_qm s') = {}"
proof -
  have "\<not> ignorable cfg (sd_store s r)" for r using in_orderD(3)[OF ord] by (simp add: served_def)
  then show ?thesis using schedule_ignored(2)[OF run] in_orderD(5)[OF ord] by simp
qed

text \<open>With \<open>small\<close> requests nothing is ignored; otherwise assume that nothing was.\<close>

lemma process_aborts_manager:
  "process_aborts_queue cfg e = Inr e' \<Longrightarrow> manager_eq (en_sched e) (en_sched e')"
  unfolding process_aborts_queue_def abort_requests_def
  by (auto elim!: bindE_InrE dest!: finish_requests_manager split: if_splits)

lemma engine_step_in_order:
  assumes step: "engine_step cfg ev e = Some (Inr (outs, ex, e'))" and ord: "in_order (eg_sched cfg) small (en_sched e)"
    and sync: "\<not> sc_async (eg_sched cfg)" "told_apart (eg_sched cfg) (en_sched e)"
    and ign: "small \<or> ignored_req_ids (sd_qm (en_sched e')) = {}"
  shows "in_order (eg_sched cfg) small (en_sched e')"
  using step
proof (cases rule: engine_step_cases)
  case (busy out s mo e1 s2)
  have "sd_qm (en_sched e') = sd_qm s"
    using process_aborts_manager[OF busy(3)] update_from_output_manager[OF busy(4)]
    by (simp add: manager_eq_def busy(5))
  then have "ignored_req_ids (sd_qm s) = {}"
    using ign schedule_unignored[OF busy(2)] ord by (cases small) simp_all
  note sch = in_order_schedule[OF busy(2) ord sync this]
  have e1: "in_order (eg_sched cfg) small (en_sched e1)"
    using process_aborts_in_order(1)[OF busy(3)] sch(1) by simp
  have "\<forall>r \<in> fst ` set (so_tokens out). r \<notin># queued (sd_skipped (en_sched e1))"
    using process_aborts_in_order(4)[OF busy(3)] sch(1,3) by fastforce
  from in_order_output[OF busy(4) e1 sch(2) this] show ?thesis by (simp add: busy(5))
qed (use ord in simp)

lemma post_step_in_order:
  "in_order (eg_sched cfg) small (en_sched e) \<Longrightarrow> in_order (eg_sched cfg) small (en_sched (post_step cfg ev ex e))"
  using in_order_drafts by (auto simp: post_step_def split: option.split)

text \<open>A request that has passed the checks of its parameters enters in order.\<close>

definition verified_params :: "engine_core_request \<Rightarrow> bool" where
  "verified_params ec \<longleftrightarrow> (\<forall>sp m. ec_sampling_params ec = Some sp \<longrightarrow> sp_max_tokens sp = Some m \<longrightarrow>
     1 \<le> m \<and> min_tokens sp \<le> m)"

lemma preprocess_served:
  assumes "preprocess_add_request features cfg now ec = Inr r" and "\<not> ec_resumable ec" and "verified_params ec"
    and "small \<longrightarrow> \<not> ignorable (eg_sched cfg) r"
  shows "served (eg_sched cfg) small r" and "status r \<in> {WAITING, WAITING_FOR_STRUCTURED_OUTPUT_GRAMMAR}"
proof -
  obtain ec' where r: "from_engine_core_request ec' (sc_hasher (eg_sched cfg)) now = Inr r"
    and ec': "ec_sampling_params ec' = ec_sampling_params ec" "ec_pooling_params ec' = ec_pooling_params ec"
      "ec_resumable ec' = ec_resumable ec"
    using assms(1) by (auto simp: preprocess_add_request_def split: option.splits if_splits)
  obtain mt st kvp n where init: "init_limits (ec_sampling_params ec) (ec_pooling_params ec) = Inr (mt, st, kvp)"
    and f: "status r = st" "max_tokens r = mt" "sampling_params r = ec_sampling_params ec"
      "pooling_params r = ec_pooling_params ec" "output_token_ids r = []" "resumable r = ec_resumable ec"
      "num_output_placeholders r = 0"
    using r ec' by (auto simp: from_engine_core_request_def update_block_hashes_def elim!: bindE_InrE split: option.splits)
  have st: "st \<in> {WAITING, WAITING_FOR_STRUCTURED_OUTPUT_GRAMMAR}"
    using init by (auto simp: init_limits_def split: option.splits if_splits)
  then show "status r \<in> {WAITING, WAITING_FOR_STRUCTURED_OUTPUT_GRAMMAR}" by (simp add: f(1))
  have "within_limit r"
    using init assms(3) by (auto simp: within_limit_def f num_output_tokens_def verified_params_def init_limits_def split: option.splits)
  moreover have "tokens_wf r" by (rule tokens_wf_new[OF r])
  ultimately show "served (eg_sched cfg) small r" using st assms(2,4) f by (auto simp: served_def)
qed

lemma engine_add_in_order:
  assumes "engine_add_request cfg ts r e = Inr e'" and "in_order (eg_sched cfg) small (en_sched e)"
    and "served (eg_sched cfg) small r" and "status r \<in> {WAITING, WAITING_FOR_STRUCTURED_OUTPUT_GRAMMAR}"
  shows "in_order (eg_sched cfg) small (en_sched e')"
proof -
  obtain s where s: "sched_add_request (eg_sched cfg) ts r (en_sched e) = Inr s"
    and e': "(if abort_immediately r then abort_requests cfg [request_id r] (e\<lparr>en_sched := s\<rparr>)
       else Inr (e\<lparr>en_sched := s\<rparr>)) = Inr e'"
    using assms(1) unfolding engine_add_request_def by (auto elim!: bindE_InrE)
  have "in_order (eg_sched cfg) small s" by (rule in_order_add(1)[OF s assms(2-4)])
  then show ?thesis using e' abort_in_order(1)[of cfg "[request_id r]" "e\<lparr>en_sched := s\<rparr>" e' small]
    by (auto split: if_splits)
qed

text \<open>Pausing with \<open>abort\<close> empties the scheduler, so that clearing the caches loses nothing.\<close>

lemma abort_all_in_order:
  assumes "abort_all cfg e = Inr (outs, e')" and "in_order (eg_sched cfg) small (en_sched e)"
  shows "in_order (eg_sched cfg) small (en_sched e')" and "sd_requests (en_sched e') = []"
    and "sd_running (en_sched e') = []" and "en_batches e' = en_batches e"
proof -
  obtain s where f: "finish_requests (eg_sched cfg) (sd_requests (en_sched e)) FINISHED_ABORTED (en_sched e) = Inr (outs, s)"
    and e': "e' = e\<lparr>en_sched := s\<rparr>"
    using assms(1) by (auto simp: abort_all_def elim!: bindE_InrE)
  note fin = in_order_finish[OF f assms(2)]
  show "in_order (eg_sched cfg) small (en_sched e')" "en_batches e' = en_batches e"
    using fin by (simp_all add: e' status_is_finished_def)
  have "set (sd_requests s) = {}" using fin(2) by (simp add: status_is_finished_def)
  then show r: "sd_requests (en_sched e') = []" by (simp add: e')
  show "sd_running (en_sched e') = []"
    using fin(3) tracked_known(1)[OF in_orderD(1)[OF assms(2)]] by (auto simp: e' status_is_finished_def filter_empty_conv)
qed

lemma in_order_frame:
  assumes "in_order cfg small s" and "sd_store s' = sd_store s" "sd_requests s' = sd_requests s" "sd_waiting s' = sd_waiting s"
    "sd_skipped s' = sd_skipped s" "sd_running s' = sd_running s" "sd_qm s' = sd_qm s" "sd_streaming s' = sd_streaming s"
  shows "in_order cfg small s'"
  using assms by (simp add: in_order_def tracked_def all_queued_def linked_def)

lemma reset_prefix_in_order:
  assumes "sched_reset_prefix_cache cfg ts run con s = Inr (ok, s')" and "in_order cfg small s" and "run \<longrightarrow> sd_running s = []"
  shows "in_order cfg small s'" and "sd_requests s' = sd_requests s"
proof -
  have start: "(if run then bindE (foldE (force_preempt cfg ts) (rev (sd_running s)) s) (\<lambda>s1. Inr (s1\<lparr>sd_prev := {}\<rparr>)) else Inr s)
      = Inr (s\<lparr>sd_prev := (if run then {} else sd_prev s)\<rparr>)" using assms(3) by simp
  have "in_order cfg small (s\<lparr>sd_prev := p, sd_km := km\<rparr>)" "in_order cfg small (s\<lparr>sd_km := km\<rparr>)" for p km
    by (rule in_order_frame[OF assms(2)]; simp)+
  then show "in_order cfg small s'" "sd_requests s' = sd_requests s"
    using assms(1) start unfolding sched_reset_prefix_cache_def try_reset_prefix_cache_def by (auto split: prod.splits if_splits)
qed

lemma reset_encoder_in_order: "in_order cfg small s \<Longrightarrow> in_order cfg small (reset_encoder_cache s)"
  by (erule in_order_frame) (simp_all add: reset_encoder_cache_def)

lemma pause_in_order: "in_order cfg small s \<Longrightarrow> in_order cfg small (set_pause_state p s)"
  by (erule in_order_frame) (simp_all add: set_pause_state_def)

lemma reset_caches_in_order:
  assumes "reset_caches cfg ts e = Inr e'" and "in_order (eg_sched cfg) small (en_sched e)" and "sd_running (en_sched e) = []"
  shows "in_order (eg_sched cfg) small (en_sched e')" and "sd_requests (en_sched e') = sd_requests (en_sched e)"
proof -
  obtain ok s where r: "sched_reset_prefix_cache (eg_sched cfg) ts True False (en_sched e) = Inr (ok, s)"
    and e': "e' = e\<lparr>en_sched := reset_encoder_cache s\<rparr>"
    using assms(1) by (auto simp: reset_caches_def elim!: bindE_InrE)
  note reset_prefix_in_order[OF r assms(2)]
  then show "in_order (eg_sched cfg) small (en_sched e')" "sd_requests (en_sched e') = sd_requests (en_sched e)"
    using assms(3) by (simp_all add: e' reset_encoder_in_order) (simp add: reset_encoder_cache_def)
qed

lemma pause_scheduler_in_order:
  assumes "pause_scheduler cfg ts mode clear e = Inr e'" and "in_order (eg_sched cfg) small (en_sched e)"
    and "clear \<longrightarrow> mode = ''abort''"
  shows "in_order (eg_sched cfg) small (en_sched e')" and "mode = ''abort'' \<longrightarrow> sd_requests (en_sched e') = []"
proof -
  have mode: "mode = ''keep'' \<or> mode = ''abort''" using assms(1) by (auto simp: pause_scheduler_def split: if_splits)
  obtain e1 where e1: "in_order (eg_sched cfg) small (en_sched e1)"
      "mode = ''abort'' \<longrightarrow> sd_requests (en_sched e1) = [] \<and> sd_running (en_sched e1) = []"
    and rest: "(if clear then reset_caches cfg ts (set_paused mode e1) else Inr (set_paused mode e1)) = Inr e'"
  proof (cases "mode = ''abort''")
    case True
    then obtain outs e1 where "abort_all cfg e = Inr (outs, e1)"
      "(if clear then reset_caches cfg ts (set_paused mode e1) else Inr (set_paused mode e1)) = Inr e'"
      using assms(1) by (auto simp: pause_scheduler_def elim!: bindE_InrE)
    then show thesis using that abort_all_in_order[of cfg e outs e1 small] assms(2) by blast
  next
    case False
    then show thesis using that[of e] assms(1,2) mode by (simp add: pause_scheduler_def)
  qed
  have p: "in_order (eg_sched cfg) small (en_sched (set_paused mode e1))"
    "sd_requests (en_sched (set_paused mode e1)) = sd_requests (en_sched e1)"
    "sd_running (en_sched (set_paused mode e1)) = sd_running (en_sched e1)"
    using pause_in_order[OF e1(1)] by (simp_all add: set_paused_def set_pause_state_def)
  show "in_order (eg_sched cfg) small (en_sched e')" "mode = ''abort'' \<longrightarrow> sd_requests (en_sched e') = []"
    using rest p e1(2) assms(3) reset_caches_in_order[of cfg ts "set_paused mode e1" e' small]
    by (cases clear; simp)+
qed

section \<open>Runs of the engine\<close>

text \<open>
  \<open>reached cfg small e\<close>: \<open>e\<close> is a state, between two operations, of an engine that was
  started empty. It is not every state of every engine:
  requests come from clients, have passed the checks of their parameters and are no streaming
  sessions; steps are those of \<open>engine_step\<close>, without the batch queue; when a step begins
  under \<open>fcfs\<close> or \<open>catfcfs\<close>, the known requests have different arrival priorities
  (\<open>told_apart\<close>); no step has ignored a request, which with \<open>small\<close>, text requests
  that fit into the cache, follows by itself; \<open>keep\<close> does not clear the caches, and neither
  \<open>reset_prefix_cache\<close> with running requests nor the pause mode \<open>wait\<close> of the process
  occurs. The theorems add that scheduling is synchronous.
\<close>

inductive reached :: "engine_config \<Rightarrow> bool \<Rightarrow> engine_core \<Rightarrow> bool" for cfg :: engine_config and small :: bool where
  start: "new_scheduler model pol finished_set (sc_num_blocks (eg_sched cfg)) enc_dec enc_size km st = Inr s \<Longrightarrow>
    \<forall>r. served (eg_sched cfg) small (st r) \<Longrightarrow> reached cfg small \<lparr>en_sched = s, en_aborts = [], en_batches = []\<rparr>"
| add: "reached cfg small e \<Longrightarrow> preprocess_add_request features cfg now ec = Inr r \<Longrightarrow> \<not> ec_resumable ec \<Longrightarrow>
    verified_params ec \<Longrightarrow> (small \<longrightarrow> \<not> ignorable (eg_sched cfg) r) \<Longrightarrow> engine_add_request cfg ts r e = Inr e' \<Longrightarrow>
    reached cfg small e'"
| abort: "reached cfg small e \<Longrightarrow> abort_requests cfg ids e = Inr e' \<Longrightarrow> reached cfg small e'"
| late: "reached cfg small e \<Longrightarrow> reached cfg small (e\<lparr>en_aborts := en_aborts e @ [ids]\<rparr>)"
| step: "reached cfg small e \<Longrightarrow> engine_step cfg ev e = Some (Inr (outs, ex, e')) \<Longrightarrow>
    small \<or> ignored_req_ids (sd_qm (en_sched e')) = {} \<Longrightarrow> told_apart (eg_sched cfg) (en_sched e) \<Longrightarrow>
    reached cfg small (post_step cfg ev ex e')"
| pause: "reached cfg small e \<Longrightarrow> pause_scheduler cfg ts mode clear e = Inr e' \<Longrightarrow> (clear \<longrightarrow> mode = ''abort'') \<Longrightarrow>
    reached cfg small e'"
| resume: "reached cfg small e \<Longrightarrow> reached cfg small (resume_scheduler e)"

lemma new_scheduler_fields:
  assumes "new_scheduler model pol finished_set n enc_dec enc_size km st = Inr s"
  shows "sd_store s = st" "sd_requests s = []" "queued (sd_waiting s) = {#}" "queued (sd_skipped s) = {#}"
    "sd_running s = []" "sd_finished s = {}" "sd_pause s = UNPAUSED" "sd_streaming s = 0" "skipped_req_ids (sd_qm s) = {}"
    "ignored_req_ids (sd_qm s) = {}"
  using assms by (auto simp: new_scheduler_def queued_def new_queue_manager_def Let_def elim!: bindE_InrE)

lemma reached_in_order:
  assumes "reached cfg small e" and sync: "\<not> sc_async (eg_sched cfg)"
  shows "in_order (eg_sched cfg) small (en_sched e)"
  using assms(1)
proof (induction rule: reached.induct)
  case (start model pol finished_set enc_dec enc_size km st s)
  note f = new_scheduler_fields[OF start(1)]
  then show ?case using start(2)
    by (simp add: in_order_def tracked_def all_queued_def linked_def)
next
  case (add e features now ec r ts e')
  from engine_add_in_order[OF add(6,7) preprocess_served[OF add(2-5)]] show ?case .
next
  case (abort e ids e')
  then show ?case using abort_in_order(1) by blast
next
  case (step e ev outs ex e')
  from post_step_in_order[OF engine_step_in_order[OF step(2,5) sync step(4,3)]] show ?case .
next
  case (pause e ts mode clear e')
  then show ?case using pause_scheduler_in_order(1) by blast
next
  case (resume e)
  then show ?case using pause_in_order by (simp add: resume_scheduler_def)
qed simp

text \<open>
  C1. In every state that \<open>reached\<close> admits, queues and request objects agree: each known
  request is in exactly one queue, exactly the requests of the running queue have the status
  RUNNING, and no finished request is left in the table. This covers requests that are aborted,
  also while the model runs, pausing and resuming, and requests preempted or stopped in a step.
  It is not a statement about every engine: scheduling is synchronous and without a batch queue,
  there are no streaming sessions, the prefix cache is not reset with requests running (that
  loses them), under \<open>fcfs\<close> and \<open>catfcfs\<close> the known requests have different
  arrival priorities, and no request has been ignored because it exceeds the cache: an ignored
  one stays in the table, finished. If only text requests that fit are admitted, none is ignored.
\<close>

theorem engine_keeps_order:
  assumes "reached cfg small e" and "\<not> sc_async (eg_sched cfg)"
  shows "tracked (en_sched e) \<and> linked (en_sched e) \<and> ignored_req_ids (sd_qm (en_sched e)) = {}
    \<and> (\<forall>r \<in> set (sd_requests (en_sched e)). \<not> is_finished (sd_store (en_sched e) r))"
  using in_orderD[OF reached_in_order[OF assms]] by blast

text \<open>
  C5. The objects of the known requests are well-formed in every state that \<open>reached\<close>
  admits: the token list is the prompt followed by the output, a generation request has fewer
  output tokens than its limit, and the status is one of the four of an unfinished request that
  is no streaming session. The states are those of a synchronous engine without batch queue and
  streaming sessions, whose known requests have different arrival priorities under \<open>fcfs\<close>
  and \<open>catfcfs\<close>, and that has ignored no request: an ignored one would be known with the
  status FINISHED_IGNORED.
\<close>

theorem engine_requests_well_formed:
  assumes "reached cfg small e" and "\<not> sc_async (eg_sched cfg)"
    and "rid \<in> set (sd_requests (en_sched e))" and "r = sd_store (en_sched e) rid"
  shows "all_token_ids r = take (nat (num_prompt_tokens r)) (all_token_ids r) @ output_token_ids r
    \<and> num_tokens r = num_prompt_tokens r + num_output_tokens r
    \<and> (\<forall>p. prompt_token_ids r = Some p \<longrightarrow> take (nat (num_prompt_tokens r)) (all_token_ids r) = p)
    \<and> (sampling_params r \<noteq> None \<and> pooling_params r = None \<longrightarrow> num_output_tokens r < max_tokens r)
    \<and> status r \<in> {WAITING, WAITING_FOR_STRUCTURED_OUTPUT_GRAMMAR, RUNNING, PREEMPTED}"
proof -
  note o = in_orderD[OF reached_in_order[OF assms(1,2)]]
  have sv: "served (eg_sched cfg) small r" "\<not> is_finished r" using o(3,6) assms(3,4) by auto
  then have wf: "tokens_wf r" and lim: "within_limit r"
    and st: "status r \<notin> {WAITING_FOR_REMOTE_KVS, WAITING_FOR_STREAMING_REQ}" by (simp_all add: served_def)
  have "all_token_ids r = take (nat (num_prompt_tokens r)) (all_token_ids r) @ output_token_ids r"
    using wf append_take_drop_id[of "nat (num_prompt_tokens r)" "all_token_ids r"] by (simp add: tokens_wf_def)
  moreover have "status r \<in> {WAITING, WAITING_FOR_STRUCTURED_OUTPUT_GRAMMAR, RUNNING, PREEMPTED}"
    using st sv(2) by (cases "status r") (simp_all add: is_finished_def status_is_finished_def)
  moreover have "sampling_params r \<noteq> None \<and> pooling_params r = None \<longrightarrow> num_output_tokens r < max_tokens r"
    using lim sv(2) by (auto simp: within_limit_def)
  ultimately show ?thesis using tokens_wf_num_tokens[OF wf] wf by (simp add: tokens_wf_def)
qed

section \<open>Aborts during a step\<close>

definition outputs_for :: "(int \<rightharpoonup> engine_core_output list) \<Rightarrow> rid set" where
  "outputs_for outs = {r. \<exists>c os out. outs c = Some os \<and> out \<in> set os \<and> eo_request_id out = r}"

lemma emit_outputs: "outputs_for (us_outs (emit r toks reason pooled u)) \<subseteq> insert r (outputs_for (us_outs u))"
  by (auto simp: emit_def Let_def outputs_for_def split: prod.splits option.splits if_splits; metis)

lemma update_one_outputs:
  assumes "update_one cfg ts advance accepts drafts ro (r, n) u = Inr u'" and "\<not> resumable (sd_store (us_sched u) r)"
  shows "outputs_for (us_outs u') \<subseteq> outputs_for (us_outs u) \<union> set (sd_requests (us_sched u))"
    and "set (sd_requests (us_sched u')) \<subseteq> set (sd_requests (us_sched u))"
proof -
  show "outputs_for (us_outs u') \<subseteq> outputs_for (us_outs u) \<union> set (sd_requests (us_sched u))"
    using assms(1)
  proof (cases rule: update_one_cases)
    case (taken s2 gen em toks stop0 s3 stop s4 pooled)
    from taken(6) show ?thesis
    proof (cases rule: settle_split)
      case (1 s1 v)
      then have "us_outs v = us_outs u" by simp
      then show ?thesis using 1(3) emit_outputs[of r toks _ pooled v] taken(1) by auto
    qed
  qed simp
  show "set (sd_requests (us_sched u')) \<subseteq> set (sd_requests (us_sched u))"
    using update_one_processed[OF assms] set_remove1_subset[of r "sd_requests (us_sched u)"]
    by (auto simp: processed_def Let_def split: if_splits)
qed

lemma update_from_output_outputs:
  assumes "update_from_output cfg ts advance accepts tokens drafts ro s = Inr (outs, s')" and "\<forall>r. served cfg small (sd_store s r)"
  shows "outs c = Some (os, F) \<Longrightarrow> out \<in> set os \<Longrightarrow> eo_request_id out \<in> set (sd_requests s)"
    and "set (sd_requests s') \<subseteq> set (sd_requests s)"
proof -
  define u0 where "u0 = \<lparr>us_sched = s, us_running = {}, us_preempted = [], us_outs = Map.empty\<rparr>"
  obtain u fin where f: "foldE (update_one cfg ts advance accepts drafts ro) tokens u0 = Inr u"
    and s': "sd_requests s' = sd_requests (us_sched u)"
      "outs = (\<lambda>c. case (us_outs u c, fin c) of
               (None, None) \<Rightarrow> None
             | (os, f) \<Rightarrow> Some (case os of None \<Rightarrow> [] | Some l \<Rightarrow> l, case f of None \<Rightarrow> {} | Some F \<Rightarrow> F))"
    using assms(1) unfolding update_from_output_def Let_def u0_def
    by (auto elim!: bindE_InrE split: prod.splits)
  have inv: "served.all_ok cfg small (us_sched u) \<and> outputs_for (us_outs u) \<subseteq> set (sd_requests s)
      \<and> set (sd_requests (us_sched u)) \<subseteq> set (sd_requests s)"
  proof (rule foldE_invariant[OF f, where P = "\<lambda>u. served.all_ok cfg small (us_sched u)
      \<and> outputs_for (us_outs u) \<subseteq> set (sd_requests s) \<and> set (sd_requests (us_sched u)) \<subseteq> set (sd_requests s)"])
    fix x u u' assume one: "update_one cfg ts advance accepts drafts ro x u = Inr u'"
      and P: "served.all_ok cfg small (us_sched u) \<and> outputs_for (us_outs u) \<subseteq> set (sd_requests s)
        \<and> set (sd_requests (us_sched u)) \<subseteq> set (sd_requests s)"
    obtain r n where x: "x = (r, n)" by (cases x)
    have nr: "\<not> resumable (sd_store (us_sched u) r)" using P by (simp add: served.all_ok_def served_def)
    from update_one_outputs[OF one[unfolded x] nr] served.update_one_ok[OF one[unfolded x]] P
    show "served.all_ok cfg small (us_sched u') \<and> outputs_for (us_outs u') \<subseteq> set (sd_requests s)
        \<and> set (sd_requests (us_sched u')) \<subseteq> set (sd_requests s)" by blast
  qed (simp add: u0_def outputs_for_def served.all_ok_def assms(2))
  then show "set (sd_requests s') \<subseteq> set (sd_requests s)" by (simp add: s'(1))
  show "eo_request_id out \<in> set (sd_requests s)" if "outs c = Some (os, F)" "out \<in> set os"
  proof -
    obtain l where "us_outs u c = Some l" "out \<in> set l"
    proof (cases "us_outs u c")
      case None
      then show thesis using \<open>outs c = Some (os, F)\<close> \<open>out \<in> set os\<close> by (cases "fin c") (simp_all add: s'(2))
    next
      case (Some l)
      then show thesis using \<open>outs c = Some (os, F)\<close> \<open>out \<in> set os\<close> that[of l] by (cases "fin c") (auto simp: s'(2))
    qed
    then have "eo_request_id out \<in> outputs_for (us_outs u)" by (auto simp: outputs_for_def)
    then show ?thesis using inv by blast
  qed
qed

text \<open>
  C3. A request whose abort has arrived by the end of the model run, in the queue of aborts, gets
  no output in that step, although the model has sampled tokens for it, and the engine does not
  know it any more afterwards. The engine is as \<open>reached\<close> describes it (synchronous, no
  batch queue, no streaming sessions, different arrival priorities under \<open>fcfs\<close> and
  \<open>catfcfs\<close>), and neither its run so far nor this step has ignored a request: an ignored
  request counts as finished, so an abort passes over it and it stays known.
\<close>

theorem late_abort_silences:
  assumes "reached cfg small e" and "\<not> sc_async (eg_sched cfg)" and "told_apart (eg_sched cfg) (en_sched e)"
    and step: "engine_step cfg ev e = Some (Inr (outs, ex, e'))" and "has_requests (en_sched e)"
    and ign: "small \<or> ignored_req_ids (sd_qm (en_sched e')) = {}"
    and "rid \<in> set (concat (en_aborts e @ ev_late ev))"
  shows "rid \<notin> set (sd_requests (en_sched e')) \<and> en_aborts e' = []
    \<and> (\<forall>c os F out. outs c = Some (os, F) \<and> out \<in> set os \<longrightarrow> eo_request_id out \<noteq> rid)"
  using step
proof (cases rule: engine_step_cases)
  case (busy out s mo e1 s2)
  note ord = reached_in_order[OF assms(1,2)]
  have "sd_qm (en_sched e') = sd_qm s"
    using process_aborts_manager[OF busy(3)] update_from_output_manager[OF busy(4)]
    by (simp add: manager_eq_def busy(5))
  then have "ignored_req_ids (sd_qm s) = {}"
    using ign schedule_unignored[OF busy(2)] ord by (cases small) simp_all
  note sch = in_order_schedule[OF busy(2) ord assms(2,3) this]
  have s: "in_order (eg_sched cfg) small (en_sched (e\<lparr>en_sched := s, en_aborts := en_aborts e @ ev_late ev\<rparr>))"
    using sch(1) by simp
  note ab = process_aborts_in_order[OF busy(3) s]
  have gone: "rid \<notin> set (sd_requests (en_sched e1))" using ab(2) assms(7) by simp
  have "\<forall>r. served (eg_sched cfg) small (sd_store (en_sched e1) r)" using in_orderD(3)[OF ab(1)] by blast
  note out = update_from_output_outputs[OF busy(4) this]
  show ?thesis using gone out ab(5) by (auto simp: busy(5))
qed (use assms(5) in simp)

end
