(* ===== verification/Engine_Loop.thy ===== *)
theory Engine_Loop
  imports Engine_Correct
begin

text \<open>
  What the engine does over its steps: the batch queue is bounded and first in, first out;
  requests that wait for a grammar are passed over by every step; a shutdown drains the engine.
\<close>

section \<open>The batch queue\<close>

lemma finish_batch_batches: "finish_batch cfg ev out mo e = Inr (outs, e') \<Longrightarrow> en_batches e' = en_batches e"
  unfolding finish_batch_def process_aborts_queue_def abort_requests_def
  by (auto elim!: bindE_InrE split: if_splits)

lemma sample_deferred_batches:
  assumes "sample_deferred cfg ev d e = Inr e'"
  obtains b where "en_batches e' = b # en_batches e"
  using assms unfolding sample_deferred_def by (auto elim!: bindE_InrE)

lemma schedule_batch_batches:
  assumes "schedule_batch cfg ev e = Some (Inr p)"
  obtains (pushed) b where "en_batches (pu_core p) = b # en_batches e" "pu_deferred p = None"
  | (deferred) d where "en_batches (pu_core p) = en_batches e" "pu_deferred p = Some d"
  using assms unfolding schedule_batch_def Let_def
  by (auto simp: bind_eq_Some_conv elim!: bindE_InrE split: if_splits)

text \<open>The oldest batch is taken and its output processed; a deferred one comes in at the
  front.\<close>

lemma pop_batch_cases:
  assumes "pop_batch cfg ev p = Inr (outs, ex, e')"
  obtains os out mo x y where "outs = Some os" "en_batches (pu_core p) \<noteq> []" "last (en_batches (pu_core p)) = (out, Inr mo)"
    "finish_batch cfg ev out mo x = Inr (os, y)"
    "case pu_deferred p of None \<Rightarrow> en_batches e' = butlast (en_batches (pu_core p))
      | Some d \<Rightarrow> \<exists>b. en_batches e' = b # butlast (en_batches (pu_core p))"
proof -
  let ?e = "pu_core p"
  obtain out fut where l: "last (en_batches ?e) = (out, fut)" by fastforce
  have ne: "en_batches ?e \<noteq> []" using assms by (auto simp: pop_batch_def Let_def)
  let ?x = "?e\<lparr>en_batches := butlast (en_batches ?e)\<rparr>"
  obtain mo os e1 where fut: "fut = Inr mo" and fin: "finish_batch cfg ev out mo ?x = Inr (os, e1)"
    and outs: "outs = Some os" and d: "(case pu_deferred p of None \<Rightarrow> Inr e1 | Some d \<Rightarrow> sample_deferred cfg ev d e1) = Inr e'"
    using assms ne l by (auto simp: pop_batch_def Let_def elim!: bindE_InrE)
  have "case pu_deferred p of None \<Rightarrow> en_batches e' = butlast (en_batches ?e)
      | Some d \<Rightarrow> \<exists>b. en_batches e' = b # butlast (en_batches ?e)"
    using d finish_batch_batches[OF fin] by (auto split: option.splits elim: sample_deferred_batches)
  then show thesis using that outs ne l fut fin by metis
qed

lemma batch_queue_step:
  assumes "step_with_batch_queue cfg ev e = Some (Inr (outs, ex, e'))"
  shows "length (en_batches e') < eg_batch cfg \<and> (\<exists>new. length new \<le> 1 \<and> (case outs of
      None \<Rightarrow> en_batches e' = new @ en_batches e
    | Some os \<Rightarrow> new @ en_batches e \<noteq> [] \<and> en_batches e' = butlast (new @ en_batches e)
        \<and> (\<exists>out mo x y. last (new @ en_batches e) = (out, Inr mo) \<and> finish_batch cfg ev out mo x = Inr (os, y))))"
    (is "?bound \<and> ?fifo")
proof -
  have len: "length (en_batches e) < eg_batch cfg" using assms by (auto simp: step_with_batch_queue_def split: if_splits)
  have pop: "?bound \<and> ?fifo" if p: "pop_batch cfg ev p = Inr (outs, ex, e')"
    and b: "(pu_deferred p = None \<and> (\<exists>new. length new \<le> 1 \<and> en_batches (pu_core p) = new @ en_batches e))
        \<or> (pu_deferred p \<noteq> None \<and> en_batches (pu_core p) = en_batches e)" for p
    using p
  proof (cases rule: pop_batch_cases)
    case (1 os out mo x y)
    show ?thesis
    proof (cases "pu_deferred p")
      case None
      then obtain new where "length new \<le> 1" "en_batches (pu_core p) = new @ en_batches e" using b by auto
      moreover from this have "last (new @ en_batches e) = (out, Inr mo)" "en_batches e' = butlast (new @ en_batches e)"
        "new @ en_batches e \<noteq> []" using 1(2,3,5) None by auto
      ultimately show ?thesis using 1(1,4) len by (intro conjI exI[of _ new]) auto
    next
      case (Some d)
      then obtain b' where "en_batches e' = b' # butlast (en_batches e)" "en_batches (pu_core p) = en_batches e"
        using b 1(5) by auto
      moreover from this have "en_batches e' = butlast ([b'] @ en_batches e)" "last ([b'] @ en_batches e) = (out, Inr mo)"
        using 1(2,3) by auto
      ultimately show ?thesis using 1 len by (intro conjI exI[of _ "[b']"]) auto
    qed
  qed
  show ?thesis
  proof (cases "has_requests (en_sched e)")
    case False
    then show ?thesis
      using assms len pop[of "\<lparr>pu_core = e, pu_executed = False, pu_deferred = None\<rparr>"]
      by (auto simp: step_with_batch_queue_def split: if_splits)
  next
    case True
    then obtain p where sch: "schedule_batch cfg ev e = Some (Inr p)"
      and rest: "(if pu_deferred p = None \<and> pu_executed p \<and> length (en_batches (pu_core p)) < eg_batch cfg \<and> \<not> ev_done ev
          then Inr (None, True, pu_core p) else pop_batch cfg ev p) = Inr (outs, ex, e')"
      using assms len by (auto simp: step_with_batch_queue_def bind_eq_Some_conv elim!: bindE_InrE)
    have b: "(pu_deferred p = None \<and> (\<exists>new. length new \<le> 1 \<and> en_batches (pu_core p) = new @ en_batches e))
        \<or> (pu_deferred p \<noteq> None \<and> en_batches (pu_core p) = en_batches e)"
      using sch by (cases rule: schedule_batch_batches) (auto intro!: exI[of _ "[_]"])
    show ?thesis
    proof (cases "pu_deferred p = None \<and> pu_executed p \<and> length (en_batches (pu_core p)) < eg_batch cfg \<and> \<not> ev_done ev")
      case True
      then have "outs = None" "e' = pu_core p" using rest by auto
      then show ?thesis using True b by auto
    next
      case False
      then show ?thesis using rest pop[OF _ b] by auto
    qed
  qed
qed

text \<open>
  C4. The batch queue never holds as many batches as its size between two steps, so the
  assertion at the start of a step holds again at the next one. It is first in, first out: a
  step adds at most one batch, and the outputs it returns are those of the oldest batch, which
  is the only one that leaves.
\<close>

theorem batch_queue_first_in_first_out:
  assumes "step_with_batch_queue cfg ev e = Some (Inr (outs, ex, e'))"
  shows "length (en_batches e') < eg_batch cfg \<and> (\<exists>new. length new \<le> 1 \<and> (case outs of
      None \<Rightarrow> en_batches e' = new @ en_batches e
    | Some os \<Rightarrow> new @ en_batches e \<noteq> [] \<and> en_batches e' = butlast (new @ en_batches e)
        \<and> (\<exists>out mo x y. last (new @ en_batches e) = (out, Inr mo) \<and> finish_batch cfg ev out mo x = Inr (os, y))))"
  using assms by (rule batch_queue_step)

section \<open>Requests that wait for a grammar\<close>

lemma queued_len: "queue_len q = size (queued q)"
  by (simp add: queued_def queue_len_iter[of q "\<lambda>_ _. False"])

lemma finish_requests_passed_over:
  assumes "finish_requests cfg ids st s = Inr (outs, s')" and "rid \<in># queued (sd_skipped s)" and "rid \<notin> set ids"
  shows "rid \<in># queued (sd_skipped s')"
proof -
  define valid where "valid = filter (\<lambda>r. r \<in> set (sd_requests s) \<and> \<not> is_finished (sd_store s r)) ids"
  define wait where "wait = filter (\<lambda>r. status (sd_store s r) \<noteq> RUNNING) valid"
  obtain s1 where f: "foldE (finish_one st) valid s1 = Inr s'"
    and s1: "sd_skipped s1 = (if wait = [] then sd_skipped s else remove_requests (sched_lt cfg (sd_store s)) wait (sd_skipped s))"
    using assms(1) unfolding finish_requests_def Let_def valid_def[symmetric] wait_def[symmetric]
    by (auto elim!: bindE_InrE)
  have "sd_skipped s' = sd_skipped s1"
  proof (rule foldE_invariant[OF f, where P = "\<lambda>x. sd_skipped x = sd_skipped s1"])
    fix r x y assume "sd_skipped x = sd_skipped s1" "finish_one st r x = Inr y"
    then show "sd_skipped y = sd_skipped s1" unfolding finish_one_def by (simp add: free_request_kept(3))
  qed simp
  moreover have "rid \<notin> set wait" using assms(3) by (simp add: wait_def valid_def)
  ultimately show ?thesis using assms(2) by (simp add: s1)
qed

lemma process_aborts_passed_over:
  assumes "process_aborts_queue cfg e = Inr e'" and "rid \<in># queued (sd_skipped (en_sched e))"
    and "rid \<notin> set (concat (en_aborts e))"
  shows "rid \<in># queued (sd_skipped (en_sched e'))"
proof (cases "en_aborts e = []")
  case False
  then obtain outs s where "finish_requests (eg_sched cfg) (remdups (concat (en_aborts e))) FINISHED_ABORTED (en_sched e) = Inr (outs, s)"
    "e' = e\<lparr>en_aborts := [], en_sched := s\<rparr>"
    using assms(1) by (auto simp: process_aborts_queue_def abort_requests_def elim!: bindE_InrE)
  then show ?thesis using finish_requests_passed_over[of "eg_sched cfg"] assms(2,3) by auto
qed (use assms in \<open>simp add: process_aborts_queue_def\<close>)

lemma update_one_skipped:
  assumes "update_one cfg ts advance accepts drafts ro (r, n) u = Inr u'" and "\<not> resumable (sd_store (us_sched u) r)"
  shows "sd_skipped (us_sched u') = sd_skipped (us_sched u)"
    and "outputs_for (us_outs u') \<subseteq> insert r (outputs_for (us_outs u))"
proof -
  show "sd_skipped (us_sched u') = sd_skipped (us_sched u)"
    using update_one_processed[OF assms] by (auto simp: processed_def Let_def split: if_splits)
  show "outputs_for (us_outs u') \<subseteq> insert r (outputs_for (us_outs u))"
    using assms(1)
  proof (cases rule: update_one_cases)
    case (taken s2 gen em toks stop0 s3 stop s4 pooled)
    from taken(6) show ?thesis
    proof (cases rule: settle_split)
      case (1 s1 v)
      then have "us_outs v = us_outs u" by simp
      then show ?thesis using 1(3) emit_outputs[of r toks _ pooled v] by auto
    qed
  qed auto
qed

lemma update_from_output_skipped:
  assumes "update_from_output cfg ts advance accepts tokens drafts ro s = Inr (outs, s')" and "\<forall>r. served cfg small (sd_store s r)"
  shows "sd_skipped s' = sd_skipped s" and "outs c = Some (os, F) \<Longrightarrow> out \<in> set os \<Longrightarrow> eo_request_id out \<in> fst ` set tokens"
proof -
  define u0 where "u0 = \<lparr>us_sched = s, us_running = {}, us_preempted = [], us_outs = Map.empty\<rparr>"
  obtain u fin where f: "foldE (update_one cfg ts advance accepts drafts ro) tokens u0 = Inr u"
    and s': "sd_skipped s' = sd_skipped (us_sched u)"
      "outs = (\<lambda>c. case (us_outs u c, fin c) of
               (None, None) \<Rightarrow> None
             | (os, f) \<Rightarrow> Some (case os of None \<Rightarrow> [] | Some l \<Rightarrow> l, case f of None \<Rightarrow> {} | Some F \<Rightarrow> F))"
    using assms(1) unfolding update_from_output_def Let_def u0_def
    by (auto elim!: bindE_InrE split: prod.splits)
  have inv: "served.all_ok cfg small (us_sched u) \<and> outputs_for (us_outs u) \<subseteq> fst ` set tokens
      \<and> sd_skipped (us_sched u) = sd_skipped s"
  proof (rule foldE_invariant[OF f, where P = "\<lambda>u. served.all_ok cfg small (us_sched u)
      \<and> outputs_for (us_outs u) \<subseteq> fst ` set tokens \<and> sd_skipped (us_sched u) = sd_skipped s"])
    fix x u u' assume one: "update_one cfg ts advance accepts drafts ro x u = Inr u'" and x: "x \<in> set tokens"
      and P: "served.all_ok cfg small (us_sched u) \<and> outputs_for (us_outs u) \<subseteq> fst ` set tokens
        \<and> sd_skipped (us_sched u) = sd_skipped s"
    obtain r n where rn: "x = (r, n)" by (cases x)
    have nr: "\<not> resumable (sd_store (us_sched u) r)" using P by (simp add: served.all_ok_def served_def)
    have "r \<in> fst ` set tokens" using x rn by force
    with update_one_skipped[OF one[unfolded rn] nr] served.update_one_ok[OF one[unfolded rn]] P
    show "served.all_ok cfg small (us_sched u') \<and> outputs_for (us_outs u') \<subseteq> fst ` set tokens
        \<and> sd_skipped (us_sched u') = sd_skipped s" by auto
  qed (simp add: u0_def outputs_for_def served.all_ok_def assms(2))
  then show "sd_skipped s' = sd_skipped s" by (simp add: s'(1))
  show "eo_request_id out \<in> fst ` set tokens" if "outs c = Some (os, F)" "out \<in> set os"
  proof -
    have "eo_request_id out \<in> outputs_for (us_outs u)"
      using that by (cases "us_outs u c"; cases "fin c") (auto simp: s'(2) outputs_for_def)
    then show ?thesis using inv by blast
  qed
qed

lemma passed_over_step:
  assumes step: "engine_step cfg ev e = Some (Inr (outs, ex, e'))" and ord: "in_order (eg_sched cfg) small (en_sched e)"
    and sync: "\<not> sc_async (eg_sched cfg)" "told_apart (eg_sched cfg) (en_sched e)"
    and ign: "small \<or> ignored_req_ids (sd_qm (en_sched e')) = {}"
    and rid: "rid \<in># queued (sd_skipped (en_sched e))" "rid \<notin> set (concat (en_aborts e @ ev_late ev))"
  shows "rid \<in># queued (sd_skipped (en_sched e'))
    \<and> (\<forall>c os F out. outs c = Some (os, F) \<and> out \<in> set os \<longrightarrow> eo_request_id out \<noteq> rid)"
  using step
proof (cases rule: engine_step_cases)
  case (busy out s mo e1 s2)
  define lt where "lt = (\<lambda>(_ :: rid) (_ :: rid). False)"
  have "sd_qm (en_sched e') = sd_qm s"
    using process_aborts_manager[OF busy(3)] update_from_output_manager[OF busy(4)]
    by (simp add: manager_eq_def busy(5))
  then have "ignored_req_ids (sd_qm s) = {}"
    using ign schedule_unignored[OF busy(2)] ord by (cases small) simp_all
  note sch = in_order_schedule[OF busy(2) ord sync this]
  have "distinct (sd_running (en_sched e) @ queue_iter lt (sd_waiting (en_sched e)))"
    using tracked_distinct[OF in_orderD(1)[OF ord], of lt lt] by auto
  from schedule_requests[OF busy(2) this] have skip: "rid \<in># queued (sd_skipped s)" using rid(1) by simp
  have s: "in_order (eg_sched cfg) small (en_sched (e\<lparr>en_sched := s, en_aborts := en_aborts e @ ev_late ev\<rparr>))"
    using sch(1) by simp
  have e1: "rid \<in># queued (sd_skipped (en_sched e1))"
    using process_aborts_passed_over[OF busy(3)] skip rid(2) by simp
  have "\<forall>r. served (eg_sched cfg) small (sd_store (en_sched e1) r)"
    using in_orderD(3)[OF process_aborts_in_order(1)[OF busy(3) s]] by blast
  note out = update_from_output_skipped[OF busy(4) this]
  have "rid \<notin> fst ` set (so_tokens out)" using sch(3) skip by blast
  then show ?thesis using out e1 by (auto simp: busy(5))
qed (use rid in simp)

text \<open>
  C6. A request in the queue of the skipped requests (one that waits for the grammar of its
  structured output) is passed over: a step leaves it there and returns no output for it,
  although the engine counts it as unfinished work while it is not paused. Nothing but an
  abort takes it out. The engine is as \<open>reached\<close> describes it, and the step ignores no
  request.
\<close>

theorem skipped_requests_passed_over:
  assumes "reached cfg small e" and "\<not> sc_async (eg_sched cfg)" and "told_apart (eg_sched cfg) (en_sched e)"
    and "engine_step cfg ev e = Some (Inr (outs, ex, e'))" and "small \<or> ignored_req_ids (sd_qm (en_sched e')) = {}"
    and "rid \<in># queued (sd_skipped (en_sched e))" and "rid \<notin> set (concat (en_aborts e @ ev_late ev))"
  shows "rid \<in># queued (sd_skipped (en_sched e')) \<and> (sd_pause (en_sched e) = UNPAUSED \<longrightarrow> has_requests (en_sched e))
    \<and> (\<forall>c os F out. outs c = Some (os, F) \<and> out \<in> set os \<longrightarrow> eo_request_id out \<noteq> rid)"
proof -
  note ord = reached_in_order[OF assms(1,2)]
  have "queue_len (sd_skipped (en_sched e)) = size (queued (sd_skipped (en_sched e)))" by (rule queued_len)
  then have "queue_len (sd_skipped (en_sched e)) > 0" using assms(6) by (auto simp: nonempty_has_size[symmetric])
  then have "sd_pause (en_sched e) = UNPAUSED \<longrightarrow> has_requests (en_sched e)"
    using in_orderD(9)[OF ord] by (simp add: has_requests_def has_unfinished_requests_def get_num_unfinished_requests_def)
  with passed_over_step[OF assms(4) ord assms(2,3,5-7)] show ?thesis by blast
qed

section \<open>Shutting down\<close>

definition drained :: "scheduler \<Rightarrow> bool" where
  "drained s \<longleftrightarrow> sd_requests s = [] \<and> sd_running s = [] \<and> queued (sd_waiting s) = {#} \<and> queued (sd_skipped s) = {#}
     \<and> sd_streaming s = 0"

lemma drained_in_order: "in_order cfg small s \<Longrightarrow> sd_requests s = [] \<Longrightarrow> drained s"
  using tracked_set[of s] by (auto simp: in_order_def drained_def all_queued_def)

lemma drained_has_requests: "drained s \<Longrightarrow> has_requests s \<longleftrightarrow> sd_finished s \<noteq> {}"
  by (simp add: drained_def has_requests_def has_unfinished_requests_def get_num_unfinished_requests_def
      has_finished_requests_def queued_len)

text \<open>The statistics that the policy needs are there.\<close>

definition can_prioritize :: "sched_config \<Rightarrow> queue_manager \<Rightarrow> bool" where
  "can_prioritize cfg qm \<longleftrightarrow> stats qm \<noteq> None \<or> sc_slo_policy cfg \<in> {''fcfs'', ''catfcfs'', ''edf''} \<and> \<not> track_stats qm"

lemma queue_stats_empty:
  assumes "can_prioritize cfg qm"
  shows "\<exists>x. update_queue_stats now [] st qm = Inr (st, qm\<lparr>stats := x\<rparr>) \<and> can_prioritize cfg (qm\<lparr>stats := x\<rparr>)"
proof (cases "track_stats qm")
  case False
  have "qm\<lparr>stats := stats qm\<rparr> = qm" by simp
  moreover have "update_queue_stats now [] st qm = Inr (st, qm)" using False by (simp add: update_queue_stats_def)
  ultimately show ?thesis using assms by metis
next
  case True
  then obtain q where q: "stats qm = Some q" using assms by (auto simp: can_prioritize_def)
  show ?thesis using True q by (intro exI conjI) (auto simp: update_queue_stats_def can_prioritize_def intro: exI)
qed

lemma priorities_empty:
  assumes "can_prioritize cfg qm"
  shows "update_priorities (sc_slo_policy cfg) qm now [] st = Inr (st, [])"
  using assms by (auto simp: update_priorities_def can_prioritize_def rank_requests_def Let_def)

lemma reordered_empty: "queued q = {#} \<Longrightarrow> reorder_waiting_queue lt st q = []"
proof -
  assume "queued q = {#}"
  then have "queue_iter lt q = []" using queued_iter[of lt q] by simp
  then show ?thesis by (simp add: reorder_waiting_queue_def)
qed

text \<open>A step on an empty scheduler schedules nothing and reports what has finished.\<close>

lemma combine_empty:
  "combine_queues st [] [] qm = qm\<lparr>running_req_ids := {}, waiting_req_ids := {}, preempted_req_ids := {},
     combined := [], last_running_idx := None, first_waiting_idx := None\<rparr>"
  by (simp add: combine_queues_def tag_queues_def Let_def)

lemma finish_step_empty:
  assumes "sp_tokens s1 = []" "sp_new s1 = []" "sp_resumed s1 = []" "sp_running s1 = []" "0 \<le> sc_max_tokens cfg"
    "0 \<le> sp_budget s1"
  shows "\<exists>out km em. finish_step cfg s [] w s1 = Inr (out, s\<lparr>sd_store := sp_store s1, sd_waiting := w, sd_running := [],
      sd_finished := {}, sd_qm := sp_qm s1, sd_km := km, sd_enc := em, sd_prev := {}\<rparr>) \<and> so_tokens out = [] \<and> so_total out = 0"
  using assms
  by (simp add: finish_step_def Let_def make_cached_request_data_def update_after_schedule_def enumerate_eq_zip
      split: prod.split) blast

lemma schedule_empty:
  assumes d: "drained s" and "skipped_req_ids (sd_qm s) = {}" "ignored_req_ids (sd_qm s) = {}"
    and "0 \<le> sc_max_tokens cfg" and p: "can_prioritize cfg (sd_qm s)"
  shows "\<exists>out s'. schedule cfg ts now now' s = Some (Inr (out, s')) \<and> so_tokens out = [] \<and> so_total out = 0
    \<and> drained s' \<and> sd_finished s' = {}"
proof -
  obtain x where qm: "update_queue_stats now [] (sd_store s) (sd_qm s) = Inr (sd_store s, (sd_qm s)\<lparr>stats := x\<rparr>)"
    and p': "can_prioritize cfg ((sd_qm s)\<lparr>stats := x\<rparr>)"
    using queue_stats_empty[OF p] by blast
  let ?qm = "(sd_qm s)\<lparr>stats := x\<rparr>"
  have e: "sd_requests s = []" "sd_running s = []" "queued (sd_waiting s) = {#}"
    using d by (simp_all add: drained_def)
  have run: "schedule cfg ts now now' s = schedule_queues cfg ts (sd_store s) [] ?qm s"
    using qm priorities_empty[OF p'] by (simp add: schedule_def e(1))
  define s0 where "s0 = start_step cfg s (sd_store s) ?qm"
  have s0: "combined (sp_qm s0) = []" "sp_tokens s0 = []" "sp_new s0 = []" "sp_resumed s0 = []" "sp_running s0 = []"
    "0 \<le> sp_budget s0"
    "update_queues lt (sp_qm s0) = Inr ([], create_request_queue (policy (sd_qm s)))" for lt
    using assms(2-4) by (simp_all add: s0_def start_step_def Let_def e(2) reordered_empty[OF e(3)] reorder_running_queue_def
        combine_empty update_queues_def)
  have "visit_loop cfg ts s0 = Some (Inr s0)" by (subst visit_loop.simps) (simp add: s0(1))
  moreover have "preempt_remaining cfg ts s0 = Inr s0" by (simp add: preempt_remaining_def s0(1))
  ultimately have q: "schedule_queues cfg ts (sd_store s) [] ?qm s
      = Some (finish_step cfg (s\<lparr>sd_requests := []\<rparr>) [] (create_request_queue (policy (sd_qm s))) s0)"
    by (simp add: schedule_queues_def s0_def[symmetric] s0(7))
  have "queued (create_request_queue (policy (sd_qm s))) = {#}"
    by (cases "policy (sd_qm s)") (simp_all add: queued_def create_request_queue_def)
  then show ?thesis
    using finish_step_empty[OF s0(2-5) assms(4) s0(6), of "s\<lparr>sd_requests := []\<rparr>" "create_request_queue (policy (sd_qm s))"] d
    unfolding run q by (fastforce simp: drained_def)
qed

lemma finish_requests_empty:
  assumes "sd_requests s = []" and "status_is_finished st"
  shows "finish_requests cfg ids st s = Inr ([], s)"
  using assms by (simp add: finish_requests_def Let_def)

lemma abort_requests_empty: "sd_requests (en_sched e) = [] \<Longrightarrow> abort_requests cfg ids e = Inr e"
  by (simp add: abort_requests_def finish_requests_empty status_is_finished_def)

lemma process_aborts_empty:
  assumes "sd_requests (en_sched e) = []"
  shows "process_aborts_queue cfg e = Inr (e\<lparr>en_aborts := []\<rparr>)"
proof (cases "en_aborts e = []")
  case True
  then have "e\<lparr>en_aborts := []\<rparr> = e" by (cases e) simp
  then show ?thesis using True by (simp add: process_aborts_queue_def)
qed (use assms in \<open>simp add: process_aborts_queue_def abort_requests_empty\<close>)

text \<open>What stays of a step that found nothing to do.\<close>

lemma engine_step_drained:
  assumes d: "drained (en_sched e)" and ids: "skipped_req_ids (sd_qm (en_sched e)) = {}" "ignored_req_ids (sd_qm (en_sched e)) = {}"
    and "0 \<le> sc_max_tokens (eg_sched cfg)" and p: "can_prioritize (eg_sched cfg) (sd_qm (en_sched e))"
    and run: "\<And>out g. so_total out = 0 \<Longrightarrow> \<exists>mo. ev_run ev out g = Inr mo"
    and work: "has_requests (en_sched e)"
  shows "\<exists>outs e'. engine_step cfg ev e = Some (Inr (outs, False, e')) \<and> drained (en_sched e')
    \<and> sd_finished (en_sched e') = {} \<and> en_batches e' = en_batches e"
proof -
  obtain out s where sch: "schedule (eg_sched cfg) (ev_ts ev) (ev_now ev) (ev_prio ev) (en_sched e) = Some (Inr (out, s))"
    and s: "so_tokens out = []" "so_total out = 0" "drained s" "sd_finished s = {}"
    using schedule_empty[OF d ids assms(4) p] by blast
  obtain mo where mo: "ev_run ev out (get_grammar_bitmask (ev_mask ev) out s) = Inr mo" using run[OF s(2)] by blast
  have "sd_requests s = []" using s(3) by (simp add: drained_def)
  then obtain e1 where ab: "process_aborts_queue cfg (e\<lparr>en_sched := s, en_aborts := en_aborts e @ ev_late ev\<rparr>) = Inr e1"
    "en_sched e1 = s" "en_batches e1 = en_batches e"
    using process_aborts_empty[of "e\<lparr>en_sched := s, en_aborts := en_aborts e @ ev_late ev\<rparr>"] by simp
  obtain outs s2 where up: "update_from_output (eg_sched cfg) (ev_update ev) (ev_advance ev) (ev_accepts ev) (so_tokens out)
      (so_spec out) mo s = Inr (outs, s2)" "drained s2" "sd_finished s2 = {}"
    using s(1,3,4) by (cases "pool_take_events (co_pool (km_co (sd_km s)))") (simp add: update_from_output_def Let_def drained_def)
  have "engine_step cfg ev e = Some (Inr (outs, False, e1\<lparr>en_sched := s2\<rparr>))"
    using work ab up(1) by (simp add: engine_step_def sch mo finish_batch_def s(2))
  then show ?thesis using up(2,3) ab(3) by auto
qed

text \<open>\<open>reported c r p\<close>: client \<open>c\<close> has been told that request \<open>r\<close> was
  aborted.\<close>

definition reported :: "int \<Rightarrow> rid \<Rightarrow> engine_proc \<Rightarrow> bool" where
  "reported c r p \<longleftrightarrow> (\<exists>o'. (c, o') \<in> set (pr_outputs p) \<and> finish_output ABORT r \<in> set (ec_outputs o'))"

lemma reported_more: "reported c r p \<Longrightarrow> pr_outputs p' = pr_outputs p @ ext \<Longrightarrow> reported c r p'"
  by (auto simp: reported_def)

lemma send_finish_frame:
  "pr_core (send_finish_outputs_to_client ids c reason p) = pr_core p"
  "pr_state (send_finish_outputs_to_client ids c reason p) = pr_state p"
  "pr_inputs (send_finish_outputs_to_client ids c reason p) = pr_inputs p"
  "\<exists>ext. pr_outputs (send_finish_outputs_to_client ids c reason p) = pr_outputs p @ ext"
  "reason = ABORT \<Longrightarrow> r \<in> set ids \<Longrightarrow> reported c r (send_finish_outputs_to_client ids c reason p)"
  by (auto simp: send_finish_outputs_to_client_def put_output_def reported_def)

lemma put_step_frame:
  "pr_core (put_step_outputs cfg os p) = pr_core p" "pr_state (put_step_outputs cfg os p) = pr_state p"
  "\<exists>ext. pr_outputs (put_step_outputs cfg os p) = pr_outputs p @ ext"
proof -
  define put where "put = (\<lambda>c p. case os c of
         None \<Rightarrow> p
       | Some (l, F) \<Rightarrow> put_output c \<lparr>ec_outputs = l, ec_finished = (if F = {} then None else Some F), ec_utility = None\<rparr> p)"
  have one: "pr_core (put c p) = pr_core p \<and> pr_state (put c p) = pr_state p \<and> (\<exists>ext. pr_outputs (put c p) = pr_outputs p @ ext)"
    for c p by (auto simp: put_def put_output_def split: option.splits)
  have "pr_core (fold put cs p) = pr_core p \<and> pr_state (fold put cs p) = pr_state p
      \<and> (\<exists>ext. pr_outputs (fold put cs p) = pr_outputs p @ ext)" for cs
  proof (induction cs arbitrary: p)
    case (Cons c cs)
    obtain x where "pr_outputs (put c p) = pr_outputs p @ x" using one by blast
    then show ?case using Cons.IH[of "put c p"] one[of c p] by auto
  qed simp
  from this[of "map int [0..<eg_clients cfg]"] show "pr_core (put_step_outputs cfg os p) = pr_core p"
    "pr_state (put_step_outputs cfg os p) = pr_state p" "\<exists>ext. pr_outputs (put_step_outputs cfg os p) = pr_outputs p @ ext"
    by (simp_all add: put_step_outputs_def put_def)
qed

lemma send_aborts_fold:
  fixes reqs :: "(rid \<times> int) list" and p :: engine_proc
  defines "send \<equiv> \<lambda>c. send_finish_outputs_to_client (remdups (map fst (filter (\<lambda>x. snd x = c) reqs))) c ABORT"
  shows "pr_core (fold send cs p) = pr_core p \<and> pr_state (fold send cs p) = pr_state p
    \<and> pr_inputs (fold send cs p) = pr_inputs p \<and> (\<exists>ext. pr_outputs (fold send cs p) = pr_outputs p @ ext)
    \<and> (\<forall>(r, c) \<in> set reqs. c \<in> set cs \<longrightarrow> reported c r (fold send cs p))"
proof (induction cs arbitrary: p)
  case (Cons c cs)
  note IH = Cons.IH[of "send c p"]
  obtain ext1 where m1: "pr_outputs (send c p) = pr_outputs p @ ext1" unfolding send_def using send_finish_frame(4) by blast
  obtain ext2 where m2: "pr_outputs (fold send cs (send c p)) = pr_outputs (send c p) @ ext2" using IH by blast
  have "reported c r (fold send cs (send c p))" if "(r, c) \<in> set reqs" for r
  proof -
    have "r \<in> set (remdups (map fst (filter (\<lambda>x. snd x = c) reqs)))" using that by force
    then have "reported c r (send c p)" unfolding send_def by (rule send_finish_frame(5)[OF refl])
    then show ?thesis using m2 by (rule reported_more)
  qed
  moreover have "reported c' r (fold send cs (send c p))" if "(r, c') \<in> set reqs" "c' \<in> set cs" for r c'
    using IH that by blast
  ultimately have "\<forall>(r, c') \<in> set reqs. c' \<in> set (c # cs) \<longrightarrow> reported c' r (fold send cs (send c p))" by auto
  then show ?case using IH m1 m2 send_finish_frame(1-3) by (auto simp: send_def)
qed simp

lemma send_aborts:
  "pr_core (send_abort_outputs reqs p) = pr_core p" "pr_state (send_abort_outputs reqs p) = pr_state p"
  "pr_inputs (send_abort_outputs reqs p) = pr_inputs p"
  "(r, c) \<in> set reqs \<Longrightarrow> reported c r (send_abort_outputs reqs p)"
  using send_aborts_fold[of reqs "remdups (map snd reqs)" p] unfolding send_abort_outputs_def by force+

text \<open>Inputs that arrive during the shutdown change nothing but the outputs.\<close>

lemma inputs_rejected:
  assumes "EXECUTOR_FAILED \<notin> set qs" and "pr_state p \<noteq> S_RUNNING" and "sd_requests (en_sched (pr_core p)) = []"
  shows "\<exists>p' ext. foldE (handle_client_request cfg ts) qs p = Inr p' \<and> pr_core p' = pr_core p \<and> pr_state p' = pr_state p
    \<and> pr_inputs p' = pr_inputs p \<and> pr_outputs p' = pr_outputs p @ ext"
  using assms
proof (induction qs arbitrary: p)
  case (Cons q qs)
  obtain p1 ext where p1: "handle_client_request cfg ts q p = Inr p1" "pr_core p1 = pr_core p" "pr_state p1 = pr_state p"
    "pr_inputs p1 = pr_inputs p" "pr_outputs p1 = pr_outputs p @ ext"
  proof (cases q)
    case (ADD r)
    then show thesis using that Cons.prems(2) send_finish_frame
      by (fastforce simp: handle_client_request_def)
  qed (use that Cons.prems in \<open>auto simp: handle_client_request_def abort_requests_empty put_utility_def put_output_def\<close>)
  then show ?case using Cons.IH[of p1] Cons.prems by auto
qed auto

text \<open>The pass that follows an abort of everything.\<close>

lemma shutdown_pass:
  assumes st: "pr_state p = S_SHUTTING_DOWN" and d: "drained (en_sched (pr_core p))"
    and ids: "skipped_req_ids (sd_qm (en_sched (pr_core p))) = {}" "ignored_req_ids (sd_qm (en_sched (pr_core p))) = {}"
    and "0 \<le> sc_max_tokens (eg_sched cfg)" and pri: "can_prioritize (eg_sched cfg) (sd_qm (en_sched (pr_core p)))"
    and run: "\<And>out g. so_total out = 0 \<Longrightarrow> \<exists>mo. ev_run ev out g = Inr mo"
    and "eg_batch cfg \<le> 1" "en_batches (pr_core p) = []" and inp: "EXECUTOR_FAILED \<notin> set (pr_inputs p)"
    and work: "has_work p"
  shows "\<exists>p1 p3 ext. process_input_queue cfg (ev_ts ev) p = Inr (Inr p1)
    \<and> process_engine_step cfg ev p1 = Some (Inr (False, p3)) \<and> pr_state p3 = S_SHUTTING_DOWN \<and> \<not> has_work p3
    \<and> drained (en_sched (pr_core p3)) \<and> pr_outputs p3 = pr_outputs p @ ext"
proof -
  have "p\<lparr>pr_inputs := pr_inputs p\<rparr> = p" by simp
  then have aw: "await_work cfg (ev_ts ev) (pr_inputs p) p = Inr (Inr p)"
    using work by (subst await_work.simps) simp
  have "sd_requests (en_sched (pr_core (p\<lparr>pr_inputs := []\<rparr>))) = []" using d by (simp add: drained_def)
  with inputs_rejected[OF inp, of "p\<lparr>pr_inputs := []\<rparr>" cfg "ev_ts ev"] st obtain p1 ext1 where
    p1: "foldE (handle_client_request cfg (ev_ts ev)) (pr_inputs p) (p\<lparr>pr_inputs := []\<rparr>) = Inr p1"
      "pr_core p1 = pr_core p" "pr_state p1 = S_SHUTTING_DOWN" "pr_outputs p1 = pr_outputs p @ ext1"
    by auto
  have inq: "process_input_queue cfg (ev_ts ev) p = Inr (Inr p1)"
    by (simp add: process_input_queue_def aw p1(1) del: await_work.simps)
  have "has_requests (en_sched (pr_core p))" using work assms(9) by (simp add: has_work_def)
  with engine_step_drained[OF d ids assms(5) pri run] obtain outs e where
    e: "engine_step cfg ev (pr_core p) = Some (Inr (outs, False, e))" "drained (en_sched e)" "sd_finished (en_sched e) = {}"
      "en_batches e = []"
    using assms(9) by metis
  have nowork: "\<not> has_requests (en_sched e)" using drained_has_requests[OF e(2)] e(3) by simp
  define p3 where "p3 = put_step_outputs cfg outs (p1\<lparr>pr_core := e\<rparr>)"
  have "pr_core p3 = e" by (simp add: p3_def put_step_frame)
  then have "p3\<lparr>pr_core := e\<rparr> = p3" by (cases p3) simp
  moreover have "post_step cfg ev False e = e" by (simp add: post_step_def)
  ultimately have "process_engine_step cfg ev p1 = Some (Inr (False, p3))"
    using assms(8) by (simp add: process_engine_step_def step_fn_def p1(2) e(1) put_step_frame p3_def[symmetric] Let_def)
  moreover have "pr_core p3 = e" "pr_state p3 = S_SHUTTING_DOWN" "\<exists>ext. pr_outputs p3 = pr_outputs p @ ext"
    using p1(3,4) put_step_frame[of cfg outs "p1\<lparr>pr_core := e\<rparr>"] by (auto simp: p3_def)
  ultimately show ?thesis using inq nowork e(2,4) by (auto simp: has_work_def)
qed

lemma reached_no_batches: "reached cfg small e \<Longrightarrow> en_batches e = []"
proof (induction rule: reached.induct)
  case (step e ev outs ex e')
  from step(2) have "en_batches e' = []"
    using step(5) finish_batch_batches
    by (auto simp: engine_step_def bind_eq_Some_conv elim!: bindE_InrE split: if_splits dest!: finish_batch_batches)
  then show ?case by (auto simp: post_step_def split: option.split)
next
  case (pause e ts mode clear e')
  then show ?case
    by (auto simp: pause_scheduler_def set_paused_def reset_caches_def abort_all_def elim!: bindE_InrE split: if_splits)
qed (auto simp: engine_add_request_def abort_requests_def resume_scheduler_def elim!: bindE_InrE split: if_splits)

text \<open>
  C2. A shutdown that is requested without a grace period drains an engine that has ignored no
  request: the main loop takes at most one more step, whatever requests arrive in the meantime,
  and the next pass ends it. No request is left, and the client of every request the engine knew
  has been sent an output that says it was aborted. The engine is as \<open>reached\<close> describes
  it (synchronous, no batch queue, no streaming sessions, different arrival priorities under
  \<open>fcfs\<close> and \<open>catfcfs\<close>), it has the statistics that its policy needs, its token
  budget is not negative, freeing the aborted requests raises nothing, the executor answers a step
  that schedules nothing, and it has not failed. With an ignored request the claim does not hold:
  the abort passes over it, and the loop goes on.
\<close>

theorem shutdown_drains:
  assumes "reached cfg small (pr_core p)" and "\<not> sc_async (eg_sched cfg)"
    and "can_prioritize (eg_sched cfg) (sd_qm (en_sched (pr_core p)))" and "0 \<le> sc_max_tokens (eg_sched cfg)"
    and "eg_batch cfg \<le> 1" and "pr_state p = S_REQUESTED" and "eg_timeout cfg = 0"
    and "EXECUTOR_FAILED \<notin> set (pr_inputs p)"
    and "abort_all cfg (pr_core p) = Inr (outs, e)"
    and "\<And>out g. so_total out = 0 \<Longrightarrow> \<exists>mo. ev_run ev out g = Inr mo"
  shows "\<exists>q. (busy_pass cfg ev p = Some (Inr (Exit q))
      \<or> busy_pass cfg ev p = Some (Inr (Stepped q)) \<and> (\<forall>ev'. busy_pass cfg ev' q = Some (Inr (Exit q))))
    \<and> sd_requests (en_sched (pr_core q)) = []
    \<and> (\<forall>r \<in> set (sd_requests (en_sched (pr_core p))). reported (client_index (sd_store (en_sched (pr_core p)) r)) r q)"
proof -
  let ?s = "en_sched (pr_core p)"
  note ord = reached_in_order[OF assms(1,2)]
  obtain s where fin: "finish_requests (eg_sched cfg) (sd_requests ?s) FINISHED_ABORTED ?s = Inr (outs, s)"
    and e: "e = (pr_core p)\<lparr>en_sched := s\<rparr>"
    using assms(9) by (auto simp: abort_all_def elim!: bindE_InrE)
  have outs: "(r, client_index (sd_store ?s r)) \<in> set outs" if "r \<in> set (sd_requests ?s)" for r
    using fin that in_orderD(6)[OF ord] by (auto simp: finish_requests_def Let_def elim!: bindE_InrE)
  note ab = abort_all_in_order[OF assms(9) ord]
  have qm: "sd_qm s = sd_qm ?s" using in_order_finish(4)[OF fin ord] by (simp add: status_is_finished_def)
  define p1 where "p1 = (send_abort_outputs outs (p\<lparr>pr_core := e\<rparr>))\<lparr>pr_state := S_SHUTTING_DOWN\<rparr>"
  have p1: "pr_core p1 = e" "pr_state p1 = S_SHUTTING_DOWN" "pr_inputs p1 = pr_inputs p"
    by (simp_all add: p1_def send_aborts)
  have shut: "handle_shutdown cfg p = Inr (has_work p1, p1)"
    using assms(6,7,9) by (simp add: handle_shutdown_def p1_def)
  have rep: "reported (client_index (sd_store ?s r)) r p1" if "r \<in> set (sd_requests ?s)" for r
  proof -
    have "reported (client_index (sd_store ?s r)) r (send_abort_outputs outs (p\<lparr>pr_core := e\<rparr>))"
      by (rule send_aborts(4)[OF outs[OF that]])
    then show ?thesis by (simp add: p1_def reported_def)
  qed
  have d: "drained (en_sched e)" using drained_in_order ab(1,2) by blast
  show ?thesis
  proof (cases "has_work p1")
    case False
    then have "busy_pass cfg ev p = Some (Inr (Exit p1))" by (simp add: busy_pass_def shut)
    then show ?thesis using rep ab(2) p1(1) by metis
  next
    case True
    have "en_batches (pr_core p1) = []" using reached_no_batches[OF assms(1)] by (simp add: p1(1) e)
    with shutdown_pass[OF p1(2), of cfg ev] obtain p2 p3 ext where
      in2: "process_input_queue cfg (ev_ts ev) p1 = Inr (Inr p2)" and
      p3: "process_engine_step cfg ev p2 = Some (Inr (False, p3))" "pr_state p3 = S_SHUTTING_DOWN" "\<not> has_work p3"
      "drained (en_sched (pr_core p3))" "pr_outputs p3 = pr_outputs p1 @ ext"
      using d in_orderD(4,5)[OF ab(1)] assms(3-5,8,10) True p1(3) qm by (auto simp: p1(1) e)
    have "busy_pass cfg ev p = Some (Inr (Stepped p3))"
      using True in2 p3(1) by (simp add: busy_pass_def shut)
    moreover have "busy_pass cfg ev' p3 = Some (Inr (Exit p3))" for ev'
      using p3(2,3) by (simp add: busy_pass_def handle_shutdown_def)
    ultimately show ?thesis
      using p3(4) reported_more[OF rep p3(5)] by (auto simp: drained_def)
  qed
qed

end
