(* ===== verification/Engine_Examples.thy ===== *)
theory Engine_Examples
  imports Update_Examples Engine_Loop
begin

text \<open>
  An engine with two requests, a text request \<open>a\<close> and a request \<open>b\<close> that waits for
  a grammar, under the default policy, first come first served.
\<close>

definition ex_engine_config :: engine_config where
  "ex_engine_config = \<lparr>eg_sched = ex_config, eg_spec = False, eg_pooling = False, eg_batch = 1, eg_timeout = 0, eg_clients = 1,
     eg_task_ok = (\<lambda>_. True)\<rparr>"

definition ex_ec :: "rid \<Rightarrow> bool \<Rightarrow> real \<Rightarrow> engine_core_request" where
  "ex_ec r structured arrival = \<lparr>ec_request_id = r, ec_prompt_token_ids = Some [1, 2, 3], ec_mm_features = None,
     ec_sampling_params = Some (ex_sampling\<lparr>structured_outputs := structured\<rparr>), ec_pooling_params = None,
     ec_arrival_time = Some arrival, ec_lora_request = None, ec_cache_salt = None, ec_prompt_embeds = None, ec_prompt_is_token_ids = None,
     ec_client_index = 0, ec_priority = 0, ec_resumable = False, ec_abort_immediately = False,
     ec_request_md = Some (new_request_metadata 0)\<rparr>"

definition ex_req :: "rid \<Rightarrow> bool \<Rightarrow> real \<Rightarrow> request" where
  "ex_req r structured arrival = (text_request r 0 arrival [1, 2, 3])
     \<lparr>sampling_params := Some (ex_sampling\<lparr>structured_outputs := structured\<rparr>),
      structured_output_request := structured,
      status := (if structured then WAITING_FOR_STRUCTURED_OUTPUT_GRAMMAR else WAITING),
      prefill_stats := Some \<lparr>ps_num_prompt_tokens = 0, ps_num_computed_tokens = 0,
            ps_num_cached_tokens = 0, ps_num_local_cached_tokens = 0, ps_num_external_cached_tokens = 0\<rparr>,
      request_md := Some (new_request_metadata 0)\<rparr>"

definition ex_unused :: store where
  "ex_unused = (\<lambda>r. text_request r 0 0 [])"

definition ex_objects :: store where
  "ex_objects = ex_unused(''a'' := ex_req ''a'' False 1, ''b'' := ex_req ''b'' True 2)"

definition ex_new :: scheduler where
  "ex_new = \<lparr>sd_store = ex_unused, sd_requests = [],
     sd_waiting = FCFSRequestQueue [], sd_skipped = FCFSRequestQueue [], sd_running = [], sd_finished = {},
     sd_finished_dict = None, sd_streaming = 0, sd_qm = new_queue_manager ''m'' FCFS False, sd_km = ex_kv,
     sd_enc = MM (new_encoder_cache 8), sd_prev = {}, sd_pause = UNPAUSED\<rparr>"

definition ex_core :: "scheduler \<Rightarrow> engine_core" where
  "ex_core s = \<lparr>en_sched = s, en_aborts = [], en_batches = []\<rparr>"

definition ex_two :: scheduler where
  "ex_two = ex_new\<lparr>sd_store := ex_objects, sd_requests := [''a'', ''b''], sd_waiting := FCFSRequestQueue [''a''],
     sd_skipped := FCFSRequestQueue [''b'']\<rparr>"

lemma ex_new_scheduler: "new_scheduler ''m'' ''fcfs'' False (sc_num_blocks (eg_sched ex_engine_config)) False 8 ex_kv ex_unused = Inr ex_new"
  by (simp add: new_scheduler_def scheduling_policy_of_def create_request_queue_def ex_engine_config_def ex_config_def ex_new_def)

lemma ex_preprocess: "preprocess_add_request None ex_engine_config 0 (ex_ec r structured arrival) = Inr (ex_req r structured arrival)"
  by (simp add: preprocess_add_request_def ex_ec_def from_engine_core_request_def init_limits_def ex_engine_config_def
      ex_config_def ex_sampling_def ex_req_def text_request_def update_block_hashes_def
      length_from_prompt_token_ids_or_embeds_def get_skip_reading_prefix_cache_def)

definition ex_one :: scheduler where
  "ex_one = ex_new\<lparr>sd_store := ex_unused(''a'' := ex_req ''a'' False 1), sd_requests := [''a''], 
     sd_waiting := FCFSRequestQueue [''a'']\<rparr>"

lemma ex_add_a: "engine_add_request ex_engine_config 0 (ex_req ''a'' False 1) (ex_core ex_new) = Inr (ex_core ex_one)"
  by (simp add: engine_add_request_def ex_req_def text_request_def sched_add_request_def Let_def ex_core_def ex_new_def ex_one_def
      enqueue_waiting_request_def is_blocked_waiting_status_def log_event_def ex_engine_config_def ex_config_def upd_req_def)

lemma ex_add_b: "engine_add_request ex_engine_config 0 (ex_req ''b'' True 2) (ex_core ex_one) = Inr (ex_core ex_two)"
  by (simp add: engine_add_request_def ex_req_def text_request_def sched_add_request_def Let_def ex_core_def ex_new_def ex_one_def ex_two_def
      ex_objects_def
      enqueue_waiting_request_def is_blocked_waiting_status_def log_event_def ex_engine_config_def ex_config_def upd_req_def)

lemma ex_served: "served (eg_sched ex_engine_config) True (ex_unused r)"
  by (simp add: served_def ex_unused_def text_request_def tokens_wf_def num_tokens_def within_limit_def ignorable_def
      has_encoder_inputs_def num_encoder_inputs_def ex_engine_config_def ex_config_def)

lemma ex_add:
  assumes "reached ex_engine_config True (ex_core s)"
    and "engine_add_request ex_engine_config 0 (ex_req r structured arrival) (ex_core s) = Inr (ex_core s')"
  shows "reached ex_engine_config True (ex_core s')"
  using reached.add[OF assms(1) ex_preprocess _ _ _ assms(2)]
  by (simp add: ex_ec_def verified_params_def ex_sampling_def ignorable_def ex_req_def text_request_def
      has_encoder_inputs_def num_encoder_inputs_def ex_engine_config_def ex_config_def)

lemma ex_reached: "reached ex_engine_config True (ex_core ex_new)" "reached ex_engine_config True (ex_core ex_two)"
proof -
  show "reached ex_engine_config True (ex_core ex_new)"
    using reached.start[OF ex_new_scheduler allI[OF ex_served]] by (simp add: ex_core_def)
  then show "reached ex_engine_config True (ex_core ex_two)"
    using ex_add[OF ex_add[OF _ ex_add_a] ex_add_b] by blast
qed

lemma ex_sync: "\<not> sc_async (eg_sched ex_engine_config)"
  by (simp add: ex_engine_config_def ex_config_def)

lemma ex_apart: "told_apart (eg_sched ex_engine_config) (en_sched (ex_core ex_two))"
  by (simp add: told_apart_def arrival_priority_def fcfs_object_def ticks_def py_int_def ex_engine_config_def ex_config_def
      ex_core_def ex_two_def ex_objects_def ex_req_def text_request_def)

section \<open>A step\<close>

definition ex_scored :: store where
  "ex_scored = set_priority 20000000 ''b'' (set_priority 10000000 ''a'' ex_objects)"

definition ex_result :: "(sched_output \<times> scheduler) result option" where
  "ex_result = schedule_queues ex_config 0 ex_scored [''a'', ''b''] (new_queue_manager ''m'' FCFS False) ex_two"

lemma ex_two_schedule: "schedule ex_config 0 0 0 ex_two = ex_result"
proof -
  have "\<not> track_stats (new_queue_manager ''m'' FCFS False)" by (simp add: new_queue_manager_def Let_def)
  moreover have "update_priorities ''fcfs'' (new_queue_manager ''m'' FCFS False) 0 [''a'', ''b''] ex_objects
      = Inr (ex_scored, [''a'', ''b''])"
    by (simp add: update_priorities_def fcfs_priority_def ticks_def py_int_def set_priority_def ex_scored_def
        ex_objects_def ex_req_def text_request_def)
  ultimately show ?thesis
    by (simp add: schedule_def update_queue_stats_def ex_two_def ex_new_def ex_config_def ex_result_def)
qed

definition ex_mo :: runner_output where
  "ex_mo = \<lparr>ro_index = Map.empty(''a'' \<mapsto> 0), ro_sampled = [[5]], ro_pooled = [], ro_nans = Map.empty\<rparr>"

definition ex_env :: "rid list list \<Rightarrow> step_env" where
  "ex_env late = \<lparr>ev_ts = 0, ev_now = 0, ev_prio = 0, ev_update = 0, ev_run = (\<lambda>_ _. Inr ex_mo), ev_mask = (\<lambda>_ _ _. []),
     ev_advance = (\<lambda>_. False), ev_accepts = (\<lambda>_ _. True), ev_validates = (\<lambda>_ ts. ts), ev_late = late,
     ev_drafts = None, ev_done = False\<rparr>"

definition ex_finishes :: "rid list list \<Rightarrow> bool" where
  "ex_finishes late = (case ex_result of
       Some (Inr (out, s)) \<Rightarrow> so_total out > 0 \<and> \<not> so_pending_structured out
         \<and> succeeds (finish_batch ex_engine_config (ex_env late) out ex_mo ((ex_core ex_two)\<lparr>en_sched := s\<rparr>))
     | _ \<Rightarrow> False)"

lemma ex_result_finishes: "ex_finishes [[''a'']]" "ex_finishes []"
  by code_simp+

lemma ex_two_requests: "has_requests (en_sched (ex_core ex_two))"
  by code_simp

lemma ex_step_runs:
  assumes "ex_finishes late"
  obtains outs ex e' where "engine_step ex_engine_config (ex_env late) (ex_core ex_two) = Some (Inr (outs, ex, e'))"
proof -
  obtain out s where r: "ex_result = Some (Inr (out, s))"
    and "succeeds (finish_batch ex_engine_config (ex_env late) out ex_mo ((ex_core ex_two)\<lparr>en_sched := s\<rparr>))"
    using assms by (auto simp: ex_finishes_def split: option.splits sum.splits)
  then obtain outs e' where f: "finish_batch ex_engine_config (ex_env late) out ex_mo ((ex_core ex_two)\<lparr>en_sched := s\<rparr>) = Inr (outs, e')"
    by (metis succeedsE prod.collapse)
  have "schedule (eg_sched ex_engine_config) (ev_ts (ex_env late)) (ev_now (ex_env late)) (ev_prio (ex_env late))
      (en_sched (ex_core ex_two)) = Some (Inr (out, s))"
    using ex_two_schedule r by (simp add: ex_engine_config_def ex_env_def ex_core_def)
  then have "engine_step ex_engine_config (ex_env late) (ex_core ex_two) = Some (Inr (outs, so_total out > 0, e'))"
    using f ex_two_requests by (simp add: engine_step_def ex_env_def[THEN arg_cong[where f = ev_run]])
  then show thesis by (rule that)
qed

theorem engine_keeps_order_witness:
  "tracked ex_two \<and> linked ex_two \<and> ignored_req_ids (sd_qm ex_two) = {} \<and> \<not> is_finished (sd_store ex_two ''b'')"
proof -
  have "''b'' \<in> set (sd_requests ex_two)" by (simp add: ex_two_def)
  then show ?thesis using engine_keeps_order[OF ex_reached(2) ex_sync] by (simp add: ex_core_def)
qed

theorem engine_requests_well_formed_witness:
  "num_output_tokens (sd_store ex_two ''a'') < 16 \<and> status (sd_store ex_two ''b'') = WAITING_FOR_STRUCTURED_OUTPUT_GRAMMAR"
proof -
  have "''a'' \<in> set (sd_requests (en_sched (ex_core ex_two)))" by (simp add: ex_core_def ex_two_def)
  from engine_requests_well_formed[OF ex_reached(2) ex_sync this refl]
  show ?thesis by (simp add: ex_core_def ex_two_def ex_objects_def ex_req_def text_request_def)
qed

theorem late_abort_silences_witness:
  "\<exists>outs ex e'. engine_step ex_engine_config (ex_env [[''a'']]) (ex_core ex_two) = Some (Inr (outs, ex, e'))
    \<and> ''a'' \<notin> set (sd_requests (en_sched e')) \<and> en_aborts e' = []
    \<and> (\<nexists>c os F out. outs c = Some (os, F) \<and> out \<in> set os \<and> eo_request_id out = ''a'')"
proof -
  obtain outs ex e' where step: "engine_step ex_engine_config (ex_env [[''a'']]) (ex_core ex_two) = Some (Inr (outs, ex, e'))"
    by (rule ex_step_runs[OF ex_result_finishes(1)])
  have "''a'' \<in> set (concat (en_aborts (ex_core ex_two) @ ev_late (ex_env [[''a'']])))" by (simp add: ex_env_def)
  from late_abort_silences[OF ex_reached(2) ex_sync ex_apart step ex_two_requests disjI1[OF TrueI] this] step show ?thesis by blast
qed

theorem skipped_requests_passed_over_witness:
  "\<exists>outs ex e'. engine_step ex_engine_config (ex_env []) (ex_core ex_two) = Some (Inr (outs, ex, e'))
    \<and> ''b'' \<in># queued (sd_skipped (en_sched e'))
    \<and> (\<nexists>c os F out. outs c = Some (os, F) \<and> out \<in> set os \<and> eo_request_id out = ''b'')"
proof -
  obtain outs ex e' where step: "engine_step ex_engine_config (ex_env []) (ex_core ex_two) = Some (Inr (outs, ex, e'))"
    by (rule ex_step_runs[OF ex_result_finishes(2)])
  have "''b'' \<in># queued (sd_skipped (en_sched (ex_core ex_two)))" 
    by (simp add: ex_core_def ex_two_def queued_def)
  moreover have "''b'' \<notin> set (concat (en_aborts (ex_core ex_two) @ ev_late (ex_env [])))" by (simp add: ex_core_def ex_env_def)
  ultimately show ?thesis
    using skipped_requests_passed_over[OF ex_reached(2) ex_sync ex_apart step disjI1[OF TrueI]] step by blast
qed

section \<open>The batch queue and the shutdown\<close>

definition ex_batch_config :: engine_config where
  "ex_batch_config = ex_engine_config\<lparr>eg_batch := 2\<rparr>"

lemma ex_batch_finishes: "finish_batch ex_batch_config = finish_batch ex_engine_config"
  by (rule ext)+ (simp add: finish_batch_def process_aborts_queue_def abort_requests_def ex_batch_config_def)

theorem batch_queue_first_in_first_out_witness:
  "\<exists>os ex e'. step_with_batch_queue ex_batch_config ((ex_env [])\<lparr>ev_done := True\<rparr>) (ex_core ex_two) = Some (Inr (Some os, ex, e'))
    \<and> length (en_batches e') < 2
    \<and> (\<exists>out mo x y. finish_batch ex_batch_config ((ex_env [])\<lparr>ev_done := True\<rparr>) out mo x = Inr (os, y))"
proof -
  let ?ev = "(ex_env [])\<lparr>ev_done := True\<rparr>"
  obtain out s where r: "ex_result = Some (Inr (out, s))" "so_total out > 0" "\<not> so_pending_structured out"
    and "succeeds (finish_batch ex_engine_config (ex_env []) out ex_mo ((ex_core ex_two)\<lparr>en_sched := s\<rparr>))"
    using ex_result_finishes(2) by (auto simp: ex_finishes_def split: option.splits sum.splits)
  then obtain os e' where "finish_batch ex_engine_config (ex_env []) out ex_mo ((ex_core ex_two)\<lparr>en_sched := s\<rparr>) = Inr (os, e')"
    by (metis succeedsE prod.collapse)
  then have f: "finish_batch ex_batch_config ?ev out ex_mo \<lparr>en_sched = s, en_aborts = [], en_batches = []\<rparr> = Inr (os, e')"
    by (simp add: ex_batch_finishes ex_core_def finish_batch_def)
  have "schedule (eg_sched ex_batch_config) (ev_ts ?ev) (ev_now ?ev) (ev_prio ?ev) (en_sched (ex_core ex_two)) = Some (Inr (out, s))"
    using ex_two_schedule r(1) by (simp add: ex_batch_config_def ex_engine_config_def ex_env_def ex_core_def)
  then have "step_with_batch_queue ex_batch_config ?ev (ex_core ex_two) = Some (Inr (Some os, True, e'))"
    using f r(2,3) ex_two_requests
    by (simp add: step_with_batch_queue_def schedule_batch_def pop_batch_def Let_def ex_core_def ex_env_def
        ex_batch_config_def ex_engine_config_def)
  from batch_queue_first_in_first_out[OF this] this show ?thesis
    by (auto simp: ex_batch_config_def)
qed

definition ex_proc :: engine_proc where
  "ex_proc = \<lparr>pr_core = ex_core ex_two, pr_state = S_REQUESTED, pr_inputs = [ADD (ex_req ''c'' False 3)], pr_outputs = [],
     pr_callbacks = []\<rparr>"

lemma ex_aborts: "succeeds (abort_all ex_engine_config (pr_core ex_proc))"
  by code_simp

theorem shutdown_drains_witness:
  "\<exists>q. (busy_pass ex_engine_config (ex_env []) ex_proc = Some (Inr (Exit q))
      \<or> busy_pass ex_engine_config (ex_env []) ex_proc = Some (Inr (Stepped q))
        \<and> (\<forall>ev'. busy_pass ex_engine_config ev' q = Some (Inr (Exit q))))
    \<and> sd_requests (en_sched (pr_core q)) = [] \<and> reported 0 ''a'' q \<and> reported 0 ''b'' q"
proof -
  obtain outs e where ab: "abort_all ex_engine_config (pr_core ex_proc) = Inr (outs, e)"
    using ex_aborts by (metis succeedsE prod.collapse)
  have re: "reached ex_engine_config True (pr_core ex_proc)" using ex_reached(2) by (simp add: ex_proc_def)
  have pri: "can_prioritize (eg_sched ex_engine_config) (sd_qm (en_sched (pr_core ex_proc)))"
    by (simp add: can_prioritize_def ex_proc_def ex_core_def ex_two_def ex_new_def ex_engine_config_def ex_config_def
        new_queue_manager_def Let_def)
  have cfg: "0 \<le> sc_max_tokens (eg_sched ex_engine_config)" "eg_batch ex_engine_config \<le> 1" "pr_state ex_proc = S_REQUESTED"
    "eg_timeout ex_engine_config = 0" "EXECUTOR_FAILED \<notin> set (pr_inputs ex_proc)"
    by (simp_all add: ex_engine_config_def ex_config_def ex_proc_def)
  have run: "so_total out = 0 \<Longrightarrow> \<exists>mo. ev_run (ex_env []) out g = Inr mo" for out g by (simp add: ex_env_def)
  from shutdown_drains[OF re ex_sync pri cfg ab run]
  show ?thesis by (auto simp: ex_proc_def ex_core_def ex_two_def ex_objects_def ex_req_def text_request_def)
qed

end
