(* ===== verification/Ngram_Proposer.thy ===== *)
theory Ngram_Proposer
  imports Prelude
begin

text \<open>
  \<open>vllm/v1/spec_decode/ngram_proposer.py\<close>: draft tokens by prompt lookup. The search
  is a Knuth-Morris-Pratt prefix table on the reversed tokens, capped at the longest n-gram;
  it is equal to the search one would write down first, \<open>ngram_reference\<close>, reads no array
  out of range and ends. An index out of range, undefined in compiled code, is
  \<open>IndexError\<close>.
\<close>

section \<open>The proposer\<close>

text \<open>The local variables of the loop.\<close>

record ngram_state =
  ng_i :: nat
  ng_prev :: nat
  ng_longest :: nat
  ng_position :: nat
  ng_lps :: "nat list"

definition set_or_raise :: "'a list \<Rightarrow> nat \<Rightarrow> 'a \<Rightarrow> 'a list result" where
  "set_or_raise xs i x = (if i < length xs then Inr (xs[i := x]) else Inl IndexError)"

text \<open>One iteration of the loop; \<open>m\<close> is \<open>max_ngram\<close>.\<close>

definition ngram_step :: "nat \<Rightarrow> int list \<Rightarrow> ngram_state \<Rightarrow> ngram_state result" where
  "ngram_step m toks s =
     bindE (nth_or_raise toks (ng_prev s)) (\<lambda>a.
     bindE (nth_or_raise toks (ng_i s)) (\<lambda>b.
       if a = b
       then let p = ng_prev s + 1 in
         bindE (if ng_i s < m then set_or_raise (ng_lps s) (ng_i s) p else Inr (ng_lps s)) (\<lambda>lps.
         bindE (if p = m then nth_or_raise lps (m - 1) else Inr p) (\<lambda>p'.
           Inr \<lparr>ng_i = ng_i s + 1, ng_prev = p',
                ng_longest = (if p \<ge> ng_longest s then p else ng_longest s),
                ng_position = (if p \<ge> ng_longest s then ng_i s else ng_position s), ng_lps = lps\<rparr>))
       else if ng_prev s \<noteq> 0
       then bindE (nth_or_raise (ng_lps s) (ng_prev s - 1)) (\<lambda>p'. Inr (s\<lparr>ng_prev := p'\<rparr>))
       else Inr (s\<lparr>ng_i := ng_i s + 1\<rparr>)))"

partial_function (option) ngram_loop :: "nat \<Rightarrow> int list \<Rightarrow> ngram_state \<Rightarrow> ngram_state result option" where
  "ngram_loop m toks s =
     (if ng_i s < length toks
      then (case ngram_step m toks s of Inl e \<Rightarrow> Some (Inl e) | Inr s' \<Rightarrow> ngram_loop m toks s')
      else Some (Inr s))"

text \<open>\<open>_find_longest_matched_ngram_and_propose_tokens\<close>\<close>

definition find_longest_matched_ngram ::
  "int list \<Rightarrow> nat \<Rightarrow> nat \<Rightarrow> int \<Rightarrow> int \<Rightarrow> int list result option" where
  "find_longest_matched_ngram origin min_n max_n max_len k =
     (let total = length origin; k1 = min k (max_len - int total) in
      if total < min_n then Some (Inr [])
      else if k1 \<le> 0 then Some (Inr [])
      else Option.bind (ngram_loop max_n (rev origin)
             \<lparr>ng_i = 1, ng_prev = 0, ng_longest = 0, ng_position = 0, ng_lps = replicate max_n 0\<rparr>) (\<lambda>res. Some (bindE res (\<lambda>s.
        if ng_longest s < min_n then Inr []
        else let start = total - 1 - ng_position s + ng_longest s;
                 k2 = min k1 (int total - int start) in
          Inr (take (nat k2) (drop start origin))))))"

record ngram_config =
  nc_min :: nat
  nc_max :: nat
  nc_k :: int
  nc_max_len :: int

text \<open>\<open>propose\<close> with \<open>batch_propose\<close>: requests without a sampled token or at the
  length of the model get no drafts. A row holds the tokens of one request, valid up to the
  number given with it.\<close>

definition propose_one :: "ngram_config \<Rightarrow> int list \<times> nat \<times> int list \<Rightarrow> int list result option" where
  "propose_one c x = (case x of (sampled, n, row) \<Rightarrow>
     if sampled = [] \<or> int n \<ge> nc_max_len c then Some (Inr [])
     else find_longest_matched_ngram (take n row) (nc_min c) (nc_max c) (nc_max_len c) (nc_k c))"

definition propose :: "ngram_config \<Rightarrow> (int list \<times> nat \<times> int list) list \<Rightarrow> int list result option list" where
  "propose c batch = map (propose_one c) batch"

section \<open>Borders\<close>

text \<open>\<open>border t v p\<close>: the first \<open>v\<close> tokens end at position \<open>p\<close>, not being the
  prefix itself.\<close>

definition border :: "int list \<Rightarrow> nat \<Rightarrow> nat \<Rightarrow> bool" where
  "border t v p \<longleftrightarrow> v \<le> p \<and> (\<forall>j < v. t ! j = t ! (p + 1 - v + j))"

lemma border_0 [simp]: "border t 0 p"
  by (simp add: border_def)

lemma border_le: "border t v p \<Longrightarrow> v \<le> p"
  by (simp add: border_def)

lemma border_shorter:
  assumes "border t v p" "border t w p" "w < v"
  shows "border t w (v - 1)"
  unfolding border_def
proof (intro conjI allI impI)
  fix j assume j: "j < w"
  have "t ! (v - w + j) = t ! (p + 1 - v + (v - w + j))" using assms j by (simp add: border_def)
  also have "p + 1 - v + (v - w + j) = p + 1 - w + j" using assms by (simp add: border_def)
  also have "t ! (p + 1 - w + j) = t ! j" using assms j by (simp add: border_def)
  finally show "t ! j = t ! (v - 1 + 1 - w + j)" using assms by simp
qed (use assms in simp)

lemma border_trans:
  assumes "border t v p" "border t w (v - 1)" "0 < v"
  shows "border t w p"
  unfolding border_def
proof (intro conjI allI impI)
  fix j assume j: "j < w"
  have w: "w < v" using assms border_le[OF assms(2)] by simp
  have "t ! j = t ! (v - w + j)" using assms(2,3) j w by (simp add: border_def)
  also have "\<dots> = t ! (p + 1 - v + (v - w + j))" using assms(1) j w by (simp add: border_def)
  also have "p + 1 - v + (v - w + j) = p + 1 - w + j" using w border_le[OF assms(1)] by simp
  finally show "t ! j = t ! (p + 1 - w + j)" .
qed (use border_le[OF assms(1)] border_le[OF assms(2)] in simp)

lemma border_extend: "border t (Suc w) (Suc p) \<longleftrightarrow> border t w p \<and> t ! w = t ! Suc p"
proof
  assume b: "border t (Suc w) (Suc p)"
  then have "t ! w = t ! (Suc p + 1 - Suc w + w)" by (simp add: border_def)
  then show "border t w p \<and> t ! w = t ! Suc p" using b by (auto simp: border_def)
next
  assume b: "border t w p \<and> t ! w = t ! Suc p"
  then show "border t (Suc w) (Suc p)" by (auto simp: border_def less_Suc_eq)
qed

section \<open>The invariant of the loop\<close>

text \<open>\<open>longest_border t m p v\<close>: \<open>v\<close> is the longest of the borders at \<open>p\<close> up to
  \<open>m\<close>.\<close>

definition longest_border :: "int list \<Rightarrow> nat \<Rightarrow> nat \<Rightarrow> nat \<Rightarrow> bool" where
  "longest_border t m p v \<longleftrightarrow> v \<le> m \<and> border t v p \<and> (\<forall>w \<le> m. border t w p \<longrightarrow> w \<le> v)"

definition table_ok :: "nat \<Rightarrow> int list \<Rightarrow> ngram_state \<Rightarrow> bool" where
  "table_ok m t s \<longleftrightarrow> length (ng_lps s) = m
     \<and> (\<forall>j < m. if j < ng_i s then longest_border t m j (ng_lps s ! j) else ng_lps s ! j = 0)"

definition candidate_ok :: "nat \<Rightarrow> int list \<Rightarrow> ngram_state \<Rightarrow> bool" where
  "candidate_ok m t s \<longleftrightarrow> 0 < ng_i s \<and> ng_prev s < m \<and> border t (ng_prev s) (ng_i s - 1)
     \<and> (\<forall>w \<le> m. border t w (ng_i s) \<longrightarrow> w \<le> Suc (ng_prev s))"

definition best_ok :: "nat \<Rightarrow> int list \<Rightarrow> ngram_state \<Rightarrow> bool" where
  "best_ok m t s \<longleftrightarrow> ng_longest s \<le> m \<and> (\<forall>p < ng_i s. \<forall>w \<le> m. border t w p \<longrightarrow> w \<le> ng_longest s)
     \<and> (0 < ng_longest s \<longrightarrow> ng_position s < ng_i s \<and> border t (ng_longest s) (ng_position s)
        \<and> (\<forall>p < ng_i s. border t (ng_longest s) p \<longrightarrow> p \<le> ng_position s))"

lemma longest_border_unique: "longest_border t m p v \<Longrightarrow> border t w p \<Longrightarrow> w \<le> m \<Longrightarrow> w \<le> v"
  by (simp add: longest_border_def)

lemma longest_here:
  assumes "candidate_ok m t s" "t ! ng_prev s = t ! ng_i s"
  shows "longest_border t m (ng_i s) (Suc (ng_prev s))"
proof -
  obtain i where i: "ng_i s = Suc i" using assms(1) by (cases "ng_i s") (auto simp: candidate_ok_def)
  have "border t (Suc (ng_prev s)) (Suc i)" using assms i by (simp add: candidate_ok_def border_extend)
  then show ?thesis using assms i by (simp add: longest_border_def candidate_ok_def)
qed

text \<open>After a match the next candidate is the border found, or, if that has the full length,
  the longest proper border of it.\<close>

lemma candidate_next:
  assumes i: "longest_border t m i v" and p: "p = v \<and> v < m \<or> v = m \<and> 0 < m \<and> longest_border t m (m - 1) p"
    and "ng_i s = Suc i" "ng_prev s = p"
  shows "candidate_ok m t s"
proof -
  have pm: "p < m" using p by (auto simp: longest_border_def dest: border_le)
  have b: "border t p i" using i p border_trans[of t m i p] by (auto simp: longest_border_def)
  have "w \<le> Suc p" if w: "w \<le> m" "border t w (Suc i)" for w
  proof (cases w)
    case (Suc w')
    then have b': "border t w' i" using w by (simp add: border_extend)
    then have le: "w' \<le> v" using longest_border_unique[OF i] w Suc by simp
    show ?thesis
    proof (cases "v = m")
      case True
      then have "border t w' (m - 1)" using border_shorter[OF _ b'] i w Suc by (simp add: longest_border_def)
      then show ?thesis using True p w Suc by (auto simp: longest_border_def)
    qed (use le p Suc in auto)
  qed simp
  then show ?thesis using pm b assms(3,4) by (simp add: candidate_ok_def)
qed

lemma best_next:
  assumes "best_ok m t s" "longest_border t m (ng_i s) v" "0 < v"
    and "ng_i s' = Suc (ng_i s)" "ng_longest s' = (if v \<ge> ng_longest s then v else ng_longest s)"
    and "ng_position s' = (if v \<ge> ng_longest s then ng_i s else ng_position s)"
  shows "best_ok m t s'"
proof (cases "v \<ge> ng_longest s")
  case True
  have "w \<le> v" if "p < Suc (ng_i s)" "w \<le> m" "border t w p" for p w
  proof (cases "p = ng_i s")
    case False
    then have "w \<le> ng_longest s" using assms(1) that by (auto simp: best_ok_def less_Suc_eq)
    then show ?thesis using True by simp
  qed (use longest_border_unique[OF assms(2)] that in simp)
  then show ?thesis using assms(2-6) True by (auto simp: best_ok_def longest_border_def)
next
  case False
  then have "\<not> border t (ng_longest s) (ng_i s)"
    using assms(1,2) by (auto simp: best_ok_def longest_border_def)
  then show ?thesis using assms False by (auto simp: best_ok_def longest_border_def less_Suc_eq)
qed

lemma best_skip:
  assumes "best_ok m t s" "longest_border t m (ng_i s) 0"
  shows "best_ok m t (s\<lparr>ng_i := Suc (ng_i s)\<rparr>)"
  using assms by (fastforce simp: best_ok_def longest_border_def less_Suc_eq)

lemma table_next:
  assumes "table_ok m t s" "longest_border t m (ng_i s) v"
    and "ng_i s' = Suc (ng_i s)" "ng_lps s' = (if ng_i s < m then (ng_lps s)[ng_i s := v] else ng_lps s)"
  shows "table_ok m t s'"
  using assms by (auto simp: table_ok_def nth_list_update less_Suc_eq)

lemma table_skip:
  assumes "table_ok m t s" "longest_border t m (ng_i s) 0"
  shows "table_ok m t (s\<lparr>ng_i := Suc (ng_i s)\<rparr>)"
  using assms by (auto simp: table_ok_def less_Suc_eq)

definition ngram_inv :: "nat \<Rightarrow> int list \<Rightarrow> ngram_state \<Rightarrow> bool" where
  "ngram_inv m t s \<longleftrightarrow> table_ok m t s \<and> candidate_ok m t s \<and> best_ok m t s \<and> ng_i s \<le> length t"

lemma candidate_index: "candidate_ok m t s \<Longrightarrow> ng_prev s < ng_i s"
  by (auto simp: candidate_ok_def dest: border_le)

text \<open>A match.\<close>

lemma step_match:
  assumes inv: "ngram_inv m t s" and i: "ng_i s < length t" and eq: "t ! ng_prev s = t ! ng_i s"
  shows "\<exists>s'. ngram_step m t s = Inr s' \<and> ngram_inv m t s' \<and> ng_i s' = Suc (ng_i s)"
proof -
  have c: "candidate_ok m t s" and tb: "table_ok m t s" and b: "best_ok m t s" using inv by (simp_all add: ngram_inv_def)
  let ?p = "Suc (ng_prev s)"
  have pm: "?p \<le> m" using c by (simp add: candidate_ok_def)
  note l = longest_here[OF c eq]
  define lps where "lps = (if ng_i s < m then (ng_lps s)[ng_i s := ?p] else ng_lps s)"
  have lps: "(if ng_i s < m then set_or_raise (ng_lps s) (ng_i s) ?p else Inr (ng_lps s)) = Inr lps" "length lps = m"
    using tb by (simp_all add: lps_def set_or_raise_def table_ok_def)
  define p' where "p' = (if ?p = m then lps ! (m - 1) else ?p)"
  have p': "(if ?p = m then nth_or_raise lps (m - 1) else Inr ?p) = Inr p'"
    using lps(2) pm by (auto simp: p'_def)
  define s' where "s' = \<lparr>ng_i = Suc (ng_i s), ng_prev = p', ng_longest = (if ?p \<ge> ng_longest s then ?p else ng_longest s),
      ng_position = (if ?p \<ge> ng_longest s then ng_i s else ng_position s), ng_lps = lps\<rparr>"
  have run: "ngram_step m t s = Inr s'"
    using i eq candidate_index[OF c] lps(1) p' by (simp add: ngram_step_def Let_def s'_def)
  have tb': "table_ok m t s'" by (rule table_next[OF tb l]) (simp_all add: s'_def lps_def)
  have "m - 1 < ng_i s'" "0 < m" if "?p = m" using that candidate_index[OF c] by (auto simp: s'_def)
  then have "longest_border t m (m - 1) p'" if "?p = m"
    using tb' that by (auto simp: table_ok_def p'_def s'_def dest!: spec[of _ "m - 1"])
  then have "candidate_ok m t s'"
    using pm by (intro candidate_next[OF l, of p']) (auto simp: p'_def s'_def)
  moreover have "best_ok m t s'" by (rule best_next[OF b l]) (simp_all add: s'_def)
  ultimately show ?thesis using run tb' i by (simp add: ngram_inv_def s'_def)
qed

text \<open>A mismatch with a candidate left: the next longest border is tried.\<close>

lemma step_shorter:
  assumes inv: "ngram_inv m t s" and i: "ng_i s < length t" and ne: "t ! ng_prev s \<noteq> t ! ng_i s" and p0: "0 < ng_prev s"
  shows "\<exists>s'. ngram_step m t s = Inr s' \<and> ngram_inv m t s' \<and> ng_i s' = ng_i s \<and> ng_prev s' < ng_prev s"
proof -
  have c: "candidate_ok m t s" and tb: "table_ok m t s" and b: "best_ok m t s" using inv by (simp_all add: ngram_inv_def)
  obtain k where k: "ng_i s = Suc k" using c by (cases "ng_i s") (auto simp: candidate_ok_def)
  let ?q = "ng_lps s ! (ng_prev s - 1)"
  have pm: "ng_prev s < m" using c by (simp add: candidate_ok_def)
  have q: "longest_border t m (ng_prev s - 1) ?q"
    using tb pm candidate_index[OF c] by (auto simp: table_ok_def dest!: spec[of _ "ng_prev s - 1"])
  then have qp: "?q < ng_prev s" using p0 by (auto simp: longest_border_def dest: border_le)
  define s' where "s' = s\<lparr>ng_prev := ?q\<rparr>"
  have run: "ngram_step m t s = Inr s'"
    using i ne p0 tb pm candidate_index[OF c] by (simp add: ngram_step_def s'_def table_ok_def)
  have bp: "border t (ng_prev s) k" using c k by (simp add: candidate_ok_def)
  have "w \<le> Suc ?q" if w: "w \<le> m" "border t w (Suc k)" for w
  proof (cases w)
    case (Suc w')
    then have b': "border t w' k" "t ! w' = t ! Suc k" using w by (simp_all add: border_extend)
    have "w' \<le> ng_prev s" using c w Suc k by (auto simp: candidate_ok_def)
    moreover have "w' \<noteq> ng_prev s" using b'(2) ne k by auto
    ultimately have "border t w' (ng_prev s - 1)" by (intro border_shorter[OF bp b'(1)]) simp
    then show ?thesis using longest_border_unique[OF q] w Suc by simp
  qed simp
  moreover have "border t ?q k" using border_trans[OF bp _ p0] q by (simp add: longest_border_def)
  ultimately have "candidate_ok m t s'" using c k qp pm by (simp add: candidate_ok_def s'_def)
  then show ?thesis using run tb b i qp by (simp add: ngram_inv_def s'_def table_ok_def best_ok_def)
qed

text \<open>A mismatch with no candidate left.\<close>

lemma step_skip:
  assumes inv: "ngram_inv m t s" and i: "ng_i s < length t" and ne: "t ! ng_prev s \<noteq> t ! ng_i s" and p0: "ng_prev s = 0"
  shows "\<exists>s'. ngram_step m t s = Inr s' \<and> ngram_inv m t s' \<and> ng_i s' = Suc (ng_i s)"
proof -
  have c: "candidate_ok m t s" and tb: "table_ok m t s" and b: "best_ok m t s" using inv by (simp_all add: ngram_inv_def)
  obtain k where k: "ng_i s = Suc k" using c by (cases "ng_i s") (auto simp: candidate_ok_def)
  have "w = 0" if w: "w \<le> m" "border t w (Suc k)" for w
  proof (cases w)
    case (Suc w')
    then have "t ! w' = t ! Suc k" "w' \<le> 0" using w c k p0 by (auto simp: border_extend candidate_ok_def)
    then show ?thesis using ne p0 k by simp
  qed simp
  then have l: "longest_border t m (ng_i s) 0" by (auto simp: longest_border_def k)
  have pm: "0 < m" using c p0 by (simp add: candidate_ok_def)
  have "candidate_ok m t (s\<lparr>ng_i := Suc (ng_i s)\<rparr>)" by (rule candidate_next[OF l, of 0]) (simp_all add: pm p0)
  then have "ngram_inv m t (s\<lparr>ng_i := Suc (ng_i s)\<rparr>)"
    using table_skip[OF tb l] best_skip[OF b l] i by (simp add: ngram_inv_def)
  moreover have "t \<noteq> []" using i by auto
  then have "ngram_step m t s = Inr (s\<lparr>ng_i := Suc (ng_i s)\<rparr>)"
    using i ne p0 by (simp add: ngram_step_def nth_or_raise_def)
  ultimately show ?thesis by auto
qed

section \<open>The loop ends\<close>

lemma ngram_loop_ends:
  assumes "ngram_inv m t s"
  shows "\<exists>s'. ngram_loop m t s = Some (Inr s') \<and> ngram_inv m t s' \<and> ng_i s' = length t"
  using assms
proof (induction s rule: wf_induct_rule[OF wf_measures[of "[\<lambda>s. length t - ng_i s, ng_prev]"]])
  case (1 s)
  show ?case
  proof (cases "ng_i s < length t")
    case False
    then have "ng_i s = length t" using 1(2) by (simp add: ngram_inv_def)
    then show ?thesis using 1(2) by (subst ngram_loop.simps) simp
  next
    case True
    obtain s' where s': "ngram_step m t s = Inr s'" "ngram_inv m t s'"
      and less: "ng_i s' = Suc (ng_i s) \<or> ng_i s' = ng_i s \<and> ng_prev s' < ng_prev s"
      using step_match[OF 1(2) True] step_shorter[OF 1(2) True] step_skip[OF 1(2) True] by blast
    have "(s', s) \<in> measures [\<lambda>s. length t - ng_i s, ng_prev]" using less True by auto
    then obtain u where "ngram_loop m t s' = Some (Inr u)" "ngram_inv m t u" "ng_i u = length t"
      using 1(1)[OF _ s'(2)] by blast
    then show ?thesis using True s'(1) by (subst ngram_loop.simps) simp
  qed
qed

definition ngram_start :: "nat \<Rightarrow> ngram_state" where
  "ngram_start m = \<lparr>ng_i = 1, ng_prev = 0, ng_longest = 0, ng_position = 0, ng_lps = replicate m 0\<rparr>"

lemma ngram_start_inv: "0 < m \<Longrightarrow> t \<noteq> [] \<Longrightarrow> ngram_inv m t (ngram_start m)"
  by (auto simp: ngram_inv_def table_ok_def candidate_ok_def best_ok_def longest_border_def ngram_start_def Suc_le_eq
      dest: border_le)

section \<open>The reference\<close>

text \<open>\<open>occurs xs v s\<close>: the last \<open>v\<close> tokens also stand at \<open>s\<close>, further left.\<close>

definition occurs :: "int list \<Rightarrow> nat \<Rightarrow> nat \<Rightarrow> bool" where
  "occurs xs v s \<longleftrightarrow> s + v < length xs \<and> take v (drop s xs) = drop (length xs - v) xs"

text \<open>The longest such suffix, its leftmost occurrence, and what follows there.\<close>

definition ngram_reference :: "int list \<Rightarrow> nat \<Rightarrow> nat \<Rightarrow> int \<Rightarrow> int list" where
  "ngram_reference xs min_n max_n k =
     (case find (\<lambda>v. find (occurs xs v) [0..<length xs] \<noteq> None) (rev [min_n..<Suc max_n]) of
        None \<Rightarrow> []
      | Some v \<Rightarrow> (case find (occurs xs v) [0..<length xs] of
            None \<Rightarrow> []
          | Some s \<Rightarrow> take (nat k) (drop (s + v) xs)))"

lemma find_rev_upt:
  assumes "lo \<le> v" "v < hi" "P v" "\<And>j. v < j \<Longrightarrow> j < hi \<Longrightarrow> \<not> P j"
  shows "find P (rev [lo..<hi]) = Some v"
  using assms
proof (induction hi)
  case (Suc hi)
  then show ?case by (cases "v = hi") (auto simp: less_Suc_eq)
qed simp

lemma border_occurs:
  assumes "p < length xs"
  shows "border (rev xs) v p \<longleftrightarrow> occurs xs v (length xs - 1 - p)"
proof (cases "v \<le> p")
  case True
  let ?n = "length xs"
  let ?s = "?n - 1 - p"
  have "border (rev xs) v p \<longleftrightarrow> (\<forall>j < v. xs ! (?n - 1 - j) = xs ! (?s + (v - 1 - j)))"
    using True assms by (auto simp: border_def rev_nth algebra_simps)
  also have "\<dots> \<longleftrightarrow> (\<forall>j < v. xs ! (?s + j) = xs ! (?n - v + j))"
  proof safe
    fix j assume *: "\<forall>j < v. xs ! (?n - 1 - j) = xs ! (?s + (v - 1 - j))" and j: "j < v"
    have "xs ! (?n - 1 - (v - 1 - j)) = xs ! (?s + (v - 1 - (v - 1 - j)))" by (rule *[rule_format]) (use j in simp)
    moreover have "?n - 1 - (v - 1 - j) = ?n - v + j" "v - 1 - (v - 1 - j) = j" using True assms j by simp_all
    ultimately show "xs ! (?s + j) = xs ! (?n - v + j)" by metis
  next
    fix j assume *: "\<forall>j < v. xs ! (?s + j) = xs ! (?n - v + j)" and j: "j < v"
    have "xs ! (?s + (v - 1 - j)) = xs ! (?n - v + (v - 1 - j))" by (rule *[rule_format]) (use j in simp)
    moreover have "?n - v + (v - 1 - j) = ?n - 1 - j" using True assms j by simp
    ultimately show "xs ! (?n - 1 - j) = xs ! (?s + (v - 1 - j))" by metis
  qed
  also have "\<dots> \<longleftrightarrow> occurs xs v ?s"
    using True assms by (auto simp: occurs_def list_eq_iff_nth_eq)
  finally show ?thesis .
qed (use assms in \<open>auto simp: border_def occurs_def\<close>)

lemma reference_found:
  assumes "1 \<le> min_n" "min_n \<le> L" "L \<le> max_n" "p < length xs" "border (rev xs) L p"
    and best: "\<And>q w. q < length xs \<Longrightarrow> w \<le> max_n \<Longrightarrow> border (rev xs) w q \<Longrightarrow> w \<le> L"
    and last: "\<And>q. q < length xs \<Longrightarrow> border (rev xs) L q \<Longrightarrow> q \<le> p"
  shows "ngram_reference xs min_n max_n k = take (nat k) (drop (length xs - 1 - p + L) xs)"
proof -
  let ?n = "length xs"
  have mirrored: "border (rev xs) w (?n - 1 - s)" if "occurs xs w s" for w s
  proof -
    have "s < ?n" using that by (simp add: occurs_def)
    then have p: "?n - 1 - s < ?n" "?n - 1 - (?n - 1 - s) = s" by arith+
    then show ?thesis using border_occurs[OF p(1), of w] that by metis
  qed
  have found: "find (occurs xs L) [0..<?n] = Some (?n - 1 - p)"
  proof -
    have "\<not> occurs xs L s" if "s < ?n - 1 - p" for s
    proof
      assume "occurs xs L s"
      moreover have "?n - 1 - s < ?n" "p < ?n - 1 - s" using that assms(4) by arith+
      ultimately show False using last[of "?n - 1 - s"] mirrored[of L s] by simp
    qed
    then show ?thesis using assms(4,5) border_occurs by (auto simp: find_upt_Some)
  qed
  have "find (\<lambda>v. find (occurs xs v) [0..<?n] \<noteq> None) (rev [min_n..<Suc max_n]) = Some L"
  proof (rule find_rev_upt)
    fix j assume j: "L < j" "j < Suc max_n"
    have "\<not> occurs xs j s" if "s < ?n" for s
    proof
      assume "occurs xs j s"
      moreover have "?n - 1 - s < ?n" using that by arith
      ultimately show False using best[of "?n - 1 - s" j] mirrored[of j s] j by simp
    qed
    then have "find (occurs xs j) [0..<?n] = None" by (simp add: find_upt_None)
    then show "\<not> find (occurs xs j) [0..<?n] \<noteq> None" by simp
  qed (use assms(2,3) found in auto)
  then show ?thesis by (simp add: ngram_reference_def found)
qed

lemma reference_none:
  assumes "\<And>q w. q < length xs \<Longrightarrow> w \<le> max_n \<Longrightarrow> border (rev xs) w q \<Longrightarrow> w < min_n"
  shows "ngram_reference xs min_n max_n k = []"
proof -
  let ?n = "length xs"
  have "\<not> occurs xs v s" if "min_n \<le> v" "v \<le> max_n" "s < ?n" for v s
  proof
    assume "occurs xs v s"
    moreover have p: "?n - 1 - s < ?n" "?n - 1 - (?n - 1 - s) = s" using that by arith+
    ultimately have "border (rev xs) v (?n - 1 - s)" using border_occurs[OF p(1), of v] by metis
    then show False using assms[OF p(1), of v] that by simp
  qed
  then have "find (occurs xs v) [0..<?n] = None" if "min_n \<le> v" "v \<le> max_n" for v
    using that by (simp add: find_upt_None)
  then have "find (\<lambda>v. find (occurs xs v) [0..<?n] \<noteq> None) (rev [min_n..<Suc max_n]) = None"
    by (auto simp: find_None_iff)
  then show ?thesis by (simp add: ngram_reference_def)
qed

lemma find_longest_matched_ngram_reference:
  assumes "1 \<le> min_n" "min_n \<le> max_n"
  shows "find_longest_matched_ngram xs min_n max_n max_len k
    = Some (Inr (ngram_reference xs min_n max_n (min k (max_len - int (length xs)))))"
proof -
  let ?n = "length xs"
  define k1 where "k1 = min k (max_len - int ?n)"
  show ?thesis
  proof (cases "?n < min_n \<or> k1 \<le> 0")
    case True
    have "ngram_reference xs min_n max_n k1 = []"
    proof (cases "?n < min_n")
      case True
      then show ?thesis by (intro reference_none) (auto dest: border_le)
    next
      case False
      then have "nat k1 = 0" using \<open>?n < min_n \<or> k1 \<le> 0\<close> by simp
      then show ?thesis by (simp add: ngram_reference_def split: option.split)
    qed
    then show ?thesis using True by (auto simp: find_longest_matched_ngram_def Let_def k1_def)
  next
    case False
    then have "rev xs \<noteq> []" using assms by auto
    then obtain s where loop: "ngram_loop max_n (rev xs) (ngram_start max_n) = Some (Inr s)"
      and inv: "ngram_inv max_n (rev xs) s" "ng_i s = ?n"
      using ngram_loop_ends[OF ngram_start_inv, of max_n "rev xs"] assms by auto
    then have best: "ng_longest s \<le> max_n" "\<And>q w. q < ?n \<Longrightarrow> w \<le> max_n \<Longrightarrow> border (rev xs) w q \<Longrightarrow> w \<le> ng_longest s"
      "0 < ng_longest s \<Longrightarrow> ng_position s < ?n \<and> border (rev xs) (ng_longest s) (ng_position s)
        \<and> (\<forall>q < ?n. border (rev xs) (ng_longest s) q \<longrightarrow> q \<le> ng_position s)"
      by (simp_all add: ngram_inv_def best_ok_def)
    let ?start = "?n - 1 - ng_position s + ng_longest s"
    have run: "find_longest_matched_ngram xs min_n max_n max_len k = Some (Inr
        (if ng_longest s < min_n then [] else take (nat (min k1 (int ?n - int ?start))) (drop ?start xs)))"
      using False loop by (simp add: find_longest_matched_ngram_def Let_def k1_def ngram_start_def)
    show ?thesis
    proof (cases "ng_longest s < min_n")
      case True
      then have "ngram_reference xs min_n max_n k1 = []"
        using best(2) by (intro reference_none) (meson le_less_trans)
      then show ?thesis using run True by (simp add: k1_def)
    next
      case long: False
      then have "ngram_reference xs min_n max_n k1 = take (nat k1) (drop ?start xs)"
        using best assms by (intro reference_found) auto
      moreover have "take (nat (min k1 (int ?n - int ?start))) (drop ?start xs) = take (nat k1) (drop ?start xs)"
        by (simp add: min_def)
      ultimately show ?thesis using run long by (simp add: k1_def)
    qed
  qed
qed

text \<open>
  C16. The drafts of a batch are those of the plain search, for every n-gram range that the
  configuration admits: for each request with a sampled token and room for another one, the
  longest suffix of its tokens, between \<open>min_n\<close> and \<open>max_n\<close> long, that also stands further
  left, at its leftmost place, and of the tokens that follow there at most \<open>k\<close> and no more than
  fit into the length of the model. The loop ends and reads no table out of range.
\<close>

theorem ngram_drafts_are_longest_match:
  assumes "1 \<le> nc_min c" and "nc_min c \<le> nc_max c"
  shows "propose c batch = map (\<lambda>(sampled, n, row). Some (Inr
      (if sampled = [] \<or> int n \<ge> nc_max_len c then []
       else ngram_reference (take n row) (nc_min c) (nc_max c)
              (min (nc_k c) (nc_max_len c - int (length (take n row))))))) batch"
  unfolding propose_def propose_one_def
  using find_longest_matched_ngram_reference[OF assms] by (auto split: prod.split)

definition ex_ngrams :: ngram_config where
  "ex_ngrams = \<lparr>nc_min = 2, nc_max = 3, nc_k = 2, nc_max_len = 100\<rparr>"

theorem ngram_drafts_are_longest_match_witness:
  "propose ex_ngrams [([3], 8, [7, 1, 2, 3, 9, 1, 2, 3]), ([], 3, [4, 4, 4])] = [Some (Inr [9, 1]), Some (Inr [])]"
proof -
  have "ngram_reference [7, 1, 2, 3, 9, 1, 2, 3] 2 3 2 = [9, 1]" by code_simp
  then show ?thesis
    by (subst ngram_drafts_are_longest_match) (simp_all add: ex_ngrams_def)
qed

end
