(* ===== verification/Detokenizer.thy ===== *)
theory Detokenizer
  imports Prelude
begin

text \<open>
  \<open>vllm/v1/engine/detokenizer.py\<close>: text from sampled tokens, stop strings, and the text
  handed out so far. Turning a token into text is the abstract method \<open>decode_next\<close>, here
  the parameter \<open>decode\<close> on a state of its own; for the fast detokenizer it is
  \<open>fast_decode_next\<close> over the decode stream of the tokenizers library.
\<close>

section \<open>Searching\<close>

text \<open>\<open>text.find(sub, start)\<close>; a negative start counts from the end, -1 is
  \<open>None\<close>.\<close>

definition occurs_at :: "string \<Rightarrow> string \<Rightarrow> nat \<Rightarrow> bool" where
  "occurs_at sub tx i \<longleftrightarrow> i + length sub \<le> length tx \<and> take (length sub) (drop i tx) = sub"

definition py_find :: "string \<Rightarrow> string \<Rightarrow> int \<Rightarrow> nat option" where
  "py_find tx sub start =
     find (occurs_at sub tx) [nat (if start < 0 then int (length tx) + start else start)..<Suc (length tx)]"

text \<open>The result is the stop string and the length to truncate to, -1 for no truncation.\<close>

fun check_stop_strings :: "string \<Rightarrow> int \<Rightarrow> string list \<Rightarrow> bool \<Rightarrow> (string \<times> int) option" where
  "check_stop_strings tx new [] incl = None"
| "check_stop_strings tx new (st # sts) incl =
     (if new = 0 then None
      else case py_find tx st (1 - new - int (length st)) of
        None \<Rightarrow> check_stop_strings tx new sts incl
      | Some i \<Rightarrow>
          if incl \<and> i + length st \<ge> length tx then Some (st, - 1)
          else Some (st, int (if incl then i + length st else i)))"

section \<open>The detokenizer\<close>

text \<open>\<open>dt_prompt_len\<close> is the number of prompt tokens at the head of \<open>token_ids\<close>, which only
  the slow detokenizer keeps there; \<open>dt_state\<close> is the state of \<open>decode_next\<close>.\<close>

record 'd detokenizer =
  dt_stop :: "string list"
  dt_min_tokens :: int
  dt_include :: bool
  dt_buffer :: nat
  dt_offset :: nat
  dt_text :: string
  dt_ids :: "int list"
  dt_prompt_len :: nat
  dt_state :: 'd

definition new_detokenizer :: "string list \<Rightarrow> int \<Rightarrow> bool \<Rightarrow> int list \<Rightarrow> 'd \<Rightarrow> 'd detokenizer" where
  "new_detokenizer stop mint incl prompt d =
     \<lparr>dt_stop = stop, dt_min_tokens = mint, dt_include = incl,
      dt_buffer = (if stop \<noteq> [] \<and> \<not> incl then Max (set (map length stop)) - 1 else 0),
      dt_offset = 0, dt_text = [], dt_ids = prompt, dt_prompt_len = length prompt, dt_state = d\<rparr>"

definition detok_output_token_ids :: "'d detokenizer \<Rightarrow> int list" where
  "detok_output_token_ids s = drop (dt_prompt_len s) (dt_ids s)"

definition detok_num_output_tokens :: "'d detokenizer \<Rightarrow> int" where
  "detok_num_output_tokens s = int (length (dt_ids s)) - int (dt_prompt_len s)"

text \<open>The loop over the new tokens; the number beside the state is
  \<open>stop_check_offset\<close>.\<close>

definition decode_one ::
  "('d \<Rightarrow> int \<Rightarrow> (string \<times> 'd) result) \<Rightarrow> int \<Rightarrow> 'd detokenizer \<times> nat \<Rightarrow> ('d detokenizer \<times> nat) result" where
  "decode_one decode t sc = (case sc of (s, chk) \<Rightarrow>
     bindE (decode (dt_state s) t) (\<lambda>(tx, d).
       let s1 = s\<lparr>dt_ids := dt_ids s @ [t], dt_text := dt_text s @ tx, dt_state := d\<rparr> in
       Inr (s1, if dt_min_tokens s \<noteq> 0 \<and> detok_num_output_tokens s1 \<le> dt_min_tokens s
                then length (dt_text s1) else chk)))"

text \<open>The search for stop strings after \<open>chk\<close>, which cuts the text off.\<close>

definition stop_check :: "nat \<Rightarrow> 'd detokenizer \<Rightarrow> string option \<times> 'd detokenizer" where
  "stop_check chk s =
     (if dt_stop s \<noteq> [] \<and> detok_num_output_tokens s > dt_min_tokens s
      then (case check_stop_strings (dt_text s) (int (length (dt_text s)) - int chk) (dt_stop s) (dt_include s) of
          None \<Rightarrow> (None, s)
        | Some (st, n) \<Rightarrow> (Some st, if n \<noteq> - 1 then s\<lparr>dt_text := take (nat n) (dt_text s)\<rparr> else s))
      else (None, s))"

definition detok_update ::
  "('d \<Rightarrow> int \<Rightarrow> (string \<times> 'd) result) \<Rightarrow> int list \<Rightarrow> bool \<Rightarrow> 'd detokenizer \<Rightarrow> (string option \<times> 'd detokenizer) result" where
  "detok_update decode toks stop_terminated s =
     (if toks = [] then Inr (None, s)
      else let skip = (stop_terminated \<and> \<not> dt_include s) in
        bindE (foldE (decode_one decode) (if skip then butlast toks else toks) (s, length (dt_text s))) (\<lambda>(s1, chk).
          Inr (stop_check chk (if skip then s1\<lparr>dt_ids := dt_ids s1 @ [last toks]\<rparr> else s1))))"

definition get_next_output_text :: "bool \<Rightarrow> bool \<Rightarrow> 'd detokenizer \<Rightarrow> string \<times> 'd detokenizer" where
  "get_next_output_text finished delta s =
     (let buffer = (if finished then 0 else dt_buffer s) in
      if \<not> delta then (take (length (dt_text s) - buffer) (dt_text s), s)
      else let len = int (length (dt_text s)) - int buffer in
        if int (dt_offset s) < len
        then (take (nat len - dt_offset s) (drop (dt_offset s) (dt_text s)), s\<lparr>dt_offset := nat len\<rparr>)
        else ([], s))"

section \<open>The fast detokenizer\<close>

text \<open>A step of the decode stream may overflow, meet an invalid prefix, or fail otherwise.\<close>

datatype stream_error = Stream_Overflow | Invalid_Prefix | Stream_Failure

record 'd fast_state =
  fs_stream :: 'd
  fs_spaces :: bool
  fs_added :: "int \<rightharpoonup> string"
  fs_last_special :: bool

definition protected_step ::
  "('d \<Rightarrow> int \<Rightarrow> stream_error + (string option \<times> 'd)) \<Rightarrow> 'd \<Rightarrow> int \<Rightarrow> 'd fast_state \<Rightarrow> (string option \<times> 'd fast_state) result" where
  "protected_step stream fresh t s = (case stream (fs_stream s) t of
       Inr (tok, d) \<Rightarrow> Inr (tok, s\<lparr>fs_stream := d\<rparr>)
     | Inl Stream_Overflow \<Rightarrow> Inr (None, s)
     | Inl Stream_Failure \<Rightarrow> Inl RuntimeError
     | Inl Invalid_Prefix \<Rightarrow> (case stream fresh t of
           Inr (tok, d) \<Rightarrow> Inr (tok, s\<lparr>fs_stream := d\<rparr>)
         | Inl _ \<Rightarrow> Inl RuntimeError))"

definition fast_decode_next ::
  "('d \<Rightarrow> int \<Rightarrow> stream_error + (string option \<times> 'd)) \<Rightarrow> 'd \<Rightarrow> 'd fast_state \<Rightarrow> int \<Rightarrow> (string \<times> 'd fast_state) result" where
  "fast_decode_next stream fresh s t =
     bindE (protected_step stream fresh t s) (\<lambda>(tok, s1).
       let special = fs_added s1 t;
           tok1 = (if \<not> fs_spaces s1 \<and> special \<noteq> None \<and> fs_last_special s1 then special else tok);
           s2 = (if \<not> fs_spaces s1 then s1\<lparr>fs_last_special := special \<noteq> None\<rparr> else s1) in
       Inr (case tok1 of None \<Rightarrow> [] | Some x \<Rightarrow> x, s2))"

section \<open>Finding stop strings\<close>

text \<open>Stop strings are not empty. The text up to \<open>chk\<close> has been searched.\<close>

lemma py_find_new:
  assumes "sub \<noteq> []" "chk < length tx"
  shows "py_find tx sub (1 - (int (length tx) - int chk) - int (length sub))
    = find (occurs_at sub tx) [chk + 1 - length sub..<Suc (length tx)]"
proof -
  have "1 - (int (length tx) - int chk) - int (length sub) < 0" using assms by (cases sub) auto
  moreover have "nat (int (length tx) + (1 - (int (length tx) - int chk) - int (length sub))) = chk + 1 - length sub"
    by simp
  ultimately show ?thesis by (simp add: py_find_def)
qed

text \<open>An occurrence that ends behind \<open>chk\<close> starts in the searched part.\<close>

lemma check_stop_None:
  assumes "check_stop_strings tx (int (length tx) - int chk) sts incl = None" "chk \<le> length tx"
    and "st \<in> set sts" "[] \<notin> set sts" "occurs_at st tx i"
  shows "i + length st \<le> chk"
  using assms
proof (induction sts)
  case (Cons x xs)
  show ?case
  proof (cases "chk = length tx")
    case True
    then show ?thesis using Cons.prems by (simp add: occurs_at_def)
  next
    case False
    then have none: "py_find tx x (1 - (int (length tx) - int chk) - int (length x)) = None"
      and rest: "check_stop_strings tx (int (length tx) - int chk) xs incl = None"
      using Cons.prems by (auto split: option.splits if_splits)
    show ?thesis
    proof (cases "st = x")
      case True
      have "chk < length tx" "x \<noteq> []" using False Cons.prems by auto
      then have "find (occurs_at x tx) [chk + 1 - length x..<Suc (length tx)] = None"
        using none py_find_new[of x chk tx] by simp
      then have "\<not> (chk + 1 - length st \<le> i \<and> i < Suc (length tx))"
        unfolding find_upt_None using True Cons.prems(5) by blast
      then show ?thesis using Cons.prems by (auto simp: occurs_at_def)
    qed (use Cons rest in auto)
  qed
qed simp

lemma check_stop_Some:
  assumes "check_stop_strings tx (int (length tx) - int chk) sts incl = Some (st, n)" "chk \<le> length tx" "[] \<notin> set sts"
  obtains i where "st \<in> set sts" "occurs_at st tx i" "chk < i + length st"
    "\<And>j. occurs_at st tx j \<Longrightarrow> chk < j + length st \<Longrightarrow> i \<le> j"
    "n = (if incl then if i + length st = length tx then - 1 else int (i + length st) else int i)"
  using assms
proof (induction sts)
  case (Cons x xs)
  have new: "int (length tx) - int chk \<noteq> 0" using Cons.prems by auto
  have x: "x \<noteq> []" using Cons.prems by auto
  show ?case
  proof (cases "py_find tx x (1 - (int (length tx) - int chk) - int (length x))")
    case None
    then show ?thesis using Cons new by auto
  next
    case (Some i)
    then have i: "chk + 1 - length x \<le> i" "occurs_at x tx i" "\<And>j. chk + 1 - length x \<le> j \<Longrightarrow> j < i \<Longrightarrow> \<not> occurs_at x tx j"
      using py_find_new[OF x] new Cons.prems(3) by (auto simp: find_upt_Some simp del: upt_Suc)
    have res: "Some (st, n) = (if incl \<and> i + length x \<ge> length tx then Some (x, - 1)
        else Some (x, int (if incl then i + length x else i)))"
      using Cons.prems(2) new Some by simp
    then have st: "st = x" by (auto split: if_splits)
    have "n = (if incl then if i + length st = length tx then - 1 else int (i + length st) else int i)"
      using res i(2) st by (auto simp: occurs_at_def split: if_splits)
    moreover have "i \<le> j" if "occurs_at st tx j" "chk < j + length st" for j
    proof -
      have "chk + 1 - length x \<le> j" using that(2) unfolding st by linarith
      then show ?thesis using i(3)[of j] that st by (cases "j < i") auto
    qed
    ultimately show ?thesis using Cons.prems(1)[of i] i(1,2) st x by (cases x) auto
  qed
qed simp

section \<open>One update\<close>

lemma decode_one_cases:
  assumes "decode_one decode t (s, chk) = Inr (s1, chk1)"
  obtains new d where "s1 = s\<lparr>dt_ids := dt_ids s @ [t], dt_text := dt_text s @ new, dt_state := d\<rparr>"
    "chk1 = length (dt_text s1) \<and> dt_min_tokens s \<noteq> 0 \<or> chk1 = chk"
  using assms by (auto simp: decode_one_def Let_def elim!: bindE_InrE split: if_splits)

lemma decode_fold:
  assumes "foldE (decode_one decode) toks (s, chk) = Inr (s1, chk1)" "chk \<le> length (dt_text s)"
  shows "\<exists>new d. s1 = s\<lparr>dt_ids := dt_ids s @ toks, dt_text := dt_text s @ new, dt_state := d\<rparr>
    \<and> chk \<le> chk1 \<and> chk1 \<le> length (dt_text s1) \<and> (dt_min_tokens s = 0 \<longrightarrow> chk1 = chk)"
  using assms
proof (induction toks arbitrary: s chk)
  case Nil
  then show ?case by (auto intro!: exI[of _ "[]"] exI[of _ "dt_state s"])
next
  case (Cons t toks)
  then obtain s2 chk2 where one: "decode_one decode t (s, chk) = Inr (s2, chk2)"
    and rest: "foldE (decode_one decode) toks (s2, chk2) = Inr (s1, chk1)"
    by (auto elim!: bindE_InrE)
  from one obtain new d where s2: "s2 = s\<lparr>dt_ids := dt_ids s @ [t], dt_text := dt_text s @ new, dt_state := d\<rparr>"
    and chk2: "chk2 = length (dt_text s2) \<and> dt_min_tokens s \<noteq> 0 \<or> chk2 = chk"
    by (rule decode_one_cases)
  have "chk \<le> chk2" "chk2 \<le> length (dt_text s2)" "dt_min_tokens s = 0 \<longrightarrow> chk2 = chk"
    using chk2 Cons.prems(2) s2 by auto
  moreover from Cons.IH[OF rest this(2)] obtain new' d' where
    "s1 = s2\<lparr>dt_ids := dt_ids s2 @ toks, dt_text := dt_text s2 @ new', dt_state := d'\<rparr>"
    "chk2 \<le> chk1 \<and> chk1 \<le> length (dt_text s1) \<and> (dt_min_tokens s2 = 0 \<longrightarrow> chk1 = chk2)" by blast
  ultimately show ?case using s2 by (intro exI[of _ "new @ new'"] exI[of _ d']) auto
qed

text \<open>\<open>cut_off t n s'\<close>: the text of \<open>s'\<close> is \<open>t\<close> cut off at \<open>n\<close>.\<close>

lemma update_cases:
  assumes "detok_update decode toks term s = Inr (res, s')" and "[] \<notin> set (dt_stop s)"
  obtains (same) "toks = []" "res = None" "s' = s"
  | (decoded) new d where "toks \<noteq> []"
      "s' = s\<lparr>dt_ids := dt_ids s @ toks, dt_text := dt_text s @ new, dt_state := d\<rparr>" "res = None"
      "dt_min_tokens s = 0 \<Longrightarrow> dt_prompt_len s \<le> length (dt_ids s) \<Longrightarrow>
        \<forall>st \<in> set (dt_stop s). \<forall>i. occurs_at st (dt_text s @ new) i \<longrightarrow> i + length st \<le> length (dt_text s)"
  | (stopped) new d st i where "toks \<noteq> []" "res = Some st" "st \<in> set (dt_stop s)"
      "s' = s\<lparr>dt_ids := dt_ids s @ toks, dt_text := take (if dt_include s then i + length st else i) (dt_text s @ new),
         dt_state := d\<rparr>"
      "occurs_at st (dt_text s @ new) i" "length (dt_text s) < i + length st"
      "dt_min_tokens s = 0 \<Longrightarrow> \<forall>j. occurs_at st (dt_text s @ new) j \<longrightarrow> length (dt_text s) < j + length st \<longrightarrow> i \<le> j"
proof (cases "toks = []")
  case True
  then show thesis using same assms by (simp add: detok_update_def)
next
  case False
  define skip where "skip = (term \<and> \<not> dt_include s)"
  obtain s1 chk where f: "foldE (decode_one decode) (if skip then butlast toks else toks) (s, length (dt_text s)) = Inr (s1, chk)"
    and rest: "stop_check chk (if skip then s1\<lparr>dt_ids := dt_ids s1 @ [last toks]\<rparr> else s1) = (res, s')"
    using assms(1) False by (auto simp: detok_update_def skip_def Let_def elim!: bindE_InrE)
  from decode_fold[OF f] obtain new d where
    s1: "s1 = s\<lparr>dt_ids := dt_ids s @ (if skip then butlast toks else toks), dt_text := dt_text s @ new, dt_state := d\<rparr>"
    and chk: "length (dt_text s) \<le> chk" "chk \<le> length (dt_text s @ new)" "dt_min_tokens s = 0 \<Longrightarrow> chk = length (dt_text s)"
    by auto
  define s2 where "s2 = s\<lparr>dt_ids := dt_ids s @ toks, dt_text := dt_text s @ new, dt_state := d\<rparr>"
  have s2: "(if skip then s1\<lparr>dt_ids := dt_ids s1 @ [last toks]\<rparr> else s1) = s2"
    using False by (auto simp: s1 s2_def)
  let ?t = "dt_text s @ new"
  let ?check = "dt_stop s \<noteq> [] \<and> detok_num_output_tokens s2 > dt_min_tokens s"
  have s2f: "dt_stop s2 = dt_stop s" "dt_min_tokens s2 = dt_min_tokens s" "dt_include s2 = dt_include s" "dt_text s2 = ?t"
    by (simp_all add: s2_def)
  have rest': "(if ?check then (case check_stop_strings ?t (int (length ?t) - int chk) (dt_stop s) (dt_include s) of
              None \<Rightarrow> (None, s2)
            | Some (st, n) \<Rightarrow> (Some st, if n \<noteq> - 1 then s2\<lparr>dt_text := take (nat n) ?t\<rparr> else s2))
          else (None, s2)) = (res, s')"
    by (rule rest[unfolded s2 stop_check_def s2f])
  show thesis
  proof (cases "?check \<and> check_stop_strings ?t (int (length ?t) - int chk) (dt_stop s) (dt_include s) \<noteq> None")
    case True
    then obtain st n where c: "check_stop_strings ?t (int (length ?t) - int chk) (dt_stop s) (dt_include s) = Some (st, n)" by auto
    from c chk(2) assms(2) obtain i where i: "st \<in> set (dt_stop s)" "occurs_at st ?t i" "chk < i + length st"
      "\<And>j. occurs_at st ?t j \<Longrightarrow> chk < j + length st \<Longrightarrow> i \<le> j"
      "n = (if dt_include s then if i + length st = length ?t then - 1 else int (i + length st) else int i)"
      by (rule check_stop_Some) blast
    have out: "res = Some st" "s' = (if n \<noteq> - 1 then s2\<lparr>dt_text := take (nat n) ?t\<rparr> else s2)" using rest' True c by auto
    have "s' = s\<lparr>dt_ids := dt_ids s @ toks, dt_text := take (if dt_include s then i + length st else i) ?t, dt_state := d\<rparr>"
    proof -
      have "nat n = (if dt_include s then i + length st else i)" if "n \<noteq> - 1" using i(5) that by (auto simp del: of_nat_add)
      moreover have "take (i + length st) ?t = ?t" if "n = - 1" using i(5) that by (auto split: if_splits)
      moreover have "dt_include s" if "n = - 1" using i(5) that by (auto split: if_splits)
      ultimately show ?thesis using out(2) by (auto simp: s2_def simp del: take_append)
    qed
    moreover have "length (dt_text s) < i + length st" using i(3) chk(1) by simp
    moreover have "i \<le> j" if "dt_min_tokens s = 0" "occurs_at st ?t j" "length (dt_text s) < j + length st" for j
      using i(4)[OF that(2)] chk(3)[OF that(1)] that(3) by simp
    ultimately show thesis using stopped[OF False out(1) i(1) _ i(2)] by blast
  next
    case none: False
    then have "?check \<Longrightarrow> check_stop_strings ?t (int (length ?t) - int chk) (dt_stop s) (dt_include s) = None" by blast
    then have out: "res = None" "s' = s2" using rest' by (cases ?check; simp)+
    have "i + length st \<le> length (dt_text s)"
      if "dt_min_tokens s = 0" "dt_prompt_len s \<le> length (dt_ids s)" "st \<in> set (dt_stop s)" "occurs_at st ?t i" for st i
    proof -
      have "detok_num_output_tokens s2 > dt_min_tokens s" using that(1,2) False
        by (cases toks) (simp_all add: detok_num_output_tokens_def s2_def)
      moreover have "dt_stop s \<noteq> []" using that(3) by auto
      ultimately have "check_stop_strings ?t (int (length ?t) - int chk) (dt_stop s) (dt_include s) = None" using none by blast
      from check_stop_None[OF this chk(2) that(3) assms(2) that(4)] show ?thesis using chk(3)[OF that(1)] by simp
    qed
    then show thesis using decoded[OF False] out unfolding s2_def by blast
  qed
qed

section \<open>Stop strings are found\<close>

definition stop_free :: "'d detokenizer \<Rightarrow> bool" where
  "stop_free s \<longleftrightarrow> (\<forall>st \<in> set (dt_stop s). \<forall>i. \<not> occurs_at st (dt_text s) i)"

lemma occurs_at_prefix: "occurs_at st (xs @ ys) i \<Longrightarrow> i + length st \<le> length xs \<Longrightarrow> occurs_at st xs i"
  by (auto simp: occurs_at_def)


section \<open>Text handed out\<close>

text \<open>The text handed out so far is a prefix, and as much is held back as a stop string could
  still cut off.\<close>

definition held_back :: "'d detokenizer \<Rightarrow> bool" where
  "held_back s \<longleftrightarrow> dt_offset s \<le> length (dt_text s) \<and> (dt_offset s = 0 \<or> dt_offset s + dt_buffer s \<le> length (dt_text s))
     \<and> (\<forall>st \<in> set (dt_stop s). dt_include s \<or> length st \<le> Suc (dt_buffer s)) \<and> [] \<notin> set (dt_stop s)"

lemma new_detokenizer_held_back:
  assumes "[] \<notin> set stop"
  shows "held_back (new_detokenizer stop mint incl prompt d)"
proof -
  have "length st \<le> Suc (Max (set (map length stop)) - 1)" if "st \<in> set stop" for st
  proof -
    have "length st \<le> Max (set (map length stop))" using that by (intro Max_ge) auto
    then show ?thesis by simp
  qed
  then show ?thesis using assms by (auto simp: held_back_def new_detokenizer_def)
qed

text \<open>No update takes back text that was handed out.\<close>

lemma update_held_back:
  assumes "detok_update decode toks term s = Inr (res, s')" and "held_back s"
  shows "dt_offset s' = dt_offset s \<and> dt_offset s \<le> length (dt_text s')
    \<and> take (dt_offset s) (dt_text s') = take (dt_offset s) (dt_text s)
    \<and> (res = None \<longrightarrow> held_back s') \<and> dt_ids s' = dt_ids s @ toks \<and> dt_prompt_len s' = dt_prompt_len s"
proof -
  have h: "dt_offset s \<le> length (dt_text s)" "dt_offset s = 0 \<or> dt_offset s + dt_buffer s \<le> length (dt_text s)"
    "\<And>st. st \<in> set (dt_stop s) \<Longrightarrow> dt_include s \<or> length st \<le> Suc (dt_buffer s)" "[] \<notin> set (dt_stop s)"
    using assms(2) by (auto simp: held_back_def)
  from assms(1) h(4) show ?thesis
  proof (cases rule: update_cases)
    case (decoded new d)
    then show ?thesis using h by (auto simp: held_back_def)
  next
    case (stopped new d st i)
    let ?n = "if dt_include s then i + length st else i"
    have "dt_offset s \<le> ?n" using h(1,2) h(3)[OF stopped(3)] stopped(6) by auto
    moreover have "?n \<le> length (dt_text s @ new)" using stopped(5) by (auto simp: occurs_at_def)
    ultimately show ?thesis using stopped h(1) by (auto simp: min_def)
  qed (use h assms(2) in auto)
qed

lemma next_text_delta:
  assumes "get_next_output_text finished True s = (x, s')" and "dt_offset s \<le> length (dt_text s)"
  shows "take (dt_offset s) (dt_text s) @ x = take (dt_offset s') (dt_text s)"
    and "finished \<longrightarrow> dt_offset s' = length (dt_text s)" and "s' = s\<lparr>dt_offset := dt_offset s'\<rparr>"
    and "\<not> finished \<longrightarrow> held_back s \<longrightarrow> held_back s'"
proof -
  have "take (dt_offset s) (dt_text s) @ x = take (dt_offset s') (dt_text s)
    \<and> (finished \<longrightarrow> dt_offset s' = length (dt_text s)) \<and> s' = s\<lparr>dt_offset := dt_offset s'\<rparr>
    \<and> (\<not> finished \<longrightarrow> held_back s \<longrightarrow> held_back s')"
  proof (cases "int (dt_offset s) < int (length (dt_text s)) - int (if finished then 0 else dt_buffer s)")
    case True
    then have x: "x = take (nat (int (length (dt_text s)) - int (if finished then 0 else dt_buffer s)) - dt_offset s)
        (drop (dt_offset s) (dt_text s))"
      "s' = s\<lparr>dt_offset := nat (int (length (dt_text s)) - int (if finished then 0 else dt_buffer s))\<rparr>"
      using assms(1) by (simp_all add: get_next_output_text_def Let_def split: if_splits)
    let ?m = "nat (int (length (dt_text s)) - int (if finished then 0 else dt_buffer s))"
    have "dt_offset s + (?m - dt_offset s) = ?m" using True by simp
    then have "take (dt_offset s) (dt_text s) @ x = take ?m (dt_text s)" unfolding x(1) by (metis take_add)
    then show ?thesis using x(2) True by (auto simp: held_back_def)
  next
    case False
    then have "x = []" "s' = s" using assms(1) by (simp_all add: get_next_output_text_def Let_def split: if_splits)
    then show ?thesis using False assms(2) by auto
  qed
  then show "take (dt_offset s) (dt_text s) @ x = take (dt_offset s') (dt_text s)"
    and "finished \<longrightarrow> dt_offset s' = length (dt_text s)" and "s' = s\<lparr>dt_offset := dt_offset s'\<rparr>"
    and "\<not> finished \<longrightarrow> held_back s \<longrightarrow> held_back s'" by blast+
qed

section \<open>An example\<close>

text \<open>Tokens are characters.\<close>

definition ex_decode :: "unit \<Rightarrow> int \<Rightarrow> (string \<times> unit) result" where
  "ex_decode d t = Inr ([char_of (nat t)], d)"

definition ex_detokenizer :: "unit detokenizer" where
  "ex_detokenizer = new_detokenizer [''bc''] 0 False [1] ()"

lemma ex_detok_update:
  "detok_update ex_decode [97, 98, 99, 100] False ex_detokenizer
     = Inr (Some ''bc'', ex_detokenizer\<lparr>dt_ids := [1, 97, 98, 99, 100], dt_text := ''a''\<rparr>)"
  by code_simp


end
