(* ===== verification/Output_Processor.thy ===== *)
theory Output_Processor
  imports Scheduler_Update Detokenizer
begin

text \<open>
  \<open>vllm/v1/engine/output_processor.py\<close> and \<open>parallel_sampling.py\<close>: outputs of the
  engine core become outputs of requests. Parent requests of parallel sampling are shared
  objects: the processor holds them in \<open>op_parent_objs\<close>, keyed by id, and
  \<open>op_parents\<close> is the key set of \<open>parent_requests\<close>. Log probabilities, routed experts,
  statistics and tracing are left out; the prompt is its token ids.
\<close>

section \<open>Completions\<close>

datatype output_kind = CUMULATIVE | DELTA | FINAL_ONLY

record completion =
  co_index :: nat
  co_text :: string
  co_token_ids :: "int list"
  co_finish_reason :: "finish_reason option"
  co_stop_reason :: "stop_reason option"

section \<open>Parallel sampling\<close>

text \<open>Decimal digits, for \<open>f"{index}_{request_id}"\<close>.\<close>

fun decimal :: "nat \<Rightarrow> string" where
  "decimal n = (if n < 10 then [char_of (48 + n)] else decimal (n div 10) @ [char_of (48 + n mod 10)])"

declare decimal.simps [simp del]

definition child_request_id :: "nat \<Rightarrow> rid \<Rightarrow> rid" where
  "child_request_id i r = decimal i @ ''_'' @ r"

text \<open>\<open>pa_outputs\<close> is the aggregator, empty unless only final outputs are wanted;
  \<open>pa_children\<close> is a set, listed without repetition.\<close>

record parent_request =
  pa_id :: rid
  pa_external :: rid
  pa_kind :: output_kind
  pa_n :: nat
  pa_seed :: "int option"
  pa_children :: "rid list"
  pa_outputs :: "completion option list"

definition new_parent_request :: "rid \<Rightarrow> rid \<Rightarrow> output_kind \<Rightarrow> nat \<Rightarrow> int option \<Rightarrow> parent_request" where
  "new_parent_request r ext kind n seed =
     \<lparr>pa_id = r, pa_external = ext, pa_kind = kind, pa_n = n, pa_seed = seed, pa_children = [],
      pa_outputs = (if kind = FINAL_ONLY then replicate n None else [])\<rparr>"

text \<open>The id and the seed of a child; the other parameters are those of the parent.\<close>

definition get_child_info :: "nat \<Rightarrow> parent_request \<Rightarrow> (rid \<times> int option) \<times> parent_request" where
  "get_child_info i p =
     (let c = child_request_id i (pa_id p) in
      ((c, map_option (\<lambda>s. s + int i) (pa_seed p)), p\<lparr>pa_children := List.insert c (pa_children p)\<rparr>))"

text \<open>The children of a request, as \<open>AsyncLLM.add_request\<close> makes them.\<close>

definition start_children :: "nat \<Rightarrow> parent_request \<Rightarrow> parent_request" where
  "start_children n p = fold (\<lambda>i p. snd (get_child_info i p)) [0..<n] p"

definition get_outputs :: "rid \<Rightarrow> completion \<Rightarrow> parent_request \<Rightarrow> ((completion option list \<times> bool) \<times> parent_request) result" where
  "get_outputs child out p =
     (let fin = (co_finish_reason out \<noteq> None);
          returned = (fin \<and> child \<notin> set (pa_children p));
          p1 = (if fin then p\<lparr>pa_children := removeAll child (pa_children p)\<rparr> else p) in
      if pa_kind p1 \<noteq> FINAL_ONLY
      then Inr ((if returned then [] else [Some out], pa_children p1 = []), p1)
      else if co_index out < length (pa_outputs p1)
      then let p2 = p1\<lparr>pa_outputs := (pa_outputs p1)[co_index out := Some out]\<rparr> in
        Inr ((if pa_children p2 = [] then pa_outputs p2 else [], pa_children p2 = []), p2)
      else Inl IndexError)"

section \<open>The state of a request\<close>

text \<open>The final flag of a queued input says that no further input follows.\<close>

record input_chunk =
  ch_prompt_ids :: "int list option"
  ch_final :: bool

text \<open>\<open>rs_detok\<close> is absent for pooling requests; \<open>rs_queue\<close> says that a collector takes
  the outputs.\<close>

record 'd request_state =
  rs_id :: rid
  rs_external :: rid
  rs_parent :: "rid option"
  rs_index :: nat
  rs_kind :: output_kind
  rs_prompt_ids :: "int list option"
  rs_detok :: "'d detokenizer option"
  rs_queue :: bool
  rs_prefilling :: bool
  rs_cached :: int
  rs_interval :: int
  rs_sent :: nat
  rs_streaming :: bool
  rs_chunks :: "input_chunk list option"

text \<open>\<open>RequestState.__init__\<close>\<close>

definition new_request_state ::
  "rid \<Rightarrow> rid \<Rightarrow> rid option \<Rightarrow> nat \<Rightarrow> output_kind \<Rightarrow> int list option \<Rightarrow> 'd detokenizer option \<Rightarrow> bool \<Rightarrow> int \<Rightarrow> bool \<Rightarrow> 'd request_state" where
  "new_request_state r ext par i kind prompt dt queue interval streaming =
     \<lparr>rs_id = r, rs_external = ext, rs_parent = par, rs_index = i, rs_kind = kind, rs_prompt_ids = prompt, rs_detok = dt,
      rs_queue = queue, rs_prefilling = True, rs_cached = 0, rs_interval = interval, rs_sent = 0, rs_streaming = streaming,
      rs_chunks = (if streaming then Some [] else None)\<rparr>"

record request_output =
  rq_id :: rid
  rq_outputs :: "completion option list"
  rq_pooled :: "string option"
  rq_finished :: bool
  rq_cached :: int

definition apply_streaming_update :: "input_chunk \<Rightarrow> 'd request_state \<Rightarrow> 'd request_state" where
  "apply_streaming_update u s =
     (let new = (case ch_prompt_ids u of None \<Rightarrow> [] | Some t \<Rightarrow> t) in
      s\<lparr>rs_streaming := \<not> ch_final u,
        rs_prompt_ids := (case rs_prompt_ids s of
            Some (x # xs) \<Rightarrow> Some (x # xs @ new) | _ \<Rightarrow> Some new),
        rs_prefilling := True\<rparr>)"

definition new_completion_output ::
  "int list \<Rightarrow> finish_reason option \<Rightarrow> stop_reason option \<Rightarrow> 'd request_state \<Rightarrow> (completion \<times> 'd request_state) result" where
  "new_completion_output toks fr sr s = (case rs_detok s of
      None \<Rightarrow> Inl AssertionError
    | Some dt \<Rightarrow>
        let delta = (rs_kind s = DELTA);
            (tx, dt') = get_next_output_text (fr \<noteq> None) delta dt in
        Inr (\<lparr>co_index = rs_index s, co_text = tx, co_token_ids = (if delta then toks else detok_output_token_ids dt'),
              co_finish_reason = fr, co_stop_reason = (if fr = None then None else sr)\<rparr>,
             s\<lparr>rs_detok := Some dt'\<rparr>))"

text \<open>The tokens to send, or \<open>None\<close> while the stream interval is not reached.\<close>

definition tokens_to_send ::
  "int list \<Rightarrow> bool \<Rightarrow> 'd request_state \<Rightarrow> (int list option \<times> 'd request_state) result" where
  "tokens_to_send toks finished s =
     (if rs_interval s \<le> 1 then Inr (Some toks, s)
      else case rs_detok s of
        None \<Rightarrow> Inl AssertionError
      | Some dt \<Rightarrow>
          if \<not> (finished \<or> rs_sent s = 0 \<or> detok_num_output_tokens dt - int (rs_sent s) \<ge> rs_interval s) then Inr (None, s)
          else if rs_kind s = DELTA
          then Inr (Some (drop (rs_sent s) (detok_output_token_ids dt)), s\<lparr>rs_sent := nat (detok_num_output_tokens dt)\<rparr>)
          else Inr (Some toks, s))"

definition make_request_output ::
  "int list \<Rightarrow> string option \<Rightarrow> finish_reason option \<Rightarrow> stop_reason option \<Rightarrow> 'd request_state \<Rightarrow> (rid \<Rightarrow> parent_request) \<Rightarrow>
   (request_output option \<times> 'd request_state \<times> (rid \<Rightarrow> parent_request)) result" where
  "make_request_output toks pooled fr sr s ps =
     (let fin = (fr \<noteq> None) in
      if \<not> fin \<and> rs_kind s = FINAL_ONLY then Inr (None, s, ps)
      else bindE (tokens_to_send toks fin s) (\<lambda>(send, s1). case send of
          None \<Rightarrow> Inr (None, s1, ps)
        | Some toks' \<Rightarrow>
            if pooled \<noteq> None
            then Inr (Some \<lparr>rq_id = rs_external s1, rq_outputs = [], rq_pooled = pooled, rq_finished = fin, rq_cached = rs_cached s1\<rparr>,
                      s1, ps)
            else bindE (new_completion_output toks' fr sr s1) (\<lambda>(out, s2). case rs_parent s2 of
                None \<Rightarrow> Inr (Some \<lparr>rq_id = rs_external s2, rq_outputs = [Some out], rq_pooled = None, rq_finished = fin,
                                  rq_cached = rs_cached s2\<rparr>, s2, ps)
              | Some par \<Rightarrow> bindE (get_outputs (rs_id s2) out (ps par)) (\<lambda>((outs, fin'), p').
                  Inr (if outs = [] then None
                       else Some \<lparr>rq_id = pa_external p', rq_outputs = outs, rq_pooled = None, rq_finished = fin',
                                  rq_cached = rs_cached s2\<rparr>,
                       s2, ps(par := p'))))))"

section \<open>The processor\<close>

text \<open>\<open>op_puts\<close> are the outputs put into collectors, in order.\<close>

record 'd output_processor =
  op_states :: "rid \<rightharpoonup> 'd request_state"
  op_parents :: "rid set"
  op_parent_objs :: "rid \<Rightarrow> parent_request"
  op_external :: "rid \<rightharpoonup> rid list"
  op_puts :: "(rid \<times> request_output) list"

definition new_output_processor :: "(rid \<Rightarrow> parent_request) \<Rightarrow> 'd output_processor" where
  "new_output_processor ps =
     \<lparr>op_states = Map.empty, op_parents = {}, op_parent_objs = ps, op_external = Map.empty, op_puts = []\<rparr>"

text \<open>\<open>internal_ids.remove(request_id)\<close>, and the entry goes when it is empty.\<close>

definition forget_external :: "rid \<Rightarrow> rid \<Rightarrow> 'd output_processor \<Rightarrow> 'd output_processor result" where
  "forget_external ext r p =
     (let ids = (case op_external p ext of None \<Rightarrow> [] | Some l \<Rightarrow> l) in
      if r \<notin> set ids then Inl ValueError
      else Inr (p\<lparr>op_external := (op_external p)(ext := (if remove1 r ids = [] then None else Some (remove1 r ids)))\<rparr>))"

definition finish_request :: "'d request_state \<Rightarrow> 'd output_processor \<Rightarrow> 'd output_processor result" where
  "finish_request s p =
     (if op_states p (rs_id s) = None then Inl KeyError
      else bindE (forget_external (rs_external s) (rs_id s) (p\<lparr>op_states := (op_states p)(rs_id s := None)\<rparr>)) (\<lambda>p1.
        Inr (case rs_parent s of
            None \<Rightarrow> p1
          | Some par \<Rightarrow> if pa_children (op_parent_objs p1 par) = [] then p1\<lparr>op_parents := op_parents p1 - {par}\<rparr> else p1)))"

definition put_request_output :: "rid \<Rightarrow> request_output \<Rightarrow> 'd output_processor \<Rightarrow> 'd output_processor" where
  "put_request_output r out p = p\<lparr>op_puts := op_puts p @ [(r, out)]\<rparr>"

text \<open>Requests. \<open>None\<close> for the parent is an ordinary request.\<close>

definition stream_finished :: request_output where
  "stream_finished = \<lparr>rq_id = [], rq_outputs = [], rq_pooled = None, rq_finished = True, rq_cached = 0\<rparr>"

definition update_streaming_request_state ::
  "rid \<Rightarrow> bool \<Rightarrow> int list option \<Rightarrow> 'd request_state \<Rightarrow> 'd output_processor \<Rightarrow> 'd output_processor result" where
  "update_streaming_request_state r resumable' prompt s p =
     (let set_state = (\<lambda>s'. Inr (p\<lparr>op_states := (op_states p)(r \<mapsto> s')\<rparr>)) in
      if \<not> resumable'
      then (case rs_chunks s of
          None \<Rightarrow> bindE (finish_request s p) (\<lambda>p1. Inr (if rs_queue s then put_request_output r stream_finished p1 else p1))
        | Some us \<Rightarrow>
            if us \<noteq> [] then set_state (s\<lparr>rs_chunks := Some (butlast us @ [(last us)\<lparr>ch_final := True\<rparr>])\<rparr>)
            else set_state (s\<lparr>rs_streaming := False\<rparr>))
      else let u = \<lparr>ch_prompt_ids = prompt, ch_final = False\<rparr> in
        (case rs_chunks s of
          None \<Rightarrow> set_state ((apply_streaming_update u s)\<lparr>rs_chunks := Some []\<rparr>)
        | Some us \<Rightarrow> set_state (s\<lparr>rs_chunks := Some (us @ [u])\<rparr>)))"

definition processor_add_request ::
  "'d request_state \<Rightarrow> bool \<Rightarrow> int list option \<Rightarrow> parent_request option \<Rightarrow> 'd output_processor \<Rightarrow> 'd output_processor result" where
  "processor_add_request s resumable' prompt par p = (case op_states p (rs_id s) of
      Some old \<Rightarrow> update_streaming_request_state (rs_id s) resumable' prompt old p
    | None \<Rightarrow> Inr (p\<lparr>op_states := (op_states p)(rs_id s \<mapsto> s),
          op_parents := (case par of None \<Rightarrow> op_parents p | Some q \<Rightarrow> insert (pa_id q) (op_parents p)),
          op_parent_objs := (case par of None \<Rightarrow> op_parent_objs p | Some q \<Rightarrow> (op_parent_objs p)(pa_id q := q)),
          op_external := (op_external p)(rs_external s \<mapsto> (case op_external p (rs_external s) of None \<Rightarrow> [] | Some l \<Rightarrow> l) @ [rs_id s])\<rparr>))"

section \<open>Aborting\<close>

text \<open>Ids become internal ids. An internal id leaves the index of external ids; it may name a
  parent request. An external id leaves it with all its requests.\<close>

definition collect_id :: "bool \<Rightarrow> rid \<Rightarrow> rid list \<times> 'd output_processor \<Rightarrow> (rid list \<times> 'd output_processor) result" where
  "collect_id internal r acc = (case acc of (rs, p) \<Rightarrow>
     if internal
     then (case op_states p r of
         None \<Rightarrow> Inr (rs @ [r], p)
       | Some s \<Rightarrow> bindE (forget_external (rs_external s) r p) (\<lambda>p1. Inr (rs @ [r], p1)))
     else (case op_external p r of
         None \<Rightarrow> Inr (rs, p)
       | Some ids \<Rightarrow> Inr (rs @ ids, p\<lparr>op_external := (op_external p)(r := None)\<rparr>)))"

text \<open>One internal id; \<open>rec\<close> aborts the children of a parent request.\<close>

definition abort_one ::
  "(rid list \<Rightarrow> 'd output_processor \<Rightarrow> (rid list \<times> 'd output_processor) result) \<Rightarrow> rid \<Rightarrow>
   rid list \<times> 'd output_processor \<Rightarrow> (rid list \<times> 'd output_processor) result" where
  "abort_one rec r acc = (case acc of (ab, p) \<Rightarrow> (case op_states p r of
       Some s \<Rightarrow>
         if rs_queue s
         then bindE (make_request_output [] (if rs_detok s = None then Some [] else None) (Some ABORT) None s (op_parent_objs p))
           (\<lambda>(out, _, ps).
             let p1 = p\<lparr>op_states := (op_states p)(r := None), op_parent_objs := ps\<rparr> in
             Inr (ab @ [r], case out of None \<Rightarrow> p1 | Some x \<Rightarrow> put_request_output r x p1))
         else Inr (ab @ [r], p\<lparr>op_states := (op_states p)(r := None)\<rparr>)
     | None \<Rightarrow>
         if r \<notin> op_parents p then Inr (ab, p)
         else if pa_children (op_parent_objs p r) = [] then Inr (ab, p\<lparr>op_parents := op_parents p - {r}\<rparr>)
         else bindE (rec (pa_children (op_parent_objs p r)) p) (\<lambda>(cs, p1).
           Inr (ab @ cs, p1\<lparr>op_parents := op_parents p1 - {r}\<rparr>))))"

text \<open>The number is what is left of Python's recursion limit.\<close>

primrec processor_abort_requests ::
  "nat \<Rightarrow> bool \<Rightarrow> rid list \<Rightarrow> 'd output_processor \<Rightarrow> (rid list \<times> 'd output_processor) result" where
  "processor_abort_requests 0 internal ids p = Inl RecursionError"
| "processor_abort_requests (Suc n) internal ids p =
     bindE (foldE (collect_id internal) ids ([], p)) (\<lambda>(rs, p1).
       foldE (abort_one (processor_abort_requests n True)) rs ([], p1))"

section \<open>Processing outputs\<close>

text \<open>The text of an output: stop strings turn it into a finished one.\<close>

definition detokenize_output ::
  "('d \<Rightarrow> int \<Rightarrow> (string \<times> 'd) result) \<Rightarrow> engine_core_output \<Rightarrow> 'd request_state \<Rightarrow>
   (finish_reason option \<times> stop_reason option \<times> 'd request_state) result" where
  "detokenize_output decode eo s =
     (if eo_pooling eo \<noteq> None then Inr (eo_finish_reason eo, eo_stop_reason eo, s)
      else case rs_detok s of
        None \<Rightarrow> Inl AssertionError
      | Some dt \<Rightarrow>
          bindE (detok_update decode (eo_new_token_ids eo) (eo_finish_reason eo = Some STOP) dt) (\<lambda>(st, dt').
            let s' = s\<lparr>rs_detok := Some dt'\<rparr> in
            Inr (case st of
                None \<Rightarrow> (eo_finish_reason eo, eo_stop_reason eo, s')
              | Some x \<Rightarrow> if x = [] then (eo_finish_reason eo, eo_stop_reason eo, s')
                          else (Some STOP, Some (StopText x), s'))))"

definition note_prefill :: "engine_core_output \<Rightarrow> 'd request_state \<Rightarrow> 'd request_state" where
  "note_prefill eo s =
     (if rs_prefilling s
      then s\<lparr>rs_prefilling := False,
             rs_cached := (case eo_prefill_stats eo of None \<Rightarrow> rs_cached s | Some ps \<Rightarrow> ps_num_cached_tokens ps)\<rparr>
      else s)"

text \<open>One output on the state of its request.\<close>

definition process_state ::
  "('d \<Rightarrow> int \<Rightarrow> (string \<times> 'd) result) \<Rightarrow> engine_core_output \<Rightarrow> 'd request_state \<Rightarrow> (rid \<Rightarrow> parent_request) \<Rightarrow>
   (request_output option \<times> finish_reason option \<times> 'd request_state \<times> (rid \<Rightarrow> parent_request)) result" where
  "process_state decode eo s ps =
     bindE (detokenize_output decode eo (note_prefill eo s)) (\<lambda>(fr, sr, s1).
     bindE (make_request_output (eo_new_token_ids eo) (eo_pooling eo) fr sr s1 ps) (\<lambda>(out, s2, ps').
       Inr (map_option (\<lambda>x. if rs_streaming s2 then x\<lparr>rq_finished := False\<rparr> else x) out, fr, s2, ps')))"

text \<open>The loop also collects what is returned and what the engine core has to abort.\<close>

record 'd processing =
  po_processor :: "'d output_processor"
  po_outputs :: "request_output list"
  po_abort :: "rid list"

definition process_one ::
  "('d \<Rightarrow> int \<Rightarrow> (string \<times> 'd) result) \<Rightarrow> engine_core_output \<Rightarrow> 'd processing \<Rightarrow> 'd processing result" where
  "process_one decode eo st =
     (let p = po_processor st; r = eo_request_id eo in
      case op_states p r of
        None \<Rightarrow> Inr st
      | Some s \<Rightarrow>
          bindE (process_state decode eo s (op_parent_objs p)) (\<lambda>(out, fr, s1, ps).
          let p1 = p\<lparr>op_states := (op_states p)(r \<mapsto> s1), op_parent_objs := ps\<rparr>;
              p2 = (case out of Some x \<Rightarrow> if rs_queue s1 then put_request_output r x p1 else p1 | None \<Rightarrow> p1);
              outs = (case out of Some x \<Rightarrow> if rs_queue s1 then po_outputs st else po_outputs st @ [x] | None \<Rightarrow> po_outputs st) in
          if fr = None then Inr (st\<lparr>po_processor := p2, po_outputs := outs\<rparr>)
          else if rs_streaming s1
          then (case rs_chunks s1 of
              Some (u # us) \<Rightarrow> Inr (st\<lparr>po_processor := p2\<lparr>op_states := (op_states p2)
                  (r \<mapsto> apply_streaming_update u (s1\<lparr>rs_chunks := Some us\<rparr>))\<rparr>, po_outputs := outs\<rparr>)
            | _ \<Rightarrow> Inr (st\<lparr>po_processor := p2\<lparr>op_states := (op_states p2)(r \<mapsto> s1\<lparr>rs_chunks := None\<rparr>)\<rparr>, po_outputs := outs\<rparr>))
          else bindE (finish_request s1 p2) (\<lambda>p3.
            Inr (st\<lparr>po_processor := p3, po_outputs := outs,
                    po_abort := (if eo_finish_reason eo = None then po_abort st @ [r] else po_abort st)\<rparr>))))"

definition process_outputs ::
  "('d \<Rightarrow> int \<Rightarrow> (string \<times> 'd) result) \<Rightarrow> engine_core_output list \<Rightarrow> 'd output_processor \<Rightarrow> 'd processing result" where
  "process_outputs decode eos p = foldE (process_one decode) eos \<lparr>po_processor = p, po_outputs = [], po_abort = []\<rparr>"

end
