(* ===== verification/Output_Correct.thy ===== *)
theory Output_Correct
  imports Output_Processor
begin

text \<open>
  What clients get. The children of a parallel sampling request have ids of their own and
  their final outputs are handed out together, in the order of their indices, with the last of
  them. The pieces of a streamed request are the text of its tokens, cut where its stop string
  is. The index of external ids always lists the live requests, and an abort by external id
  hits exactly those.
\<close>

section \<open>Parallel sampling\<close>

definition undecimal :: "string \<Rightarrow> nat" where
  "undecimal s = foldl (\<lambda>a c. 10 * a + (of_char c - 48)) 0 s"

lemma undecimal_decimal [simp]: "undecimal (decimal n) = n"
proof (induction n rule: decimal.induct)
  case (1 n)
  show ?case
  proof (cases "n < 10")
    case True
    then show ?thesis by (subst decimal.simps) (simp add: undecimal_def)
  next
    case False
    have "48 + n mod 10 < 256" by (rule less_trans[of _ 58]) auto
    then have digit: "of_char (char_of (48 + n mod 10)) - 48 = n mod 10" by simp
    show ?thesis
    proof (subst decimal.simps)
      show "undecimal (if n < 10 then [char_of (48 + n)] else decimal (n div 10) @ [char_of (48 + n mod 10)]) = n"
        using 1[OF False] False digit by (simp add: undecimal_def)
    qed
  qed
qed

lemma child_request_id_inject [simp]: "child_request_id i r = child_request_id j r \<longleftrightarrow> i = j"
  by (metis append_same_eq child_request_id_def undecimal_decimal)

fun collect_outputs ::
  "(rid \<times> completion) list \<Rightarrow> parent_request \<Rightarrow> ((completion option list \<times> bool) list \<times> parent_request) result" where
  "collect_outputs [] p = Inr ([], p)"
| "collect_outputs ((c, out) # xs) p = bindE (get_outputs c out p) (\<lambda>(res, p1).
     bindE (collect_outputs xs p1) (\<lambda>(ress, p2). Inr (res # ress, p2)))"

lemma start_children_fields:
  "set (pa_children (start_children n p)) = set (pa_children p) \<union> (\<lambda>i. child_request_id i (pa_id p)) ` {..<n}
   \<and> pa_outputs (start_children n p) = pa_outputs p \<and> pa_kind (start_children n p) = pa_kind p
   \<and> pa_id (start_children n p) = pa_id p"
  by (induction n) (auto simp: start_children_def get_child_info_def Let_def lessThan_Suc)

text \<open>\<open>todo\<close> are the children that have not finished.\<close>

lemma collect_remaining:
  assumes "todo \<noteq> []" "distinct todo" "set todo \<subseteq> {..<n}" "pa_kind p = FINAL_ONLY"
    and "\<And>i. i < n \<Longrightarrow> co_index (out i) = i \<and> co_finish_reason (out i) \<noteq> None"
    and "set (pa_children p) = (\<lambda>i. child_request_id i r) ` set todo"
    and "pa_outputs p = map (\<lambda>i. if i \<in> set todo then x i else Some (out i)) [0..<n]"
  shows "\<exists>p'. collect_outputs (map (\<lambda>i. (child_request_id i r, out i)) todo) p
    = Inr (replicate (length todo - 1) ([], False) @ [(map (\<lambda>i. Some (out i)) [0..<n], True)], p')"
  using assms
proof (induction todo arbitrary: p x)
  case (Cons i todo)
  have i: "i < n" "i \<notin> set todo" "co_index (out i) = i" "co_finish_reason (out i) \<noteq> None"
    using Cons.prems by auto
  define p1 where "p1 = p\<lparr>pa_children := removeAll (child_request_id i r) (pa_children p),
      pa_outputs := (pa_outputs p)[i := Some (out i)]\<rparr>"
  have outs: "pa_outputs p1 = map (\<lambda>j. if j \<in> set todo then x j else Some (out j)) [0..<n]"
    using Cons.prems(7) i by (auto simp: p1_def intro!: nth_equalityI simp: nth_list_update)
  have children: "set (pa_children p1) = (\<lambda>j. child_request_id j r) ` set todo"
    using Cons.prems(6) i(2) by (auto simp: p1_def)
  have one: "get_outputs (child_request_id i r) (out i) p
      = Inr ((if todo = [] then pa_outputs p1 else [], todo = []), p1)"
  proof -
    have "pa_children p1 = [] \<longleftrightarrow> todo = []" by (metis children image_is_empty set_empty)
    then have "removeAll (child_request_id i r) (pa_children p) = [] \<longleftrightarrow> todo = []" by (simp add: p1_def)
    moreover have "i < length (pa_outputs p)" using Cons.prems(7) i by simp
    ultimately show ?thesis using Cons.prems(4) i by (auto simp: get_outputs_def p1_def Let_def)
  qed
  show ?case
  proof (cases "todo = []")
    case True
    then show ?thesis using one outs by simp
  next
    case False
    have "\<exists>p'. collect_outputs (map (\<lambda>i. (child_request_id i r, out i)) todo) p1
      = Inr (replicate (length todo - 1) ([], False) @ [(map (\<lambda>i. Some (out i)) [0..<n], True)], p')"
      using False Cons.prems children outs by (intro Cons.IH) (auto simp: p1_def)
    moreover have "replicate (length todo) x = x # replicate (length todo - Suc 0) x" for x :: "completion option list \<times> bool"
      using False by (cases todo) auto
    ultimately show ?thesis using one False by auto
  qed
qed simp

text \<open>
  C34. Parallel sampling: the \<open>n\<close> children of a request that wants final outputs have
  different ids, and in whatever order they finish, nothing is handed out before the last one
  does; then all outputs come at once, each at the index of its child, and the request is
  finished.
\<close>

theorem parallel_outputs_together:
  assumes "distinct order" and "set order = {..<n}" and "0 < n"
    and "\<And>i. i < n \<Longrightarrow> co_index (out i) = i \<and> co_finish_reason (out i) \<noteq> None"
  shows "distinct (map (\<lambda>i. fst (fst (get_child_info i (new_parent_request r ext FINAL_ONLY n seed)))) [0..<n])
    \<and> (\<exists>p'. collect_outputs (map (\<lambda>i. (child_request_id i r, out i)) order)
          (start_children n (new_parent_request r ext FINAL_ONLY n seed))
        = Inr (replicate (n - 1) ([], False) @ [(map (\<lambda>i. Some (out i)) [0..<n], True)], p'))"
proof
  show "distinct (map (\<lambda>i. fst (fst (get_child_info i (new_parent_request r ext FINAL_ONLY n seed)))) [0..<n])"
    by (simp add: get_child_info_def Let_def new_parent_request_def distinct_map inj_on_def)
  let ?p = "start_children n (new_parent_request r ext FINAL_ONLY n seed)"
  have p: "set (pa_children ?p) = (\<lambda>i. child_request_id i r) ` set order" "pa_kind ?p = FINAL_ONLY"
    "pa_outputs ?p = map (\<lambda>i. if i \<in> set order then None else Some (out i)) [0..<n]"
    using start_children_fields[of n "new_parent_request r ext FINAL_ONLY n seed"] assms(2)
    by (auto simp: new_parent_request_def map_replicate_const intro!: nth_equalityI)
  have "length order = n" using distinct_card[OF assms(1)] assms(2) by simp
  then show "\<exists>p'. collect_outputs (map (\<lambda>i. (child_request_id i r, out i)) order) ?p
      = Inr (replicate (n - 1) ([], False) @ [(map (\<lambda>i. Some (out i)) [0..<n], True)], p')"
    using collect_remaining[of order n ?p out r "\<lambda>_. None"] assms p by fastforce
qed

definition ex_completion :: "nat \<Rightarrow> completion" where
  "ex_completion i = \<lparr>co_index = i, co_text = ''x'', co_token_ids = [7], co_finish_reason = Some STOP, co_stop_reason = None\<rparr>"

theorem parallel_outputs_together_witness:
  "\<exists>p'. collect_outputs (map (\<lambda>i. (child_request_id i ''r'', ex_completion i)) [2, 0, 1])
      (start_children 3 (new_parent_request ''r'' ''e'' FINAL_ONLY 3 None))
    = Inr ([([], False), ([], False), ([Some (ex_completion 0), Some (ex_completion 1), Some (ex_completion 2)], True)], p')"
proof -
  have order: "set [2, 0, 1] = {..<3::nat}" by auto
  have "\<exists>p'. collect_outputs (map (\<lambda>i. (child_request_id i ''r'', ex_completion i)) [2, 0, 1])
      (start_children 3 (new_parent_request ''r'' ''e'' FINAL_ONLY 3 None))
    = Inr (replicate (3 - 1) ([], False) @ [(map (\<lambda>i. Some (ex_completion i)) [0..<3], True)], p')"
    by (rule parallel_outputs_together[OF _ order, THEN conjunct2]) (auto simp: ex_completion_def)
  moreover have "[0..<3] = [0, 1, 2::nat]" "replicate (3 - 1) x = [x, x]" for x :: "completion option list \<times> bool"
    by (simp_all add: upt_rec numeral_eq_Suc)
  ultimately show ?thesis by simp
qed

section \<open>Streams\<close>

text \<open>The reference: the tokens of all outputs of a request go through its detokenizer, up to
  the first output that finishes it or holds a stop string.\<close>

fun detok_run ::
  "('d \<Rightarrow> int \<Rightarrow> (string \<times> 'd) result) \<Rightarrow> engine_core_output list \<Rightarrow> 'd detokenizer \<Rightarrow> ('d detokenizer \<times> bool) result" where
  "detok_run decode [] dt = Inr (dt, False)"
| "detok_run decode (eo # eos) dt =
     bindE (detok_update decode (eo_new_token_ids eo) (eo_finish_reason eo = Some STOP) dt) (\<lambda>(st, dt1).
       if eo_finish_reason eo \<noteq> None \<or> (st \<noteq> None \<and> st \<noteq> Some []) then Inr (dt1, True)
       else detok_run decode eos dt1)"

text \<open>What was put into the collector of a request, its text and its tokens.\<close>

definition puts_of :: "rid \<Rightarrow> 'd output_processor \<Rightarrow> request_output list" where
  "puts_of r p = map snd (filter (\<lambda>x. fst x = r) (op_puts p))"

definition text_of :: "request_output list \<Rightarrow> string" where
  "text_of xs = concat (map (\<lambda>x. concat (map (\<lambda>c. case c of None \<Rightarrow> [] | Some co \<Rightarrow> co_text co) (rq_outputs x))) xs)"

definition tokens_of :: "request_output list \<Rightarrow> int list" where
  "tokens_of xs = concat (map (\<lambda>x. concat (map (\<lambda>c. case c of None \<Rightarrow> [] | Some co \<Rightarrow> co_token_ids co) (rq_outputs x))) xs)"

lemma sent_append [simp]:
  "text_of (xs @ ys) = text_of xs @ text_of ys" "tokens_of (xs @ ys) = tokens_of xs @ tokens_of ys"
  by (simp_all add: text_of_def tokens_of_def)

lemma puts_of_put [simp]:
  "puts_of r (put_request_output k x p) = (if k = r then puts_of r p @ [x] else puts_of r p)"
  "op_states (put_request_output k x p) = op_states p" "op_external (put_request_output k x p) = op_external p"
  "op_parents (put_request_output k x p) = op_parents p" "op_parent_objs (put_request_output k x p) = op_parent_objs p"
  by (simp_all add: puts_of_def put_request_output_def)

subsection \<open>The reference does not see what was handed out\<close>

lemma decode_one_offset:
  "decode_one decode t (dt\<lparr>dt_offset := k\<rparr>, c)
     = bindE (decode_one decode t (dt, c)) (\<lambda>(dt1, c1). Inr (dt1\<lparr>dt_offset := k\<rparr>, c1))"
  by (cases "decode (dt_state dt) t") (auto simp: decode_one_def Let_def detok_num_output_tokens_def)

lemma decode_fold_offset:
  "foldE (decode_one decode) toks (dt\<lparr>dt_offset := k\<rparr>, c)
     = bindE (foldE (decode_one decode) toks (dt, c)) (\<lambda>(dt1, c1). Inr (dt1\<lparr>dt_offset := k\<rparr>, c1))"
proof (induction toks arbitrary: dt c)
  case (Cons t toks)
  show ?case
    by (cases "decode_one decode t (dt, c)") (auto simp: decode_one_offset Cons.IH)
qed simp

lemma stop_check_offset:
  "stop_check c (dt\<lparr>dt_offset := k\<rparr>) = (case stop_check c dt of (st, dt1) \<Rightarrow> (st, dt1\<lparr>dt_offset := k\<rparr>))"
  "stop_check c (dt\<lparr>dt_offset := k, dt_ids := l\<rparr>)
    = (case stop_check c (dt\<lparr>dt_ids := l\<rparr>) of (st, dt1) \<Rightarrow> (st, dt1\<lparr>dt_offset := k\<rparr>))"
  by (auto simp: stop_check_def detok_num_output_tokens_def split: option.split)

lemma detok_update_offset:
  "detok_update decode toks term (dt\<lparr>dt_offset := k\<rparr>)
     = bindE (detok_update decode toks term dt) (\<lambda>(st, dt1). Inr (st, dt1\<lparr>dt_offset := k\<rparr>))"
  by (cases "foldE (decode_one decode) (if term \<and> \<not> dt_include dt then butlast toks else toks) (dt, length (dt_text dt))")
    (auto simp: detok_update_def decode_fold_offset stop_check_offset Let_def split: prod.splits)

section \<open>One output\<close>

text \<open>What is fixed for a request.\<close>

definition same_request :: "'d request_state \<Rightarrow> 'd request_state \<Rightarrow> bool" where
  "same_request s s1 \<longleftrightarrow> rs_id s1 = rs_id s \<and> rs_external s1 = rs_external s"

lemma tokens_to_send_frame: "tokens_to_send toks fin s = Inr (send, s1) \<Longrightarrow> same_request s s1"
  by (auto simp: tokens_to_send_def same_request_def split: if_splits option.splits)

lemma new_completion_output_frame: "new_completion_output toks fr sr s = Inr (out, s1) \<Longrightarrow> same_request s s1"
  by (auto simp: new_completion_output_def same_request_def Let_def split: option.splits prod.splits)

lemma make_request_output_frame:
  assumes "make_request_output toks pooled fr sr s ps = Inr (out, s1, ps1)"
  shows "same_request s s1"
proof (cases "fr = None \<and> rs_kind s = FINAL_ONLY")
  case True
  then show ?thesis using assms by (simp add: make_request_output_def same_request_def)
next
  case False
  with assms obtain send s2 where send: "tokens_to_send toks (fr \<noteq> None) s = Inr (send, s2)"
    by (auto simp: make_request_output_def Let_def elim!: bindE_InrE)
  note s2 = tokens_to_send_frame[OF send]
  show ?thesis
  proof (cases "send = None \<or> pooled \<noteq> None")
    case True
    then show ?thesis using assms False send s2 by (auto simp: make_request_output_def Let_def split: option.splits)
  next
    case nopool: False
    with assms False send obtain co s3 toks' where co: "new_completion_output toks' fr sr s2 = Inr (co, s3)"
      "send = Some toks'"
      by (auto simp: make_request_output_def Let_def elim!: bindE_InrE)
    have "s1 = s3" using assms False send nopool co
      by (auto simp: make_request_output_def Let_def split: option.splits elim!: bindE_InrE)
    then show ?thesis using s2 new_completion_output_frame[OF co(1)] by (simp add: same_request_def)
  qed
qed

lemma detokenize_output_frame: "detokenize_output decode eo s = Inr (fr, sr, s1) \<Longrightarrow> same_request s s1"
  by (auto simp: detokenize_output_def same_request_def Let_def elim!: bindE_InrE split: if_splits option.splits)

lemma process_state_frame:
  assumes "process_state decode eo s ps = Inr (out, fr, s1, ps1)"
  shows "same_request s s1"
proof -
  from assms obtain sr s2 out2 where "detokenize_output decode eo (note_prefill eo s) = Inr (fr, sr, s2)"
    "make_request_output (eo_new_token_ids eo) (eo_pooling eo) fr sr s2 ps = Inr (out2, s1, ps1)"
    by (auto simp: process_state_def elim!: bindE_InrE)
  then have "same_request (note_prefill eo s) s1"
    using detokenize_output_frame make_request_output_frame by (fastforce simp: same_request_def)
  then show ?thesis by (simp add: same_request_def note_prefill_def split: if_splits)
qed

text \<open>What an output does to the processor: the state of its request changes, and the request
  may be finished then.\<close>

lemma process_one_effect:
  assumes "process_one decode eo st = Inr st1"
  obtains (ignored) "op_states (po_processor st) (eo_request_id eo) = None" "st1 = st"
  | (handled) s s1 p1 where "op_states (po_processor st) (eo_request_id eo) = Some s"
      "rs_id s1 = rs_id s" "rs_external s1 = rs_external s"
      "op_states p1 = (op_states (po_processor st))(eo_request_id eo \<mapsto> s1)"
      "op_external p1 = op_external (po_processor st)" "op_parents p1 = op_parents (po_processor st)"
      "\<forall>r. r \<noteq> eo_request_id eo \<longrightarrow> puts_of r p1 = puts_of r (po_processor st)"
      "po_processor st1 = p1 \<or> finish_request s1 p1 = Inr (po_processor st1)"
proof (cases "op_states (po_processor st) (eo_request_id eo)")
  case None
  then have "st1 = st" using assms by (simp add: process_one_def)
  with None show thesis by (rule ignored)
next
  case (Some s)
  let ?p = "po_processor st" and ?r = "eo_request_id eo"
  from assms Some obtain out fr s1 ps where ps: "process_state decode eo s (op_parent_objs ?p) = Inr (out, fr, s1, ps)"
    by (auto simp: process_one_def Let_def elim!: bindE_InrE)
  define p1 where "p1 = ?p\<lparr>op_states := (op_states ?p)(?r \<mapsto> s1), op_parent_objs := ps\<rparr>"
  define p2 where "p2 = (case out of Some x \<Rightarrow> if rs_queue s1 then put_request_output ?r x p1 else p1 | None \<Rightarrow> p1)"
  have p2: "op_states p2 = (op_states ?p)(?r \<mapsto> s1)" "op_external p2 = op_external ?p" "op_parents p2 = op_parents ?p"
    "\<forall>r. r \<noteq> ?r \<longrightarrow> puts_of r p2 = puts_of r ?p"
    by (auto simp: p2_def p1_def puts_of_def put_request_output_def split: option.split)
  have ids: "rs_id s1 = rs_id s" "rs_external s1 = rs_external s" using process_state_frame[OF ps] by (simp_all add: same_request_def)
  have upd: "thesis" if "po_processor st1 = p2\<lparr>op_states := (op_states p2)(?r \<mapsto> s2)\<rparr>" "rs_id s2 = rs_id s1" "rs_external s2 = rs_external s1" for s2
    using that p2 ids Some by (intro handled[of s s2 "po_processor st1"]) (auto simp: puts_of_def)
  show thesis
  proof (cases "fr = None")
    case True
    then have "po_processor st1 = p2" using assms Some ps unfolding p2_def p1_def by (auto simp: process_one_def Let_def)
    then show thesis using handled[OF Some ids p2] by blast
  next
    case fin: False
    show thesis
    proof (cases "rs_streaming s1")
      case True
      then obtain s2 where "po_processor st1 = p2\<lparr>op_states := (op_states p2)(?r \<mapsto> s2)\<rparr>"
        "rs_id s2 = rs_id s1" "rs_external s2 = rs_external s1"
      proof (cases "rs_chunks s1 = None \<or> rs_chunks s1 = Some []")
        case True
        have "po_processor st1 = p2\<lparr>op_states := (op_states p2)(?r \<mapsto> s1\<lparr>rs_chunks := None\<rparr>)\<rparr>"
          using assms Some ps fin \<open>rs_streaming s1\<close> True unfolding p2_def p1_def
          by (auto simp: process_one_def Let_def)
        then show ?thesis using that[of "s1\<lparr>rs_chunks := None\<rparr>"] by simp
      next
        case False
        then obtain u us where us: "rs_chunks s1 = Some (u # us)" by (cases "rs_chunks s1"; cases "the (rs_chunks s1)") auto
        let ?s2 = "apply_streaming_update u (s1\<lparr>rs_chunks := Some us\<rparr>)"
        have "po_processor st1 = p2\<lparr>op_states := (op_states p2)(?r \<mapsto> ?s2)\<rparr>"
          using assms Some ps fin \<open>rs_streaming s1\<close> us unfolding p2_def p1_def by (auto simp: process_one_def Let_def)
        then show ?thesis using that[of ?s2] by (simp add: apply_streaming_update_def Let_def)
      qed
      then show thesis by (rule upd)
    next
      case False
      then have "finish_request s1 p2 = Inr (po_processor st1)" using assms Some ps fin unfolding p2_def p1_def
        by (auto simp: process_one_def Let_def elim!: bindE_InrE)
      then show thesis using handled[OF Some ids p2] by blast
    qed
  qed
qed

section \<open>The index of external ids\<close>

definition listed :: "'d output_processor \<Rightarrow> rid \<Rightarrow> rid list" where
  "listed p e = (case op_external p e of None \<Rightarrow> [] | Some l \<Rightarrow> l)"

definition keyed :: "'d output_processor \<Rightarrow> bool" where
  "keyed p \<longleftrightarrow> (\<forall>k s. op_states p k = Some s \<longrightarrow> rs_id s = k)"

text \<open>The index lists exactly the live requests, each once; those in \<open>X\<close> are about to be
  aborted and have been taken out of it.\<close>

definition indexed_but :: "rid set \<Rightarrow> 'd output_processor \<Rightarrow> bool" where
  "indexed_but X p \<longleftrightarrow> keyed p \<and> (\<forall>e. distinct (listed p e) \<and> op_external p e \<noteq> Some [])
     \<and> (\<forall>e k. k \<in> set (listed p e) \<longleftrightarrow> k \<notin> X \<and> (\<exists>s. op_states p k = Some s \<and> rs_external s = e))"

abbreviation indexed :: "'d output_processor \<Rightarrow> bool" where
  "indexed \<equiv> indexed_but {}"

lemma indexed_live: "indexed_but X p \<Longrightarrow> (\<And>k s. op_states p k = Some s \<Longrightarrow> k \<in> X \<longleftrightarrow> k \<in> Y) \<Longrightarrow> indexed_but Y p"
  unfolding indexed_but_def by blast

lemma indexed_cong:
  "op_states p1 = op_states p \<Longrightarrow> op_external p1 = op_external p \<Longrightarrow> indexed_but X p1 = indexed_but X p"
  by (simp add: indexed_but_def keyed_def listed_def)

text \<open>The state of a request may change as long as the request stays the same.\<close>

lemma indexed_set_state:
  assumes "indexed_but X p" "op_states p r = Some s" "rs_id s1 = rs_id s" "rs_external s1 = rs_external s"
    and "op_states p1 = (op_states p)(r \<mapsto> s1)" "op_external p1 = op_external p"
  shows "indexed_but X p1"
proof -
  have "keyed p1" using assms by (auto simp: indexed_but_def keyed_def)
  moreover have "listed p1 = listed p" using assms(6) by (auto simp: listed_def)
  moreover have "(\<exists>s. op_states p1 k = Some s \<and> rs_external s = e) \<longleftrightarrow> (\<exists>s. op_states p k = Some s \<and> rs_external s = e)" for k e
    using assms(2,4,5) by auto
  ultimately show ?thesis using assms(1,6) by (simp add: indexed_but_def)
qed

lemma forget_external_cases:
  assumes "forget_external e r p = Inr p1"
  shows "r \<in> set (listed p e) \<and> op_states p1 = op_states p \<and> op_parents p1 = op_parents p \<and> op_puts p1 = op_puts p
    \<and> op_parent_objs p1 = op_parent_objs p
    \<and> (\<forall>f. listed p1 f = (if f = e then remove1 r (listed p e) else listed p f))
    \<and> (\<forall>f. op_external p1 f = Some [] \<longrightarrow> op_external p f = Some [])"
  using assms by (auto simp: forget_external_def listed_def Let_def split: if_splits option.splits)

text \<open>Taking a live request out of the index.\<close>

lemma indexed_forget:
  assumes "indexed_but X p" "op_states p r = Some s" "forget_external (rs_external s) r p = Inr p1"
  shows "indexed_but (insert r X) p1"
proof -
  note f = forget_external_cases[OF assms(3)]
  have d: "distinct (listed p e)" "op_external p e \<noteq> Some []" for e using assms(1) by (auto simp: indexed_but_def)
  have "k \<in> set (listed p1 e) \<longleftrightarrow> k \<notin> insert r X \<and> (\<exists>s. op_states p1 k = Some s \<and> rs_external s = e)" for e k
  proof -
    have "k \<in> set (listed p1 e) \<longleftrightarrow> k \<in> set (listed p e) \<and> \<not> (k = r \<and> e = rs_external s)"
      using f d by auto
    then show ?thesis using assms(1,2) f by (auto simp: indexed_but_def)
  qed
  moreover have "keyed p1" using assms(1) f by (simp add: indexed_but_def keyed_def)
  moreover have "distinct (listed p1 e)" "op_external p1 e \<noteq> Some []" for e using f d by auto
  ultimately show ?thesis by (simp add: indexed_but_def)
qed

text \<open>Requests out of the index may be dropped.\<close>

lemma indexed_drop:
  assumes "indexed_but X p" "r \<in> X" "op_states p1 = (op_states p)(r := None)" "op_external p1 = op_external p"
  shows "indexed_but X p1"
proof -
  have "listed p1 = listed p" using assms(4) by (auto simp: listed_def)
  then show ?thesis using assms by (auto simp: indexed_but_def keyed_def)
qed

lemma finish_request_cases:
  assumes "finish_request s p = Inr p1"
  obtains p2 s2 where "op_states p (rs_id s) = Some s2"
    "forget_external (rs_external s) (rs_id s) (p\<lparr>op_states := (op_states p)(rs_id s := None)\<rparr>) = Inr p2"
    "op_states p1 = op_states p2" "op_external p1 = op_external p2" "op_puts p1 = op_puts p2"
    "op_parents p1 \<subseteq> op_parents p2"
proof -
  from assms obtain p2 s2 where p2: "op_states p (rs_id s) = Some s2"
    "forget_external (rs_external s) (rs_id s) (p\<lparr>op_states := (op_states p)(rs_id s := None)\<rparr>) = Inr p2"
    "p1 = (case rs_parent s of None \<Rightarrow> p2
       | Some par \<Rightarrow> if pa_children (op_parent_objs p2 par) = [] then p2\<lparr>op_parents := op_parents p2 - {par}\<rparr> else p2)"
    by (auto simp: finish_request_def elim!: bindE_InrE split: if_splits)
  show thesis by (rule that[OF p2(1,2)]) (auto simp: p2(3) split: option.split)
qed

lemma indexed_finish:
  assumes "indexed_but X p" "op_states p (rs_id s) = Some s" "finish_request s p = Inr p1"
  shows "indexed_but X p1 \<and> op_states p1 = (op_states p)(rs_id s := None) \<and> op_puts p1 = op_puts p"
proof -
  from assms(3) obtain p2 where
    p2: "forget_external (rs_external s) (rs_id s) (p\<lparr>op_states := (op_states p)(rs_id s := None)\<rparr>) = Inr p2"
    "op_states p1 = op_states p2" "op_external p1 = op_external p2" "op_puts p1 = op_puts p2"
    by (rule finish_request_cases)
  note f = forget_external_cases[OF p2(1)]
  have "forget_external (rs_external s) (rs_id s) p = Inr (p2\<lparr>op_states := op_states p\<rparr>)"
    using p2(1) by (auto simp: forget_external_def Let_def split: if_splits)
  from indexed_forget[OF assms(1,2) this]
  have "indexed_but (insert (rs_id s) X) (p2\<lparr>op_states := op_states p\<rparr>)" .
  then have "indexed_but (insert (rs_id s) X) p1"
    by (rule indexed_drop[of _ _ "rs_id s"]) (use f p2 in auto)
  then have "indexed_but X p1" by (rule indexed_live) (use f p2 in auto)
  then show ?thesis using f p2 by simp
qed

lemma indexed_process_one:
  assumes "process_one decode eo st = Inr st1" "indexed_but X (po_processor st)"
  shows "indexed_but X (po_processor st1)
    \<and> (\<forall>r. r \<noteq> eo_request_id eo \<longrightarrow> op_states (po_processor st1) r = op_states (po_processor st) r
        \<and> puts_of r (po_processor st1) = puts_of r (po_processor st))"
  using assms(1)
proof (cases rule: process_one_effect)
  case (handled s s1 p1)
  have id: "rs_id s1 = eo_request_id eo" using assms(2) handled(1,2) by (simp add: indexed_but_def keyed_def)
  have p1: "indexed_but X p1" by (rule indexed_set_state[OF assms(2) handled(1-5)])
  have live: "op_states p1 (rs_id s1) = Some s1" using handled(4) id by simp
  from handled(8) show ?thesis
  proof
    assume "po_processor st1 = p1"
    then show ?thesis using p1 handled(4,7) by simp
  next
    assume fin: "finish_request s1 p1 = Inr (po_processor st1)"
    from indexed_finish[OF p1 live fin] show ?thesis using handled(4,7) id by (simp add: puts_of_def)
  qed
qed (use assms in auto)

section \<open>Aborts\<close>

lemma collect_internal:
  assumes "foldE (collect_id True) ids (rs, p) = Inr (rs1, p1)" "indexed_but X p"
  shows "\<exists>Y. indexed_but (X \<union> Y) p1 \<and> Y \<subseteq> set ids \<and> rs1 = rs @ ids \<and> op_states p1 = op_states p
    \<and> op_parents p1 = op_parents p \<and> (\<forall>k \<in> set ids. op_states p k \<noteq> None \<longrightarrow> k \<in> Y)"
  using assms
proof (induction ids arbitrary: rs p X)
  case (Cons r ids)
  then obtain rs2 p2 where one: "collect_id True r (rs, p) = Inr (rs2, p2)"
    and rest: "foldE (collect_id True) ids (rs2, p2) = Inr (rs1, p1)"
    by (auto elim!: bindE_InrE)
  have "\<exists>Y. indexed_but (X \<union> Y) p2 \<and> Y \<subseteq> {r} \<and> rs2 = rs @ [r] \<and> op_states p2 = op_states p
    \<and> op_parents p2 = op_parents p \<and> (op_states p r \<noteq> None \<longrightarrow> r \<in> Y)"
  proof (cases "op_states p r")
    case None
    then show ?thesis using one Cons.prems(2) by (auto simp: collect_id_def intro!: exI[of _ "{}"])
  next
    case (Some s)
    then have f: "forget_external (rs_external s) r p = Inr p2" "rs2 = rs @ [r]"
      using one by (auto simp: collect_id_def elim!: bindE_InrE)
    show ?thesis using indexed_forget[OF Cons.prems(2) Some f(1)] forget_external_cases[OF f(1)] f(2)
      by (auto intro!: exI[of _ "{r}"])
  qed
  then obtain Y where Y: "indexed_but (X \<union> Y) p2" "Y \<subseteq> {r}" "rs2 = rs @ [r]" "op_states p2 = op_states p"
    "op_parents p2 = op_parents p" "op_states p r \<noteq> None \<longrightarrow> r \<in> Y" by blast
  from Cons.IH[OF rest Y(1)] obtain Z where Z: "indexed_but (X \<union> Y \<union> Z) p1" "Z \<subseteq> set ids" "rs1 = rs2 @ ids"
    "op_states p1 = op_states p2" "op_parents p1 = op_parents p2" "\<forall>k \<in> set ids. op_states p2 k \<noteq> None \<longrightarrow> k \<in> Z" by blast
  show ?case
  proof (intro exI conjI)
    show "indexed_but (X \<union> (Y \<union> Z)) p1" using Z(1) by (simp add: Un_assoc)
  qed (use Y Z in auto)
qed (auto intro!: exI[of _ "{}"])

text \<open>All requests of an external id, if there are any.\<close>

lemma collect_external:
  assumes "collect_id False e (rs, p) = Inr (rs1, p1)" "indexed_but X p"
  shows "indexed_but (X \<union> set (listed p e)) p1 \<and> rs1 = rs @ listed p e \<and> op_states p1 = op_states p
    \<and> op_parents p1 = op_parents p \<and> op_external p1 = (op_external p)(e := None)"
proof (cases "op_external p e")
  case None
  then have "rs1 = rs" "p1 = p" using assms(1) by (simp_all add: collect_id_def)
  moreover have "(op_external p)(e := None) = op_external p" using None by (metis fun_upd_triv)
  ultimately show ?thesis using assms(2) None by (simp add: listed_def)
next
  case (Some l)
  then have p1: "rs1 = rs @ l" "p1 = p\<lparr>op_external := (op_external p)(e := None)\<rparr>" and l: "listed p e = l"
    using assms(1) by (simp_all add: collect_id_def listed_def)
  have st: "op_states p1 = op_states p" and ext: "op_external p1 f = (if f = e then None else op_external p f)" for f
    by (simp_all add: p1)
  have listed: "listed p1 f = (if f = e then [] else listed p f)" for f by (simp add: p1 listed_def)
  have "k \<in> set (listed p1 f) \<longleftrightarrow> k \<notin> X \<union> set l \<and> (\<exists>s. op_states p1 k = Some s \<and> rs_external s = f)" for f k
  proof -
    have "k \<in> set (listed p f) \<longleftrightarrow> k \<notin> X \<and> (\<exists>s. op_states p k = Some s \<and> rs_external s = f)" for f
      using assms(2) by (auto simp: indexed_but_def)
    then show ?thesis using l by (auto simp: listed st)
  qed
  moreover have "keyed p1" "distinct (listed p1 f) \<and> op_external p1 f \<noteq> Some []" for f
    using assms(2) by (auto simp: indexed_but_def keyed_def listed st ext)
  ultimately have "indexed_but (X \<union> set l) p1" by (simp add: indexed_but_def)
  then show ?thesis using p1 l by simp
qed

lemma abort_one_live:
  assumes "abort_one rec r (ab, p) = Inr (ab1, p1)" "op_states p r = Some s"
  shows "ab1 = ab @ [r] \<and> op_states p1 = (op_states p)(r := None) \<and> op_external p1 = op_external p \<and> op_parents p1 = op_parents p"
  using assms by (auto simp: abort_one_def Let_def elim!: bindE_InrE split: if_splits option.splits prod.splits)

lemma abort_all_live:
  assumes "foldE (abort_one rec) rs (ab, p) = Inr (ab1, p1)" "distinct rs" "set rs \<subseteq> dom (op_states p)"
  shows "ab1 = ab @ rs \<and> op_states p1 = op_states p |` (- set rs) \<and> op_external p1 = op_external p \<and> op_parents p1 = op_parents p"
  using assms
proof (induction rs arbitrary: ab p)
  case (Cons r rs)
  then obtain s ab2 p2 where one: "abort_one rec r (ab, p) = Inr (ab2, p2)" "op_states p r = Some s"
    and rest: "foldE (abort_one rec) rs (ab2, p2) = Inr (ab1, p1)"
    by (auto elim!: bindE_InrE)
  note p2 = abort_one_live[OF one]
  have "ab1 = ab2 @ rs \<and> op_states p1 = op_states p2 |` (- set rs) \<and> op_external p1 = op_external p2 \<and> op_parents p1 = op_parents p2"
    using Cons.prems p2 by (intro Cons.IH[OF rest]) auto
  then show ?case using p2 by (auto simp: restrict_map_def fun_eq_iff)
qed (simp add: restrict_map_def fun_eq_iff)

text \<open>Aborting keeps the index, whatever is being aborted already.\<close>

definition keeps_index ::
  "(rid list \<Rightarrow> 'd output_processor \<Rightarrow> (rid list \<times> 'd output_processor) result) \<Rightarrow> bool" where
  "keeps_index rec \<longleftrightarrow> (\<forall>X ids p ab p1. rec ids p = Inr (ab, p1) \<longrightarrow> indexed_but X p \<longrightarrow>
     indexed_but X p1 \<and> dom (op_states p1) \<subseteq> dom (op_states p))"

lemma abort_one_index:
  assumes "abort_one rec r (ab, p) = Inr (ab1, p1)" "keeps_index rec" "indexed_but X p" "op_states p r \<noteq> None \<longrightarrow> r \<in> X"
  shows "indexed_but X p1 \<and> dom (op_states p1) \<subseteq> dom (op_states p) - {r}"
proof (cases "op_states p r")
  case (Some s)
  note p1 = abort_one_live[OF assms(1) Some]
  then have "indexed_but X p1" using indexed_drop[OF assms(3), of r p1] assms(4) Some by simp
  then show ?thesis using p1 by auto
next
  case None
  show ?thesis
  proof (cases "r \<notin> op_parents p \<or> pa_children (op_parent_objs p r) = []")
    case True
    then have "op_states p1 = op_states p \<and> op_external p1 = op_external p"
      using assms(1) None by (auto simp: abort_one_def split: if_splits)
    then show ?thesis using assms(3) None indexed_cong[of p1 p X] by auto
  next
    case False
    then obtain cs p2 where p2: "rec (pa_children (op_parent_objs p r)) p = Inr (cs, p2)"
      "op_states p1 = op_states p2" "op_external p1 = op_external p2"
      using assms(1) None by (auto simp: abort_one_def elim!: bindE_InrE)
    then have "indexed_but X p2 \<and> dom (op_states p2) \<subseteq> dom (op_states p)"
      using assms(2,3) unfolding keeps_index_def by blast
    then show ?thesis using p2 None indexed_cong[of p1 p2 X] by auto
  qed
qed

lemma abort_fold_index:
  assumes "foldE (abort_one rec) rs (ab, p) = Inr (ab1, p1)" "keeps_index rec" "indexed_but X p"
    and "\<forall>r \<in> set rs. op_states p r \<noteq> None \<longrightarrow> r \<in> X"
  shows "indexed_but X p1 \<and> dom (op_states p1) \<subseteq> dom (op_states p) - set rs"
  using assms
proof (induction rs arbitrary: ab p)
  case (Cons r rs)
  then obtain ab2 p2 where one: "abort_one rec r (ab, p) = Inr (ab2, p2)"
    and rest: "foldE (abort_one rec) rs (ab2, p2) = Inr (ab1, p1)"
    by (auto elim!: bindE_InrE)
  have p2: "indexed_but X p2 \<and> dom (op_states p2) \<subseteq> dom (op_states p) - {r}"
    using Cons.prems by (intro abort_one_index[OF one]) auto
  then have "\<forall>r \<in> set rs. op_states p2 r \<noteq> None \<longrightarrow> r \<in> X" using Cons.prems(4) by (auto simp: dom_def)
  from Cons.IH[OF rest Cons.prems(2) _ this] p2 show ?case by auto
qed simp

lemma abort_requests_index: "keeps_index (processor_abort_requests n True)"
proof (induction n)
  case (Suc n)
  show ?case unfolding keeps_index_def
  proof (intro allI impI)
    fix X ids ab and p p1 :: "'a output_processor"
    assume run: "processor_abort_requests (Suc n) True ids p = Inr (ab, p1)" and ix: "indexed_but X p"
    from run obtain rs p2 where c: "foldE (collect_id True) ids ([], p) = Inr (rs, p2)"
      and a: "foldE (abort_one (processor_abort_requests n True)) rs ([], p2) = Inr (ab, p1)"
      by (auto elim!: bindE_InrE)
    from collect_internal[OF c ix] obtain Y where Y: "indexed_but (X \<union> Y) p2" "Y \<subseteq> set ids" "rs = ids"
      "op_states p2 = op_states p" "\<forall>k \<in> set ids. op_states p k \<noteq> None \<longrightarrow> k \<in> Y" by auto
    have "\<forall>r \<in> set ids. op_states p2 r \<noteq> None \<longrightarrow> r \<in> X \<union> Y" using Y(4,5) by simp
    note p1 = abort_fold_index[OF a[unfolded Y(3)] Suc.IH Y(1) this]
    have "indexed_but X p1"
    proof (rule indexed_live)
      show "indexed_but (X \<union> Y) p1" using p1 by simp
      show "k \<in> X \<union> Y \<longleftrightarrow> k \<in> X" if "op_states p1 k = Some s" for k s using that p1 Y(2) by auto
    qed
    then show "indexed_but X p1 \<and> dom (op_states p1) \<subseteq> dom (op_states p)" using p1 Y(4) by auto
  qed
qed (simp add: keeps_index_def)

section \<open>Reachable processors\<close>

lemma indexed_new_request:
  assumes "indexed p" "op_states p (rs_id s) = None"
    and "op_states p1 = (op_states p)(rs_id s \<mapsto> s)"
    and "op_external p1 = (op_external p)(rs_external s \<mapsto> listed p (rs_external s) @ [rs_id s])"
  shows "indexed p1"
proof -
  have listed: "listed p1 f = (if f = rs_external s then listed p f @ [rs_id s] else listed p f)" for f
    using assms(4) by (simp add: listed_def)
  have fresh: "rs_id s \<notin> set (listed p f)" for f using assms(1,2) by (simp add: indexed_but_def)
  have "k \<in> set (listed p1 f) \<longleftrightarrow> (\<exists>x. op_states p1 k = Some x \<and> rs_external x = f)" for f k
  proof (cases "k = rs_id s")
    case True
    then show ?thesis using fresh assms(3) by (auto simp: listed)
  next
    case False
    then show ?thesis using assms(1,3) by (simp add: listed indexed_but_def)
  qed
  moreover have "keyed p1" "distinct (listed p1 f) \<and> op_external p1 f \<noteq> Some []" for f
    using assms(1,3,4) fresh by (auto simp: indexed_but_def keyed_def listed)
  ultimately show ?thesis by (simp add: indexed_but_def)
qed

lemma indexed_add_request:
  assumes "processor_add_request s resumable' prompt par p = Inr p1" "indexed p"
  shows "indexed p1"
proof (cases "op_states p (rs_id s)")
  case None
  then show ?thesis using assms
    by (intro indexed_new_request[OF assms(2) None]) (auto simp: processor_add_request_def listed_def)
next
  case (Some old)
  let ?r = "rs_id s"
  have upd: "update_streaming_request_state ?r resumable' prompt old p = Inr p1"
    using assms(1) Some by (simp add: processor_add_request_def)
  have old: "rs_id old = ?r" using assms(2) Some by (simp add: indexed_but_def keyed_def)
  show ?thesis
  proof (cases "\<not> resumable' \<and> rs_chunks old = None")
    case True
    then obtain p2 where p2: "finish_request old p = Inr p2"
      "p1 = (if rs_queue old then put_request_output ?r stream_finished p2 else p2)"
      using upd by (auto simp: update_streaming_request_state_def Let_def elim!: bindE_InrE)
    have "indexed p2" using indexed_finish[OF assms(2) _ p2(1)] Some old by simp
    then show ?thesis using p2(2) indexed_cong[of p1 p2] by (simp split: if_splits)
  next
    case False
    then obtain s1 where "p1 = p\<lparr>op_states := (op_states p)(?r \<mapsto> s1)\<rparr>" "rs_id s1 = rs_id old" "rs_external s1 = rs_external old"
      using upd by (auto simp: update_streaming_request_state_def apply_streaming_update_def Let_def
          split: if_splits option.splits)
    then show ?thesis using indexed_set_state[OF assms(2) Some, of s1 p1] by simp
  qed
qed

text \<open>Requests are added, outputs processed, and requests aborted by external ids (from
  outside) or internal ones.\<close>

inductive processor_reached :: "('d \<Rightarrow> int \<Rightarrow> (string \<times> 'd) result) \<Rightarrow> 'd output_processor \<Rightarrow> bool" for decode where
  start: "processor_reached decode (new_output_processor ps)"
| added: "processor_reached decode p \<Longrightarrow> processor_add_request s resumable' prompt par p = Inr p1 \<Longrightarrow> processor_reached decode p1"
| processed: "processor_reached decode p \<Longrightarrow> process_outputs decode eos p = Inr st \<Longrightarrow> processor_reached decode (po_processor st)"
| aborted: "processor_reached decode p \<Longrightarrow> processor_abort_requests n internal ids p = Inr (ab, p1) \<Longrightarrow> processor_reached decode p1"

lemma indexed_process_fold:
  "foldE (process_one decode) eos st = Inr st1 \<Longrightarrow> indexed_but X (po_processor st) \<Longrightarrow> indexed_but X (po_processor st1)"
proof (induction eos arbitrary: st)
  case (Cons eo eos)
  then show ?case using indexed_process_one by (fastforce elim!: bindE_InrE)
qed simp

lemma collect_external_all:
  assumes "foldE (collect_id False) es (rs, p) = Inr (rs1, p1)" "indexed_but (set rs) p" "set rs \<subseteq> dom (op_states p)"
  shows "indexed_but (set rs1) p1 \<and> set rs1 \<subseteq> dom (op_states p1)"
  using assms
proof (induction es arbitrary: rs p)
  case (Cons e es)
  then obtain rs2 p2 where one: "collect_id False e (rs, p) = Inr (rs2, p2)"
    and rest: "foldE (collect_id False) es (rs2, p2) = Inr (rs1, p1)"
    by (auto elim!: bindE_InrE)
  have "set (listed p e) \<subseteq> dom (op_states p)" using Cons.prems(2) by (auto simp: indexed_but_def)
  then show ?case using collect_external[OF one Cons.prems(2)] Cons.prems(3) by (intro Cons.IH[OF rest]) auto
qed simp

lemma indexed_abort:
  assumes "processor_abort_requests n internal ids p = Inr (ab, p1)" "indexed p"
  shows "indexed p1"
proof (cases "internal")
  case True
  then have "processor_abort_requests n True ids p = Inr (ab, p1)" using assms(1) by simp
  with assms(2) show ?thesis using abort_requests_index[of n] unfolding keeps_index_def by blast
next
  case False
  with assms(1) obtain m rs p2 where "n = Suc m" and c: "foldE (collect_id False) ids ([], p) = Inr (rs, p2)"
    and a: "foldE (abort_one (processor_abort_requests m True)) rs ([], p2) = Inr (ab, p1)"
    by (cases n) (auto elim!: bindE_InrE)
  have rs: "indexed_but (set rs) p2" "set rs \<subseteq> dom (op_states p2)" using collect_external_all[OF c] assms(2) by auto
  have "\<forall>r \<in> set rs. op_states p2 r \<noteq> None \<longrightarrow> r \<in> set rs" by simp
  note p1 = abort_fold_index[OF a abort_requests_index rs(1) this]
  show ?thesis
  proof (rule indexed_live)
    show "indexed_but (set rs) p1" using p1 by simp
    show "k \<in> set rs \<longleftrightarrow> k \<in> {}" if "op_states p1 k = Some s" for k s using that p1 by auto
  qed
qed

lemma reached_indexed: "processor_reached decode p \<Longrightarrow> indexed p"
proof (induction rule: processor_reached.induct)
  case (start ps)
  show ?case by (simp add: indexed_but_def keyed_def listed_def new_output_processor_def)
next
  case (processed p eos st)
  show ?case by (rule indexed_process_fold[OF processed(2)[unfolded process_outputs_def]]) (use processed in simp)
qed (blast intro: indexed_add_request indexed_abort)+

lemma finish_live:
  assumes "indexed p" "op_states p r = Some s"
  shows "\<exists>p1. finish_request s p = Inr p1"
proof -
  have r: "rs_id s = r" "r \<in> set (listed p (rs_external s))" using assms by (auto simp: indexed_but_def keyed_def)
  then have "\<exists>p2. forget_external (rs_external s) r (p\<lparr>op_states := (op_states p)(r := None)\<rparr>) = Inr p2"
    by (auto simp: forget_external_def listed_def Let_def split: option.splits)
  then show ?thesis using assms(2) r(1) by (auto simp: finish_request_def)
qed

text \<open>
  In every output processor that can be reached, however requests are added, streamed,
  finished and aborted, the index of external ids lists each live request once, under its
  external id, and nothing else; it has no empty entries, so it does not grow, and finishing a
  live request never raises.
\<close>

theorem external_index_exact:
  assumes "processor_reached decode p"
  shows "(\<forall>e. distinct (listed p e) \<and> op_external p e \<noteq> Some [] \<and>
            set (listed p e) = {r. \<exists>s. op_states p r = Some s \<and> rs_external s = e})
    \<and> (\<forall>r s. op_states p r = Some s \<longrightarrow> rs_id s = r \<and> (\<exists>p1. finish_request s p = Inr p1))"
  using reached_indexed[OF assms] finish_live[OF reached_indexed[OF assms]]
  by (auto simp: indexed_but_def keyed_def)

text \<open>
  C39. Aborting an external id aborts exactly the live requests that have it, and returns their
  ids for the engine core, each once; every other request stays. The table of parent requests
  is left as it is: a parallel sampling request that a client aborts by its own id loses all its
  children, but its parent is never removed.
\<close>

theorem external_abort_exact:
  assumes "processor_reached decode p" and "processor_abort_requests (Suc n) False [e] p = Inr (ab, p1)"
  shows "ab = listed p e \<and> distinct ab \<and> set ab = {r. \<exists>s. op_states p r = Some s \<and> rs_external s = e}
    \<and> op_states p1 = op_states p |` (- set ab) \<and> op_external p1 = (op_external p)(e := None)
    \<and> op_parents p1 = op_parents p"
proof -
  have ix: "indexed p" by (rule reached_indexed[OF assms(1)])
  from assms(2) obtain rs p2 where c: "collect_id False e ([], p) = Inr (rs, p2)"
    and a: "foldE (abort_one (processor_abort_requests n True)) rs ([], p2) = Inr (ab, p1)"
    by (auto elim!: bindE_InrE)
  note col = collect_external[OF c ix]
  have l: "distinct (listed p e)" "set (listed p e) = {r. \<exists>s. op_states p r = Some s \<and> rs_external s = e}"
    using ix by (auto simp: indexed_but_def)
  have "ab = [] @ rs \<and> op_states p1 = op_states p2 |` (- set rs) \<and> op_external p1 = op_external p2 \<and> op_parents p1 = op_parents p2"
    using col l by (intro abort_all_live[OF a]) auto
  then show ?thesis using col l by simp
qed

section \<open>What a stream delivers\<close>

lemma make_delta:
  assumes "make_request_output toks None fr sr s ps = Inr (out, s1, ps1)"
    and "rs_kind s = DELTA" "rs_parent s = None" "rs_detok s = Some dt"
  obtains (waits) "fr = None" "\<not> rs_interval s \<le> 1" "out = None" "s1 = s"
  | (sends) x co dt1 where "get_next_output_text (fr \<noteq> None) True dt = (co_text co, dt1)" "out = Some x"
      "rq_outputs x = [Some co]" "rq_finished x = (fr \<noteq> None)"
      "co_token_ids co = (if rs_interval s \<le> 1 then toks else drop (rs_sent s) (detok_output_token_ids dt))"
      "s1 = s\<lparr>rs_detok := Some dt1, rs_sent := (if rs_interval s \<le> 1 then rs_sent s else nat (detok_num_output_tokens dt))\<rparr>"
proof -
  obtain send s2 where send: "tokens_to_send toks (fr \<noteq> None) s = Inr (send, s2)"
    using assms(1,2) by (auto simp: make_request_output_def Let_def elim!: bindE_InrE)
  have s2: "s2 = s\<lparr>rs_sent := (if rs_interval s \<le> 1 \<or> send = None then rs_sent s else nat (detok_num_output_tokens dt))\<rparr>"
    "send \<noteq> None \<Longrightarrow> the send = (if rs_interval s \<le> 1 then toks else drop (rs_sent s) (detok_output_token_ids dt))"
    "send = None \<Longrightarrow> fr = None \<and> \<not> rs_interval s \<le> 1"
    using send assms(2,4) by (auto simp: tokens_to_send_def split: if_splits)
  show thesis
  proof (cases send)
    case None
    then have "out = None" "s1 = s" using assms(1,2) send s2(1) by (auto simp: make_request_output_def)
    then show thesis using waits s2(3) None by blast
  next
    case (Some toks')
    obtain tx dt1 where g: "get_next_output_text (fr \<noteq> None) True dt = (tx, dt1)" by force
    define co where "co = \<lparr>co_index = rs_index s2, co_text = tx, co_token_ids = toks',
        co_finish_reason = fr, co_stop_reason = (if fr = None then None else sr)\<rparr>"
    have "new_completion_output toks' fr sr s2 = Inr (co, s2\<lparr>rs_detok := Some dt1\<rparr>)"
      using g assms(2,4) by (simp add: new_completion_output_def s2(1) co_def)
    then have out: "out = Some \<lparr>rq_id = rs_external s2, rq_outputs = [Some co], rq_pooled = None, rq_finished = (fr \<noteq> None),
        rq_cached = rs_cached s2\<rparr>" "s1 = s2\<lparr>rs_detok := Some dt1\<rparr>"
      using assms(1,2,3) send Some by (auto simp: make_request_output_def s2(1))
    show thesis
    proof (rule sends[of co dt1])
      show "get_next_output_text (fr \<noteq> None) True dt = (co_text co, dt1)" using g by (simp add: co_def)
      show "co_token_ids co = (if rs_interval s \<le> 1 then toks else drop (rs_sent s) (detok_output_token_ids dt))"
        using s2(2) Some by (simp add: co_def)
      show "s1 = s\<lparr>rs_detok := Some dt1, rs_sent := (if rs_interval s \<le> 1 then rs_sent s else nat (detok_num_output_tokens dt))\<rparr>"
        using out(2) s2(1) Some by simp
    qed (use out(1) in auto)
  qed
qed

text \<open>A stream that goes on. \<open>dt\<close> is the detokenizer of the reference.\<close>

definition delivered :: "'d detokenizer \<Rightarrow> nat \<Rightarrow> nat \<Rightarrow> request_output list \<Rightarrow> bool" where
  "delivered dt k u xs \<longleftrightarrow> text_of xs = take k (dt_text dt) \<and> tokens_of xs = take u (detok_output_token_ids dt)
     \<and> u \<le> length (detok_output_token_ids dt)"

definition streams :: "'d request_state \<Rightarrow> 'd detokenizer \<Rightarrow> nat \<Rightarrow> nat \<Rightarrow> bool" where
  "streams s dt k u \<longleftrightarrow> rs_kind s = DELTA \<and> rs_parent s = None \<and> rs_queue s \<and> \<not> rs_streaming s
     \<and> rs_detok s = Some (dt\<lparr>dt_offset := k\<rparr>) \<and> held_back (dt\<lparr>dt_offset := k\<rparr>) \<and> dt_prompt_len dt \<le> length (dt_ids dt)
     \<and> u = (if rs_interval s \<le> 1 then length (detok_output_token_ids dt) else rs_sent s)"

definition open_stream :: "rid \<Rightarrow> 'd detokenizer \<Rightarrow> 'd output_processor \<Rightarrow> bool" where
  "open_stream r dt p \<longleftrightarrow> (\<exists>s k u. op_states p r = Some s \<and> streams s dt k u \<and> delivered dt k u (puts_of r p)
     \<and> (\<forall>x \<in> set (puts_of r p). \<not> rq_finished x))"

definition closed_stream :: "rid \<Rightarrow> 'd detokenizer \<Rightarrow> 'd output_processor \<Rightarrow> bool" where
  "closed_stream r dt p \<longleftrightarrow> op_states p r = None \<and> text_of (puts_of r p) = dt_text dt
     \<and> tokens_of (puts_of r p) = detok_output_token_ids dt
     \<and> (\<exists>xs x. puts_of r p = xs @ [x] \<and> rq_finished x \<and> (\<forall>y \<in> set xs. \<not> rq_finished y))"

lemma no_empty_stop:
  assumes "detok_update decode toks term dt = Inr (st, dt1)" "held_back dt"
  shows "st \<noteq> Some []"
proof -
  have ne: "[] \<notin> set (dt_stop dt)" using assms(2) by (simp add: held_back_def)
  from assms(1) ne show ?thesis by (cases rule: update_cases) (use ne in auto)
qed

text \<open>The parts of an output on a stream: the detokenizer, then the output made.\<close>

lemma stream_parts:
  assumes "process_state decode eo s ps = Inr (out, fr, s1, ps1)" "eo_pooling eo = None" "streams s dt k u"
  obtains st dt1 sr s2 where "detok_update decode (eo_new_token_ids eo) (eo_finish_reason eo = Some STOP) dt = Inr (st, dt1)"
    "(fr \<noteq> None) = (eo_finish_reason eo \<noteq> None \<or> st \<noteq> None \<and> st \<noteq> Some [])"
    "st \<noteq> Some []" "rs_kind s2 = DELTA" "rs_parent s2 = None" "rs_queue s2" "\<not> rs_streaming s2"
    "rs_detok s2 = Some (dt1\<lparr>dt_offset := k\<rparr>)" "rs_interval s2 = rs_interval s" "rs_sent s2 = rs_sent s"
    "make_request_output (eo_new_token_ids eo) None fr sr s2 ps = Inr (out, s1, ps1)"
    "detok_update decode (eo_new_token_ids eo) (eo_finish_reason eo = Some STOP) (dt\<lparr>dt_offset := k\<rparr>)
      = Inr (st, dt1\<lparr>dt_offset := k\<rparr>)"
proof -
  let ?upd = "detok_update decode (eo_new_token_ids eo) (eo_finish_reason eo = Some STOP)"
  from assms(1) obtain sr s2 out2 where d: "detokenize_output decode eo (note_prefill eo s) = Inr (fr, sr, s2)"
    and m: "make_request_output (eo_new_token_ids eo) (eo_pooling eo) fr sr s2 ps = Inr (out2, s1, ps1)"
    and out: "out = map_option (\<lambda>x. if rs_streaming s1 then x\<lparr>rq_finished := False\<rparr> else x) out2"
    by (auto simp: process_state_def elim!: bindE_InrE)
  have nt: "rs_detok (note_prefill eo s) = Some (dt\<lparr>dt_offset := k\<rparr>)" "rs_kind (note_prefill eo s) = DELTA"
    "rs_parent (note_prefill eo s) = None" "rs_queue (note_prefill eo s)" "\<not> rs_streaming (note_prefill eo s)"
    "rs_interval (note_prefill eo s) = rs_interval s" "rs_sent (note_prefill eo s) = rs_sent s"
    using assms(3) by (simp_all add: note_prefill_def streams_def)
  from d assms(2) nt(1) obtain st dt1 where upd: "?upd dt = Inr (st, dt1)"
    and fr: "fr = (if st = None \<or> st = Some [] then eo_finish_reason eo else Some STOP)"
    and s2: "s2 = (note_prefill eo s)\<lparr>rs_detok := Some (dt1\<lparr>dt_offset := k\<rparr>)\<rparr>"
    by (auto simp: detokenize_output_def detok_update_offset Let_def elim!: bindE_InrE split: option.splits if_splits)
  have upd_k: "?upd (dt\<lparr>dt_offset := k\<rparr>) = Inr (st, dt1\<lparr>dt_offset := k\<rparr>)" by (simp add: detok_update_offset upd)
  have ne: "st \<noteq> Some []" using no_empty_stop[OF upd_k] assms(3) by (simp add: streams_def)
  have s2f: "rs_kind s2 = DELTA" "rs_parent s2 = None" "rs_queue s2" "\<not> rs_streaming s2"
    "rs_detok s2 = Some (dt1\<lparr>dt_offset := k\<rparr>)" "rs_interval s2 = rs_interval s" "rs_sent s2 = rs_sent s"
    using nt by (simp_all add: s2)
  have m': "make_request_output (eo_new_token_ids eo) None fr sr s2 ps = Inr (out2, s1, ps1)" using m assms(2) by simp
  have "\<not> rs_streaming s1"
    using m' s2f(1,2,5) by (cases rule: make_delta) (use s2f(4) in auto)
  then have "out = out2" by (cases out2) (simp_all add: out)
  then show thesis using that[OF upd _ ne s2f _ upd_k] m' fr by (auto split: if_splits)
qed

lemma stream_output:
  assumes "process_state decode eo s ps = Inr (out, fr, s1, ps1)" "eo_pooling eo = None"
    and "streams s dt k u" "delivered dt k u xs"
  defines "ys \<equiv> xs @ (case out of None \<Rightarrow> [] | Some x \<Rightarrow> [x])"
  shows "\<exists>st dt1. detok_update decode (eo_new_token_ids eo) (eo_finish_reason eo = Some STOP) dt = Inr (st, dt1)
    \<and> (fr \<noteq> None) = (eo_finish_reason eo \<noteq> None \<or> st \<noteq> None \<and> st \<noteq> Some [])
    \<and> (fr = None \<longrightarrow> (\<exists>k1 u1. streams s1 dt1 k1 u1 \<and> delivered dt1 k1 u1 ys))
    \<and> (fr \<noteq> None \<longrightarrow> out \<noteq> None \<and> text_of ys = dt_text dt1 \<and> tokens_of ys = detok_output_token_ids dt1)
    \<and> (\<forall>x. out = Some x \<longrightarrow> rq_finished x = (fr \<noteq> None)) \<and> rs_queue s1 \<and> \<not> rs_streaming s1"
proof -
  obtain st dt1 sr s2 where
    upd: "detok_update decode (eo_new_token_ids eo) (eo_finish_reason eo = Some STOP) dt = Inr (st, dt1)"
    and fr: "(fr \<noteq> None) = (eo_finish_reason eo \<noteq> None \<or> st \<noteq> None \<and> st \<noteq> Some [])" and ne: "st \<noteq> Some []"
    and s2: "rs_kind s2 = DELTA" "rs_parent s2 = None" "rs_queue s2" "\<not> rs_streaming s2"
      "rs_detok s2 = Some (dt1\<lparr>dt_offset := k\<rparr>)" "rs_interval s2 = rs_interval s" "rs_sent s2 = rs_sent s"
    and m: "make_request_output (eo_new_token_ids eo) None fr sr s2 ps = Inr (out, s1, ps1)"
    and upd_k: "detok_update decode (eo_new_token_ids eo) (eo_finish_reason eo = Some STOP) (dt\<lparr>dt_offset := k\<rparr>)
      = Inr (st, dt1\<lparr>dt_offset := k\<rparr>)"
    by (rule stream_parts[OF assms(1,2,3)])
  have s: "held_back (dt\<lparr>dt_offset := k\<rparr>)" "dt_prompt_len dt \<le> length (dt_ids dt)"
    "u = (if rs_interval s \<le> 1 then length (detok_output_token_ids dt) else rs_sent s)"
    using assms(3) by (simp_all add: streams_def)
  have hb: "k \<le> length (dt_text dt1)" "take k (dt_text dt1) = take k (dt_text dt)" "st = None \<longrightarrow> held_back (dt1\<lparr>dt_offset := k\<rparr>)"
    "dt_ids dt1 = dt_ids dt @ eo_new_token_ids eo" "dt_prompt_len dt1 = dt_prompt_len dt"
    using update_held_back[OF upd_k s(1)] by simp_all
  have ids: "detok_output_token_ids dt1 = detok_output_token_ids dt @ eo_new_token_ids eo"
    using hb(4,5) s(2) by (simp add: detok_output_token_ids_def)
  have pl: "dt_prompt_len dt1 \<le> length (dt_ids dt1)" using hb(4,5) s(2) by simp
  have num: "nat (detok_num_output_tokens (dt1\<lparr>dt_offset := k\<rparr>)) = length (detok_output_token_ids dt1)"
    by (simp add: detok_num_output_tokens_def detok_output_token_ids_def nat_diff_distrib)
  have xs: "text_of xs = take k (dt_text dt)" "tokens_of xs = take u (detok_output_token_ids dt)" "u \<le> length (detok_output_token_ids dt)"
    using assms(4) by (simp_all add: delivered_def)
  have st_None: "st = None" if "fr = None" using that fr ne by auto
  from m s2(1,2,5) show ?thesis
  proof (cases rule: make_delta)
    case waits
    have "u = rs_sent s" using waits(2) s(3) s2(6) by simp
    then have "streams s1 dt1 k u" using waits st_None hb(3) s2 pl by (simp add: streams_def)
    moreover have "delivered dt1 k u ys" using xs hb(2) ids waits(3) by (simp add: delivered_def ys_def)
    ultimately show ?thesis using upd fr waits s2 by blast
  next
    case (sends x co dt2)
    have tx: "take k (dt_text dt1) @ co_text co = take (dt_offset dt2) (dt_text dt1)"
      "fr \<noteq> None \<longrightarrow> dt_offset dt2 = length (dt_text dt1)" "dt2 = dt1\<lparr>dt_offset := dt_offset dt2\<rparr>"
      "fr = None \<longrightarrow> held_back (dt1\<lparr>dt_offset := k\<rparr>) \<longrightarrow> held_back dt2"
      using next_text_delta[OF sends(1)] hb(1) by simp_all
    have ys: "text_of ys = take (dt_offset dt2) (dt_text dt1)"
      using xs(1) hb(2) tx(1) sends(2,3) by (simp add: ys_def) (simp add: text_of_def)
    have "tokens_of ys = take u (detok_output_token_ids dt) @ co_token_ids co"
      using xs(2) sends(2,3) by (simp add: ys_def) (simp add: tokens_of_def)
    also have "\<dots> = detok_output_token_ids dt1"
    proof -
      have "detok_output_token_ids (dt1\<lparr>dt_offset := k\<rparr>) = detok_output_token_ids dt1"
        by (simp add: detok_output_token_ids_def)
      then show ?thesis using sends(5) s(3) s2(6,7) xs(3) ids by (cases "rs_interval s \<le> 1") simp_all
    qed
    finally have toks: "tokens_of ys = detok_output_token_ids dt1" .
    have "streams s1 dt1 (dt_offset dt2) (length (detok_output_token_ids dt1))" if "fr = None"
      using that sends(6) s2 pl num tx(3,4) hb(3) st_None by (auto simp: streams_def)
    moreover have "delivered dt1 (dt_offset dt2) (length (detok_output_token_ids dt1)) ys"
      using ys toks by (simp add: delivered_def)
    ultimately show ?thesis using upd fr sends s2 ys toks tx(2) by auto
  qed
qed

lemma stream_step:
  assumes "process_one decode eo st = Inr st1" "indexed (po_processor st)" "eo_pooling eo = None"
    and "open_stream (eo_request_id eo) dt (po_processor st)"
  shows "\<exists>x dt1. detok_update decode (eo_new_token_ids eo) (eo_finish_reason eo = Some STOP) dt = Inr (x, dt1)
    \<and> (if eo_finish_reason eo \<noteq> None \<or> x \<noteq> None \<and> x \<noteq> Some [] then closed_stream (eo_request_id eo) dt1 (po_processor st1)
        else open_stream (eo_request_id eo) dt1 (po_processor st1))"
proof -
  let ?r = "eo_request_id eo" and ?p = "po_processor st"
  from assms(4) obtain s k u where s: "op_states ?p ?r = Some s" "streams s dt k u" "delivered dt k u (puts_of ?r ?p)"
    and unfin: "\<forall>x \<in> set (puts_of ?r ?p). \<not> rq_finished x" by (auto simp: open_stream_def)
  from assms(1) s(1) obtain out fr s1 ps where ps: "process_state decode eo s (op_parent_objs ?p) = Inr (out, fr, s1, ps)"
    by (auto simp: process_one_def Let_def elim!: bindE_InrE)
  let ?ys = "puts_of ?r ?p @ (case out of None \<Rightarrow> [] | Some x \<Rightarrow> [x])"
  obtain x dt1 where
    upd: "detok_update decode (eo_new_token_ids eo) (eo_finish_reason eo = Some STOP) dt = Inr (x, dt1)"
    and fr: "(fr \<noteq> None) = (eo_finish_reason eo \<noteq> None \<or> x \<noteq> None \<and> x \<noteq> Some [])"
    and goes: "fr = None \<longrightarrow> (\<exists>k1 u1. streams s1 dt1 k1 u1 \<and> delivered dt1 k1 u1 ?ys)"
    and ends: "fr \<noteq> None \<longrightarrow> out \<noteq> None \<and> text_of ?ys = dt_text dt1 \<and> tokens_of ?ys = detok_output_token_ids dt1"
    and flag: "\<forall>x. out = Some x \<longrightarrow> rq_finished x = (fr \<noteq> None)" and s1: "rs_queue s1" "\<not> rs_streaming s1"
    using stream_output[OF ps assms(3) s(2,3)] by (elim exE conjE) (rule that; assumption)
  define p1 where "p1 = ?p\<lparr>op_states := (op_states ?p)(?r \<mapsto> s1), op_parent_objs := ps\<rparr>"
  define p2 where "p2 = (case out of Some x \<Rightarrow> if rs_queue s1 then put_request_output ?r x p1 else p1 | None \<Rightarrow> p1)"
  have p2: "op_states p2 = (op_states ?p)(?r \<mapsto> s1)" "op_external p2 = op_external ?p" "puts_of ?r p2 = ?ys"
    using s1 by (auto simp: p2_def p1_def puts_of_def put_request_output_def split: option.split)
  show ?thesis
  proof (cases "fr = None")
    case True
    then have "po_processor st1 = p2" using assms(1) s(1) ps unfolding p2_def p1_def by (auto simp: process_one_def Let_def)
    moreover have "\<not> rq_finished y" if "y \<in> set ?ys" for y using that unfin flag True by (auto split: option.splits)
    ultimately have "open_stream ?r dt1 (po_processor st1)" using goes True p2 by (auto simp: open_stream_def)
    then show ?thesis using upd fr True by auto
  next
    case False
    have fin: "finish_request s1 p2 = Inr (po_processor st1)" using assms(1) s(1) ps False s1(2) unfolding p2_def p1_def
      by (auto simp: process_one_def Let_def elim!: bindE_InrE)
    have same: "rs_id s1 = rs_id s" "rs_external s1 = rs_external s"
      using process_state_frame[OF ps] by (simp_all add: same_request_def)
    have id: "rs_id s1 = ?r" using same(1) assms(2) s(1) by (simp add: indexed_but_def keyed_def)
    have ix: "indexed p2" by (rule indexed_set_state[OF assms(2) s(1) same p2(1,2)])
    have "op_states p2 (rs_id s1) = Some s1" using p2(1) id by simp
    from indexed_finish[OF ix this fin] have p3: "op_states (po_processor st1) ?r = None" "puts_of ?r (po_processor st1) = ?ys"
      using id p2(3) by (auto simp: puts_of_def)
    from ends False obtain y where y: "out = Some y" "rq_finished y" using flag by auto
    have "\<exists>xs x. puts_of ?r (po_processor st1) = xs @ [x] \<and> rq_finished x \<and> (\<forall>y \<in> set xs. \<not> rq_finished y)"
      using p3(2) y unfin by auto
    then have "closed_stream ?r dt1 (po_processor st1)" unfolding closed_stream_def using p3 ends False by simp
    then show ?thesis using upd fr False by auto
  qed
qed

text \<open>Outputs of other requests do not matter, and none is delivered after the last.\<close>

lemma closed_stays:
  assumes "foldE (process_one decode) eos st = Inr st1" "indexed (po_processor st)" "closed_stream r dt (po_processor st)"
  shows "closed_stream r dt (po_processor st1)"
  using assms
proof (induction eos arbitrary: st)
  case (Cons eo eos)
  then obtain st2 where one: "process_one decode eo st = Inr st2" and rest: "foldE (process_one decode) eos st2 = Inr st1"
    by (auto elim!: bindE_InrE)
  note st2 = indexed_process_one[OF one Cons.prems(2)]
  have "closed_stream r dt (po_processor st2)"
  proof (cases "r = eo_request_id eo")
    case True
    then have "st2 = st" using one Cons.prems(3) by (simp add: process_one_def closed_stream_def)
    then show ?thesis using Cons.prems(3) by simp
  next
    case False
    then show ?thesis using st2 Cons.prems(3) by (simp add: closed_stream_def)
  qed
  then show ?case using Cons.IH[OF rest] st2 by simp
qed simp

lemma stream_fold:
  assumes "foldE (process_one decode) eos st = Inr st1" "indexed (po_processor st)" "open_stream r dt (po_processor st)"
    and "\<forall>eo \<in> set eos. eo_request_id eo = r \<longrightarrow> eo_pooling eo = None"
  shows "\<exists>dt1 fin. detok_run decode (filter (\<lambda>eo. eo_request_id eo = r) eos) dt = Inr (dt1, fin)
    \<and> (if fin then closed_stream r dt1 (po_processor st1) else open_stream r dt1 (po_processor st1))"
  using assms
proof (induction eos arbitrary: st dt)
  case (Cons eo eos)
  then obtain st2 where one: "process_one decode eo st = Inr st2" and rest: "foldE (process_one decode) eos st2 = Inr st1"
    by (auto elim!: bindE_InrE)
  note st2 = indexed_process_one[OF one Cons.prems(2)]
  show ?case
  proof (cases "eo_request_id eo = r")
    case False
    then have "open_stream r dt (po_processor st2)" using st2 Cons.prems(3) by (auto simp: open_stream_def)
    from Cons.IH[OF rest _ this] show ?thesis using st2 Cons.prems(4) False by simp
  next
    case True
    have pool: "eo_pooling eo = None" using Cons.prems(4) True by simp
    have "open_stream (eo_request_id eo) dt (po_processor st)" using Cons.prems(3) True by simp
    from stream_step[OF one Cons.prems(2) pool this] obtain x dt2 where
      upd: "detok_update decode (eo_new_token_ids eo) (eo_finish_reason eo = Some STOP) dt = Inr (x, dt2)"
      and nxt: "if eo_finish_reason eo \<noteq> None \<or> x \<noteq> None \<and> x \<noteq> Some [] then closed_stream r dt2 (po_processor st2)
        else open_stream r dt2 (po_processor st2)" using True by auto
    show ?thesis
    proof (cases "eo_finish_reason eo \<noteq> None \<or> x \<noteq> None \<and> x \<noteq> Some []")
      case fin: True
      then have "closed_stream r dt2 (po_processor st1)" using closed_stays[OF rest] st2 nxt by auto
      moreover have "detok_run decode (filter (\<lambda>eo. eo_request_id eo = r) (eo # eos)) dt = Inr (dt2, True)"
        using True upd fin by simp
      ultimately show ?thesis by (metis (full_types))
    next
      case False
      then have "open_stream r dt2 (po_processor st2)" using nxt by (simp only: if_False)
      from Cons.IH[OF rest _ this] have "\<exists>dt1 fin. detok_run decode (filter (\<lambda>eo. eo_request_id eo = r) eos) dt2 = Inr (dt1, fin)
          \<and> (if fin then closed_stream r dt1 (po_processor st1) else open_stream r dt1 (po_processor st1))"
        using st2 Cons.prems(4) by simp
      moreover have "detok_run decode (filter (\<lambda>eo. eo_request_id eo = r) (eo # eos)) dt
          = detok_run decode (filter (\<lambda>eo. eo_request_id eo = r) eos) dt2"
        using True upd False by auto
      ultimately show ?thesis by simp
    qed
  qed
qed auto

lemma new_request_opens:
  assumes "op_states p0 r = None" "puts_of r p0 = []" "[] \<notin> set stop"
    and "processor_add_request (new_request_state r ext None i DELTA prompt
      (Some (new_detokenizer stop mint incl ids d)) True interval False) False prompt None p0 = Inr p"
  shows "open_stream r (new_detokenizer stop mint incl ids d) p"
proof -
  let ?dt = "new_detokenizer stop mint incl ids d"
  let ?s = "new_request_state r ext None i DELTA prompt (Some ?dt) True interval False"
  have p: "op_states p r = Some ?s" "puts_of r p = []"
    using assms by (auto simp: processor_add_request_def new_request_state_def puts_of_def)
  have "?dt\<lparr>dt_offset := 0\<rparr> = ?dt" by (simp add: new_detokenizer_def)
  moreover have "dt_prompt_len ?dt = length (dt_ids ?dt)" "detok_output_token_ids ?dt = []"
    by (simp_all add: new_detokenizer_def detok_output_token_ids_def)
  ultimately have "streams ?s ?dt 0 0" using new_detokenizer_held_back[OF assms(3), of mint incl ids d]
    by (simp add: streams_def new_request_state_def)
  moreover have "delivered ?dt 0 0 []" by (simp add: delivered_def text_of_def tokens_of_def)
  ultimately show ?thesis using p by (auto simp: open_stream_def)
qed

text \<open>
  C22. Streaming loses and repeats nothing. A new request that streams deltas is served by any
  sequence of outputs, among those of other requests: its final text and tokens are what its
  detokenizer makes of all its outputs up to the finishing one, cut off at a stop string. Until
  then the texts and tokens delivered are prefixes of that; once it is finished they add up to
  exactly that, whatever the stream interval, only the last output is marked finished, and no
  output follows. Text before a stop string that was handed out is never cut off later.
\<close>

theorem delta_stream_delivers:
  assumes "processor_reached decode p0" and "op_states p0 r = None" and "puts_of r p0 = []" and "[] \<notin> set stop"
    and "processor_add_request (new_request_state r ext None i DELTA prompt
      (Some (new_detokenizer stop mint incl ids d)) True interval False) False prompt None p0 = Inr p"
    and "process_outputs decode eos p = Inr st"
    and "\<forall>eo \<in> set eos. eo_request_id eo = r \<longrightarrow> eo_pooling eo = None"
  defines "xs \<equiv> puts_of r (po_processor st)"
  shows "\<exists>dt fin. detok_run decode (filter (\<lambda>eo. eo_request_id eo = r) eos) (new_detokenizer stop mint incl ids d) = Inr (dt, fin)
    \<and> (op_states (po_processor st) r = None \<longleftrightarrow> fin)
    \<and> (if fin then text_of xs = dt_text dt \<and> tokens_of xs = detok_output_token_ids dt
          \<and> map rq_finished xs = replicate (length xs - 1) False @ [True]
        else (\<exists>k u. text_of xs = take k (dt_text dt) \<and> tokens_of xs = take u (detok_output_token_ids dt))
          \<and> map rq_finished xs = replicate (length xs) False)"
proof -
  have op: "open_stream r (new_detokenizer stop mint incl ids d) p" by (rule new_request_opens[OF assms(2-5)])
  have ix: "indexed p" by (rule indexed_add_request[OF assms(5) reached_indexed[OF assms(1)]])
  let ?start = "\<lparr>po_processor = p, po_outputs = [], po_abort = []\<rparr>"
  have "foldE (process_one decode) eos ?start = Inr st" "indexed (po_processor ?start)"
    "open_stream r (new_detokenizer stop mint incl ids d) (po_processor ?start)"
    using assms(6) op ix by (simp_all add: process_outputs_def)
  from stream_fold[OF this assms(7)] obtain dt fin where
    run: "detok_run decode (filter (\<lambda>eo. eo_request_id eo = r) eos) (new_detokenizer stop mint incl ids d) = Inr (dt, fin)"
    and res: "if fin then closed_stream r dt (po_processor st) else open_stream r dt (po_processor st)" by (elim exE conjE)
  have flags: "map rq_finished ys = replicate (length ys) False" if "\<forall>y \<in> set ys. \<not> rq_finished y" for ys
    using that by (induction ys) auto
  show ?thesis
  proof (cases fin)
    case True
    then have c: "closed_stream r dt (po_processor st)" using res by simp
    then obtain ys y where xs: "xs = ys @ [y]" "rq_finished y" "\<forall>y \<in> set ys. \<not> rq_finished y"
      unfolding closed_stream_def xs_def by blast
    have "map rq_finished xs = replicate (length xs - 1) False @ [True]" using flags[OF xs(3)] xs(1,2) by simp
    then show ?thesis using run True c unfolding closed_stream_def xs_def[symmetric]
      by (intro exI[of _ dt] exI[of _ True]) simp
  next
    case False
    then have o: "open_stream r dt (po_processor st)" using res by simp
    then obtain k u where "text_of xs = take k (dt_text dt)" "tokens_of xs = take u (detok_output_token_ids dt)"
      unfolding open_stream_def delivered_def xs_def by blast
    moreover have "map rq_finished xs = replicate (length xs) False" "op_states (po_processor st) r \<noteq> None"
      using o flags unfolding open_stream_def xs_def by auto
    ultimately show ?thesis using run False by (intro exI[of _ dt] exI[of _ False]) auto
  qed
qed

text \<open>With a stream interval above 1 an output of a pooling request fails an assertion.\<close>

lemma pooling_output_fails:
  assumes "rs_detok s = None" "1 < rs_interval s" "eo_pooling eo \<noteq> None" "eo_finish_reason eo \<noteq> None"
  shows "process_state decode eo s ps = Inl AssertionError"
  using assms by (simp add: process_state_def detokenize_output_def make_request_output_def tokens_to_send_def note_prefill_def)

end
