(* ===== verification/Output_Examples.thy ===== *)
theory Output_Examples
  imports Output_Correct
begin

text \<open>
  Concrete streams and aborts: a request that streams characters until its stop string, and a
  parallel sampling request that is aborted under its external id.
\<close>

section \<open>A stream\<close>

definition ex_output :: "int \<Rightarrow> finish_reason option \<Rightarrow> engine_core_output" where
  "ex_output t fr = \<lparr>eo_request_id = ''r'', eo_new_token_ids = [t], eo_finish_reason = fr, eo_pooling = None,
     eo_stop_reason = None, eo_events = None, eo_prefill_stats = None, eo_num_nans = 0, eo_request_md = None\<rparr>"

definition ex_outputs :: "engine_core_output list" where
  "ex_outputs = [ex_output 97 None, ex_output 98 None, ex_output 99 None, ex_output 100 None]"

definition ex_parent :: parent_request where
  "ex_parent = new_parent_request ''p'' ''e'' FINAL_ONLY 2 None"

definition ex_stream_state :: "unit request_state" where
  "ex_stream_state = new_request_state ''r'' ''e'' None 0 DELTA (Some [1]) (Some (new_detokenizer [''bc''] 0 False [1] ())) True 1 False"

definition ex_streaming :: "unit output_processor" where
  "ex_streaming = (case processor_add_request ex_stream_state False (Some [1]) None (new_output_processor (\<lambda>_. ex_parent)) of
     Inr p \<Rightarrow> p)"

lemma ex_streaming:
  "processor_add_request ex_stream_state False (Some [1]) None (new_output_processor (\<lambda>_. ex_parent)) = Inr ex_streaming"
  by (simp add: ex_streaming_def processor_add_request_def new_output_processor_def ex_stream_state_def new_request_state_def)

lemma ex_stream_runs: "\<exists>st. process_outputs ex_decode ex_outputs ex_streaming = Inr st"
proof -
  have "(case process_outputs ex_decode ex_outputs ex_streaming of Inl e \<Rightarrow> False | Inr st \<Rightarrow> True)" by code_simp
  then show ?thesis by (simp split: sum.splits)
qed

lemma ex_stream_reference:
  "detok_run ex_decode ex_outputs (new_detokenizer [''bc''] 0 False [1] ())
     = Inr (ex_detokenizer\<lparr>dt_ids := [1, 97, 98, 99], dt_text := ''a''\<rparr>, True)"
  by code_simp

text \<open>The \<open>b\<close> is held back, since it may begin the stop string, and never delivered.\<close>

theorem delta_stream_delivers_witness:
  "\<exists>st. process_outputs ex_decode ex_outputs ex_streaming = Inr st
     \<and> text_of (puts_of ''r'' (po_processor st)) = ''a'' \<and> tokens_of (puts_of ''r'' (po_processor st)) = [97, 98, 99]"
proof -
  obtain st where st: "process_outputs ex_decode ex_outputs ex_streaming = Inr st" using ex_stream_runs by blast
  have fresh: "op_states (new_output_processor (\<lambda>_. ex_parent)) ''r'' = None" "puts_of ''r'' (new_output_processor (\<lambda>_. ex_parent)) = []"
    by (simp_all add: new_output_processor_def puts_of_def)
  have stop: "[] \<notin> set [''bc'']" by simp
  have pool: "\<forall>eo \<in> set ex_outputs. eo_request_id eo = ''r'' \<longrightarrow> eo_pooling eo = None"
    by (simp add: ex_outputs_def ex_output_def)
  have all: "filter (\<lambda>eo. eo_request_id eo = ''r'') ex_outputs = ex_outputs" by (simp add: ex_outputs_def ex_output_def)
  from delta_stream_delivers[OF processor_reached.start fresh stop ex_streaming[unfolded ex_stream_state_def] st pool, unfolded all ex_stream_reference]
  show ?thesis using st by (auto simp: ex_detokenizer_def detok_output_token_ids_def new_detokenizer_def)
qed

section \<open>Parallel sampling, aborted from outside\<close>

definition ex_child :: "nat \<Rightarrow> unit request_state" where
  "ex_child i = new_request_state (child_request_id i ''p'') ''e'' (Some ''p'') i FINAL_ONLY (Some [1])
     (Some (new_detokenizer [] 0 False [1] ())) True 1 False"

definition ex_children :: "unit output_processor" where
  "ex_children = (case foldE (\<lambda>i. processor_add_request (ex_child i) False (Some [1]) (Some (start_children 2 ex_parent))) [0, 1]
     (new_output_processor (\<lambda>_. ex_parent)) of Inr p \<Rightarrow> p)"

lemma ex_children_reached: "processor_reached ex_decode ex_children"
proof -
  let ?add = "\<lambda>i. processor_add_request (ex_child i) False (Some [1]) (Some (start_children 2 ex_parent))"
  obtain p where p: "?add 0 (new_output_processor (\<lambda>_. ex_parent)) = Inr p"
    by (simp add: processor_add_request_def new_output_processor_def)
  then have free: "op_states p (child_request_id 1 ''p'') = None"
    by (auto simp: processor_add_request_def new_output_processor_def ex_child_def new_request_state_def)
  then obtain p' where p': "?add 1 p = Inr p'" by (simp add: processor_add_request_def ex_child_def new_request_state_def)
  have "processor_reached ex_decode p'"
    by (rule processor_reached.added[OF processor_reached.added[OF processor_reached.start p] p'])
  then show ?thesis using p p' by (simp add: ex_children_def)
qed

theorem external_index_exact_witness:
  "set (listed ex_children ''e'') = {r. \<exists>s. op_states ex_children r = Some s \<and> rs_external s = ''e''}"
  using external_index_exact[OF ex_children_reached] by blast

lemma ex_abort_runs: "\<exists>ab p. processor_abort_requests (Suc 0) False [''e''] ex_children = Inr (ab, p)"
proof -
  have "(case processor_abort_requests (Suc 0) False [''e''] ex_children of Inl e \<Rightarrow> False | Inr st \<Rightarrow> True)" by code_simp
  then show ?thesis by (auto split: sum.splits)
qed

text \<open>Both children are gone, their parent is still there.\<close>

theorem external_abort_exact_witness:
  "\<exists>p. processor_abort_requests (Suc 0) False [''e''] ex_children = Inr ([''0_p'', ''1_p''], p) \<and> op_parents p = {''p''}
     \<and> op_states p ''0_p'' = None \<and> op_states p ''1_p'' = None"
proof -
  obtain ab p where run: "processor_abort_requests (Suc 0) False [''e''] ex_children = Inr (ab, p)" using ex_abort_runs by blast
  have l: "listed ex_children ''e'' = [''0_p'', ''1_p'']" by code_simp
  have par: "op_parents ex_children = {''p''}" by code_simp
  show ?thesis using external_abort_exact[OF ex_children_reached run] run by (simp add: l par)
qed

end
