(* ===== verification/Spec2Isabelle.thy ===== *)
theory Spec2Isabelle
  imports Admission KV_Hybrid Engine_Examples Ngram_Proposer Output_Examples
begin

text \<open>
  A verification library for RPS-Serve, a fork of the vLLM serving engine whose scheduler orders
  requests by service level objectives. Paths are relative to \<open>src/rps-serve/vllm\<close>.

  \<^bold>\<open>The program.\<close> The front end (\<open>v1/engine/async_llm.py\<close>) estimates the prefill time of a request,
  gives it a category (sand, pebbles, rocks) and an objective, and sends it to the engine core
  (\<open>v1/engine/core.py\<close>). The engine core runs a busy loop: it takes client requests from its
  input queue, lets the scheduler (\<open>v1/core/sched/scheduler.py\<close>) choose the tokens of a step, has
  the model executor run them, and gives the sampled tokens back to the scheduler. In a step the
  scheduler computes statistics and priorities (\<open>queue_manager.py\<close>,
  \<open>slo_expiration_manager.py\<close>), merges its running and its waiting queue into one list in the
  order of priority, visits it while tokens are left, allocates KV cache blocks
  (\<open>kv_cache_manager.py\<close>, \<open>kv_cache_coordinator.py\<close>, \<open>single_type_kv_cache_manager.py\<close>,
  \<open>block_pool.py\<close>) and encoder cache slots (\<open>encoder_cache_manager.py\<close>), preempts the least
  urgent requests when blocks run out, and splits the list into the two queues again. Outputs go
  back to the front end, whose output processor (\<open>output_processor.py\<close>, \<open>detokenizer.py\<close>,
  \<open>parallel_sampling.py\<close>) turns tokens into texts and finds stop strings. Draft tokens for
  speculative decoding may come from \<open>spec_decode/ngram_proposer.py\<close>.

  \<^bold>\<open>How it is modelled.\<close> A function that may raise returns \<open>py_error + 'a\<close>, sequenced by
  \<open>bindE\<close>; a loop whose body may raise is \<open>foldE\<close>. Objects are records, passed and
  returned; request objects, which are shared, live in a store from request ids to records, and
  blocks and parent requests likewise. Python integers are \<open>int\<close>, floats are reals
  (rounding and overflow are not modelled), dictionaries are maps, or lists of pairs where their
  order matters; sets are sets, or lists without repetition where the code iterates over them, in
  a fixed order. Clocks, hash functions, the tokenizer, the classifier model, files, the model
  executor and the manager of structured output are parameters, and functions under src/ that
  are not parameters are translated.

  \<^bold>\<open>The theories\<close>, each group importing the ones above it:
  \<^item> \<open>Prelude\<close>: errors, sequencing, sorting, lists and maps; the collection \<open>monad_simps\<close>.
  \<^item> \<open>Request_Model\<close> (\<open>v1/request.py\<close>, the placeholders of \<open>multimodal/inputs.py\<close>): the
    request object and its statuses, which are ordered by their numbers; \<open>Sched_Utils\<close>
    (\<open>v1/core/sched/utils.py\<close>): the repetition detector, equal to a direct specification, and the
    stop check, characterised exactly.
  \<^item> \<open>Heapq\<close> and \<open>Request_Queue\<close> (\<open>request_queue.py\<close>): the binary heap of Python and the two
    request queues, instances of the locale \<open>request_queue\<close>, whose laws speak of multisets.
  \<^item> \<open>Queue_Manager\<close> with \<open>Queue_Correct\<close> (\<open>queue_manager.py\<close>): the combined list with the
    indices of its last running and its first waiting request. The specification of the indices
    are two full scans; they are kept up to the cases in which the code raises.
  \<^item> \<open>SLO_Manager\<close> (\<open>slo_expiration_manager.py\<close>): the five policies and what their ranks mean;
    \<open>Admission\<close> (\<open>prefill_time_estimator.py\<close>, \<open>request_classifier.py\<close>, \<open>slo_registry.py\<close> and
    their callers): estimates, categories and objectives.
  \<^item> \<open>Block_Queue\<close> (\<open>FreeKVCacheBlockQueue\<close>): the doubly linked free list refines a list (locale
    \<open>free_list\<close>); \<open>KV_Hash\<close> (\<open>kv_cache_utils.py\<close>): block hashes and what they identify;
    \<open>Block_Pool\<close> with \<open>Pool_Correct\<close> (\<open>block_pool.py\<close>): the pool, its hash map (locale
    \<open>block_map\<close>) and the invariant of its reachable states.
  \<^item> \<open>Encoder_Cache\<close> and \<open>Encoder_Schedule\<close> (\<open>encoder_cache_manager.py\<close> and the scheduler methods
    that plan encoder inputs): the slots add up (locale \<open>encoder_slots\<close>, two interpretations), and
    every scheduled token finds the encoder output it needs.
  \<^item> \<open>KV_Manager\<close>, \<open>KV_Hits\<close>, \<open>KV_Cache_Manager\<close>: the managers of one group, their prefix lookups,
    the coordinators and \<open>KVCacheManager\<close>. \<open>KV_Ownership\<close>, \<open>KV_Alloc\<close>, \<open>KV_Lifecycle\<close>: with one
    attention group, reference counts are holders, allocation answers exactly and nothing leaks.
    \<open>KV_Hybrid\<close>: the fixed point loop over several groups ends.
  \<^item> \<open>Scheduler_State\<close>, \<open>Schedule\<close>, \<open>Scheduler_Update\<close> (\<open>scheduler.py\<close>, \<open>async_scheduler.py\<close>):
    the state, the step, and the operations between steps. \<open>Schedule_Steps\<close> proves a rule for the
    loops of a step once, in the locale \<open>step_invariant\<close>; its interpretations are \<open>kept\<close>,
    \<open>budget\<close> (\<open>Schedule_Correct\<close>), \<open>ignoring\<close> (\<open>Schedule_Linked\<close>), \<open>calm\<close>, \<open>unignoring\<close> and
    \<open>noticing\<close> (\<open>Schedule_Agreement\<close>). \<open>Schedule_Pause\<close> is the paused step. \<open>Update_Correct\<close> and
    \<open>Update_Frame\<close> (locale \<open>output_invariant\<close>) are about the operations between steps;
    \<open>Schedule_Examples\<close> and \<open>Update_Examples\<close> evaluate concrete ones.
  \<^item> \<open>Engine_Core\<close> and \<open>Engine_Proc\<close> (\<open>core.py\<close>): the engine around the scheduler and its process.
    \<open>Engine_Correct\<close> has the runs of an engine (\<open>reached\<close>) and their invariant, \<open>Engine_Loop\<close> the
    batch queue, the skipped requests and the shutdown, \<open>Engine_Examples\<close> an engine under the
    default policy with a text request and one that waits for a grammar.
  \<^item> \<open>Detokenizer\<close>, \<open>Output_Processor\<close>, \<open>Output_Correct\<close>, \<open>Output_Examples\<close>: stop strings, streams,
    parallel sampling and the index of external ids. \<open>Ngram_Proposer\<close>: the search with a table
    equals the plain one.

  \<^bold>\<open>Loops.\<close> \<open>alloc_loop\<close>, \<open>visit_loop\<close> and \<open>ngram_loop\<close> are partial functions into \<open>option\<close>, where
  \<open>None\<close> means that the loop does not end. \<open>alloc_loop\<close> is proved to end, since each preemption
  takes an id out of the running ids; \<open>ngram_loop\<close> too, by the table; for \<open>visit_loop\<close> the theorems
  are about steps that return, since the code moves its index back when it preempts; steps of a
  drained scheduler are proved to return.
  \<open>hybrid_loop\<close> is proved to end, since the candidate length shrinks. \<open>processor_abort_requests\<close>
  calls itself on the children of a parent request; its number is what is left of Python's
  recursion limit, and 0 raises.

  \<^bold>\<open>Limits of the statements about runs.\<close> \<open>reached\<close> covers adding, aborting, late aborts, steps,
  pausing and resuming. It leaves out streaming sessions, the batch queue,
  \<open>reset_prefix_cache\<close> with running requests (which loses them, see \<open>Update_Correct\<close>) and steps
  that ignore a request: an ignored request gets a finished status and stays in the table and the
  waiting queue, so that the invariant, and the end of a shutdown, fail with it. Under the policies
  \<open>fcfs\<close> and \<open>catfcfs\<close> known requests have different arrival priorities whenever a step begins
  (\<open>told_apart\<close>, which different positive arrival times give under \<open>fcfs\<close>), since the invariant
  of the loop orders the combined list strictly. Async scheduling is modelled, and excluded where
  a theorem says so.

  \<^bold>\<open>Not modelled.\<close> The model executor, GPU code and neural networks; sockets, threads and front
  end servers; KV connectors (the scheduler has none), data parallelism, grammars, LoRA and
  tokenizer internals; profiling of the memory and start-up configuration; statistics, logging and
  tracing. An error in the middle of freeing or preempting a request ends the model of a utility
  call, where the engine would go on with a half-changed state.
\<close>

end
